(* ===== verification/Prelude.thy ===== *)
theory Prelude
  imports Main "HOL-Library.Word"
begin

text \<open>
  Shared vocabulary of the development: machine integers as words, Rust's \<open>Result\<close> as a sum
  type with its sequencing operation \<open>rbind\<close>, ASCII classification of characters, and the generic
  list lemmas several components use.  The named collections \<open>result_simps\<close>, \<open>wf_intros\<close> and
  \<open>step_simps\<close> are filled by the components and used by their proofs.
\<close>

unbundle bit_operations_syntax

named_theorems result_simps
named_theorems wf_intros
named_theorems step_simps

section \<open>Machine integers\<close>

type_synonym u8 = "8 word"
type_synonym u16 = "16 word"
type_synonym u32 = "32 word"
type_synonym u64 = "64 word"
type_synonym i32 = "32 word"
type_synonym i64 = "64 word"

text \<open>A word that is not negative as a signed number is the image of that number.\<close>

lemma sint_small_nat:
  fixes x :: "'a::len word"
  assumes "0 \<le> sint x"
  shows "x = of_nat (nat (sint x))"
proof -
  have "(of_nat (nat (sint x)) :: 'a word) = of_int (int (nat (sint x)))" by (rule of_int_of_nat_eq [symmetric])
  also have "\<dots> = of_int (sint x)" using assms by (simp only: int_nat_eq if_True)
  also have "\<dots> = x" by simp
  finally show ?thesis ..
qed

section \<open>Results\<close>

text \<open>\<open>Result<T, E>\<close>: \<open>Inl\<close> is \<open>Err\<close>, \<open>Inr\<close> is \<open>Ok\<close>; \<open>rbind\<close> is the \<open>?\<close> operator.\<close>

definition rbind :: "'e + 'a \<Rightarrow> ('a \<Rightarrow> 'e + 'b) \<Rightarrow> 'e + 'b" where
  "rbind r f = (case r of Inl e \<Rightarrow> Inl e | Inr a \<Rightarrow> f a)"

lemma rbind_Inl [simp, result_simps]: "rbind (Inl e) f = Inl e"
  by (simp add: rbind_def)

lemma rbind_Inr [simp, result_simps]: "rbind (Inr a) f = f a"
  by (simp add: rbind_def)

lemma rbind_eq_Inr_iff: "rbind r f = Inr b \<longleftrightarrow> (\<exists>a. r = Inr a \<and> f a = Inr b)"
  by (cases r) auto

lemma rbind_eq_Inl_iff: "rbind r f = Inl e \<longleftrightarrow> r = Inl e \<or> (\<exists>a. r = Inr a \<and> f a = Inl e)"
  by (cases r) auto

lemma rbind_cong [fundef_cong]:
  "r = r' \<Longrightarrow> (\<And>a. r' = Inr a \<Longrightarrow> f a = g a) \<Longrightarrow> rbind r f = rbind r' g"
  by (cases r') auto

fun rmap :: "('a \<Rightarrow> 'e + 'b) \<Rightarrow> 'a list \<Rightarrow> 'e + 'b list" where
  "rmap f [] = Inr []"
| "rmap f (x # xs) = rbind (f x) (\<lambda>y. rbind (rmap f xs) (\<lambda>ys. Inr (y # ys)))"

lemma rmap_cong [fundef_cong]:
  "xs = ys \<Longrightarrow> (\<And>x. x \<in> set ys \<Longrightarrow> f x = g x) \<Longrightarrow> rmap f xs = rmap g ys"
  by (induction xs arbitrary: ys) (auto intro!: rbind_cong)

lemma rmap_length: "rmap f xs = Inr ys \<Longrightarrow> length ys = length xs"
  by (induction xs arbitrary: ys) (auto simp: rbind_eq_Inr_iff)

section \<open>Characters\<close>

text \<open>A Rust \<open>String\<close> is its UTF-8 bytes: a HOL \<open>char\<close> is one byte.\<close>

abbreviation byte_of :: "char \<Rightarrow> nat" where
  "byte_of c \<equiv> of_char c"

definition is_digit_b :: "char \<Rightarrow> bool" where
  "is_digit_b c \<longleftrightarrow> 48 \<le> byte_of c \<and> byte_of c \<le> 57"

definition is_upper_b :: "char \<Rightarrow> bool" where
  "is_upper_b c \<longleftrightarrow> 65 \<le> byte_of c \<and> byte_of c \<le> 90"

definition is_lower_b :: "char \<Rightarrow> bool" where
  "is_lower_b c \<longleftrightarrow> 97 \<le> byte_of c \<and> byte_of c \<le> 122"

text \<open>\<open>u8::is_ascii_whitespace\<close>: space, tab, line feed, form feed, carriage return.\<close>

definition is_space_b :: "char \<Rightarrow> bool" where
  "is_space_b c \<longleftrightarrow> byte_of c \<in> {32, 9, 10, 12, 13}"

definition to_lower_b :: "char \<Rightarrow> char" where
  "to_lower_b c = (if is_upper_b c then char_of (byte_of c + 32) else c)"

definition to_ascii_lowercase :: "string \<Rightarrow> string" where
  "to_ascii_lowercase s = map to_lower_b s"

definition to_upper_b :: "char \<Rightarrow> char" where
  "to_upper_b c = (if is_lower_b c then char_of (byte_of c - 32) else c)"

definition to_ascii_uppercase :: "string \<Rightarrow> string" where
  "to_ascii_uppercase s = map to_upper_b s"

lemma is_digit_b_digits: "is_digit_b c \<Longrightarrow> \<not> is_space_b c"
  by (auto simp: is_digit_b_def is_space_b_def)

text \<open>\<open>[String]::join\<close>.\<close>

fun join :: "string \<Rightarrow> string list \<Rightarrow> string" where
  "join sep [] = []"
| "join sep [x] = x"
| "join sep (x # y # xs) = x @ sep @ join sep (y # xs)"

section \<open>Framing\<close>

text \<open>Anything that writes values one after the other and reads them back: the law is that a value
  is read off the front of whatever follows it.  The components instantiate it with their encoders.\<close>

fun read_many :: "('b list \<Rightarrow> 'e + 'a \<times> 'b list) \<Rightarrow> nat \<Rightarrow> 'b list \<Rightarrow> 'e + 'a list \<times> 'b list" where
  "read_many rd 0 w = Inr ([], w)"
| "read_many rd (Suc n) w = rbind (rd w) (\<lambda>(v, w). rbind (read_many rd n w) (\<lambda>(vs, w). Inr (v # vs, w)))"

locale framing =
  fixes wr :: "'a \<Rightarrow> 'b list"
    and rd :: "'b list \<Rightarrow> 'e + 'a \<times> 'b list"
    and ok :: "'a \<Rightarrow> bool"
  assumes read_write: "ok v \<Longrightarrow> rd (wr v @ rest) = Inr (v, rest)"
begin

lemma read_all: "\<forall>v \<in> set vs. ok v \<Longrightarrow> read_many rd (length vs) (concat (map wr vs) @ rest) = Inr (vs, rest)"
  by (induction vs) (simp_all add: read_write)

lemma streams_differ:
  assumes "\<forall>v \<in> set vs. ok v" "\<forall>v \<in> set vs'. ok v" "length vs = length vs'"
    and eq: "concat (map wr vs) @ rest = concat (map wr vs') @ rest'"
  shows "vs = vs' \<and> rest = rest'"
proof -
  have "read_many rd (length vs') (concat (map wr vs') @ rest') = Inr (vs, rest)"
    using read_all [OF assms(1), of rest] by (simp only: eq assms(3))
  then show ?thesis using read_all [OF assms(2), of rest'] by simp
qed

lemma no_confusion:
  assumes "ok v" "ok v'" "wr v @ rest = wr v' @ rest'"
  shows "v = v' \<and> rest = rest'"
  using streams_differ [of "[v]" "[v']" rest rest'] assms by simp

end

section \<open>Decimal text\<close>

text \<open>What \<open>to_string\<close> and \<open>{}\<close> print for an integer.\<close>

fun show_nat :: "nat \<Rightarrow> string" where
  "show_nat n = (if n < 10 then [char_of (48 + n)] else show_nat (n div 10) @ [char_of (48 + n mod 10)])"

declare show_nat.simps [simp del]

definition show_int :: "int \<Rightarrow> string" where
  "show_int i = (if i < 0 then ''-'' @ show_nat (nat (- i)) else show_nat (nat i))"

definition digit_val :: "char \<Rightarrow> nat" where
  "digit_val c = byte_of c - 48"

definition nat_of_digits :: "string \<Rightarrow> nat" where
  "nat_of_digits s = foldl (\<lambda>n c. 10 * n + digit_val c) 0 s"

lemma nat_of_digits_snoc [simp]: "nat_of_digits (s @ [c]) = 10 * nat_of_digits s + digit_val c"
  by (simp add: nat_of_digits_def)

lemma byte_of_digit [simp]: "n < 10 \<Longrightarrow> byte_of (char_of (48 + n)) = 48 + n"
  by (simp add: of_char_of)

lemma show_nat_digits: "\<forall>c \<in> set (show_nat n). is_digit_b c"
proof (induction n rule: show_nat.induct)
  case (1 n)
  then show ?case
    by (subst show_nat.simps) (auto simp: is_digit_b_def)
qed

lemma show_nat_nonempty [simp]: "show_nat n \<noteq> []"
  by (subst show_nat.simps) simp

lemma nat_of_show_nat: "nat_of_digits (show_nat n) = n"
proof (induction n rule: show_nat.induct)
  case (1 n)
  show ?case
  proof (cases "n < 10")
    case True
    then show ?thesis by (subst show_nat.simps) (simp add: nat_of_digits_def digit_val_def)
  next
    case False
    then show ?thesis
      using "1.IH" by (subst show_nat.simps) (simp add: digit_val_def)
  qed
qed

lemma unat_of_sint: "0 \<le> sint (i :: i64) \<Longrightarrow> unat i < 2 ^ 63"
proof -
  assume nn: "0 \<le> sint i"
  define n where "n = nat (sint i)"
  have i: "i = of_nat n" using sint_small_nat [OF nn] by (simp add: n_def)
  have "sint i < 2 ^ 63" using sint_lt [of i] by simp
  with nn have "n < 2 ^ 63" by (simp add: n_def nat_less_iff)
  then show ?thesis by (simp add: i unsigned_of_nat take_bit_nat_eq_self)
qed

end
