(* ===== verification/Machine_Ids.thy ===== *)
theory Machine_Ids
  imports Prelude
begin

text \<open>
  Node and edge identifiers (\<open>engine/src/id.rs\<close>): a 64-bit signed integer split into a shard, a
  type and a local number.  The constants, the composing function with its three range checks and
  the three projections are translated on words; the lemmas show that composing and projecting are
  inverse to each other and that an identifier is never negative.
\<close>

definition LOCAL_BITS :: nat where "LOCAL_BITS = 36"

definition TYPE_BITS :: nat where "TYPE_BITS = 18"

definition SHARD_BITS :: nat where "SHARD_BITS = 9"

definition TYPE_SHIFT :: nat where "TYPE_SHIFT = LOCAL_BITS"

definition SHARD_SHIFT :: nat where "SHARD_SHIFT = LOCAL_BITS + TYPE_BITS"

definition LOCAL_MASK :: i64 where "LOCAL_MASK = push_bit LOCAL_BITS 1 - 1"

definition TYPE_MASK :: i64 where "TYPE_MASK = push_bit TYPE_BITS 1 - 1"

definition SHARD_MASK :: i64 where "SHARD_MASK = push_bit SHARD_BITS 1 - 1"

definition MAX_TYPE_ID :: i32 where "MAX_TYPE_ID = ucast TYPE_MASK"

definition MAX_LOCAL_ID :: i64 where "MAX_LOCAL_ID = LOCAL_MASK"

definition MAX_SHARD_ID :: i32 where "MAX_SHARD_ID = ucast SHARD_MASK"

lemmas id_consts = LOCAL_BITS_def TYPE_BITS_def SHARD_BITS_def TYPE_SHIFT_def SHARD_SHIFT_def
  LOCAL_MASK_def TYPE_MASK_def SHARD_MASK_def MAX_TYPE_ID_def MAX_LOCAL_ID_def MAX_SHARD_ID_def

text \<open>The three \<open>error!\<close> calls; each aborts the statement.\<close>

datatype id_error = Shard_out_of_range i32 | Type_out_of_range i32 | Local_exhausted i64

definition make_id :: "i32 \<Rightarrow> i32 \<Rightarrow> i64 \<Rightarrow> id_error + i64" where
  "make_id shard type_id local =
     (if \<not> (0 \<le> sint shard \<and> sint shard \<le> sint MAX_SHARD_ID) then Inl (Shard_out_of_range shard)
      else if \<not> (0 \<le> sint type_id \<and> sint type_id \<le> sint MAX_TYPE_ID) then Inl (Type_out_of_range type_id)
      else if \<not> (0 \<le> sint local \<and> sint local \<le> sint MAX_LOCAL_ID) then Inl (Local_exhausted local)
      else Inr ((push_bit SHARD_SHIFT (scast shard) OR push_bit TYPE_SHIFT (scast type_id)) OR local))"

text \<open>\<open>>>\<close> on \<open>i64\<close> is the arithmetic shift.\<close>

definition id_type :: "i64 \<Rightarrow> i32" where
  "id_type i = ucast (signed_drop_bit TYPE_SHIFT i AND TYPE_MASK)"

definition id_shard :: "i64 \<Rightarrow> i32" where
  "id_shard i = ucast (signed_drop_bit SHARD_SHIFT i AND SHARD_MASK)"

definition id_local :: "i64 \<Rightarrow> i64" where
  "id_local i = i AND LOCAL_MASK"

definition with_shard :: "i64 \<Rightarrow> i32 \<Rightarrow> id_error + i64" where
  "with_shard i shard = make_id shard (id_type i) (id_local i)"

section \<open>The constants as numbers\<close>

lemma id_const_values [simp]:
  "sint MAX_SHARD_ID = 511" "sint MAX_TYPE_ID = 262143" "sint MAX_LOCAL_ID = 68719476735"
  "LOCAL_MASK = mask 36" "TYPE_MASK = mask 18" "SHARD_MASK = mask 9"
  "TYPE_SHIFT = 36" "SHARD_SHIFT = 54"
  by (simp_all add: id_consts mask_eq_exp_minus_1)


section \<open>Fields do not overlap\<close>

text \<open>
  A value that passes a range check is the image of a small natural number; on such values the
  shifts, masks and \<open>OR\<close> of the code act on disjoint bit positions.
\<close>

lemma bit_nat_less:
  assumes "m < 2 ^ k" "bit (m::nat) n"
  shows "n < k"
proof -
  have "take_bit k m = m" using assms(1) by (simp add: take_bit_nat_eq_self)
  with assms(2) have "bit (take_bit k m) n" by simp
  then show ?thesis by (simp add: bit_take_bit_iff)
qed


text \<open>The composed identifier of three numbers in range, as a word over their bits.\<close>

definition packed :: "nat \<Rightarrow> nat \<Rightarrow> nat \<Rightarrow> i64" where
  "packed s t l = (push_bit 54 (of_nat s) OR push_bit 36 (of_nat t)) OR of_nat l"

lemma bit_packed:
  assumes "s < 2 ^ 9" "t < 2 ^ 18" "l < 2 ^ 36"
  shows "bit (packed s t l) n \<longleftrightarrow>
     (if n < 36 then bit l n else if n < 54 then bit t (n - 36) else if n < 63 then bit s (n - 54) else False)"
proof -
  note lim = bit_nat_less [OF assms(1)] bit_nat_less [OF assms(2)] bit_nat_less [OF assms(3)]
  have "bit (packed s t l) n \<longleftrightarrow>
      n < 64 \<and> (54 \<le> n \<and> bit s (n - 54) \<or> 36 \<le> n \<and> bit t (n - 36) \<or> bit l n)"
    by (auto simp: packed_def bit_or_iff bit_push_bit_iff bit_of_nat_iff possible_bit_word)
  then show ?thesis
    using lim(1) [of "n - 54"] lim(2) [of "n - 36"] lim(3) [of n] by auto
qed

lemma scast_of_nat_small: "n < 2 ^ 31 \<Longrightarrow> (scast (of_nat n :: i32) :: i64) = of_nat n"
  by (simp add: signed_of_nat signed_take_bit_int_eq_self)

lemma make_id_packed:
  assumes "make_id shard type_id local = Inr i"
  shows "\<exists>s t l. s < 2 ^ 9 \<and> t < 2 ^ 18 \<and> l < 2 ^ 36 \<and> shard = of_nat s \<and> type_id = of_nat t \<and>
     local = of_nat l \<and> i = packed s t l"
proof -
  define s t l where "s = nat (sint shard)" and "t = nat (sint type_id)" and "l = nat (sint local)"
  from assms have rng: "0 \<le> sint shard" "sint shard \<le> 511" "0 \<le> sint type_id" "sint type_id \<le> 262143"
    "0 \<le> sint local" "sint local \<le> 68719476735"
    and i: "i = (push_bit 54 (scast shard) OR push_bit 36 (scast type_id)) OR local"
    by (simp_all add: make_id_def split: if_splits)
  have eqs: "shard = of_nat s" "type_id = of_nat t" "local = of_nat l"
    using rng by (simp_all only: s_def t_def l_def sint_small_nat [symmetric])
  have bs: "s < 2 ^ 9" "t < 2 ^ 18" "l < 2 ^ 36"
    using rng by (simp_all add: s_def t_def l_def nat_less_iff)
  have "i = packed s t l"
    unfolding i eqs using bs by (simp add: packed_def scast_of_nat_small)
  with eqs bs show ?thesis by blast
qed

lemma packed_type: "s < 2 ^ 9 \<Longrightarrow> t < 2 ^ 18 \<Longrightarrow> l < 2 ^ 36 \<Longrightarrow> id_type (packed s t l) = of_nat t"
  using bit_nat_less [of t 18]
  by (intro bit_word_eqI) (auto simp: id_type_def bit_packed bit_simps)

lemma packed_shard: "s < 2 ^ 9 \<Longrightarrow> t < 2 ^ 18 \<Longrightarrow> l < 2 ^ 36 \<Longrightarrow> id_shard (packed s t l) = of_nat s"
  using bit_nat_less [of s 9]
  by (intro bit_word_eqI) (auto simp: id_shard_def bit_packed bit_simps)

lemma packed_local: "s < 2 ^ 9 \<Longrightarrow> t < 2 ^ 18 \<Longrightarrow> l < 2 ^ 36 \<Longrightarrow> id_local (packed s t l) = of_nat l"
  using bit_nat_less [of l 36]
  by (intro bit_word_eqI) (auto simp: id_local_def bit_packed bit_simps)

lemmas packed_fields = packed_shard packed_type packed_local

lemma sint_nonneg_iff_bit: "0 \<le> sint (i :: i64) \<longleftrightarrow> \<not> bit i 63"
  using bit_last_iff [of i] by (simp add: not_less)

lemma packed_nonneg: "s < 2 ^ 9 \<Longrightarrow> t < 2 ^ 18 \<Longrightarrow> l < 2 ^ 36 \<Longrightarrow> 0 \<le> sint (packed s t l)"
  by (simp add: sint_nonneg_iff_bit bit_packed)

lemma make_id_of_nat:
  assumes "s < 2 ^ 9" "t < 2 ^ 18" "l < 2 ^ 36"
  shows "make_id (of_nat s) (of_nat t) (of_nat l) = Inr (packed s t l)"
proof -
  have "sint (of_nat s :: i32) = int s" "sint (of_nat t :: i32) = int t" "sint (of_nat l :: i64) = int l"
    using assms by (simp_all add: signed_of_nat signed_take_bit_int_eq_self)
  with assms show ?thesis
    by (simp add: make_id_def packed_def scast_of_nat_small)
qed

text \<open>Every non-negative word is the packing of its three bit fields.\<close>

lemma nonneg_packed:
  assumes "0 \<le> sint (i :: i64)"
  shows "\<exists>s t l. s < 2 ^ 9 \<and> t < 2 ^ 18 \<and> l < 2 ^ 36 \<and> i = packed s t l"
proof -
  define s t l where "s = take_bit 9 (unat (drop_bit 54 i))" and "t = take_bit 18 (unat (drop_bit 36 i))"
    and "l = take_bit 36 (unat i)"
  have b: "s < 2 ^ 9" "t < 2 ^ 18" "l < 2 ^ 36"
    unfolding s_def t_def l_def by (rule take_bit_nat_less_exp)+
  have neg: "\<not> bit i 63" using assms by (simp add: sint_nonneg_iff_bit)
  have "i = packed s t l"
  proof (rule bit_word_eqI)
    fix n assume "n < LENGTH(64)"
    then have "n = 63 \<or> n < 63" by auto
    then show "bit i n = bit (packed s t l) n"
      using neg b by (auto simp: bit_packed s_def t_def l_def bit_simps)
  qed
  with b show ?thesis by blast
qed

section \<open>Properties\<close>

text \<open>An identifier gives back exactly the shard, the type and the local number it was composed
  from, and it is never negative; so no two triples share an identifier and an id that reached
  storage was never truncated.\<close>

theorem make_id_fields:
  assumes "make_id shard type_id local = Inr i"
  shows "id_shard i = shard \<and> id_type i = type_id \<and> id_local i = local \<and> 0 \<le> sint i"
proof -
  obtain s t l where "s < 2 ^ 9" "t < 2 ^ 18" "l < 2 ^ 36" "shard = of_nat s" "type_id = of_nat t"
    "local = of_nat l" "i = packed s t l"
    using make_id_packed [OF assms] by blast
  then show ?thesis by (simp add: packed_fields packed_nonneg)
qed

theorem make_id_fields_witness:
  "id_shard (2 ^ 54 * 3 + 2 ^ 36 * 4711 + 123456789) = 3 \<and> id_type (2 ^ 54 * 3 + 2 ^ 36 * 4711 + 123456789) = 4711"
proof -
  have "make_id 3 4711 123456789 = Inr (2 ^ 54 * 3 + 2 ^ 36 * 4711 + 123456789)"
    using make_id_of_nat [of 3 4711 123456789] by (simp add: packed_def)
  from make_id_fields [OF this] show ?thesis by simp
qed

text \<open>exactly the numbers that fit their fields are accepted; any other one is refused with an
  error naming the first field that does not fit, and nothing is composed.\<close>

theorem make_id_accepts:
  "make_id shard type_id local =
     (if sint shard \<in> {0..511}
      then if sint type_id \<in> {0..262143}
           then if sint local \<in> {0..68719476735}
                then Inr (packed (nat (sint shard)) (nat (sint type_id)) (nat (sint local)))
                else Inl (Local_exhausted local)
           else Inl (Type_out_of_range type_id)
      else Inl (Shard_out_of_range shard))"
proof (cases "sint shard \<in> {0..511} \<and> sint type_id \<in> {0..262143} \<and> sint local \<in> {0..68719476735}")
  case True
  define s t l where "s = nat (sint shard)" and "t = nat (sint type_id)" and "l = nat (sint local)"
  from True have "s < 2 ^ 9" "t < 2 ^ 18" "l < 2 ^ 36"
    by (auto simp: s_def t_def l_def nat_less_iff)
  moreover from True have "shard = of_nat s" "type_id = of_nat t" "local = of_nat l"
    unfolding s_def t_def l_def by (intro sint_small_nat; simp)+
  ultimately have "make_id shard type_id local = Inr (packed s t l)"
    by (simp add: make_id_of_nat)
  with True show ?thesis by (simp add: s_def t_def l_def)
next
  case False
  then show ?thesis by (auto simp: make_id_def)
qed

text \<open>Moving an identifier to another shard changes nothing but the shard (spec 007 FR-008),
  and composing the three fields of any non-negative identifier gives that identifier back.\<close>

theorem with_shard_rehomes:
  assumes "0 \<le> sint i"
  shows "make_id (id_shard i) (id_type i) (id_local i) = Inr i \<and>
    (\<forall>shard j. with_shard i shard = Inr j \<longrightarrow>
       id_type j = id_type i \<and> id_local j = id_local i \<and> id_shard j = shard)"
proof -
  obtain s t l where b: "s < 2 ^ 9" "t < 2 ^ 18" "l < 2 ^ 36" and i: "i = packed s t l"
    using nonneg_packed [OF assms] by blast
  have "make_id (id_shard i) (id_type i) (id_local i) = Inr i"
    using b by (simp add: i packed_fields make_id_of_nat)
  moreover have "id_type j = id_type i \<and> id_local j = id_local i \<and> id_shard j = shard"
    if "with_shard i shard = Inr j" for shard j
    using make_id_packed [OF that [unfolded with_shard_def]] by (auto simp: packed_fields)
  ultimately show ?thesis by blast
qed

theorem with_shard_rehomes_witness:
  "id_local 90072129986363395 = id_local 18014535948435459 \<and> id_shard 90072129986363395 = 5"
proof -
  have "with_shard 18014535948435459 5 = Inr 90072129986363395" by code_simp
  moreover have "0 \<le> sint (18014535948435459 :: i64)" by simp
  ultimately show ?thesis using with_shard_rehomes [of 18014535948435459] by blast
qed

end
