(* ===== verification/Utf8.thy ===== *)
theory Utf8
  imports Prelude
begin

text \<open>
  UTF-8 as the Rust standard library treats it: the first character of a byte string
  (\<open>str::from_utf8\<close>, \<open>chars().next()\<close>), validity of a whole string, and the lossy conversion
  \<open>String::from_utf8_lossy\<close>, which replaces every maximal invalid part by \<open>U+FFFD\<close>.
\<close>

definition is_cont :: "char \<Rightarrow> bool" where
  "is_cont c \<longleftrightarrow> 128 \<le> byte_of c \<and> byte_of c \<le> 191"

text \<open>The second byte of a three- or four-byte sequence excludes overlong forms, surrogates and
  code points above \<open>0x10FFFF\<close>.\<close>

definition second_ok :: "nat \<Rightarrow> char \<Rightarrow> bool" where
  "second_ok lead c \<longleftrightarrow>
     (let b = byte_of c in
      if lead = 224 then 160 \<le> b \<and> b \<le> 191
      else if lead = 237 then 128 \<le> b \<and> b \<le> 159
      else if lead = 240 then 144 \<le> b \<and> b \<le> 191
      else if lead = 244 then 128 \<le> b \<and> b \<le> 143
      else 128 \<le> b \<and> b \<le> 191)"

definition low6 :: "char \<Rightarrow> nat" where
  "low6 c = byte_of c - 128"

text \<open>Code point and length in bytes of the first character, if the string starts with a
  well-formed one.\<close>

definition utf8_first :: "string \<Rightarrow> (nat \<times> nat) option" where
  "utf8_first s = (case s of [] \<Rightarrow> None | a # t \<Rightarrow>
     (let x = byte_of a in
      if x < 128 then Some (x, 1)
      else if 194 \<le> x \<and> x \<le> 223 then
        (case t of b # _ \<Rightarrow> if is_cont b then Some ((x - 192) * 64 + low6 b, 2) else None | [] \<Rightarrow> None)
      else if 224 \<le> x \<and> x \<le> 239 then
        (case t of b # c # _ \<Rightarrow>
           if second_ok x b \<and> is_cont c
           then Some (((x - 224) * 64 + low6 b) * 64 + low6 c, 3) else None
         | _ \<Rightarrow> None)
      else if 240 \<le> x \<and> x \<le> 244 then
        (case t of b # c # d # _ \<Rightarrow>
           if second_ok x b \<and> is_cont c \<and> is_cont d
           then Some ((((x - 240) * 64 + low6 b) * 64 + low6 c) * 64 + low6 d, 4) else None
         | _ \<Rightarrow> None)
      else None))"

lemma utf8_first_len: "utf8_first s = Some (cp, n) \<Longrightarrow> 0 < n \<and> n \<le> length s"
  by (auto simp: utf8_first_def Let_def split: list.splits if_splits)

lemma utf8_first_nonempty: "utf8_first s = Some p \<Longrightarrow> s \<noteq> []"
  by (auto simp: utf8_first_def)

lemma utf8_first_ascii [simp]: "byte_of a < 128 \<Longrightarrow> utf8_first (a # s) = Some (byte_of a, 1)"
  by (simp add: utf8_first_def)

lemma utf8_first_take: "utf8_first s = Some (cp, n) \<Longrightarrow> utf8_first (take n s @ t) = Some (cp, n)"
proof -
  assume f: "utf8_first s = Some (cp, n)"
  then obtain a s1 where s: "s = a # s1" by (cases s) (auto simp: utf8_first_def)
  consider "byte_of a < 128" | "194 \<le> byte_of a \<and> byte_of a \<le> 223" | "224 \<le> byte_of a \<and> byte_of a \<le> 239"
    | "240 \<le> byte_of a \<and> byte_of a \<le> 244"
    using f by (auto simp: s utf8_first_def Let_def split: if_splits)
  then show ?thesis
  proof cases
    case 1
    with f show ?thesis by (auto simp: s utf8_first_def)
  next
    case 2
    with f obtain b s2 where t: "s1 = b # s2" by (cases s1) (auto simp: s utf8_first_def)
    with 2 f t have "n = 2" by (auto simp: s utf8_first_def Let_def split: if_splits)
    with 2 f t show ?thesis by (simp add: s utf8_first_def Let_def split: if_splits)
  next
    case 3
    with f obtain b c s3 where t: "s1 = b # c # s3" by (cases s1; cases "tl s1") (auto simp: s utf8_first_def)
    with 3 f t have "n = 3" by (auto simp: s utf8_first_def Let_def split: if_splits)
    with 3 f t show ?thesis by (simp add: s utf8_first_def Let_def split: if_splits)
  next
    case 4
    with f obtain b c d s4 where t: "s1 = b # c # d # s4"
      by (cases s1; cases "tl s1"; cases "tl (tl s1)") (auto simp: s utf8_first_def)
    with 4 f t have "n = 4" by (auto simp: s utf8_first_def Let_def split: if_splits)
    with 4 f t show ?thesis by (simp add: s utf8_first_def Let_def split: if_splits)
  qed
qed

text \<open>Length of the maximal invalid part a string without well-formed first character starts with.\<close>

definition utf8_bad_len :: "string \<Rightarrow> nat" where
  "utf8_bad_len s = (case s of [] \<Rightarrow> 0 | a # t \<Rightarrow>
     (let x = byte_of a in
      if 224 \<le> x \<and> x \<le> 239 then
        (case t of b # _ \<Rightarrow> if second_ok x b then 2 else 1 | [] \<Rightarrow> 1)
      else if 240 \<le> x \<and> x \<le> 244 then
        (case t of [] \<Rightarrow> 1
         | b # u \<Rightarrow> if second_ok x b
                  then (case u of [] \<Rightarrow> 2 | c # _ \<Rightarrow> if is_cont c then 3 else 2) else 1)
      else 1))"

lemma utf8_bad_len_pos: "s \<noteq> [] \<Longrightarrow> 0 < utf8_bad_len s"
  by (auto simp: utf8_bad_len_def Let_def neq_Nil_conv split: list.splits)

function valid_utf8 :: "string \<Rightarrow> bool" where
  "valid_utf8 s = (s = [] \<or> (case utf8_first s of None \<Rightarrow> False | Some (_, n) \<Rightarrow> valid_utf8 (drop n s)))"
  by pat_completeness auto
termination
  by (relation "measure length") (auto dest: utf8_first_len)

declare valid_utf8.simps [simp del]

lemma valid_utf8_Nil [simp]: "valid_utf8 []"
  by (simp add: valid_utf8.simps)

lemma valid_utf8_first: "valid_utf8 s \<Longrightarrow> s \<noteq> [] \<Longrightarrow> \<exists>cp n. utf8_first s = Some (cp, n) \<and> valid_utf8 (drop n s)"
  by (subst (asm) valid_utf8.simps) (auto split: option.splits)

lemma valid_utf8_step: "utf8_first s = Some (cp, n) \<Longrightarrow> valid_utf8 s = valid_utf8 (drop n s)"
  by (subst valid_utf8.simps) (auto dest: utf8_first_nonempty)

lemma valid_utf8_ascii: "\<forall>c \<in> set s. byte_of c < 128 \<Longrightarrow> valid_utf8 s"
proof (induction s)
  case (Cons a s)
  then show ?case by (simp add: valid_utf8_step [OF utf8_first_ascii])
qed simp

lemma valid_utf8_append: "valid_utf8 a \<Longrightarrow> valid_utf8 b \<Longrightarrow> valid_utf8 (a @ b)"
proof (induction a rule: valid_utf8.induct)
  case (1 a)
  show ?case
  proof (cases "a = []")
    case False
    with "1.prems" obtain cp n where f: "utf8_first a = Some (cp, n)" "valid_utf8 (drop n a)"
      using valid_utf8_first by blast
    then have n: "n \<le> length a" by (simp add: utf8_first_len)
    have "utf8_first (a @ b) = Some (cp, n)"
      using utf8_first_take [OF f(1), of "drop n a @ b"] by (metis append.assoc append_take_drop_id)
    then have "valid_utf8 (a @ b) = valid_utf8 (drop n a @ b)" using valid_utf8_step n by fastforce
    with "1.IH" [OF f(1) refl f(2)] "1.prems" show ?thesis by simp
  qed (use "1.prems" in simp)
qed

definition replacement :: string where
  "replacement = [CHR 0xEF, CHR 0xBF, CHR 0xBD]"

function utf8_lossy :: "string \<Rightarrow> string" where
  "utf8_lossy s = (if s = [] then []
     else (case utf8_first s of
         Some (_, n) \<Rightarrow> take n s @ utf8_lossy (drop n s)
       | None \<Rightarrow> replacement @ utf8_lossy (drop (utf8_bad_len s) s)))"
  by pat_completeness auto
termination
  by (relation "measure length") (auto dest: utf8_first_len intro!: diff_less utf8_bad_len_pos)

declare utf8_lossy.simps [simp del]

lemma utf8_lossy_valid: "valid_utf8 s \<Longrightarrow> utf8_lossy s = s"
proof (induction s rule: utf8_lossy.induct)
  case (1 s)
  show ?case
  proof (cases "s = []")
    case True
    then show ?thesis by (simp add: utf8_lossy.simps)
  next
    case False
    with "1.prems" obtain cp n where f: "utf8_first s = Some (cp, n)" "valid_utf8 (drop n s)"
      using valid_utf8_first by blast
    with "1.IH" False have "utf8_lossy (drop n s) = drop n s" by simp
    with False f show ?thesis by (subst utf8_lossy.simps) simp
  qed
qed

text \<open>\<open>char::len_utf8\<close> and the encoding of a code point, for \<open>String::push\<close>.\<close>

definition utf8_encode :: "nat \<Rightarrow> string" where
  "utf8_encode cp =
     (if cp < 128 then [char_of cp]
      else if cp < 2048 then [char_of (192 + cp div 64), char_of (128 + cp mod 64)]
      else if cp < 65536 then
        [char_of (224 + cp div 4096), char_of (128 + cp div 64 mod 64), char_of (128 + cp mod 64)]
      else [char_of (240 + cp div 262144), char_of (128 + cp div 4096 mod 64),
            char_of (128 + cp div 64 mod 64), char_of (128 + cp mod 64)])"

text \<open>\<open>chars()\<close>: the characters of a string, each as its own bytes.\<close>

function utf8_chars :: "string \<Rightarrow> string list" where
  "utf8_chars s = (if s = [] then []
     else (case utf8_first s of
         Some (_, n) \<Rightarrow> take n s # utf8_chars (drop n s)
       | None \<Rightarrow> []))"
  by pat_completeness auto
termination
  by (relation "measure length") (auto dest: utf8_first_len)

declare utf8_chars.simps [simp del]

lemma concat_utf8_chars: "valid_utf8 s \<Longrightarrow> concat (utf8_chars s) = s"
proof (induction s rule: utf8_chars.induct)
  case (1 s)
  show ?case
  proof (cases "s = []")
    case True
    then show ?thesis by (simp add: utf8_chars.simps)
  next
    case False
    with "1.prems" obtain cp n where f: "utf8_first s = Some (cp, n)" "valid_utf8 (drop n s)"
      using valid_utf8_first by blast
    with "1.IH" False have "concat (utf8_chars (drop n s)) = drop n s" by simp
    with False f show ?thesis by (subst utf8_chars.simps) simp
  qed
qed

lemma utf8_chars_ascii: "\<forall>c \<in> set s. byte_of c < 128 \<Longrightarrow> utf8_chars s = map (\<lambda>c. [c]) s"
proof (induction s)
  case Nil
  then show ?case by (simp add: utf8_chars.simps)
next
  case (Cons a s)
  then show ?case by (subst utf8_chars.simps) simp
qed

section \<open>Slices, prefixes and white space\<close>

text \<open>\<open>str::is_char_boundary\<close>; slicing a string at any other position panics.\<close>

definition is_char_boundary :: "nat \<Rightarrow> string \<Rightarrow> bool" where
  "is_char_boundary i s \<longleftrightarrow> i = 0 \<or> i = length s \<or> (i < length s \<and> \<not> is_cont (s ! i))"

definition slice_to :: "nat \<Rightarrow> string \<Rightarrow> string option" where
  "slice_to i s = (if is_char_boundary i s then Some (take i s) else None)"

definition eq_ignore_ascii_case :: "string \<Rightarrow> string \<Rightarrow> bool" where
  "eq_ignore_ascii_case a b \<longleftrightarrow> to_ascii_lowercase a = to_ascii_lowercase b"

definition starts_with :: "string \<Rightarrow> string \<Rightarrow> bool" where
  "starts_with p s \<longleftrightarrow> take (length p) s = p"

fun contains :: "string \<Rightarrow> string \<Rightarrow> bool" where
  "contains p [] = (p = [])"
| "contains p (c # s) = (starts_with p (c # s) \<or> contains p s)"

text \<open>\<open>char::is_whitespace\<close> (the Unicode property White_Space) and \<open>str::trim_start\<close>.\<close>

definition is_white_space :: "nat \<Rightarrow> bool" where
  "is_white_space cp \<longleftrightarrow>
     (9 \<le> cp \<and> cp \<le> 13) \<or> cp = 32 \<or> cp = 0x85 \<or> cp = 0xA0 \<or> cp = 0x1680 \<or>
     (0x2000 \<le> cp \<and> cp \<le> 0x200A) \<or> cp = 0x2028 \<or> cp = 0x2029 \<or> cp = 0x202F \<or> cp = 0x205F \<or> cp = 0x3000"

function trim_start :: "string \<Rightarrow> string" where
  "trim_start s = (case utf8_first s of
       Some (cp, n) \<Rightarrow> if is_white_space cp then trim_start (drop n s) else s
     | None \<Rightarrow> s)"
  by pat_completeness auto
termination
  by (relation "measure length") (auto dest: utf8_first_len)

declare trim_start.simps [simp del]

lemma trim_start_Nil [simp]: "trim_start [] = []"
  by (subst trim_start.simps) (simp add: utf8_first_def)

lemma trim_start_ascii:
  "byte_of c < 128 \<Longrightarrow> trim_start (c # s) = (if is_white_space (byte_of c) then trim_start s else c # s)"
  by (subst trim_start.simps) simp

text \<open>\<open>str::trim\<close>.\<close>

definition trim :: "string \<Rightarrow> string" where
  "trim s =
     (let white = (\<lambda>c. case utf8_first c of Some (cp, n) \<Rightarrow> is_white_space cp | None \<Rightarrow> False)
      in concat (rev (dropWhile white (rev (utf8_chars (trim_start s))))))"

end
