(* ===== verification/Btree_Map.thy ===== *)
theory Btree_Map
  imports Prelude "HOL-Library.List_Lexorder" "HOL-Library.Char_ord"
begin

text \<open>
  Rust's \<open>BTreeMap<String, V>\<close> as its entries in the order of the keys, which are compared byte by
  byte.  \<open>serde_json\<close> objects and Bolt maps are such maps.
\<close>

text \<open>\<open>BTreeMap::insert\<close>: the entries stay sorted and an existing key takes the new value.\<close>

fun btree_insert :: "string \<Rightarrow> 'v \<Rightarrow> (string \<times> 'v) list \<Rightarrow> (string \<times> 'v) list" where
  "btree_insert k v [] = [(k, v)]"
| "btree_insert k v ((k', v') # m) =
     (if k < k' then (k, v) # (k', v') # m
      else if k = k' then (k, v) # m
      else (k', v') # btree_insert k v m)"

definition btree_ok :: "(string \<times> 'v) list \<Rightarrow> bool" where
  "btree_ok m \<longleftrightarrow> sorted_wrt (<) (map fst m)"

lemma btree_insert_keys: "set (map fst (btree_insert k v m)) = insert k (set (map fst m))"
  by (induction k v m rule: btree_insert.induct) auto

lemma btree_insert_ok: "btree_ok m \<Longrightarrow> btree_ok (btree_insert k v m)"
proof (induction k v m rule: btree_insert.induct)
  case (2 k v k' v' m)
  then show ?case
    using btree_insert_keys [of k v m] by (auto simp: btree_ok_def)
qed (simp add: btree_ok_def)

lemma btree_insert_lookup: "btree_ok m \<Longrightarrow> map_of (btree_insert k v m) = (map_of m)(k \<mapsto> v)"
proof (induction k v m rule: btree_insert.induct)
  case (2 k v k' v' m)
  then show ?case by (auto simp: btree_ok_def fun_eq_iff)
qed simp

lemma btree_insert_last: "\<forall>k' \<in> set (map fst m). k' < k \<Longrightarrow> btree_insert k v m = m @ [(k, v)]"
  by (induction k v m rule: btree_insert.induct) auto

text \<open>Inserting the entries of a sorted map one after the other rebuilds it.\<close>

lemma btree_rebuild:
  "btree_ok (m0 @ m) \<Longrightarrow> foldl (\<lambda>m (k, v). btree_insert k v m) m0 m = m0 @ m"
proof (induction m arbitrary: m0)
  case (Cons kv m)
  obtain k v where kv: "kv = (k, v)" by fastforce
  from Cons.prems have "btree_insert k v m0 = m0 @ [(k, v)]"
    by (intro btree_insert_last) (auto simp: btree_ok_def sorted_wrt_append kv)
  with Cons show ?case by (simp add: kv)
qed simp

end
