(* ===== verification/Packstream.thy ===== *)
theory Packstream
  imports Utf8 Btree_Map
begin

text \<open>
  The Bolt value encoding and its chunked framing (\<open>bolt/src/packstream.rs\<close>).  \<open>pvalue\<close> is the
  enum \<open>Value\<close>; \<open>encode\<close> appends bytes, \<open>value\<close> decodes them from a \<open>reader\<close> that carries the
  buffer, the position and the nesting depth; \<open>write_message\<close> and \<open>read_message\<close> cut a message into
  chunks and put it together again under the code's limits.  The lemmas: big-endian integers round
  trip at every width, a value round trips in any context, the nesting limit makes the decoder
  total, and a peer that never ends its message is cut off.
\<close>

section \<open>Bytes and big-endian integers\<close>

text \<open>\<open>as_bytes\<close> and its inverse on the UTF-8 bytes of a string.\<close>

definition u8_of_char :: "char \<Rightarrow> u8" where
  "u8_of_char c = of_nat (byte_of c)"

definition char_of_u8 :: "u8 \<Rightarrow> char" where
  "char_of_u8 b = char_of (unat b)"

definition as_bytes :: "string \<Rightarrow> u8 list" where
  "as_bytes s = map u8_of_char s"

lemma char_of_u8_inverse [simp]: "char_of_u8 (u8_of_char c) = c"
  by (simp add: char_of_u8_def u8_of_char_def unsigned_of_nat take_bit_nat_eq_self)

lemma map_char_as_bytes [simp]: "map char_of_u8 (as_bytes s) = s"
  by (simp add: as_bytes_def o_def)

lemma length_as_bytes [simp]: "length (as_bytes s) = length s"
  by (simp add: as_bytes_def)

text \<open>\<open>to_be_bytes\<close> of the low \<open>n\<close> bytes of a word, and \<open>from_be_bytes\<close>.\<close>

fun to_be :: "nat \<Rightarrow> 'a::len word \<Rightarrow> u8 list" where
  "to_be 0 w = []"
| "to_be (Suc n) w = ucast (drop_bit (8 * n) w) # to_be n w"

definition from_be :: "u8 list \<Rightarrow> nat" where
  "from_be bs = foldl (\<lambda>n b. 256 * n + unat b) 0 bs"

lemma length_to_be [simp]: "length (to_be n w) = n"
  by (induction n) auto

lemma to_be_4: "to_be 4 w = [ucast (drop_bit 24 w), ucast (drop_bit 16 w), ucast (drop_bit 8 w), ucast w]"
proof -
  have "(4 :: nat) = Suc (Suc (Suc (Suc 0)))" by simp
  then show ?thesis by (simp only: to_be.simps) simp
qed

lemma from_be_Nil [simp]: "from_be [] = 0"
  by (simp add: from_be_def)

lemma foldl_be: "foldl (\<lambda>n b. 256 * n + unat (b :: u8)) a bs = a * 256 ^ length bs + from_be bs"
proof (induction bs arbitrary: a)
  case (Cons b bs)
  show ?case
    using Cons [of "256 * a + unat b"] Cons [of "unat b"]
    by (simp add: from_be_def algebra_simps)
qed simp

lemma from_be_Cons: "from_be (b # bs) = unat b * 256 ^ length bs + from_be bs"
  using foldl_be [of "unat b" bs] by (simp add: from_be_def)

lemma unat_drop_bytes: "unat (drop_bit (8 * n) (w :: 'a::len word)) = unat w div 256 ^ n"
proof -
  have "unat (drop_bit (8 * n) w) = drop_bit (8 * n) (unat w)"
    by (rule bit_eqI) (auto simp: bit_simps)
  then show ?thesis by (simp add: drop_bit_eq_div power_mult)
qed

lemma unat_ucast_u8: "unat (ucast (w :: 'a::len word) :: u8) = unat w mod 256"
  by (simp add: unsigned_ucast_eq take_bit_eq_mod)

lemma from_to_be:
  fixes w :: "'a::len word"
  shows "from_be (to_be n w) = unat w mod 256 ^ n"
proof (induction n)
  case (Suc n)
  have "unat w mod 256 ^ Suc n = 256 ^ n * (unat w div 256 ^ n mod 256) + unat w mod 256 ^ n"
    by (simp only: power_Suc2 mod_mult2_eq)
  with Suc show ?case
    by (simp add: from_be_Cons unat_ucast_u8 unat_drop_bytes mult.commute [of _ "256 ^ n"] del: power_Suc)
qed simp

lemma from_be_less: "from_be bs < 256 ^ length bs"
proof (induction bs)
  case (Cons b bs)
  define k :: nat where "k = 256 ^ length bs"
  have "unat b < 2 ^ LENGTH(8)" by (rule unsigned_less)
  then have "unat b \<le> 255" by simp
  then have "unat b * k \<le> 255 * k" by (rule mult_le_mono1)
  with Cons have "unat b * k + from_be bs < 255 * k + k" unfolding k_def by linarith
  then show ?case by (simp add: from_be_Cons flip: k_def)
qed simp

section \<open>Values\<close>

text \<open>A \<open>BTreeMap<String, Value>\<close> is its entries in increasing order of the keys; a float is its
  64 bits.\<close>

datatype pvalue =
    PNull
  | PBool bool
  | PInt i64
  | PFloat u64
  | PString string
  | PList "pvalue list"
  | PMap "(string \<times> pvalue) list"
  | PStruct u8 "pvalue list"

fun as_str :: "pvalue \<Rightarrow> string option" where
  "as_str (PString s) = Some s"
| "as_str _ = None"

fun as_i64 :: "pvalue \<Rightarrow> i64 option" where
  "as_i64 (PInt i) = Some i"
| "as_i64 _ = None"

fun map_get :: "pvalue \<Rightarrow> string \<Rightarrow> pvalue option" where
  "map_get (PMap m) key = map_of m key"
| "map_get _ key = None"

text \<open>The helper \<open>map(pairs)\<close>: collecting into a \<open>BTreeMap\<close>.\<close>

definition pmap :: "(string \<times> pvalue) list \<Rightarrow> pvalue" where
  "pmap pairs = PMap (foldl (\<lambda>m (k, v). btree_insert k v m) [] pairs)"

section \<open>Encoding\<close>

definition encode_header :: "nat \<Rightarrow> u8 \<Rightarrow> u8 \<Rightarrow> u8 list" where
  "encode_header len tiny base =
     (if len < 16 then [tiny OR of_nat len]
      else if len < 256 then [base, of_nat len]
      else if len < 65536 then (base + 1) # to_be 2 (of_nat len :: u16)
      else (base + 2) # to_be 4 (of_nat len :: u32))"

definition encode_int :: "i64 \<Rightarrow> u8 list" where
  "encode_int i =
     (let s = sint i in
      if -16 \<le> s \<and> s \<le> 127 then [ucast i]
      else if -128 \<le> s \<and> s \<le> 127 then [0xC8, ucast i]
      else if -32768 \<le> s \<and> s \<le> 32767 then 0xC9 # to_be 2 (ucast i :: u16)
      else if -2147483648 \<le> s \<and> s \<le> 2147483647 then 0xCA # to_be 4 (ucast i :: u32)
      else 0xCB # to_be 8 i)"

definition encode_string :: "string \<Rightarrow> u8 list" where
  "encode_string s = encode_header (length s) 0x80 0xD0 @ as_bytes s"

fun encode :: "pvalue \<Rightarrow> u8 list" where
  "encode PNull = [0xC0]"
| "encode (PBool b) = [if b then 0xC3 else 0xC2]"
| "encode (PFloat f) = 0xC1 # to_be 8 f"
| "encode (PInt i) = encode_int i"
| "encode (PString s) = encode_string s"
| "encode (PList xs) = encode_header (length xs) 0x90 0xD4 @ concat (map encode xs)"
| "encode (PMap m) = encode_header (length m) 0xA0 0xD8 @
     concat (map (\<lambda>(k, v). encode_string k @ encode v) m)"
| "encode (PStruct sig fields) =
     [0xB0 OR (of_nat (length fields) AND 0x0F), sig] @ concat (map encode fields)"

section \<open>Decoding\<close>

datatype decode_error =
    Short_read
  | Nesting_too_deep
  | Unknown_marker u8
  | Non_string_key pvalue
  | Out_of_fuel

definition MAX_DEPTH :: nat where "MAX_DEPTH = 64"

record reader =
  rd_buf :: "u8 list"
  rd_pos :: nat
  rd_depth :: nat

definition new_reader :: "u8 list \<Rightarrow> reader" where
  "new_reader b = \<lparr>rd_buf = b, rd_pos = 0, rd_depth = 0\<rparr>"

type_synonym 'a decoder = "reader \<Rightarrow> decode_error + 'a \<times> reader"

definition enter :: "unit decoder" where
  "enter r = (let r = r\<lparr>rd_depth := rd_depth r + 1\<rparr> in
     if rd_depth r > MAX_DEPTH then Inl Nesting_too_deep else Inr ((), r))"

definition leave :: "reader \<Rightarrow> reader" where
  "leave r = r\<lparr>rd_depth := rd_depth r - 1\<rparr>"

definition byte :: "u8 decoder" where
  "byte r = (if rd_pos r < length (rd_buf r) then Inr (rd_buf r ! rd_pos r, r\<lparr>rd_pos := rd_pos r + 1\<rparr>) else Inl Short_read)"

definition bytes :: "nat \<Rightarrow> u8 list decoder" where
  "bytes n r = (let e = rd_pos r + n in
     if e > length (rd_buf r) then Inl Short_read
     else Inr (take n (drop (rd_pos r) (rd_buf r)), r\<lparr>rd_pos := e\<rparr>))"

definition size_field :: "u8 \<Rightarrow> u8 \<Rightarrow> nat decoder" where
  "size_field marker base r =
     (if marker - base = 0 then rbind (byte r) (\<lambda>(b, r). Inr (unat b, r))
      else if marker - base = 1 then rbind (bytes 2 r) (\<lambda>(b, r). Inr (from_be b, r))
      else rbind (bytes 4 r) (\<lambda>(b, r). Inr (from_be b, r)))"

text \<open>How many members are worth reserving room for; only the capacity of a vector depends on it.\<close>

definition reserve :: "reader \<Rightarrow> nat \<Rightarrow> nat \<Rightarrow> nat" where
  "reserve r n bytes_each = min n ((length (rd_buf r) - rd_pos r) div max bytes_each 1)"

definition string_value :: "nat \<Rightarrow> pvalue decoder" where
  "string_value n r = rbind (bytes n r) (\<lambda>(b, r). Inr (PString (utf8_lossy (map char_of_u8 b)), r))"

text \<open>The three loops \<open>for _ in 0..n\<close>, over the decoder \<open>rec\<close> of one value.\<close>

fun list_members :: "pvalue decoder \<Rightarrow> nat \<Rightarrow> pvalue list decoder" where
  "list_members rec 0 r = Inr ([], r)"
| "list_members rec (Suc n) r =
     rbind (rec r) (\<lambda>(x, r). rbind (list_members rec n r) (\<lambda>(xs, r). Inr (x # xs, r)))"

fun dict_entries :: "pvalue decoder \<Rightarrow> nat \<Rightarrow> (string \<times> pvalue) list \<Rightarrow> (string \<times> pvalue) list decoder" where
  "dict_entries rec 0 m r = Inr (m, r)"
| "dict_entries rec (Suc n) m r =
     rbind (rec r) (\<lambda>(k, r). case k of
         PString s \<Rightarrow> rbind (rec r) (\<lambda>(v, r). dict_entries rec n (btree_insert s v m) r)
       | other \<Rightarrow> Inl (Non_string_key other))"

definition list_value :: "pvalue decoder \<Rightarrow> nat \<Rightarrow> pvalue decoder" where
  "list_value rec n r = rbind (enter r) (\<lambda>(_, r).
     rbind (list_members rec n r) (\<lambda>(xs, r). Inr (PList xs, leave r)))"

definition dict_value :: "pvalue decoder \<Rightarrow> nat \<Rightarrow> pvalue decoder" where
  "dict_value rec n r = rbind (enter r) (\<lambda>(_, r).
     rbind (dict_entries rec n [] r) (\<lambda>(m, r). Inr (PMap m, leave r)))"

definition struct_value :: "pvalue decoder \<Rightarrow> nat \<Rightarrow> pvalue decoder" where
  "struct_value rec n r = rbind (enter r) (\<lambda>(_, r).
     rbind (byte r) (\<lambda>(sig, r).
     rbind (list_members rec n r) (\<lambda>(fields, r). Inr (PStruct sig fields, leave r))))"

definition int_field :: "nat \<Rightarrow> pvalue decoder" where
  "int_field n r = rbind (bytes n r) (\<lambda>(b, r). Inr (PInt
     (if n = 1 then scast (of_nat (from_be b) :: u8)
      else if n = 2 then scast (of_nat (from_be b) :: u16)
      else if n = 4 then scast (of_nat (from_be b) :: u32)
      else of_nat (from_be b)), r))"

text \<open>One value; the members of a container are read by \<open>rec\<close>.\<close>

definition value_body :: "pvalue decoder \<Rightarrow> pvalue decoder" where
  "value_body rec r0 = rbind (byte r0) (\<lambda>(m, r).
     if m = 0xC0 then Inr (PNull, r)
     else if m = 0xC2 then Inr (PBool False, r)
     else if m = 0xC3 then Inr (PBool True, r)
     else if m = 0xC1 then rbind (bytes 8 r) (\<lambda>(b, r). Inr (PFloat (of_nat (from_be b)), r))
     else if m = 0xC8 then int_field 1 r
     else if m = 0xC9 then int_field 2 r
     else if m = 0xCA then int_field 4 r
     else if m = 0xCB then int_field 8 r
     else if m \<le> 0x7F then Inr (PInt (ucast m), r)
     else if 0xF0 \<le> m then Inr (PInt (scast m), r)
     else if 0x80 \<le> m \<and> m \<le> 0x8F then string_value (unat (m AND 0x0F)) r
     else if 0xD0 \<le> m \<and> m \<le> 0xD2 then rbind (size_field m 0xD0 r) (\<lambda>(n, r). string_value n r)
     else if 0x90 \<le> m \<and> m \<le> 0x9F then list_value rec (unat (m AND 0x0F)) r
     else if 0xD4 \<le> m \<and> m \<le> 0xD6 then rbind (size_field m 0xD4 r) (\<lambda>(n, r). list_value rec n r)
     else if 0xA0 \<le> m \<and> m \<le> 0xAF then dict_value rec (unat (m AND 0x0F)) r
     else if 0xD8 \<le> m \<and> m \<le> 0xDA then rbind (size_field m 0xD8 r) (\<lambda>(n, r). dict_value rec n r)
     else if 0xB0 \<le> m \<and> m \<le> 0xBF then struct_value rec (unat (m AND 0x0F)) r
     else Inl (Unknown_marker m))"

text \<open>The recursion is bounded by the nesting limit: \<open>value\<close> gives it one level more than the limit
  allows, and \<open>value_levels_enough\<close> below shows that this is always enough.\<close>

fun value_levels :: "nat \<Rightarrow> pvalue decoder" where
  "value_levels 0 r = Inl Out_of_fuel"
| "value_levels (Suc n) r = value_body (value_levels n) r"

definition read_value :: "pvalue decoder" where
  "read_value r = value_levels (MAX_DEPTH + 1) r"


section \<open>A reader in the middle of a buffer\<close>

definition rd_at :: "u8 list \<Rightarrow> u8 list \<Rightarrow> nat \<Rightarrow> reader" where
  "rd_at pre bs d = \<lparr>rd_buf = pre @ bs, rd_pos = length pre, rd_depth = d\<rparr>"

lemma byte_rd [step_simps]: "byte (rd_at pre (b # bs) d) = Inr (b, rd_at (pre @ [b]) bs d)"
  by (simp add: byte_def rd_at_def)

lemma bytes_rd [step_simps]: "length xs = n \<Longrightarrow> bytes n (rd_at pre (xs @ bs) d) = Inr (xs, rd_at (pre @ xs) bs d)"
  by (auto simp: bytes_def rd_at_def)

lemma enter_rd [step_simps]: "d < 64 \<Longrightarrow> enter (rd_at pre bs d) = Inr ((), rd_at pre bs (Suc d))"
  by (simp add: enter_def rd_at_def MAX_DEPTH_def)

lemma leave_rd [step_simps]: "leave (rd_at pre bs (Suc d)) = rd_at pre bs d"
  by (simp add: leave_def rd_at_def)

lemma rd_reader: "rd_pos r \<le> length (rd_buf r) \<Longrightarrow> r = rd_at (take (rd_pos r) (rd_buf r)) (drop (rd_pos r) (rd_buf r)) (rd_depth r)"
  by (cases r) (simp add: rd_at_def)

section \<open>Integers and headers round trip\<close>

lemma scast_ucast_narrow:
  fixes i :: i64
  assumes "- (2 ^ (LENGTH('a) - 1)) \<le> sint i" "sint i < 2 ^ (LENGTH('a) - 1)" "LENGTH('a) \<le> 64"
  shows "scast (ucast i :: 'a::len word) = i"
proof -
  have "(ucast i :: 'a word) = of_int (sint i)"
    using assms(3) by (intro bit_word_eqI) (auto simp: bit_simps)
  then have "scast (ucast i :: 'a word) = (scast (of_int (sint i) :: 'a word) :: i64)" by (simp only:)
  also have "\<dots> = of_int (signed_take_bit (LENGTH('a) - Suc 0) (sint i))" by (rule signed_of_int)
  also have "signed_take_bit (LENGTH('a) - Suc 0) (sint i) = sint i"
    using assms by (intro signed_take_bit_int_eq_self) auto
  finally show ?thesis by simp
qed

lemma word_of_from_to_be: "LENGTH('a) \<le> 8 * n \<Longrightarrow> of_nat (from_be (to_be n (w :: 'a::len word))) = w"
proof -
  assume "LENGTH('a) \<le> 8 * n"
  have "unat w < 2 ^ LENGTH('a)" by (rule unsigned_less)
  also have "(2::nat) ^ LENGTH('a) \<le> 2 ^ (8 * n)" using \<open>LENGTH('a) \<le> 8 * n\<close> by (rule power_increasing) simp
  also have "\<dots> = 256 ^ n" by (simp add: power_mult)
  finally show ?thesis by (simp add: from_to_be)
qed

lemma ucast_small_u8:
  assumes "0 \<le> sint (i :: i64)" "sint i \<le> 127"
  shows "(ucast i :: u8) \<le> 0x7F \<and> ucast (ucast i :: u8) = i"
proof -
  define n where "n = nat (sint i)"
  have i: "i = of_nat n" and n: "n \<le> 127" using assms sint_small_nat [of i] by (auto simp: n_def)
  have u: "(ucast i :: u8) = of_nat n" using n by (simp add: i unsigned_of_nat take_bit_nat_eq_self)
  have "unat (of_nat n :: u8) = n" using n by (simp add: unsigned_of_nat take_bit_nat_eq_self)
  with n show ?thesis
    unfolding u by (simp add: word_le_nat_alt i unsigned_of_nat take_bit_nat_eq_self)
qed

lemma ucast_neg_u8:
  assumes "- 16 \<le> sint (i :: i64)" "sint i < 0"
  shows "0xF0 \<le> (ucast i :: u8)"
proof -
  have i: "i = of_int (sint i)" by simp
  from assms have "sint i \<in> {-16, -15, -14, -13, -12, -11, -10, -9, -8, -7, -6, -5, -4, -3, -2, -1}"
    unfolding insert_iff empty_iff by arith
  moreover have "(ucast (- 1 :: i64) :: u8) = - 1"
    by (rule bit_word_eqI) (auto simp: bit_simps)
  ultimately show ?thesis by (elim insertE emptyE; subst i; simp)
qed

lemma high_not_low: "0xF0 \<le> (m :: u8) \<Longrightarrow> \<not> m \<le> 0x7F"
  by (simp add: word_le_nat_alt)

lemma value_body_int:
  "value_body rec (rd_at pre (encode_int i @ bs) d) = Inr (PInt i, rd_at (pre @ encode_int i) bs d)"
proof -
  consider (tiny) "- 16 \<le> sint i" "sint i \<le> 127"
    | (w8) "- 128 \<le> sint i" "sint i < - 16"
    | (w16) "- 32768 \<le> sint i" "sint i \<le> 32767" "\<not> (- 128 \<le> sint i \<and> sint i \<le> 127)"
    | (w32) "- 2147483648 \<le> sint i" "sint i \<le> 2147483647" "\<not> (- 32768 \<le> sint i \<and> sint i \<le> 32767)"
    | (w64) "\<not> (- 2147483648 \<le> sint i \<and> sint i \<le> 2147483647)"
    by linarith
  then show ?thesis
  proof cases
    case tiny
    then have e: "encode_int i = [ucast i]" by (simp add: encode_int_def)
    show ?thesis
    proof (cases "0 \<le> sint i")
      case True
      then have t: "(ucast i :: u8) \<le> 0x7F" "ucast (ucast i :: u8) = i"
        using ucast_small_u8 [of i] tiny by auto
      then have "(ucast i :: u8) \<notin> {0xC0, 0xC1, 0xC2, 0xC3, 0xC8, 0xC9, 0xCA, 0xCB}" by auto
      with t show ?thesis by (simp add: value_body_def e byte_rd)
    next
      case False
      then have t: "0xF0 \<le> (ucast i :: u8)" "scast (ucast i :: u8) = i"
        using ucast_neg_u8 [of i] tiny scast_ucast_narrow [where 'a = 8, of i] by auto
      then have "(ucast i :: u8) \<notin> {0xC0, 0xC1, 0xC2, 0xC3, 0xC8, 0xC9, 0xCA, 0xCB}" by auto
      moreover have "\<not> (ucast i :: u8) \<le> 0x7F" using t(1) by (rule high_not_low)
      ultimately show ?thesis using t by (simp add: value_body_def e byte_rd)
    qed
  next
    case w8
    then show ?thesis
      using scast_ucast_narrow [where 'a = 8, of i] bytes_rd [of "[ucast i]" 1]
      by (simp add: encode_int_def value_body_def byte_rd int_field_def from_be_Cons)
  next
    case w16
    then show ?thesis
      using scast_ucast_narrow [where 'a = 16, of i]
      by (auto simp: encode_int_def value_body_def byte_rd int_field_def bytes_rd word_of_from_to_be)
  next
    case w32
    then show ?thesis
      using scast_ucast_narrow [where 'a = 32, of i]
      by (auto simp: encode_int_def value_body_def byte_rd int_field_def bytes_rd word_of_from_to_be)
  next
    case w64
    then show ?thesis
      by (auto simp: encode_int_def value_body_def byte_rd int_field_def bytes_rd word_of_from_to_be)
  qed
qed


text \<open>A header announces exactly the number of members it was written for.\<close>

lemma size_field_rd [step_simps]:
  "size_field base base (rd_at pre (b # bs) d) = Inr (unat b, rd_at (pre @ [b]) bs d)"
  "n < 65536 \<Longrightarrow> size_field (base + 1) base (rd_at pre (to_be 2 (of_nat n :: u16) @ bs) d)
     = Inr (n, rd_at (pre @ to_be 2 (of_nat n :: u16)) bs d)"
  "n < 4294967296 \<Longrightarrow> size_field (base + 2) base (rd_at pre (to_be 4 (of_nat n :: u32) @ bs) d)
     = Inr (n, rd_at (pre @ to_be 4 (of_nat n :: u32)) bs d)"
  by (simp_all add: size_field_def byte_rd bytes_rd from_to_be unsigned_of_nat take_bit_nat_eq_self
      del: to_be.simps)

lemma tiny_marker:
  assumes "n < 16" "t \<in> {0x80, 0x90, 0xA0, 0xB0 :: u8}"
  shows "t \<le> t OR of_nat n \<and> t OR of_nat n \<le> t + 15 \<and> unat ((t OR of_nat n) AND 0x0F) = n"
proof -
  from assms(1) have "n \<in> {0, 1, 2, 3, 4, 5, 6, 7, 8, 9, 10, 11, 12, 13, 14, 15}"
    unfolding insert_iff empty_iff by arith
  with assms(2) show ?thesis by (elim insertE emptyE; simp)
qed


lemma encode_header_cases:
  assumes "n < 4294967296"
  obtains (tiny) "n < 16" "encode_header n t b = [t OR of_nat n]"
    | (one) "16 \<le> n" "n < 256" "encode_header n t b = [b, of_nat n]"
    | (two) "256 \<le> n" "n < 65536" "encode_header n t b = (b + 1) # to_be 2 (of_nat n :: u16)"
    | (four) "encode_header n t b = (b + 2) # to_be 4 (of_nat n :: u32)"
proof -
  consider "n < 16" | "16 \<le> n \<and> n < 256" | "256 \<le> n \<and> n < 65536" | "65536 \<le> n" by linarith
  then show thesis by cases (use that in \<open>simp add: encode_header_def\<close>)+
qed

lemma marker_not_scalar:
  "0x80 \<le> m \<Longrightarrow> m \<le> 0xBF \<Longrightarrow>
     m \<noteq> 0xC0 \<and> m \<noteq> 0xC1 \<and> m \<noteq> 0xC2 \<and> m \<noteq> 0xC3 \<and> m \<noteq> 0xC8 \<and> m \<noteq> 0xC9 \<and> m \<noteq> 0xCA \<and> m \<noteq> 0xCB \<and>
     \<not> m \<le> 0x7F \<and> \<not> (0xF0 :: u8) \<le> m \<and> \<not> 0xD0 \<le> m \<and> \<not> 0xD4 \<le> m \<and> \<not> 0xD8 \<le> m"
  by (auto simp: word_le_nat_alt)

lemma marker_gaps:
  "0x90 \<le> (m :: u8) \<Longrightarrow> \<not> m \<le> 0x8F"
  "0xA0 \<le> (m :: u8) \<Longrightarrow> \<not> m \<le> 0x8F \<and> \<not> m \<le> 0x9F"
  "0xB0 \<le> (m :: u8) \<Longrightarrow> \<not> m \<le> 0x8F \<and> \<not> m \<le> 0x9F \<and> \<not> m \<le> 0xAF"
  by (simp_all add: word_le_nat_alt)

text \<open>What follows a header is read by the decoder of the header's kind, with the announced count.\<close>

lemma value_body_header:
  assumes "n < 4294967296"
    and K: "(t, b, K) \<in> {(0x80, 0xD0, string_value), (0x90, 0xD4, list_value rec), (0xA0, 0xD8, dict_value rec)}"
  shows "value_body rec (rd_at pre (encode_header n t b @ bs) d) = K n (rd_at (pre @ encode_header n t b) bs d)"
proof -
  from K consider (str) "t = 0x80" "b = 0xD0" "K = string_value"
    | (lst) "t = 0x90" "b = 0xD4" "K = list_value rec" | (dct) "t = 0xA0" "b = 0xD8" "K = dict_value rec"
    by auto
  note kinds = this
  show ?thesis
  proof (cases rule: encode_header_cases [OF assms(1), where t = t and b = b, case_names tiny one two four])
    case tiny
    define m :: u8 where "m = t OR of_nat n"
    have m: "t \<le> m" "m \<le> t + 15" "unat (m AND 0x0F) = n"
      using tiny_marker [OF tiny(1), of t] K by (auto simp: m_def)
    then have "0x80 \<le> m" "m \<le> 0xBF"
      using K by (auto simp: word_le_nat_alt)
    note ns = marker_not_scalar [OF this]
    have hdr: "encode_header n t b = [m]" by (simp add: tiny(2) m_def)
    from kinds show ?thesis
      by cases (use m ns marker_gaps [of m] hdr in \<open>simp_all add: value_body_def byte_rd\<close>)
  next
    case one
    have "unat (of_nat n :: u8) = n" using one by (simp add: unsigned_of_nat take_bit_nat_eq_self)
    with kinds show ?thesis
      by cases (use one(3) in \<open>simp_all add: value_body_def byte_rd size_field_rd(1)\<close>)
  next
    case two
    from kinds show ?thesis
      by cases (use two(3) size_field_rd(2) [OF two(2), of b] in
        \<open>simp_all add: value_body_def byte_rd del: to_be.simps\<close>)
  next
    case four
    from kinds show ?thesis
      by cases (use four size_field_rd(3) [OF assms(1), of b] in
        \<open>simp_all add: value_body_def byte_rd del: to_be.simps\<close>)
  qed
qed

lemma value_body_string:
  assumes "length s < 4294967296" "valid_utf8 s"
  shows "value_body rec (rd_at pre (encode_string s @ bs) d) = Inr (PString s, rd_at (pre @ encode_string s) bs d)"
  using assms value_body_header [OF assms(1), of "0x80" "0xD0" string_value rec pre "as_bytes s @ bs" d]
  by (simp add: encode_string_def string_value_def bytes_rd utf8_lossy_valid)

lemma value_body_struct:
  assumes "n < 16"
  shows "value_body rec (rd_at pre ((0xB0 OR (of_nat n AND 0x0F)) # bs) d)
     = struct_value rec n (rd_at (pre @ [0xB0 OR (of_nat n AND 0x0F)]) bs d)"
proof -
  have "n \<in> {0, 1, 2, 3, 4, 5, 6, 7, 8, 9, 10, 11, 12, 13, 14, 15}"
    using assms unfolding insert_iff empty_iff by arith
  then have a: "of_nat n AND 0x0F = (of_nat n :: u8)" by (elim insertE emptyE; simp)
  define m :: u8 where "m = 0xB0 OR of_nat n"
  have m: "0xB0 \<le> m" "m \<le> 0xBF" "unat (m AND 0x0F) = n"
    using tiny_marker [OF assms, of "0xB0"] by (simp_all add: m_def)
  then have "0x80 \<le> m" by (simp add: word_le_nat_alt)
  then show ?thesis
    using m marker_not_scalar [of m] marker_gaps [of m] unfolding a m_def [symmetric]
    by (simp add: value_body_def byte_rd)
qed

section \<open>Round trip of values\<close>

text \<open>What the format can carry: valid UTF-8, 32-bit lengths, keys in map order, at most 15 fields.\<close>

fun wf_value :: "pvalue \<Rightarrow> bool" where
  "wf_value (PString s) = (valid_utf8 s \<and> length s < 4294967296)"
| "wf_value (PList xs) = (length xs < 4294967296 \<and> (\<forall>x \<in> set xs. wf_value x))"
| "wf_value (PMap m) = (btree_ok m \<and> length m < 4294967296 \<and>
     (\<forall>(k, v) \<in> set m. valid_utf8 k \<and> length k < 4294967296 \<and> wf_value v))"
| "wf_value (PStruct sig fs) = (length fs \<le> 15 \<and> (\<forall>x \<in> set fs. wf_value x))"
| "wf_value _ = True"

definition max_list :: "nat list \<Rightarrow> nat" where
  "max_list ns = foldr max ns 0"

lemma max_list_simps [simp]: "max_list [] = 0" "max_list (n # ns) = max n (max_list ns)"
  by (simp_all add: max_list_def)

lemma max_list_ge: "n \<in> set ns \<Longrightarrow> n \<le> max_list ns"
  by (induction ns) auto

lemma max_list_map_ge: "x \<in> set xs \<Longrightarrow> f x \<le> max_list (map f xs)"
  by (simp add: max_list_ge)

text \<open>How deep containers nest in a value.\<close>

fun nest :: "pvalue \<Rightarrow> nat" where
  "nest (PList xs) = Suc (max_list (map nest xs))"
| "nest (PMap m) = Suc (max_list (map (\<lambda>(k, v). nest v) m))"
| "nest (PStruct sig fs) = Suc (max_list (map nest fs))"
| "nest _ = 0"

lemma members_rd:
  assumes "\<And>x pre bs. x \<in> set xs \<Longrightarrow> rec (rd_at pre (encode x @ bs) d) = Inr (x, rd_at (pre @ encode x) bs d)"
  shows "list_members rec (length xs) (rd_at pre (concat (map encode xs) @ bs) d)
     = Inr (xs, rd_at (pre @ concat (map encode xs)) bs d)"
  using assms
proof (induction xs arbitrary: pre)
  case (Cons x xs)
  then show ?case
    using Cons.IH [where pre = "pre @ encode x"] Cons.prems [of x pre "concat (map encode xs) @ bs"] by simp
qed simp

lemma entries_rd:
  assumes "\<And>k v pre bs. (k, v) \<in> set m \<Longrightarrow>
      rec (rd_at pre (encode_string k @ bs) d) = Inr (PString k, rd_at (pre @ encode_string k) bs d) \<and>
      rec (rd_at pre (encode v @ bs) d) = Inr (v, rd_at (pre @ encode v) bs d)"
  shows "dict_entries rec (length m) m0 (rd_at pre (concat (map (\<lambda>(k, v). encode_string k @ encode v) m) @ bs) d)
     = Inr (foldl (\<lambda>m (k, v). btree_insert k v m) m0 m,
            rd_at (pre @ concat (map (\<lambda>(k, v). encode_string k @ encode v) m)) bs d)"
  using assms
proof (induction m arbitrary: pre m0)
  case (Cons kv m)
  obtain k v where kv: "kv = (k, v)" by fastforce
  note here = Cons.prems [of k v]
  have "rec (rd_at pre (encode_string k @ bs) d) = Inr (PString k, rd_at (pre @ encode_string k) bs d) \<and>
      rec (rd_at pre (encode v @ bs) d) = Inr (v, rd_at (pre @ encode v) bs d)" if "(k, v) \<in> set m" for k v pre bs
    using that by (intro Cons.prems) simp
  note IH = Cons.IH [OF this, where pre = "pre @ encode_string k @ encode v" and ?m0.0 = "btree_insert k v m0"]
  show ?case
    using IH here [of pre "encode v @ concat (map (\<lambda>(k, v). encode_string k @ encode v) m) @ bs"]
      here [of "pre @ encode_string k" "concat (map (\<lambda>(k, v). encode_string k @ encode v) m) @ bs"]
    by (simp add: kv)
qed simp

lemma value_levels_encode:
  "wf_value v \<Longrightarrow> d + nest v \<le> 64 \<Longrightarrow> nest v < n \<Longrightarrow>
     value_levels n (rd_at pre (encode v @ bs) d) = Inr (v, rd_at (pre @ encode v) bs d)"
proof (induction v arbitrary: n pre bs d)
  case (PList xs)
  then obtain m where n: "n = Suc m" by (cases n) auto
  have "value_levels m (rd_at pre (encode x @ bs) (Suc d)) = Inr (x, rd_at (pre @ encode x) bs (Suc d))"
    if "x \<in> set xs" for x pre bs
    using that PList max_list_map_ge [OF that, of nest] n by auto
  from members_rd [of xs "value_levels m", OF this] PList.prems show ?case
    by (simp add: n value_body_header [where K = "list_value _"] list_value_def step_simps)
next
  case (PMap m)
  then obtain l where n: "n = Suc l" by (cases n) auto
  have "value_levels l (rd_at pre (encode_string k @ bs) (Suc d)) = Inr (PString k, rd_at (pre @ encode_string k) bs (Suc d)) \<and>
      value_levels l (rd_at pre (encode v @ bs) (Suc d)) = Inr (v, rd_at (pre @ encode v) bs (Suc d))"
    if kv: "(k, v) \<in> set m" for k v pre bs
  proof -
    obtain j where l: "l = Suc j" using PMap.prems n by (cases l) auto
    have "nest v \<le> max_list (map (\<lambda>(k, v). nest v) m)"
      using max_list_map_ge [OF kv, of "\<lambda>(k, v). nest v"] by simp
    moreover have "valid_utf8 k" "length k < 4294967296" "wf_value v" using kv PMap.prems by auto
    ultimately show ?thesis
      using PMap.IH [OF kv, of v "Suc d" l pre bs] PMap.prems(2,3) n
      by (simp add: l value_body_string)
  qed
  from entries_rd [of m "value_levels l", OF this] PMap.prems show ?case
    by (simp add: n value_body_header [where K = "dict_value _"] dict_value_def step_simps btree_rebuild [of "[]", simplified])
next
  case (PStruct sig fs)
  then obtain m where n: "n = Suc m" by (cases n) auto
  have "value_levels m (rd_at pre (encode x @ bs) (Suc d)) = Inr (x, rd_at (pre @ encode x) bs (Suc d))"
    if "x \<in> set fs" for x pre bs
    using that PStruct max_list_map_ge [OF that, of nest] n by auto
  from members_rd [of fs "value_levels m", OF this] PStruct.prems show ?case
    by (simp add: n value_body_struct struct_value_def step_simps)
next
  case (PFloat f)
  then obtain m where n: "n = Suc m" by (cases n) auto
  show ?case
    by (simp add: n value_body_def byte_rd bytes_rd word_of_from_to_be del: to_be.simps)
next
  case (PString s)
  then obtain m where n: "n = Suc m" by (cases n) auto
  from PString show ?case by (simp add: n value_body_string)
next
  case (PInt i)
  then obtain m where n: "n = Suc m" by (cases n) auto
  show ?case by (simp add: n value_body_int)
next
  case (PBool b)
  then obtain m where n: "n = Suc m" by (cases n) auto
  show ?case by (simp add: n value_body_def byte_rd)
next
  case PNull
  then obtain m where n: "n = Suc m" by (cases n) auto
  show ?case by (simp add: n value_body_def byte_rd)
qed

section \<open>The decoder is total and never reads past its input\<close>

fun value_nodes :: "pvalue \<Rightarrow> nat" where
  "value_nodes (PList xs) = Suc (sum_list (map value_nodes xs))"
| "value_nodes (PMap m) = Suc (sum_list (map (\<lambda>(k, v). Suc (value_nodes v)) m))"
| "value_nodes (PStruct sig fs) = Suc (sum_list (map value_nodes fs))"
| "value_nodes _ = 1"

text \<open>\<open>sound Q d d' p\<close>: from depth \<open>d\<close>, the decoder \<open>p\<close> does not run out of fuel, comes back at
  depth \<open>d'\<close>, stays inside the buffer, and its result and the number of bytes read satisfy \<open>Q\<close>.\<close>

fun sound_res :: "('a \<Rightarrow> nat \<Rightarrow> bool) \<Rightarrow> nat \<Rightarrow> reader \<Rightarrow> decode_error + 'a \<times> reader \<Rightarrow> bool" where
  "sound_res Q d r (Inl e) \<longleftrightarrow> e \<noteq> Out_of_fuel"
| "sound_res Q d r (Inr (a, r')) \<longleftrightarrow> rd_depth r' = d \<and> rd_buf r' = rd_buf r \<and> rd_pos r \<le> rd_pos r' \<and>
     rd_pos r' \<le> length (rd_buf r) \<and> Q a (rd_pos r' - rd_pos r)"

definition sound :: "('a \<Rightarrow> nat \<Rightarrow> bool) \<Rightarrow> nat \<Rightarrow> nat \<Rightarrow> 'a decoder \<Rightarrow> bool" where
  "sound Q d d' p \<longleftrightarrow> (\<forall>r. rd_depth r = d \<longrightarrow> rd_pos r \<le> length (rd_buf r) \<longrightarrow> sound_res Q d' r (p r))"

lemma soundI:
  "(\<And>r. rd_depth r = d \<Longrightarrow> rd_pos r \<le> length (rd_buf r) \<Longrightarrow> sound_res Q d' r (p r)) \<Longrightarrow> sound Q d d' p"
  by (simp add: sound_def)

lemma soundD: "sound Q d d' p \<Longrightarrow> rd_depth r = d \<Longrightarrow> rd_pos r \<le> length (rd_buf r) \<Longrightarrow> sound_res Q d' r (p r)"
  by (simp add: sound_def)

lemma sound_bind:
  assumes p: "sound P d d1 p"
    and f: "\<And>a n. P a n \<Longrightarrow> sound (\<lambda>b m. Q b (n + m)) d1 d2 (f a)"
  shows "sound Q d d2 (\<lambda>r. rbind (p r) (\<lambda>(a, r). f a r))"
proof (rule soundI)
  fix r :: reader assume r: "rd_depth r = d" "rd_pos r \<le> length (rd_buf r)"
  note pr = soundD [OF p r]
  show "sound_res Q d2 r (rbind (p r) (\<lambda>(a, r). f a r))"
  proof (cases "p r")
    case (Inl e)
    with pr show ?thesis by simp
  next
    case (Inr ar)
    obtain a r1 where a: "ar = (a, r1)" by fastforce
    with pr Inr have 1: "rd_depth r1 = d1" "rd_buf r1 = rd_buf r" "rd_pos r \<le> rd_pos r1" "rd_pos r1 \<le> length (rd_buf r)"
      "P a (rd_pos r1 - rd_pos r)" by simp_all
    have fr: "sound_res (\<lambda>b m. Q b ((rd_pos r1 - rd_pos r) + m)) d2 r1 (f a r1)"
      by (rule soundD [OF f [OF 1(5)]]) (simp_all add: 1)
    show ?thesis
    proof (cases "f a r1")
      case (Inl e)
      with fr show ?thesis by (simp add: Inr a)
    next
      case (Inr br)
      obtain b r2 where "br = (b, r2)" by fastforce
      with fr Inr 1 show ?thesis by (auto simp: \<open>p r = Inr ar\<close> a)
    qed
  qed
qed

lemma sound_return: "Q a 0 \<Longrightarrow> sound Q d d (\<lambda>r. Inr (a, r))"
  by (simp add: sound_def)

lemma sound_leave: "Q a 0 \<Longrightarrow> sound Q (Suc d) d (\<lambda>r. Inr (a, leave r))"
  by (simp add: sound_def leave_def)

lemma sound_fail: "e \<noteq> Out_of_fuel \<Longrightarrow> sound Q d d' (\<lambda>r. Inl e)"
  by (simp add: sound_def)

lemma sound_weaken:
  assumes "sound P d d' p" "\<And>a n. P a n \<Longrightarrow> Q a n"
  shows "sound Q d d' p"
proof (rule soundI)
  fix r :: reader assume "rd_depth r = d" "rd_pos r \<le> length (rd_buf r)"
  from soundD [OF assms(1) this] show "sound_res Q d' r (p r)"
    using assms(2) by (cases "p r" rule: sum.exhaust) auto
qed

lemma sound_if:
  "(c \<Longrightarrow> sound Q d d' p) \<Longrightarrow> (\<not> c \<Longrightarrow> sound Q d d' q) \<Longrightarrow> sound Q d d' (\<lambda>r. if c then p r else q r)"
  by (cases c) simp_all

lemma sound_byte: "sound (\<lambda>b n. n = 1) d d byte"
  by (simp add: sound_def byte_def)

lemma sound_bytes: "sound (\<lambda>b k. k = n) d d (bytes n)"
  by (simp add: sound_def bytes_def Let_def)

lemma sound_enter: "sound (\<lambda>_ k. k = 0 \<and> d < 64) d (Suc d) enter"
  by (simp add: sound_def enter_def Let_def MAX_DEPTH_def)

lemma sound_members:
  assumes "sound (\<lambda>v n. Q v \<and> value_nodes v \<le> n) d d rec"
  shows "sound (\<lambda>vs k. (\<forall>v \<in> set vs. Q v) \<and> sum_list (map value_nodes vs) \<le> k) d d (list_members rec n)"
proof (induction n)
  case 0
  show ?case by (simp add: sound_def)
next
  case (Suc n)
  have "sound (\<lambda>vs k. (\<forall>v \<in> set vs. Q v) \<and> sum_list (map value_nodes vs) \<le> k) d d
     (\<lambda>r. rbind (rec r) (\<lambda>(x, r). rbind (list_members rec n r) (\<lambda>(xs, r). Inr (x # xs, r))))"
    by (rule sound_bind [OF assms], rule sound_bind [OF Suc], rule sound_return) auto
  then show ?case by (simp add: sound_def)
qed

text \<open>What a decoded value costs: its nodes are paid for by bytes, its nesting by the depth left.\<close>

definition paid :: "nat \<Rightarrow> nat \<Rightarrow> pvalue \<Rightarrow> nat \<Rightarrow> bool" where
  "paid d c v n \<longleftrightarrow> value_nodes v \<le> c + n \<and> nest v + d \<le> 64"

lemma sound_scalar: "value_nodes v = 1 \<Longrightarrow> nest v = 0 \<Longrightarrow> d \<le> 64 \<Longrightarrow> sound (paid d 1) d d (\<lambda>r. Inr (v, r))"
  by (rule sound_return) (simp add: paid_def)

lemma max_list_le: "(\<And>n. n \<in> set ns \<Longrightarrow> n \<le> b) \<Longrightarrow> max_list ns \<le> b"
  by (induction ns) auto

lemma btree_insert_nodes:
  "sum_list (map (\<lambda>(k, v). Suc (value_nodes v)) (btree_insert k v m))
     \<le> Suc (value_nodes v) + sum_list (map (\<lambda>(k, v). Suc (value_nodes v)) m)"
  by (induction k v m rule: btree_insert.induct) auto

lemma btree_insert_values: "(k', v') \<in> set (btree_insert k v m) \<Longrightarrow> v' = v \<or> (k', v') \<in> set m"
  by (induction k v m rule: btree_insert.induct) (auto split: if_splits)

lemma sound_entries:
  assumes rec: "sound (paid d 0) d d rec"
  shows "(\<forall>(k, v) \<in> set m0. nest v + d \<le> 64) \<Longrightarrow>
    sound (\<lambda>m k. (\<forall>(k, v) \<in> set m. nest v + d \<le> 64) \<and>
       sum_list (map (\<lambda>(k, v). Suc (value_nodes v)) m) \<le> sum_list (map (\<lambda>(k, v). Suc (value_nodes v)) m0) + k)
     d d (dict_entries rec n m0)"
proof (induction n arbitrary: m0)
  case 0
  then show ?case by (simp add: sound_def)
next
  case (Suc n)
  let ?w = "\<lambda>m. sum_list (map (\<lambda>(k, v). Suc (value_nodes v)) m)"
  let ?ok = "\<lambda>m. \<forall>(k :: string, v) \<in> set m. nest v + d \<le> 64"
  have "sound (\<lambda>m k. ?ok m \<and> ?w m \<le> ?w m0 + k) d d
     (\<lambda>r. rbind (rec r) (\<lambda>(k, r). (case k of
         PString s \<Rightarrow> (\<lambda>r. rbind (rec r) (\<lambda>(v, r). dict_entries rec n (btree_insert s v m0) r))
       | other \<Rightarrow> (\<lambda>r. Inl (Non_string_key other))) r))"
  proof (rule sound_bind [OF rec], goal_cases)
    case (1 k j)
    show ?case
    proof (cases k)
      case (PString s)
      have "sound (\<lambda>m i. ?ok m \<and> ?w m \<le> ?w m0 + (j + i)) d d
          (\<lambda>r. rbind (rec r) (\<lambda>(v, r). dict_entries rec n (btree_insert s v m0) r))"
      proof (rule sound_bind [OF rec], goal_cases)
        case (1 v l)
        then have "?ok (btree_insert s v m0)"
          using Suc.prems by (auto simp: paid_def dest!: btree_insert_values)
        from Suc.IH [OF this] show ?case
          by (rule sound_weaken)
            (use \<open>paid d 0 k j\<close> \<open>paid d 0 v l\<close> btree_insert_nodes [of s v m0] in \<open>auto simp: paid_def PString\<close>)
      qed
      then show ?thesis by (simp add: PString)
    qed (simp_all add: sound_fail)
  qed
  moreover have "(\<lambda>r. rbind (rec r) (\<lambda>(k, r). (case k of
         PString s \<Rightarrow> (\<lambda>r. rbind (rec r) (\<lambda>(v, r). dict_entries rec n (btree_insert s v m0) r))
       | other \<Rightarrow> (\<lambda>r. Inl (Non_string_key other))) r)) = dict_entries rec (Suc n) m0"
    by (rule ext) (simp, rule arg_cong [where f = "rbind _"], auto split: pvalue.split)
  ultimately show ?case by (simp only:)
qed

lemma sound_sized:
  assumes "\<And>n. sound (paid d 1) d d (K n)"
  shows "sound (paid d 1) d d (\<lambda>r. rbind (size_field m b r) (\<lambda>(n, r). K n r))"
proof -
  have "sound (\<lambda>n k. True) d d (size_field m b)"
    unfolding size_field_def
    by (intro sound_if sound_bind [OF sound_byte] sound_bind [OF sound_bytes] sound_return TrueI)
  then show ?thesis
    by (rule sound_bind, intro sound_weaken [OF assms]) (auto simp: paid_def)
qed

lemma sound_string: "d \<le> 64 \<Longrightarrow> sound (paid d 1) d d (string_value n)"
  unfolding string_value_def
  by (rule sound_bind [OF sound_bytes], rule sound_return) (simp add: paid_def)

lemma sound_int_field: "d \<le> 64 \<Longrightarrow> sound (paid d 1) d d (int_field n)"
  unfolding int_field_def
  by (rule sound_bind [OF sound_bytes], rule sound_return) (simp add: paid_def)

lemma nest_members_le:
  "\<forall>v \<in> set vs. nest v + Suc d \<le> 64 \<Longrightarrow> d < 64 \<Longrightarrow> Suc (max_list (map nest vs)) + d \<le> 64"
proof -
  assume "\<forall>v \<in> set vs. nest v + Suc d \<le> 64" "d < 64"
  then have "max_list (map nest vs) \<le> 63 - d" by (intro max_list_le) auto
  with \<open>d < 64\<close> show ?thesis by simp
qed

lemma sound_members_paid:
  "sound (paid d 0) d d rec \<Longrightarrow>
    sound (\<lambda>vs k. (\<forall>v \<in> set vs. nest v + d \<le> 64) \<and> sum_list (map value_nodes vs) \<le> k) d d (list_members rec n)"
  by (rule sound_members, erule sound_weaken) (auto simp: paid_def)

lemma sound_list:
  assumes "d < 64 \<Longrightarrow> sound (paid (Suc d) 0) (Suc d) (Suc d) rec"
  shows "sound (paid d 1) d d (list_value rec n)"
  unfolding list_value_def
proof (rule sound_bind [OF sound_enter])
  fix u k assume k: "k = (0 :: nat) \<and> d < 64"
  with assms have r: "sound (paid (Suc d) 0) (Suc d) (Suc d) rec" by simp
  show "sound (\<lambda>b m. paid d 1 b (k + m)) (Suc d) d (\<lambda>r. rbind (list_members rec n r) (\<lambda>(xs, r). Inr (PList xs, leave r)))"
  proof (rule sound_bind [OF sound_members_paid [OF r]])
    fix vs m assume "(\<forall>v \<in> set vs. nest v + Suc d \<le> 64) \<and> sum_list (map value_nodes vs) \<le> m"
    then show "sound (\<lambda>b j. paid d 1 b (k + (m + j))) (Suc d) d (\<lambda>r. Inr (PList vs, leave r))"
      using k nest_members_le [of vs d] by (intro sound_leave) (simp add: paid_def)
  qed
qed

lemma sound_struct:
  assumes "d < 64 \<Longrightarrow> sound (paid (Suc d) 0) (Suc d) (Suc d) rec"
  shows "sound (paid d 1) d d (struct_value rec n)"
  unfolding struct_value_def
proof (rule sound_bind [OF sound_enter], rule sound_bind [OF sound_byte])
  fix u k sig i assume k: "k = (0 :: nat) \<and> d < 64" and i: "i = (1 :: nat)"
  with assms have r: "sound (paid (Suc d) 0) (Suc d) (Suc d) rec" by simp
  show "sound (\<lambda>b m. paid d 1 b (k + (i + m))) (Suc d) d
    (\<lambda>r. rbind (list_members rec n r) (\<lambda>(xs, r). Inr (PStruct sig xs, leave r)))"
  proof (rule sound_bind [OF sound_members_paid [OF r]])
    fix vs m assume "(\<forall>v \<in> set vs. nest v + Suc d \<le> 64) \<and> sum_list (map value_nodes vs) \<le> m"
    then show "sound (\<lambda>b j. paid d 1 b (k + (i + (m + j)))) (Suc d) d (\<lambda>r. Inr (PStruct sig vs, leave r))"
      using k nest_members_le [of vs d] by (intro sound_leave) (simp add: paid_def)
  qed
qed

lemma sound_dict:
  assumes "d < 64 \<Longrightarrow> sound (paid (Suc d) 0) (Suc d) (Suc d) rec"
  shows "sound (paid d 1) d d (dict_value rec n)"
  unfolding dict_value_def
proof (rule sound_bind [OF sound_enter])
  fix u k assume k: "k = (0 :: nat) \<and> d < 64"
  with assms have r: "sound (paid (Suc d) 0) (Suc d) (Suc d) rec" by simp
  show "sound (\<lambda>b m. paid d 1 b (k + m)) (Suc d) d (\<lambda>r. rbind (dict_entries rec n [] r) (\<lambda>(m, r). Inr (PMap m, leave r)))"
  proof (rule sound_bind [OF sound_entries [OF r]])
    fix m :: "(string \<times> pvalue) list" and j
    assume "(\<forall>(k, v) \<in> set m. nest v + Suc d \<le> 64) \<and>
      sum_list (map (\<lambda>(k, v). Suc (value_nodes v)) m) \<le> sum_list (map (\<lambda>(k, v). Suc (value_nodes v)) []) + j"
    moreover from this have "Suc (max_list (map nest (map snd m))) + d \<le> 64"
      using k by (intro nest_members_le) auto
    ultimately show "sound (\<lambda>b i. paid d 1 b (k + (j + i))) (Suc d) d (\<lambda>r. Inr (PMap m, leave r))"
      using k by (intro sound_leave) (simp add: paid_def split_def o_def)
  qed simp
qed

lemma sound_value_body:
  assumes rec: "d < 64 \<Longrightarrow> sound (paid (Suc d) 0) (Suc d) (Suc d) rec" and d: "d \<le> 64"
  shows "sound (paid d 0) d d (value_body rec)"
  unfolding value_body_def
proof (rule sound_bind [OF sound_byte])
  fix m :: u8 and n :: nat assume n: "n = 1"
  have s: "sound Q d d p \<Longrightarrow> Q = paid d 1 \<Longrightarrow> sound (\<lambda>b k. paid d 0 b (n + k)) d d p" for p Q
    by (simp add: n paid_def [abs_def])
  note scalar = sound_scalar [OF _ _ d] and str = sound_string [OF d] and int = sound_int_field [OF d]
  have float: "sound (paid d 1) d d (\<lambda>r. rbind (bytes 8 r) (\<lambda>(b, r). Inr (PFloat (of_nat (from_be b)), r)))"
    by (rule sound_bind [OF sound_bytes], rule sound_return) (use d in \<open>simp add: paid_def\<close>)
  show "sound (\<lambda>b k. paid d 0 b (n + k)) d d
   (\<lambda>r. if m = 0xC0 then Inr (PNull, r)
     else if m = 0xC2 then Inr (PBool False, r)
     else if m = 0xC3 then Inr (PBool True, r)
     else if m = 0xC1 then rbind (bytes 8 r) (\<lambda>(b, r). Inr (PFloat (of_nat (from_be b)), r))
     else if m = 0xC8 then int_field 1 r
     else if m = 0xC9 then int_field 2 r
     else if m = 0xCA then int_field 4 r
     else if m = 0xCB then int_field 8 r
     else if m \<le> 0x7F then Inr (PInt (ucast m), r)
     else if 0xF0 \<le> m then Inr (PInt (scast m), r)
     else if 0x80 \<le> m \<and> m \<le> 0x8F then string_value (unat (m AND 0x0F)) r
     else if 0xD0 \<le> m \<and> m \<le> 0xD2 then rbind (size_field m 0xD0 r) (\<lambda>(n, r). string_value n r)
     else if 0x90 \<le> m \<and> m \<le> 0x9F then list_value rec (unat (m AND 0x0F)) r
     else if 0xD4 \<le> m \<and> m \<le> 0xD6 then rbind (size_field m 0xD4 r) (\<lambda>(n, r). list_value rec n r)
     else if 0xA0 \<le> m \<and> m \<le> 0xAF then dict_value rec (unat (m AND 0x0F)) r
     else if 0xD8 \<le> m \<and> m \<le> 0xDA then rbind (size_field m 0xD8 r) (\<lambda>(n, r). dict_value rec n r)
     else if 0xB0 \<le> m \<and> m \<le> 0xBF then struct_value rec (unat (m AND 0x0F)) r
     else Inl (Unknown_marker m))"
    by (rule s [OF _ refl], intro sound_if scalar float str int sound_sized
        sound_list [OF rec] sound_dict [OF rec] sound_struct [OF rec] sound_fail) simp_all
qed

lemma value_levels_sound: "64 - d < n \<Longrightarrow> d \<le> 64 \<Longrightarrow> sound (paid d 0) d d (value_levels n)"
proof (induction n arbitrary: d)
  case (Suc n)
  have "sound (paid d 0) d d (value_body (value_levels n))"
    using Suc by (intro sound_value_body) auto
  then show ?case by (simp add: sound_def)
qed simp

text \<open>C9: a well-formed value whose containers nest at most 64 deep survives encoding and decoding,
  and the decoder stops exactly at its last byte, whatever follows.\<close>

theorem value_round_trip:
  "wf_value v \<Longrightarrow> nest v \<le> 64 \<Longrightarrow>
     read_value (new_reader (encode v @ rest)) = Inr (v, \<lparr>rd_buf = encode v @ rest, rd_pos = length (encode v), rd_depth = 0\<rparr>)"
  using value_levels_encode [of v 0 "MAX_DEPTH + 1" "[]" rest]
  by (simp add: read_value_def new_reader_def rd_at_def MAX_DEPTH_def)

theorem value_round_trip_witness:
  "read_value (new_reader (encode (PMap [(''a'', PList [PInt (- 200), PNull]), (''b'', PString ''hi'')]) @ [0]))
     = Inr (PMap [(''a'', PList [PInt (- 200), PNull]), (''b'', PString ''hi'')],
            \<lparr>rd_buf = encode (PMap [(''a'', PList [PInt (- 200), PNull]), (''b'', PString ''hi'')]) @ [0],
             rd_pos = length (encode (PMap [(''a'', PList [PInt (- 200), PNull]), (''b'', PString ''hi'')])), rd_depth = 0\<rparr>)"
  by (rule value_round_trip) (simp_all add: btree_ok_def less_char_def less_list_code valid_utf8_ascii)

text \<open>C10: the decoder answers on every byte string, at most 64 levels deep and with at most one
  node for every byte it reads: neither a lying length field nor nested headers make it work more.\<close>

theorem read_value_bounded:
  "read_value (new_reader b) \<noteq> Inl Out_of_fuel \<and>
   (\<forall>v r. read_value (new_reader b) = Inr (v, r) \<longrightarrow>
      rd_buf r = b \<and> rd_pos r \<le> length b \<and> value_nodes v \<le> rd_pos r \<and> nest v \<le> 64)"
proof -
  have "sound_res (paid 0 0) 0 (new_reader b) (read_value (new_reader b))"
    using soundD [OF value_levels_sound [of 0 "MAX_DEPTH + 1"], of "new_reader b"]
    by (simp add: read_value_def new_reader_def MAX_DEPTH_def)
  then show ?thesis
    by (cases "read_value (new_reader b)") (auto simp: paid_def new_reader_def)
qed

theorem read_value_bounded_witness:
  "value_nodes (PList [PInt 1]) \<le> 2 \<and> read_value (new_reader [0x91, 1]) = Inr (PList [PInt 1], \<lparr>rd_buf = [0x91, 1], rd_pos = 2, rd_depth = 0\<rparr>)"
proof -
  have r: "read_value (new_reader [0x91, 1]) = Inr (PList [PInt 1], \<lparr>rd_buf = [0x91, 1], rd_pos = 2, rd_depth = 0\<rparr>)"
    using value_levels_encode [of "PList [PInt 1]" 0 "MAX_DEPTH + 1" "[]" "[]"]
    by (simp add: read_value_def new_reader_def rd_at_def MAX_DEPTH_def encode_header_def encode_int_def)
  with read_value_bounded [of "[0x91, 1]"] show ?thesis by auto
qed

section \<open>Chunked messages\<close>

datatype wire_error =
    Unexpected_eof
  | Too_many_empty_chunks
  | Message_too_long
  | Bad_value decode_error

definition MAX_MESSAGE :: nat where "MAX_MESSAGE = 16 * 1024 * 1024"
definition MAX_EMPTY_CHUNKS :: nat where "MAX_EMPTY_CHUNKS = 1024"

text \<open>\<open>body.chunks(65_535)\<close>, and the message: each chunk after its 16-bit length, then a zero chunk.\<close>

function chunks :: "nat \<Rightarrow> 'a list \<Rightarrow> 'a list list" where
  "chunks k xs = (if xs = [] \<or> k = 0 then [] else take k xs # chunks k (drop k xs))"
  by pat_completeness auto
termination
  by (relation "measure (\<lambda>(k, xs). length xs)") auto

declare chunks.simps [simp del]

definition write_message :: "pvalue \<Rightarrow> u8 list" where
  "write_message msg =
     concat (map (\<lambda>c. to_be 2 (of_nat (length c) :: u16) @ c) (chunks 65535 (encode msg))) @ [0, 0]"

text \<open>\<open>read_exact\<close> on what the peer sends; \<open>read_message\<close> returns the value and the bytes after the message.\<close>

definition read_exact :: "nat \<Rightarrow> u8 list \<Rightarrow> (u8 list \<times> u8 list) option" where
  "read_exact n wire = (if length wire < n then None else Some (take n wire, drop n wire))"

lemma read_exact_length: "read_exact n wire = Some (a, b) \<Longrightarrow> length wire = n + length b \<and> length a = n"
  by (auto simp: read_exact_def split: if_splits)

lemma read_exact_append [simp]: "length a = n \<Longrightarrow> read_exact n (a @ b) = Some (a, b)"
  by (simp add: read_exact_def)

function read_chunks :: "u8 list \<Rightarrow> u8 list \<Rightarrow> nat \<Rightarrow> wire_error + u8 list \<times> u8 list" where
  "read_chunks wire body idle =
     (case read_exact 2 wire of
        None \<Rightarrow> Inl Unexpected_eof
      | Some (hdr, wire) \<Rightarrow>
          (let n = from_be hdr in
           if n = 0 then
             (if body = [] then
                (if idle + 1 > MAX_EMPTY_CHUNKS then Inl Too_many_empty_chunks
                 else read_chunks wire body (idle + 1))
              else Inr (body, wire))
           else if length body + n > MAX_MESSAGE then Inl Message_too_long
           else (case read_exact n wire of
                   None \<Rightarrow> Inl Unexpected_eof
                 | Some (chunk, wire) \<Rightarrow> read_chunks wire (body @ chunk) idle)))"
  by pat_completeness auto
termination
  by (relation "measure (\<lambda>(wire, body, idle). length wire)") (auto dest!: read_exact_length)

declare read_chunks.simps [simp del]

definition read_message :: "u8 list \<Rightarrow> wire_error + pvalue \<times> u8 list" where
  "read_message wire = rbind (read_chunks wire [] 0) (\<lambda>(body, rest).
     case read_value (new_reader body) of
       Inl e \<Rightarrow> Inl (Bad_value e)
     | Inr (v, _) \<Rightarrow> Inr (v, rest))"

lemma chunks_concat: "0 < k \<Longrightarrow> concat (chunks k xs) = xs"
proof (induction k xs rule: chunks.induct)
  case (1 k xs)
  then show ?case by (subst chunks.simps) simp
qed

lemma chunks_size: "c \<in> set (chunks k xs) \<Longrightarrow> 0 < length c \<and> length c \<le> k"
proof (induction k xs rule: chunks.induct)
  case (1 k xs)
  from "1.prems" have "xs \<noteq> []" "0 < k" "c = take k xs \<or> c \<in> set (chunks k (drop k xs))"
    by (subst (asm) chunks.simps; auto split: if_splits)+
  with "1.IH" show ?case by auto
qed

lemma read_chunks_data:
  assumes "0 < length c" "length c \<le> 65535" "length body + length c \<le> MAX_MESSAGE"
  shows "read_chunks (to_be 2 (of_nat (length c) :: u16) @ c @ wire) body idle = read_chunks wire (body @ c) idle"
proof -
  have "from_be (to_be 2 (of_nat (length c) :: u16)) = length c"
    using assms by (simp add: from_to_be unsigned_of_nat take_bit_nat_eq_self del: to_be.simps)
  then show ?thesis
    using assms by (subst read_chunks.simps) (simp add: Let_def del: to_be.simps)
qed

lemma read_chunks_empty: "from_be [0, 0] = 0"
  by (simp add: from_be_Cons)

lemma read_exact_zero: "read_exact 2 (0 # 0 # wire) = Some ([0, 0], wire)"
  using read_exact_append [of "[0, 0]" 2 wire] by simp

lemma read_chunks_end: "body \<noteq> [] \<Longrightarrow> read_chunks (0 # 0 # wire) body idle = Inr (body, wire)"
  by (subst read_chunks.simps) (simp add: read_exact_zero read_chunks_empty)

lemma read_chunks_keepalive:
  "idle < MAX_EMPTY_CHUNKS \<Longrightarrow> read_chunks (0 # 0 # wire) [] idle = read_chunks wire [] (idle + 1)"
  by (subst read_chunks.simps) (simp add: read_exact_zero read_chunks_empty)

lemma read_chunks_keepalives:
  "idle + k \<le> MAX_EMPTY_CHUNKS \<Longrightarrow>
     read_chunks (concat (replicate k [0, 0]) @ wire) [] idle = read_chunks wire [] (idle + k)"
  by (induction k arbitrary: idle) (simp_all add: read_chunks_keepalive)

lemma read_chunks_all:
  "\<forall>c \<in> set cs. 0 < length c \<and> length c \<le> 65535 \<Longrightarrow> body @ concat cs \<noteq> [] \<Longrightarrow>
     length body + length (concat cs) \<le> MAX_MESSAGE \<Longrightarrow>
     read_chunks (concat (map (\<lambda>c. to_be 2 (of_nat (length c) :: u16) @ c) cs) @ 0 # 0 # wire) body idle
       = Inr (body @ concat cs, wire)"
proof (induction cs arbitrary: body)
  case Nil
  then show ?case by (simp add: read_chunks_end)
next
  case (Cons c cs)
  then have "read_chunks (concat (map (\<lambda>c. to_be 2 (of_nat (length c) :: u16) @ c) cs) @ 0 # 0 # wire) (body @ c) idle
      = Inr ((body @ c) @ concat cs, wire)"
    by (intro Cons.IH) auto
  with Cons.prems show ?case by (simp add: read_chunks_data del: to_be.simps)
qed

lemma encode_nonempty: "encode v \<noteq> []"
  by (cases v) (auto simp: encode_int_def encode_string_def encode_header_def Let_def)

definition sendable :: "pvalue \<Rightarrow> bool" where
  "sendable v \<longleftrightarrow> wf_value v \<and> nest v \<le> 64 \<and> length (encode v) \<le> MAX_MESSAGE"

lemma read_message_keepalives:
  "k \<le> MAX_EMPTY_CHUNKS \<Longrightarrow> write_message v @ rest = wire \<Longrightarrow> sendable v \<Longrightarrow>
     read_message (concat (replicate k [0, 0]) @ wire) = Inr (v, rest)"
proof -
  assume k: "k \<le> MAX_EMPTY_CHUNKS" and w: "write_message v @ rest = wire" and v: "sendable v"
  have "read_chunks wire [] k = Inr (encode v, rest)"
    using v read_chunks_all [of "chunks 65535 (encode v)" "[]" rest k] chunks_size [of _ 65535 "encode v"] encode_nonempty
    by (simp add: write_message_def chunks_concat sendable_def del: to_be.simps flip: w)
  moreover have "read_value (new_reader (encode v)) = Inr (v, rd_at (encode v) [] 0)"
    using v value_levels_encode [of v 0 "MAX_DEPTH + 1" "[]" "[]"]
    by (simp add: read_value_def new_reader_def rd_at_def MAX_DEPTH_def sendable_def)
  ultimately show ?thesis
    using read_chunks_keepalives [of 0 k wire] k by (simp add: read_message_def)
qed

lemma read_write_message: "sendable v \<Longrightarrow> read_message (write_message v @ rest) = Inr (v, rest)"
  using read_message_keepalives [of 0 v rest] by simp

text \<open>Both encoders obey the framing law: values inside a message, messages on the wire.\<close>

definition decode_prefix :: "u8 list \<Rightarrow> decode_error + pvalue \<times> u8 list" where
  "decode_prefix w = rbind (read_value (new_reader w)) (\<lambda>(v, r). Inr (v, drop (rd_pos r) w))"

interpretation pack_values: framing encode decode_prefix "\<lambda>v. wf_value v \<and> nest v \<le> 64"
proof
  fix v rest assume "wf_value v \<and> nest v \<le> 64"
  then show "decode_prefix (encode v @ rest) = Inr (v, rest)"
    using value_levels_encode [of v 0 "MAX_DEPTH + 1" "[]" rest]
    by (simp add: decode_prefix_def read_value_def new_reader_def rd_at_def MAX_DEPTH_def)
qed

interpretation pack_messages: framing write_message read_message sendable
  by unfold_locales (rule read_write_message)

text \<open>C11: a message written as chunks is read back as it was, after any allowed number of keep-alive
  chunks and with whatever the peer sends next left on the wire.\<close>

theorem message_round_trip:
  "sendable v \<Longrightarrow> k \<le> MAX_EMPTY_CHUNKS \<Longrightarrow>
     read_message (concat (replicate k [0, 0]) @ write_message v @ rest) = Inr (v, rest)"
  by (rule read_message_keepalives [OF _ refl])

theorem message_round_trip_witness:
  "read_message (concat (replicate 2 [0, 0]) @ write_message (PStruct 0x7E [PInt 1]) @ [7]) = Inr (PStruct 0x7E [PInt 1], [7])"
  by (rule message_round_trip)
    (simp_all add: sendable_def MAX_MESSAGE_def MAX_EMPTY_CHUNKS_def encode_int_def)

text \<open>No two different values have encodings of which one starts with the other, so
  the boundaries between the values of a message are never ambiguous.\<close>

theorem encode_prefix_free:
  "wf_value v \<Longrightarrow> nest v \<le> 64 \<Longrightarrow> wf_value v' \<Longrightarrow> nest v' \<le> 64 \<Longrightarrow> encode v @ rest = encode v' @ rest' \<Longrightarrow>
     v = v' \<and> rest = rest'"
  using pack_values.no_confusion by blast

theorem encode_prefix_free_witness:
  "PInt 1 = PInt 1 \<and> [7 :: u8] = [7]"
  by (rule encode_prefix_free) simp_all

lemma read_chunks_cut_off:
  "2 * (MAX_EMPTY_CHUNKS + 1 - idle) + 3 * (MAX_MESSAGE - length body) \<le> length wire \<Longrightarrow>
    idle \<le> MAX_EMPTY_CHUNKS \<Longrightarrow> length body \<le> MAX_MESSAGE \<Longrightarrow> read_chunks wire body idle \<noteq> Inl Unexpected_eof"
proof (induction wire body idle rule: read_chunks.induct)
  case (1 wire body idle)
  from "1.prems" have "2 \<le> length wire" by auto
  then obtain hdr w where hdr: "read_exact 2 wire = Some (hdr, w)" by (auto simp: read_exact_def)
  then have w: "length wire = 2 + length w" using read_exact_length by blast
  let ?n = "from_be hdr"
  consider (keepalive) "?n = 0" "body = []" "idle < MAX_EMPTY_CHUNKS" | (stop) "?n = 0" "body \<noteq> [] \<or> idle \<ge> MAX_EMPTY_CHUNKS"
    | (long) "?n \<noteq> 0" "length body + ?n > MAX_MESSAGE" | (data) "?n \<noteq> 0" "length body + ?n \<le> MAX_MESSAGE"
    by linarith
  then show ?case
  proof cases
    case keepalive
    have "read_chunks w body (idle + 1) \<noteq> Inl Unexpected_eof"
      by (rule "1.IH"(1) [OF hdr refl refl]) (use keepalive "1.prems" w in auto)
    with keepalive hdr show ?thesis by (subst read_chunks.simps) simp
  next
    case data
    with "1.prems" w have "?n \<le> length w" by auto
    then obtain c w' where c: "read_exact ?n w = Some (c, w')" by (auto simp: read_exact_def)
    then have w': "length w = ?n + length w'" "length c = ?n" using read_exact_length by blast+
    have "read_chunks w' (body @ c) idle \<noteq> Inl Unexpected_eof"
      by (rule "1.IH"(2) [OF hdr refl refl _ _ c refl]) (use data "1.prems" w w' in auto)
    with data hdr c show ?thesis by (subst read_chunks.simps) simp
  qed (use hdr in \<open>subst read_chunks.simps; auto\<close>)+
qed

lemma read_chunks_shrinks: "read_chunks wire body idle = Inr (b, rest) \<Longrightarrow> length rest < length wire"
proof (induction wire body idle rule: read_chunks.induct)
  case (1 wire body idle)
  from "1.prems" obtain hdr w where hdr: "read_exact 2 wire = Some (hdr, w)"
    by (subst (asm) read_chunks.simps) (auto split: option.splits)
  then have w: "length wire = 2 + length w" using read_exact_length by blast
  let ?n = "from_be hdr"
  show ?case
  proof (cases "?n = 0")
    case True
    show ?thesis
    proof (cases "body = []")
      case b: True
      with "1.prems" hdr True have "idle < MAX_EMPTY_CHUNKS" "read_chunks w body (idle + 1) = Inr (b, rest)"
        by (subst (asm) read_chunks.simps; simp split: if_splits)+
      with "1.IH"(1) [OF hdr refl refl True b] w show ?thesis by simp
    next
      case False
      with "1.prems" hdr True have "rest = w" by (subst (asm) read_chunks.simps) simp
      with w show ?thesis by simp
    qed
  next
    case False
    with "1.prems" hdr have long: "\<not> length body + ?n > MAX_MESSAGE"
      by (subst (asm) read_chunks.simps) (auto split: if_splits)
    with "1.prems" hdr False obtain c w' where c: "read_exact ?n w = Some (c, w')"
      by (subst (asm) read_chunks.simps) (auto split: option.splits)
    with "1.prems" hdr False long have "read_chunks w' (body @ c) idle = Inr (b, rest)"
      by (subst (asm) read_chunks.simps) simp
    from "1.IH"(2) [OF hdr refl refl False long c refl this] w read_exact_length [OF c]
    show ?thesis by simp
  qed
qed

lemma read_message_shrinks: "read_message wire = Inr (v, rest) \<Longrightarrow> length rest < length wire"
proof -
  assume "read_message wire = Inr (v, rest)"
  then obtain body r1 where 1: "read_chunks wire [] 0 = Inr (body, r1)"
    "(case read_value (new_reader body) of Inl e \<Rightarrow> Inl (Bad_value e) | Inr (v, _) \<Rightarrow> Inr (v, r1)) = Inr (v, rest)"
    by (auto simp: read_message_def rbind_eq_Inr_iff)
  then have "r1 = rest" by (cases "read_value (new_reader body)") (auto split: prod.splits)
  with 1 show ?thesis using read_chunks_shrinks by blast
qed

text \<open>C12: a peer that keeps sending is cut off: whatever the bytes, after 50,333,698 of them a message
  has been read or refused, without waiting for more.\<close>

theorem read_message_cut_off:
  "50333698 \<le> length wire \<Longrightarrow> read_message wire \<noteq> Inl Unexpected_eof"
proof -
  assume "50333698 \<le> length wire"
  then have "read_chunks wire [] 0 \<noteq> Inl Unexpected_eof"
    by (intro read_chunks_cut_off) (simp_all add: MAX_MESSAGE_def MAX_EMPTY_CHUNKS_def)
  then show ?thesis
    by (cases "read_chunks wire [] 0") (auto simp: read_message_def split: sum.splits)
qed

theorem read_message_cut_off_witness:
  "read_message (replicate 50333698 0x91) \<noteq> Inl Unexpected_eof"
  by (rule read_message_cut_off) (simp only: length_replicate)

end
