(* ===== verification/Float64.thy ===== *)
theory Float64
  imports Prelude
begin

text \<open>
  Rust's \<open>f64\<close> as its 64 bits.  \<open>f64_of_ratio\<close> rounds a non-negative rational to the nearest double,
  ties to even, as \<open>str::parse::<f64>\<close> and the casts from integers do; \<open>f64_mantissa\<close> and \<open>f64_scale\<close> read
  a finite double back, and \<open>show_f64\<close> prints it.  The lemmas bound the error of rounding a quotient to an
  integer by one half; \<open>Float_Ops\<close> has the arithmetic.
\<close>

type_synonym f64 = u64

definition f64_exp :: "f64 \<Rightarrow> nat" where
  "f64_exp x = unat x div 2 ^ 52 mod 2 ^ 11"

definition f64_frac :: "f64 \<Rightarrow> nat" where
  "f64_frac x = unat x mod 2 ^ 52"

definition f64_neg :: "f64 \<Rightarrow> bool" where
  "f64_neg x \<longleftrightarrow> 2 ^ 63 \<le> unat x"

definition f64_is_nan :: "f64 \<Rightarrow> bool" where
  "f64_is_nan x \<longleftrightarrow> f64_exp x = 2047 \<and> f64_frac x \<noteq> 0"

definition f64_is_finite :: "f64 \<Rightarrow> bool" where
  "f64_is_finite x \<longleftrightarrow> f64_exp x < 2047"

definition f64_inf :: f64 where "f64_inf = 0x7FF0000000000000"
definition f64_nan :: f64 where "f64_nan = 0x7FF8000000000000"

text \<open>A finite double is \<open>mantissa * 2 ^ scale / 2 ^ 1074\<close>.\<close>

definition f64_mantissa :: "f64 \<Rightarrow> nat" where
  "f64_mantissa x = (if f64_exp x = 0 then f64_frac x else 2 ^ 52 + f64_frac x)"

definition f64_scale :: "f64 \<Rightarrow> nat" where
  "f64_scale x = f64_exp x - 1"

text \<open>\<open>num / den\<close> in units of \<open>2 ^ (s - 1074)\<close>, rounded to an integer, ties to even.\<close>

definition div_even :: "nat \<Rightarrow> nat \<Rightarrow> nat" where
  "div_even n d = (let q = n div d; r = n mod d in
     if 2 * r > d \<or> (2 * r = d \<and> odd q) then q + 1 else q)"

fun bit_len :: "nat \<Rightarrow> nat" where
  "bit_len n = (if n = 0 then 0 else Suc (bit_len (n div 2)))"

declare bit_len.simps [simp del]

lemma bit_len_numeral [simp]:
  "bit_len 0 = 0" "bit_len (Suc 0) = 1"
  "bit_len (numeral Num.One) = 1"
  "bit_len (numeral (Num.Bit0 k)) = Suc (bit_len (numeral k))"
  "bit_len (numeral (Num.Bit1 k)) = Suc (bit_len (numeral k))"
  by (simp_all add: bit_len.simps [of 0] bit_len.simps [of "Suc 0"] bit_len.simps [of "numeral _"])

definition scaled :: "nat \<Rightarrow> nat \<Rightarrow> int \<Rightarrow> nat \<times> nat" where
  "scaled num den t = (if 0 \<le> t then (num, den * 2 ^ nat t) else (num * 2 ^ nat (- t), den))"

text \<open>The exponent of the unit in the last place of \<open>num / den\<close>: the quotient then has 53 bits, or the
  unit is the smallest one, \<open>2 ^ -1074\<close>.\<close>

definition ulp_exponent :: "nat \<Rightarrow> nat \<Rightarrow> int" where
  "ulp_exponent num den =
     (let k = int (bit_len num) - int (bit_len den); (n, d) = scaled num den k;
          e = (if d \<le> n then k else k - 1)
      in max (- 1074) (e - 52))"

definition f64_of_ratio :: "nat \<Rightarrow> nat \<Rightarrow> f64" where
  "f64_of_ratio num den =
     (let t = ulp_exponent num den; (n, d) = scaled num den t; bits = nat (t + 1074) * 2 ^ 52 + div_even n d
      in if num = 0 then 0 else if 2047 * 2 ^ 52 \<le> bits then f64_inf else of_nat bits)"

definition f64_signed :: "bool \<Rightarrow> f64 \<Rightarrow> f64" where
  "f64_signed neg x = (if neg then x OR 0x8000000000000000 else x)"

definition f64_of_int :: "int \<Rightarrow> f64" where
  "f64_of_int i = f64_signed (i < 0) (f64_of_ratio (nat (abs i)) 1)"

section \<open>Decimal text\<close>

text \<open>\<open>f64::to_string\<close>: the shortest decimal number that rounds to the double, the closest one of that
  length, written without an exponent.  A finite double is \<open>num / 2 ^ 1074\<close>; \<open>decimal_point num den\<close> is the
  \<open>k\<close> with \<open>10 ^ (k - 1) <= num / den < 10 ^ k\<close>.\<close>

definition decimal_point :: "nat \<Rightarrow> nat \<Rightarrow> int" where
  "decimal_point num den =
     (if den \<le> num then int (length (show_nat (num div den)))
      else (let t = length (show_nat (den div num)) - 1 in if num * 10 ^ t = den then 1 - int t else - int t))"

definition decimal_ratio :: "nat \<Rightarrow> int \<Rightarrow> nat \<times> nat" where
  "decimal_ratio d e = (if 0 \<le> e then (d * 10 ^ nat e, 1) else (d, 10 ^ nat (- e)))"

definition round_trips :: "f64 \<Rightarrow> nat \<Rightarrow> int \<Rightarrow> bool" where
  "round_trips x d e = (case decimal_ratio d e of (n, m) \<Rightarrow> f64_of_ratio n m = x)"

fun shortest :: "nat \<Rightarrow> nat \<Rightarrow> nat \<Rightarrow> f64 \<Rightarrow> nat \<Rightarrow> nat \<times> int" where
  "shortest 0 num den x n = (0, 0)"
| "shortest (Suc left) num den x n =
     (let e = decimal_point num den - int n;
          (a, b) = (if 0 \<le> e then (num, den * 10 ^ nat e) else (num * 10 ^ nat (- e), den));
          low = a div b;
          (near, far) = (if 2 * (a mod b) \<le> b then (low, low + 1) else (low + 1, low))
      in if round_trips x near e then (near, e) else if round_trips x far e then (far, e)
         else shortest left num den x (n + 1))"

definition show_decimal :: "nat \<Rightarrow> int \<Rightarrow> string" where
  "show_decimal d e =
     (if 0 \<le> e then show_nat d @ replicate (nat e) (CHR ''0'')
      else (let k = nat (- e); ds = show_nat d; ds = replicate (k + 1 - length ds) (CHR ''0'') @ ds
            in take (length ds - k) ds @ ''.'' @ drop (length ds - k) ds))"

definition f64_abs :: "f64 \<Rightarrow> f64" where
  "f64_abs x = x AND 0x7FFFFFFFFFFFFFFF"

definition show_f64 :: "f64 \<Rightarrow> string" where
  "show_f64 x =
     (if f64_is_nan x then ''NaN''
      else (if f64_neg x then ''-'' else '''') @
        (let x = f64_abs x in
         if x = f64_inf then ''inf'' else if x = 0 then ''0''
         else case shortest 17 (f64_mantissa x * 2 ^ f64_scale x) (2 ^ 1074) x 1 of (d, e) \<Rightarrow>
           if d mod 10 = 0 then show_decimal (d div 10) (e + 1) else show_decimal d e))"

lemma div_even_half:
  assumes "0 < d"
  shows "2 * (div_even n d * d) \<le> 2 * n + d" "2 * n \<le> 2 * (div_even n d * d) + d"
proof -
  define q r A where "q = n div d" and "r = n mod d" and "A = q * d"
  then have n: "n = A + r" and r: "r < d" using assms by (simp_all add: mult.commute)
  have "2 * (div_even n d * d) \<le> 2 * n + d \<and> 2 * n \<le> 2 * (div_even n d * d) + d"
  proof (cases "2 * r > d \<or> (2 * r = d \<and> odd q)")
    case True
    then have "div_even n d * d = A + d" by (simp add: div_even_def q_def r_def A_def Let_def)
    with True n r show ?thesis by linarith
  next
    case False
    then have "div_even n d * d = A" by (auto simp: div_even_def q_def r_def A_def Let_def)
    with False n r show ?thesis by linarith
  qed
  then show "2 * (div_even n d * d) \<le> 2 * n + d" "2 * n \<le> 2 * (div_even n d * d) + d" by simp_all
qed

lemma bit_len_bounds: "0 < n \<Longrightarrow> 2 ^ (bit_len n - 1) \<le> n \<and> n < 2 ^ bit_len n"
proof (induction n rule: bit_len.induct)
  case (1 n)
  show ?case
  proof (cases "n = 1")
    case True
    then show ?thesis by (simp add: bit_len.simps [of "Suc 0"] bit_len.simps [of 0])
  next
    case False
    with 1 have IH: "2 ^ (bit_len (n div 2) - 1) \<le> n div 2" "n div 2 < 2 ^ bit_len (n div 2)" by auto
    then have "0 < bit_len (n div 2)" by (cases "bit_len (n div 2)") auto
    then have "(2 :: nat) * 2 ^ (bit_len (n div 2) - 1) = 2 ^ bit_len (n div 2)"
      by (metis Suc_diff_1 power_Suc)
    with IH "1.prems" show ?thesis by (subst (1 2) bit_len.simps) auto
  qed
qed

lemma div_even_exact [simp]: "0 < d \<Longrightarrow> div_even (q * d) d = q"
  by (simp add: div_even_def)

end
