(* ===== verification/Json.thy ===== *)
theory Json
  imports Utf8 Float64
begin

text \<open>
  The values of \<open>serde_json\<close> as the program builds and inspects them: numbers keep the
  representation they were parsed or made with, an object is its entries in the order of the keys
  (a \<open>BTreeMap\<close>).  The text of a value and its parser belong to the library and are parameters
  of the components that use them.
\<close>

datatype jnum = PosInt u64 | NegInt i64 | JFloat f64

datatype json =
    JNull
  | JBool bool
  | JNum jnum
  | JStr string
  | JArr "json list"
  | JObj "(string \<times> json) list"

fun num_as_i64 :: "jnum \<Rightarrow> i64 option" where
  "num_as_i64 (PosInt n) = (if unat n < 2 ^ 63 then Some n else None)"
| "num_as_i64 (NegInt i) = Some i"
| "num_as_i64 (JFloat f) = None"

fun num_as_f64 :: "jnum \<Rightarrow> f64 option" where
  "num_as_f64 (PosInt n) = Some (f64_of_int (uint n))"
| "num_as_f64 (NegInt i) = Some (f64_of_int (sint i))"
| "num_as_f64 (JFloat f) = Some f"

fun json_as_i64 :: "json \<Rightarrow> i64 option" where
  "json_as_i64 (JNum n) = num_as_i64 n"
| "json_as_i64 _ = None"

fun json_as_str :: "json \<Rightarrow> string option" where
  "json_as_str (JStr s) = Some s"
| "json_as_str _ = None"

fun json_as_bool :: "json \<Rightarrow> bool option" where
  "json_as_bool (JBool b) = Some b"
| "json_as_bool _ = None"

fun json_get :: "json \<Rightarrow> string \<Rightarrow> json option" where
  "json_get (JObj m) k = map_of m k"
| "json_get _ k = None"

text \<open>\<open>Value::from(i64)\<close> and \<open>Value::from(f64)\<close>: a float that JSON cannot write is null.\<close>

definition json_of_i64 :: "i64 \<Rightarrow> json" where
  "json_of_i64 i = JNum (if 0 \<le> sint i then PosInt i else NegInt i)"

definition json_of_f64 :: "f64 \<Rightarrow> json" where
  "json_of_f64 f = (if f64_is_finite f then JNum (JFloat f) else JNull)"

lemma json_as_i64_of_i64 [simp]: "json_as_i64 (json_of_i64 i) = Some i"
  using unat_of_sint [of i] by (simp add: json_of_i64_def)

end
