(* ===== verification/Bolt_Session.thy ===== *)
theory Bolt_Session
  imports Packstream Json
begin

text \<open>
  One Bolt connection (\<open>bolt/src/session.rs\<close>): version negotiation, the message loop with its
  state machine (\<open>Ready\<close>, \<open>Streaming\<close>, \<open>Failed\<close>), transactions and their settings, running a query,
  streaming its rows, and the mapping between Bolt values and JSON.  A method of \<open>Session\<close> is an
  action on the record \<open>session\<close>; the PostgreSQL client it holds, the texts of JSON and the process
  id are the parameters of the record \<open>world\<close>.
\<close>

section \<open>Protocol constants\<close>

definition MAGIC :: "u8 list" where "MAGIC = [0x60, 0x60, 0xB0, 0x17]"
definition BOLT_4_4 :: u32 where "BOLT_4_4 = 0x00000404"
definition NO_VERSION :: u32 where "NO_VERSION = 0"

definition HELLO :: u8 where "HELLO = 0x01"
definition GOODBYE :: u8 where "GOODBYE = 0x02"
definition RESET :: u8 where "RESET = 0x0F"
definition RUN :: u8 where "RUN = 0x10"
definition BEGIN :: u8 where "BEGIN = 0x11"
definition COMMIT :: u8 where "COMMIT = 0x12"
definition ROLLBACK :: u8 where "ROLLBACK = 0x13"
definition DISCARD :: u8 where "DISCARD = 0x2F"
definition PULL :: u8 where "PULL = 0x3F"
definition ROUTE :: u8 where "ROUTE = 0x66"

definition SUCCESS :: u8 where "SUCCESS = 0x70"
definition RECORD :: u8 where "RECORD = 0x71"
definition IGNORED :: u8 where "IGNORED = 0x7E"
definition FAILURE :: u8 where "FAILURE = 0x7F"

definition NODE :: u8 where "NODE = 0x4E"
definition RELATIONSHIP :: u8 where "RELATIONSHIP = 0x52"

lemmas signatures = HELLO_def GOODBYE_def RESET_def RUN_def BEGIN_def COMMIT_def ROLLBACK_def
  DISCARD_def PULL_def ROUTE_def SUCCESS_def RECORD_def IGNORED_def FAILURE_def

section \<open>State\<close>

datatype state = Ready | Streaming | Failed

record config =
  pg_host :: string
  pg_port :: u16
  pg_database :: string
  default_graph :: string
  advertised :: string

record 'c session =
  pg :: "'c option"
  state :: state
  graph :: string
  in_tx :: bool
  pending :: "pvalue list"
  open_fields :: "string list"
  cursor :: nat
  qtype :: string
  tx_meta :: "(string \<times> string) list"

text \<open>A failed operation answers with a code and a message; slicing a string inside a character panics.\<close>

datatype failure = Failure string string | Panic

text \<open>What the session is given: the configuration, the PostgreSQL client (an error is the text
  \<open>pg_message\<close> extracts from it) and the JSON library.  \<open>pg_text\<close> and \<open>pg_strings\<close> are
  \<open>query_one\<close> with \<open>row.get(0)\<close> as text and as \<open>text[]\<close>, \<open>pg_rows\<close> is \<open>query\<close>.\<close>

record 'c world =
  config_of :: config
  process_id :: nat
  pg_connect :: "config \<Rightarrow> string \<Rightarrow> string option \<Rightarrow> string + 'c"
  pg_batch :: "string \<Rightarrow> 'c \<Rightarrow> (string + unit) \<times> 'c"
  pg_execute :: "string \<Rightarrow> string list \<Rightarrow> 'c \<Rightarrow> (string + unit) \<times> 'c"
  pg_text :: "string \<Rightarrow> string list \<Rightarrow> 'c \<Rightarrow> (string + string) \<times> 'c"
  pg_strings :: "string \<Rightarrow> string list \<Rightarrow> 'c \<Rightarrow> (string + string list) \<times> 'c"
  pg_rows :: "string \<Rightarrow> string list \<Rightarrow> 'c \<Rightarrow> (string + string option list) \<times> 'c"
  json_text :: "json \<Rightarrow> string"
  json_parse :: "string \<Rightarrow> json option"

type_synonym ('c, 'a) act = "'c session \<Rightarrow> (failure + 'a) \<times> 'c session"

text \<open>\<open>?\<close> on a method of \<open>&mut self\<close>: the state stays changed when the method fails.\<close>

definition ret :: "'a \<Rightarrow> ('c, 'a) act" where
  "ret a s = (Inr a, s)"

definition fail :: "failure \<Rightarrow> ('c, 'a) act" where
  "fail e s = (Inl e, s)"

definition abind :: "('c, 'a) act \<Rightarrow> ('a \<Rightarrow> ('c, 'b) act) \<Rightarrow> ('c, 'b) act" where
  "abind m f s = (case m s of (Inl e, s) \<Rightarrow> (Inl e, s) | (Inr a, s) \<Rightarrow> f a s)"

definition change :: "('c session \<Rightarrow> 'c session) \<Rightarrow> ('c, unit) act" where
  "change f s = (Inr (), f s)"

definition andThen :: "('c, 'a) act \<Rightarrow> ('c, 'b) act \<Rightarrow> ('c, 'b) act" where
  "andThen m k = abind m (\<lambda>_. k)"

definition reading :: "('c session \<Rightarrow> ('c, 'a) act) \<Rightarrow> ('c, 'a) act" where
  "reading f s = f s s"

section \<open>Failures\<close>

definition from_pg :: "string \<Rightarrow> failure" where
  "from_pg message = Failure
     (if contains ''not supported'' message \<or> contains ''expected'' message \<or>
         contains ''unknown label'' message \<or> contains ''is not defined'' message
      then ''Neo.ClientError.Statement.SyntaxError''
      else if contains ''does not exist'' message then ''Neo.ClientError.Database.DatabaseNotFound''
      else if contains ''permission denied'' message then ''Neo.ClientError.Security.Forbidden''
      else ''Neo.ClientError.Statement.ArgumentError'') message"

fun into_message :: "failure \<Rightarrow> pvalue" where
  "into_message (Failure code message) =
     PStruct FAILURE [pmap [(''code'', PString code), (''message'', PString message)]]"
| "into_message Panic = PNull"

section \<open>Values and JSON\<close>

text \<open>\<open>{:02X}\<close>.\<close>

definition hex_digit :: "nat \<Rightarrow> char" where
  "hex_digit n = char_of (if n < 10 then 48 + n else 55 + n)"

definition hex_u8 :: "u8 \<Rightarrow> string" where
  "hex_u8 b = [hex_digit (unat b div 16), hex_digit (unat b mod 16)]"

fun to_json :: "pvalue \<Rightarrow> json" where
  "to_json PNull = JNull"
| "to_json (PBool b) = JBool b"
| "to_json (PInt i) = json_of_i64 i"
| "to_json (PFloat f) = json_of_f64 f"
| "to_json (PString s) = JStr s"
| "to_json (PList xs) = JArr (map to_json xs)"
| "to_json (PMap m) = JObj (map (\<lambda>(k, v). (k, to_json v)) m)"
| "to_json (PStruct sig fs) = JStr (''<unsupported struct 0x'' @ hex_u8 sig @ ''>'')"

text \<open>The representation of one object: a relationship, a node, or a map.  The entries arrive already
  converted; those whose key starts with an underscore are not properties.\<close>

definition bolt_object :: "(string \<times> json) list \<Rightarrow> (string \<times> pvalue) list \<Rightarrow> pvalue" where
  "bolt_object m entries =
     (let props = PMap (filter (\<lambda>(k, v). \<not> starts_with ''_'' k) entries);
          int_at = (\<lambda>k. Option.bind (map_of m k) json_as_i64) in
      case (int_at ''_id'', Option.bind (map_of m ''_type'') json_as_str) of
        (Some i, Some ty) \<Rightarrow>
          (case (int_at ''_src'', int_at ''_dst'') of
             (Some src, Some dst) \<Rightarrow> PStruct RELATIONSHIP [PInt i, PInt src, PInt dst, PString ty, props]
           | _ \<Rightarrow> PStruct NODE [PInt i, PList [PString ty], props])
      | _ \<Rightarrow> PMap entries)"

fun to_bolt :: "json \<Rightarrow> pvalue" where
  "to_bolt JNull = PNull"
| "to_bolt (JBool b) = PBool b"
| "to_bolt (JNum n) = (case num_as_i64 n of
       Some i \<Rightarrow> PInt i
     | None \<Rightarrow> PFloat (case num_as_f64 n of Some f \<Rightarrow> f | None \<Rightarrow> f64_nan))"
| "to_bolt (JStr s) = PString s"
| "to_bolt (JArr xs) = PList (map to_bolt xs)"
| "to_bolt (JObj m) = bolt_object m (map (\<lambda>(k, v). (k, to_bolt v)) m)"

definition record_of :: "json \<Rightarrow> string list \<Rightarrow> pvalue" where
  "record_of j fs = PList (map (\<lambda>f. case json_get j f of Some v \<Rightarrow> to_bolt v | None \<Rightarrow> PNull) fs)"

section \<open>Transaction settings\<close>

definition TX_SETTINGS :: "(string \<times> string) list" where
  "TX_SETTINGS =
    [(''actor'', ''og.actor''),
     (''source'', ''og.source''),
     (''reason'', ''og.reason''),
     (''request_id'', ''og.request_id''),
     (''requestId'', ''og.request_id''),
     (''valid_at'', ''og.valid_at''),
     (''validAt'', ''og.valid_at''),
     (''system_at'', ''og.system_at''),
     (''systemAt'', ''og.system_at''),
     (''valid_from'', ''og.valid_from''),
     (''validFrom'', ''og.valid_from''),
     (''valid_to'', ''og.valid_to''),
     (''validTo'', ''og.valid_to'')]"

fun setting_text :: "(json \<Rightarrow> string) \<Rightarrow> pvalue \<Rightarrow> string option" where
  "setting_text jt (PString s) = Some s"
| "setting_text jt PNull = None"
| "setting_text jt other = Some (case to_json other of JStr s \<Rightarrow> s | j \<Rightarrow> jt j)"

fun collect_settings ::
  "(json \<Rightarrow> string) \<Rightarrow> (string \<times> pvalue) list \<Rightarrow> (string \<times> string) list \<Rightarrow> (string \<times> string) list
     \<Rightarrow> (string \<times> string) list" where
  "collect_settings jt meta [] out = out"
| "collect_settings jt meta ((key, setting) # table) out =
     (case map_of meta key of
        None \<Rightarrow> collect_settings jt meta table out
      | Some v \<Rightarrow> (case setting_text jt v of
            None \<Rightarrow> collect_settings jt meta table out
          | Some text \<Rightarrow> collect_settings jt meta table
              (if setting \<in> set (map fst out) then out else out @ [(setting, text)])))"

definition tx_settings :: "(json \<Rightarrow> string) \<Rightarrow> pvalue \<Rightarrow> (string \<times> string) list" where
  "tx_settings jt extra = (case map_get extra ''tx_metadata'' of
       Some (PMap meta) \<Rightarrow> collect_settings jt meta TX_SETTINGS []
     | _ \<Rightarrow> [])"

section \<open>Version negotiation\<close>

definition speaks :: "u32 \<Rightarrow> bool" where
  "speaks proposal =
     (let major = proposal AND 0xFF; minor = drop_bit 8 proposal AND 0xFF; range = drop_bit 16 proposal AND 0xFF
      in major = 4 \<and> 4 \<le> minor \<and> minor - min range minor \<le> 4)"

definition proposals :: "u8 list \<Rightarrow> u32 list" where
  "proposals bs = map (\<lambda>c. of_nat (from_be c)) (chunks 4 bs)"

text \<open>Nothing for a stream without the magic, else the version answered and whether the session goes on.\<close>

definition handshake :: "u8 list \<Rightarrow> (u8 list \<times> bool) option" where
  "handshake preamble =
     (if take 4 preamble \<noteq> MAGIC then None
      else let agreed = (case find speaks (proposals (drop 4 preamble)) of
             Some _ \<Rightarrow> BOLT_4_4 | None \<Rightarrow> NO_VERSION)
        in Some (to_be 4 agreed, agreed \<noteq> NO_VERSION))"

section \<open>The PostgreSQL client\<close>

definition unauthorized :: failure where
  "unauthorized = Failure ''Neo.ClientError.Security.Unauthorized'' ''no HELLO on this connection''"

text \<open>A call on \<open>self.client()?\<close>.\<close>

definition with_client :: "('c \<Rightarrow> (string + 'a) \<times> 'c) \<Rightarrow> ('c, 'a) act" where
  "with_client call s = (case pg s of
       None \<Rightarrow> (Inl unauthorized, s)
     | Some c \<Rightarrow> (case call c of (r, c) \<Rightarrow>
         (case r of Inl msg \<Rightarrow> Inl (from_pg msg) | Inr a \<Rightarrow> Inr a, s\<lparr>pg := Some c\<rparr>)))"

definition sql :: "'c world \<Rightarrow> string \<Rightarrow> ('c, unit) act" where
  "sql w stmt = with_client (pg_batch w stmt)"

fun apply_settings :: "'c world \<Rightarrow> (string \<times> string) list \<Rightarrow> ('c, unit) act" where
  "apply_settings w [] = ret ()"
| "apply_settings w ((k, v) # settings) =
     andThen (with_client (pg_execute w ''SELECT set_config($1, $2, true)'' [k, v])) (apply_settings w settings)"

definition write_stats :: "'c world \<Rightarrow> 'c session \<Rightarrow> pvalue option \<times> 'c session" where
  "write_stats w s = (case pg s of
       None \<Rightarrow> (None, s)
     | Some c \<Rightarrow> (case pg_text w ''SELECT og_cypher_stats()::text'' [] c of (r, c) \<Rightarrow>
         (case r of Inl _ \<Rightarrow> None | Inr raw \<Rightarrow> map_option to_bolt (json_parse w raw), s\<lparr>pg := Some c\<rparr>)))"

definition is_write :: "'c world \<Rightarrow> string \<Rightarrow> ('c, bool) act" where
  "is_write w query =
     abind (with_client (pg_text w ''SELECT og_cypher_check($1::text)::text'' [query])) (\<lambda>raw.
       let check = (case json_parse w raw of Some j \<Rightarrow> j | None \<Rightarrow> JNull) in
       if Option.bind (json_get check ''ok'') json_as_bool \<noteq> Some True
       then fail (Failure ''Neo.ClientError.Statement.SyntaxError''
              (case Option.bind (json_get check ''error'') json_as_str of
                 Some msg \<Rightarrow> msg | None \<Rightarrow> ''query did not parse''))
       else ret (case Option.bind (json_get check ''write'') json_as_bool of Some b \<Rightarrow> b | None \<Rightarrow> False))"

section \<open>Session operations\<close>

definition hello :: "'c world \<Rightarrow> pvalue \<Rightarrow> ('c, pvalue) act" where
  "hello w extra s =
     (let text_at = (\<lambda>k. case Option.bind (map_get extra k) as_str of Some t \<Rightarrow> t | None \<Rightarrow> []);
          user = text_at ''principal''; password = text_at ''credentials'' in
      case pg_connect w (config_of w) user (if password \<noteq> [] then Some password else None) of
        Inl msg \<Rightarrow> (Inl (Failure ''Neo.ClientError.Security.Unauthorized'' msg), s)
      | Inr client \<Rightarrow>
          (Inr (pmap [(''server'', PString ''Neo4j/4.4.0 (ontological-bolt)''),
                      (''connection_id'', PString (''bolt-'' @ show_nat (process_id w))),
                      (''hints'', PMap [])]),
           s\<lparr>pg := Some client\<rparr>))"

definition reset :: "'c world \<Rightarrow> ('c, pvalue) act" where
  "reset w s =
     (let s = s\<lparr>pending := [], cursor := 0\<rparr>;
          s = (if in_tx s
               then (case pg s of Some c \<Rightarrow> s\<lparr>pg := Some (snd (pg_batch w ''ROLLBACK'' c))\<rparr> | None \<Rightarrow> s)\<lparr>in_tx := False\<rparr>
               else s)
      in (Inr (PMap []), s\<lparr>state := Ready\<rparr>))"

definition select_graph :: "'c world \<Rightarrow> pvalue \<Rightarrow> 'c session \<Rightarrow> 'c session" where
  "select_graph w extra s =
     (let keep_or_default = (if in_tx s then s else s\<lparr>graph := default_graph (config_of w)\<rparr>) in
      case Option.bind (map_get extra ''db'') as_str of
        Some db \<Rightarrow> if db \<noteq> [] \<and> db \<noteq> ''neo4j'' \<and> db \<noteq> ''system'' then s\<lparr>graph := db\<rparr> else keep_or_default
      | None \<Rightarrow> keep_or_default)"

definition begin_tx :: "'c world \<Rightarrow> pvalue \<Rightarrow> ('c, pvalue) act" where
  "begin_tx w extra =
     andThen (change (select_graph w extra))
     (andThen (sql w ''BEGIN'')
     (andThen (change (\<lambda>s. s\<lparr>in_tx := True, tx_meta := tx_settings (json_text w) extra\<rparr>))
     (andThen (reading (\<lambda>s. apply_settings w (tx_meta s)))
     (ret (PMap [])))))"

definition end_tx :: "'c world \<Rightarrow> string \<Rightarrow> ('c, pvalue) act" where
  "end_tx w verb =
     andThen (sql w verb)
     (andThen (change (\<lambda>s. s\<lparr>in_tx := False, tx_meta := []\<rparr>))
     (ret (pmap [(''bookmark'', PString ''ontological:0'')])))"

definition routing_table :: "'c world \<Rightarrow> 'c session \<Rightarrow> pvalue" where
  "routing_table w s =
     (let addr = PString (advertised (config_of w));
          servers = map (\<lambda>role. pmap [(''addresses'', PList [addr]), (''role'', PString role)])
                        [''WRITE'', ''READ'', ''ROUTE'']
      in pmap [(''rt'', pmap [(''ttl'', PInt 300), (''db'', PString (graph s)), (''servers'', PList servers)])])"

section \<open>Running a query\<close>

text \<open>\<open>None\<close>: one of the two byte slices \<open>trimmed[..7]\<close>, \<open>rest[..6]\<close> cuts a character and panics.\<close>

fun plan_prefix :: "string list \<Rightarrow> string \<Rightarrow> string \<Rightarrow> (string \<times> bool) option" where
  "plan_prefix [] query trimmed = Some (query, False)"
| "plan_prefix (kw # kws) query trimmed =
     (if length trimmed > length kw then
        (case slice_to (length kw) trimmed of
           None \<Rightarrow> None
         | Some word \<Rightarrow>
             if eq_ignore_ascii_case word kw \<and> is_space_b (trimmed ! length kw) then
               (let rest = trim_start (drop (length kw) trimmed) in
                if length rest > 6 then
                  (case slice_to 6 rest of
                     None \<Rightarrow> None
                   | Some next \<Rightarrow> if eq_ignore_ascii_case next ''fabric'' \<and> is_space_b (rest ! 6)
                       then Some (query, False) else Some (rest, True))
                else Some (rest, True))
             else plan_prefix kws query trimmed)
      else plan_prefix kws query trimmed)"

definition split_plan_prefix :: "string \<Rightarrow> (string \<times> bool) option" where
  "split_plan_prefix query = plan_prefix [''explain'', ''profile''] query (trim_start query)"

fun collect_records :: "(string \<Rightarrow> json option) \<Rightarrow> string option list \<Rightarrow> string list \<Rightarrow> pvalue list \<times> string list" where
  "collect_records parse [] fields_out = ([], fields_out)"
| "collect_records parse (raw # rows) fields_out =
     (let j = (case raw of Some t \<Rightarrow> (case parse t of Some j \<Rightarrow> j | None \<Rightarrow> JNull) | None \<Rightarrow> JNull);
          fields_out = (if fields_out = [] then (case j of JObj m \<Rightarrow> map fst m | _ \<Rightarrow> fields_out) else fields_out);
          (records, fs) = collect_records parse rows fields_out
      in (record_of j fields_out # records, fs))"

text \<open>Run an action, hand its result on as a value.\<close>

definition attempt :: "('c, 'a) act \<Rightarrow> ('c, failure + 'a) act" where
  "attempt m s = (case m s of (r, s) \<Rightarrow> (Inr r, s))"

definition result_opened :: "string list \<Rightarrow> pvalue" where
  "result_opened fs = pmap [(''fields'', PList (map PString fs)), (''t_first'', PInt 0), (''qid'', PInt (- 1))]"

text \<open>The settings an auto-commit query brings hold only inside a transaction of its own.\<close>

definition open_own_tx :: "'c world \<Rightarrow> (string \<times> string) list \<Rightarrow> ('c, unit) act" where
  "open_own_tx w own =
     (if own = [] then ret ()
      else andThen (sql w ''BEGIN'') (abind (attempt (apply_settings w own)) (\<lambda>r. case r of
          Inl f \<Rightarrow> andThen (attempt (sql w ''ROLLBACK'')) (fail f)
        | Inr _ \<Rightarrow> ret ())))"

definition query_rows :: "'c world \<Rightarrow> bool \<Rightarrow> string \<Rightarrow> string \<Rightarrow> ('c, string option list) act" where
  "query_rows w wrap query params_json =
     abind (attempt (reading (\<lambda>s. with_client (pg_rows w
                ''SELECT og_cypher($1::text, $2::text, $3::text::jsonb)::text'' [graph s, query, params_json])))) (\<lambda>rows.
       case (rows, wrap) of
         (Inr r, True) \<Rightarrow> andThen (sql w ''COMMIT'') (ret r)
       | (Inr r, False) \<Rightarrow> ret r
       | (Inl f, True) \<Rightarrow> andThen (attempt (sql w ''ROLLBACK'')) (fail f)
       | (Inl f, False) \<Rightarrow> fail f)"

definition open_result :: "string list \<Rightarrow> pvalue list \<Rightarrow> ('c, pvalue) act" where
  "open_result fs records =
     andThen (change (\<lambda>s. s\<lparr>open_fields := fs, pending := records, cursor := 0, state := Streaming\<rparr>))
     (ret (result_opened fs))"

definition run_body :: "'c world \<Rightarrow> pvalue \<Rightarrow> string \<Rightarrow> string \<Rightarrow> ('c, pvalue) act" where
  "run_body w extra query params_json =
     abind (with_client (pg_strings w ''SELECT og_cypher_columns($1::text)'' [query])) (\<lambda>columns.
     reading (\<lambda>s. let own = (if in_tx s then [] else tx_settings (json_text w) extra) in
       andThen (open_own_tx w own)
       (abind (query_rows w (own \<noteq> []) query params_json) (\<lambda>rows.
         let (records, fields_out) = collect_records (json_parse w) rows columns in
         open_result fields_out records))))"

definition run_query :: "'c world \<Rightarrow> pvalue list \<Rightarrow> ('c, pvalue) act" where
  "run_query w fs =
     (let extra = (if length fs > 2 then fs ! 2 else PNull);
          params = (if length fs > 1 then fs ! 1 else PNull) in
      case (case fs of [] \<Rightarrow> None | f # _ \<Rightarrow> as_str f) of
        None \<Rightarrow> fail (Failure ''Neo.ClientError.Request.Invalid'' ''RUN without a query'')
      | Some query \<Rightarrow>
          andThen (change (select_graph w extra))
          (case split_plan_prefix query of
             None \<Rightarrow> fail Panic
           | Some (body, plan_only) \<Rightarrow>
               abind (is_write w body) (\<lambda>write.
               andThen (change (\<lambda>s. s\<lparr>qtype := (if write then ''w'' else ''r'')\<rparr>))
               (if plan_only then open_result [] []
                else run_body w extra query (json_text w (to_json params))))))"

section \<open>Streaming and the message loop\<close>

datatype 'c outcome =
    Reply "pvalue list" "'c session"
  | Closed
  | Not_a_message
  | Panicked

text \<open>The summary of an exhausted result; \<open>write_stats\<close> may use the client.\<close>

definition finish :: "'c world \<Rightarrow> 'c session \<Rightarrow> (string \<times> pvalue) list \<times> 'c session" where
  "finish w s =
     (let s = s\<lparr>state := Ready, pending := [], cursor := 0\<rparr>;
          (stats, s) = (if qtype s = ''w'' then write_stats w s else (None, s))
      in ([(''type'', PString (qtype s))] @ (case stats of Some v \<Rightarrow> [(''stats'', v)] | None \<Rightarrow> []) @
          [(''db'', PString (graph s))] @ (if \<not> in_tx s then [(''bookmark'', PString ''ontological:0'')] else []), s))"

definition pull :: "'c world \<Rightarrow> pvalue \<Rightarrow> bool \<Rightarrow> 'c session \<Rightarrow> 'c outcome" where
  "pull w extra deliver s =
     (if state s \<noteq> Streaming then
        Reply [into_message (Failure ''Neo.ClientError.Request.Invalid'' ''no result is open on this connection'')]
          (s\<lparr>state := Failed\<rparr>)
      else
        let want = (case Option.bind (map_get extra ''n'') as_i64 of Some n \<Rightarrow> n | None \<Rightarrow> - 1);
            remaining = length (pending s) - cursor s;
            count = (if sint want < 0 then remaining else min (unat want) remaining);
            records = (if deliver
                       then map (\<lambda>i. PStruct RECORD [pending s ! (cursor s + i)]) [0..<count] else []);
            s = s\<lparr>cursor := cursor s + count\<rparr>;
            has_more = cursor s < length (pending s);
            (more, s) = (if has_more then ([(''has_more'', PBool True)], s) else finish w s)
        in Reply (records @ [PStruct SUCCESS [pmap ([(''t_last'', PInt 0)] @ more)]]) s)"

definition pop_field :: "pvalue list \<Rightarrow> pvalue" where
  "pop_field fs = (if fs = [] then PNull else last fs)"

definition invalid_message :: "u8 \<Rightarrow> failure" where
  "invalid_message other = Failure ''Neo.ClientError.Request.Invalid'' (''unsupported Bolt message 0x'' @ hex_u8 other)"

definition operation :: "'c world \<Rightarrow> u8 \<Rightarrow> pvalue list \<Rightarrow> ('c, pvalue) act" where
  "operation w sig fs =
     (if sig = HELLO then hello w (pop_field fs)
      else if sig = RUN then run_query w fs
      else if sig = BEGIN then begin_tx w (pop_field fs)
      else if sig = COMMIT then end_tx w ''COMMIT''
      else if sig = ROLLBACK then end_tx w ''ROLLBACK''
      else if sig = RESET then reset w
      else if sig = ROUTE then (\<lambda>s. (Inr (routing_table w s), s))
      else fail (invalid_message sig))"

definition dispatch :: "'c world \<Rightarrow> u8 \<Rightarrow> pvalue list \<Rightarrow> 'c session \<Rightarrow> 'c outcome" where
  "dispatch w sig fs s =
     (if sig = PULL then pull w (pop_field fs) True s
      else if sig = DISCARD then pull w (pop_field fs) False s
      else case operation w sig fs s of
        (Inr meta, s) \<Rightarrow> Reply [PStruct SUCCESS [meta]] s
      | (Inl Panic, s) \<Rightarrow> Panicked
      | (Inl f, s) \<Rightarrow> Reply [into_message f] (s\<lparr>state := Failed\<rparr>))"

text \<open>One turn of the loop in \<open>run\<close>.\<close>

definition serve_message :: "'c world \<Rightarrow> pvalue \<Rightarrow> 'c session \<Rightarrow> 'c outcome" where
  "serve_message w msg s = (case msg of
       PStruct sig fs \<Rightarrow>
         if sig = GOODBYE then Closed
         else if state s = Failed \<and> sig \<noteq> RESET then Reply [PStruct IGNORED []] s
         else dispatch w sig fs s
     | _ \<Rightarrow> Not_a_message)"

definition new_session :: "'c world \<Rightarrow> 'c session" where
  "new_session w = \<lparr>pg = None, state = Ready, graph = default_graph (config_of w), in_tx = False, pending = [],
     open_fields = [], cursor = 0, qtype = ''r'', tx_meta = []\<rparr>"

section \<open>Whole conversations\<close>

text \<open>How a conversation stands when there is no further message: waiting for one, or over.\<close>

datatype 'c ending =
    Waiting "'c session"
  | Hung_up
  | Protocol_error
  | Crashed
  | Bad_wire wire_error

fun run_messages :: "'c world \<Rightarrow> pvalue list \<Rightarrow> 'c session \<Rightarrow> pvalue list \<times> 'c ending" where
  "run_messages w [] s = ([], Waiting s)"
| "run_messages w (m # ms) s = (case serve_message w m s of
       Reply out s \<Rightarrow> (case run_messages w ms s of (outs, e) \<Rightarrow> (out @ outs, e))
     | Closed \<Rightarrow> ([], Hung_up)
     | Not_a_message \<Rightarrow> ([], Protocol_error)
     | Panicked \<Rightarrow> ([], Crashed))"

text \<open>\<open>Session::run\<close> on the bytes the peer sends, and \<open>serve\<close> with the negotiation before it.\<close>

function run_wire :: "'c world \<Rightarrow> u8 list \<Rightarrow> 'c session \<Rightarrow> pvalue list \<times> 'c ending" where
  "run_wire w wire s = (case read_message wire of
       Inl e \<Rightarrow> ([], Bad_wire e)
     | Inr (m, wire') \<Rightarrow> (case serve_message w m s of
           Reply out s \<Rightarrow> (case run_wire w wire' s of (outs, e) \<Rightarrow> (out @ outs, e))
         | Closed \<Rightarrow> ([], Hung_up)
         | Not_a_message \<Rightarrow> ([], Protocol_error)
         | Panicked \<Rightarrow> ([], Crashed)))"
  by pat_completeness auto
termination
  by (relation "measure (\<lambda>(w, wire, s). length wire)") (auto dest: read_message_shrinks)

declare run_wire.simps [simp del]

definition serve :: "'c world \<Rightarrow> u8 list \<Rightarrow> u8 list \<times> 'c ending" where
  "serve w wire = (case read_exact 20 wire of
       None \<Rightarrow> ([], Bad_wire Unexpected_eof)
     | Some (preamble, wire) \<Rightarrow> (case handshake preamble of
           None \<Rightarrow> ([], Hung_up)
         | Some (answer, agreed) \<Rightarrow>
             if agreed then (case run_wire w wire (new_session w) of
                 (outs, e) \<Rightarrow> (answer @ concat (map write_message outs), e))
             else (answer, Hung_up)))"

text \<open>What the client's messages do does not depend on how they are framed: the replies to the
  bytes of a list of messages are those to the messages.\<close>

theorem session_over_wire:
  "\<forall>m \<in> set ms. sendable m \<Longrightarrow>
     fst (run_wire w (concat (map write_message ms)) s) = fst (run_messages w ms s)"
proof (induction ms arbitrary: s)
  case Nil
  have "read_message [] = Inl Unexpected_eof"
    by (simp add: read_message_def read_chunks.simps [of "[]"] read_exact_def)
  then show ?case by (simp add: run_wire.simps)
next
  case (Cons m ms)
  then have "read_message (write_message m @ concat (map write_message ms)) = Inr (m, concat (map write_message ms))"
    by (intro pack_messages.read_write) simp
  with Cons show ?case
    by (subst run_wire.simps) (simp split: outcome.split add: split_def)
qed

section \<open>The session invariant\<close>

definition session_ok :: "'c session \<Rightarrow> bool" where
  "session_ok s \<longleftrightarrow> cursor s \<le> length (pending s) \<and> (state s = Ready \<longrightarrow> pending s = [] \<and> cursor s = 0)"




























lemma reset_ready: "operation w RESET fs s = (Inr (PMap []), snd (reset w s)) \<and>
   state (snd (reset w s)) = Ready \<and> pending (snd (reset w s)) = [] \<and> cursor (snd (reset w s)) = 0 \<and>
   \<not> in_tx (snd (reset w s))"
  by (simp add: operation_def signatures reset_def Let_def split: option.split)

lemma write_stats_frame: "write_stats w s = (r, s') \<Longrightarrow>
    state s' = state s \<and> pending s' = pending s \<and> cursor s' = cursor s \<and> in_tx s' = in_tx s \<and> qtype s' = qtype s"
  by (auto simp: write_stats_def split: option.splits prod.splits)

lemma finish_ready: "finish w s = (m, s') \<Longrightarrow> state s' = Ready \<and> pending s' = [] \<and> cursor s' = 0"
  by (auto simp: finish_def Let_def split: if_splits prod.splits dest!: write_stats_frame)

text \<open>What \<open>PULL\<close> and \<open>DISCARD\<close> do, in one place: how many records they pass, and what is left.\<close>

definition pull_count :: "pvalue \<Rightarrow> 'c session \<Rightarrow> nat" where
  "pull_count extra s =
     (let want = (case Option.bind (map_get extra ''n'') as_i64 of Some n \<Rightarrow> n | None \<Rightarrow> - 1);
          remaining = length (pending s) - cursor s
      in if sint want < 0 then remaining else min (unat want) remaining)"

lemma map_nth_drop: "k \<le> length xs - c \<Longrightarrow> map (\<lambda>i. f (xs ! (c + i))) [0..<k] = map f (take k (drop c xs))"
  by (rule nth_equalityI) auto

lemma pull_streaming:
  assumes "state s = Streaming"
  obtains meta s' where
    "pull w extra deliver s = Reply ((if deliver then map (\<lambda>r. PStruct RECORD [r])
        (take (pull_count extra s) (drop (cursor s) (pending s))) else []) @ [PStruct SUCCESS [pmap meta]]) s'"
    "if cursor s + pull_count extra s < length (pending s)
     then s' = s\<lparr>cursor := cursor s + pull_count extra s\<rparr> \<and> (''has_more'', PBool True) \<in> set meta
     else state s' = Ready \<and> pending s' = [] \<and> cursor s' = 0"
proof -
  let ?k = "pull_count extra s"
  let ?s = "s\<lparr>cursor := cursor s + ?k\<rparr>"
  obtain m s1 where fin: "finish w ?s = (m, s1)" by fastforce
  have k: "?k \<le> length (pending s) - cursor s" by (simp add: pull_count_def Let_def)
  let ?meta = "(''t_last'', PInt 0) #
    (if cursor s + ?k < length (pending s) then [(''has_more'', PBool True)] else m)"
  let ?s' = "if cursor s + ?k < length (pending s) then ?s else s1"
  have "pull w extra deliver s = Reply ((if deliver then map (\<lambda>r. PStruct RECORD [r])
        (take ?k (drop (cursor s) (pending s))) else []) @ [PStruct SUCCESS [pmap ?meta]]) ?s'"
    using assms fin map_nth_drop [OF k, of "\<lambda>r. PStruct RECORD [r]"]
    by (simp add: pull_def Let_def flip: pull_count_def [unfolded Let_def])
  then show ?thesis
    using finish_ready [OF fin] by (intro that) auto
qed


lemma dispatch_operation:
  assumes "dispatch w sig fs s = Reply out s'" "sig \<noteq> PULL" "sig \<noteq> DISCARD"
  obtains (ok) meta where "operation w sig fs s = (Inr meta, s')" "out = [PStruct SUCCESS [meta]]"
  | (err) f s1 where "operation w sig fs s = (Inl f, s1)" "f \<noteq> Panic" "out = [into_message f]" "s' = s1\<lparr>state := Failed\<rparr>"
proof -
  obtain r s1 where op: "operation w sig fs s = (r, s1)" by fastforce
  show ?thesis
  proof (cases r)
    case (Inr meta)
    with assms op ok show ?thesis by (simp add: dispatch_def)
  next
    case (Inl f)
    with assms op err show ?thesis by (cases f) (auto simp: dispatch_def)
  qed
qed





text \<open>A concrete world for the witnesses: the client is the log of the statements it was sent, every
  statement succeeds and every query is a read of two rows.\<close>

definition log_world :: "string list world" where
  "log_world =
     \<lparr>config_of = \<lparr>pg_host = ''localhost'', pg_port = 5432, pg_database = ''og'', default_graph = ''default'',
                   advertised = ''localhost:7687''\<rparr>,
      process_id = 7,
      pg_connect = (\<lambda>c user password. Inr []),
      pg_batch = (\<lambda>q log. (Inr (), log @ [q])),
      pg_execute = (\<lambda>q ps log. (Inr (), log @ [q])),
      pg_text = (\<lambda>q ps log. (Inr [], log @ [q])),
      pg_strings = (\<lambda>q ps log. (Inr [''n''], log @ [q])),
      pg_rows = (\<lambda>q ps log. (Inr [None, None], log @ [q])),
      json_text = (\<lambda>j. ''{}''),
      json_parse = (\<lambda>t. Some (JObj [(''ok'', JBool True), (''write'', JBool False)]))\<rparr>"

theorem session_over_wire_witness:
  "fst (run_wire log_world (concat (map write_message [PStruct RESET [], PStruct HELLO [PMap []]])) (new_session log_world)) =
   fst (run_messages log_world [PStruct RESET [], PStruct HELLO [PMap []]] (new_session log_world))"
  by (rule session_over_wire) (simp add: sendable_def MAX_MESSAGE_def signatures encode_header_def btree_ok_def)

lemma new_session_ok: "session_ok (new_session w)"
  by (simp add: new_session_def session_ok_def)


text \<open>C7: after a failure every message is ignored, without touching the session or the database,
  until \<open>RESET\<close>; then the session is ready again, outside any transaction.\<close>

theorem failed_until_reset:
  "state s = Failed \<Longrightarrow> \<forall>m \<in> set ms. \<exists>sig fs. m = PStruct sig fs \<and> sig \<noteq> RESET \<and> sig \<noteq> GOODBYE \<Longrightarrow>
     \<exists>s'. run_messages w (ms @ [PStruct RESET []]) s
          = (replicate (length ms) (PStruct IGNORED []) @ [PStruct SUCCESS [PMap []]], Waiting s') \<and>
        state s' = Ready \<and> pending s' = [] \<and> \<not> in_tx s' \<and> graph s' = graph s"
proof (induction ms)
  case Nil
  have "dispatch w RESET [] s = Reply [PStruct SUCCESS [PMap []]] (snd (reset w s))"
    using reset_ready [of w "[]" s] by (simp add: dispatch_def signatures)
  moreover have "graph (snd (reset w s)) = graph s"
    by (simp add: reset_def Let_def split: option.split)
  ultimately show ?case
    using reset_ready [of w "[]" s] by (simp add: serve_message_def signatures)
next
  case (Cons m ms)
  then obtain s' where "run_messages w (ms @ [PStruct RESET []]) s
          = (replicate (length ms) (PStruct IGNORED []) @ [PStruct SUCCESS [PMap []]], Waiting s')"
    "state s' = Ready" "pending s' = []" "\<not> in_tx s'" "graph s' = graph s" by auto
  moreover have "serve_message w m s = Reply [PStruct IGNORED []] s"
    using Cons.prems by (auto simp: serve_message_def)
  ultimately show ?case by simp
qed

theorem failed_until_reset_witness:
  "\<exists>s'. run_messages log_world ([PStruct RUN [PString ''RETURN 1''], PStruct PULL []] @ [PStruct RESET []])
            ((new_session log_world)\<lparr>state := Failed\<rparr>)
          = (replicate (length [PStruct RUN [PString ''RETURN 1''], PStruct PULL []]) (PStruct IGNORED []) @
               [PStruct SUCCESS [PMap []]], Waiting s') \<and>
        state s' = Ready \<and> pending s' = [] \<and> \<not> in_tx s' \<and> graph s' = graph ((new_session log_world)\<lparr>state := Failed\<rparr>)"
  by (rule failed_until_reset) (simp_all add: signatures)

section \<open>Streaming a result\<close>

definition pull_n :: "i64 \<Rightarrow> pvalue" where
  "pull_n n = PStruct PULL [PMap [(''n'', PInt n)]]"

definition rows_of :: "pvalue list \<Rightarrow> pvalue list" where
  "rows_of outs = concat (map (\<lambda>m. case m of PStruct sig [r] \<Rightarrow> if sig = RECORD then [r] else [] | _ \<Rightarrow> []) outs)"

lemma rows_of_append [simp]: "rows_of (a @ b) = rows_of a @ rows_of b"
  by (simp add: rows_of_def)

lemma rows_of_records [simp]: "rows_of (map (\<lambda>r. PStruct RECORD [r]) rs) = rs"
  by (induction rs) (simp_all add: rows_of_def)

lemma rows_of_summary [simp]: "sig \<noteq> RECORD \<Longrightarrow> rows_of (PStruct sig meta # outs) = rows_of outs"
  by (simp add: rows_of_def split: list.split)

lemma rows_of_Nil [simp]: "rows_of [] = []"
  by (simp add: rows_of_def)

lemma summary_not_record [simp]: "SUCCESS \<noteq> RECORD" "FAILURE \<noteq> RECORD" "IGNORED \<noteq> RECORD"
  by (simp_all add: signatures)

lemma serve_pull:
  "serve_message w (pull_n n) s =
     (if state s = Failed then Reply [PStruct IGNORED []] s else pull w (PMap [(''n'', PInt n)]) True s)"
  by (simp add: serve_message_def pull_n_def dispatch_def pop_field_def signatures)

lemma pulls_idle: "state s \<noteq> Streaming \<Longrightarrow> rows_of (fst (run_messages w (map pull_n ns) s)) = []"
proof (induction ns arbitrary: s)
  case (Cons n ns)
  show ?case
  proof (cases "state s = Failed")
    case True
    with Cons.IH [OF Cons.prems] show ?thesis
      by (simp add: serve_pull split_def)
  next
    case False
    let ?s = "s\<lparr>state := Failed\<rparr>"
    have "rows_of (fst (run_messages w (map pull_n ns) ?s)) = []" by (rule Cons.IH) simp
    with False Cons.prems show ?thesis
      by (simp add: serve_pull pull_def split_def)
  qed
qed (simp add: rows_of_def)

text \<open>C8: pulling an open result in batches of any sizes delivers its rows in order, each once, and
  never more than was asked for.\<close>

theorem pull_batches:
  "state s = Streaming \<Longrightarrow> \<forall>n \<in> set ns. 0 \<le> sint n \<Longrightarrow>
     rows_of (fst (run_messages w (map pull_n ns) s)) = take (sum_list (map unat ns)) (drop (cursor s) (pending s))"
proof (induction ns arbitrary: s)
  case (Cons n ns)
  let ?e = "PMap [(''n'', PInt n)]" and ?k = "pull_count (PMap [(''n'', PInt n)]) s"
  have k: "?k = min (unat n) (length (pending s) - cursor s)"
    using Cons.prems by (simp add: pull_count_def)
  obtain meta s' where p:
    "pull w ?e True s = Reply (map (\<lambda>r. PStruct RECORD [r]) (take ?k (drop (cursor s) (pending s))) @
        [PStruct SUCCESS [pmap meta]]) s'"
    "if cursor s + ?k < length (pending s) then s' = s\<lparr>cursor := cursor s + ?k\<rparr> \<and> (''has_more'', PBool True) \<in> set meta
     else state s' = Ready \<and> pending s' = [] \<and> cursor s' = 0"
    using pull_streaming [OF Cons.prems(1), of w ?e True] by auto
  have step: "rows_of (fst (run_messages w (map pull_n (n # ns)) s))
      = take ?k (drop (cursor s) (pending s)) @ rows_of (fst (run_messages w (map pull_n ns) s'))"
    using p(1) Cons.prems by (simp add: serve_pull split_def)
  show ?case
  proof (cases "cursor s + ?k < length (pending s)")
    case True
    with p(2) have s': "s' = s\<lparr>cursor := cursor s + ?k\<rparr>" by simp
    from True k have "?k = unat n" by auto
    moreover have "rows_of (fst (run_messages w (map pull_n ns) s'))
        = take (sum_list (map unat ns)) (drop (cursor s') (pending s'))"
      using Cons.prems by (intro Cons.IH) (simp_all add: s')
    ultimately show ?thesis
      using step by (simp add: s' take_add add.commute)
  next
    case False
    with p(2) have "state s' = Ready" by simp
    then have "rows_of (fst (run_messages w (map pull_n ns) s')) = []" by (intro pulls_idle) simp
    moreover have "length (pending s) - cursor s \<le> unat n" using False k by auto
    ultimately show ?thesis using step k by simp
  qed
qed (simp add: rows_of_def)

theorem pull_batches_witness:
  "rows_of (fst (run_messages log_world (map pull_n [2, 5])
      ((new_session log_world)\<lparr>state := Streaming, pending := [PInt 1, PInt 2, PInt 3]\<rparr>))) = [PInt 1, PInt 2, PInt 3]"
  by (subst pull_batches) (simp_all add: new_session_def)

section \<open>Without HELLO\<close>

lemma no_client: "pg s = None \<Longrightarrow> with_client call s = (Inl unauthorized, s)"
  by (simp add: with_client_def)

lemma select_graph_pg [simp]: "pg (select_graph w extra s) = pg s"
  by (simp add: select_graph_def Let_def split: option.split)

lemma run_query_no_client:
  assumes "pg s = None"
  shows "\<exists>e s'. run_query w fs s = (Inl e, s') \<and> pg s' = None"
proof -
  have "pg (select_graph w extra s) = None" for extra using assms by simp
  note no = no_client [OF this]
  show ?thesis
    unfolding run_query_def Let_def
    by (simp add: fail_def andThen_def abind_def change_def is_write_def no assms split: option.split)
qed

text \<open>Before a successful \<open>HELLO\<close> nothing reaches PostgreSQL: no other message gives the session a
  client, and running a query or handling a transaction fails.\<close>

theorem nothing_before_hello:
  assumes "pg s = None" "sig \<noteq> HELLO" "serve_message w (PStruct sig fs) s = Reply out s'"
  shows "pg s' = None \<and> (sig \<in> {RUN, BEGIN, COMMIT, ROLLBACK} \<longrightarrow> state s' = Failed)"
proof (cases "sig = GOODBYE \<or> state s = Failed \<and> sig \<noteq> RESET")
  case True
  with assms(3) have "s' = s" "state s = Failed" by (auto simp: serve_message_def split: if_splits)
  with assms(1) show ?thesis by simp
next
  case False
  with assms have d: "dispatch w sig fs s = Reply out s'" by (auto simp: serve_message_def)
  show ?thesis
  proof (cases "sig = PULL \<or> sig = DISCARD")
    case True
    then have "pull w (pop_field fs) (sig = PULL) s = Reply out s'"
      using d by (auto simp: dispatch_def signatures)
    with assms(1) True show ?thesis
      by (auto simp: pull_def Let_def finish_def write_stats_def signatures split: if_splits prod.splits)
  next
    case no: False
    have select: "pg (select_graph w extra s) = None" for extra using assms(1) by simp
    from no have "sig \<noteq> PULL" "sig \<noteq> DISCARD" by auto
    with d show ?thesis
    proof (cases rule: dispatch_operation)
      case (ok meta)
      then have "sig = RESET \<or> sig = ROUTE"
        using assms(1,2) run_query_no_client [OF assms(1), of w fs]
        by (auto simp: operation_def begin_tx_def end_tx_def sql_def andThen_def abind_def change_def fail_def
            no_client select split: if_splits)
      with ok assms(1) show ?thesis
        by (auto simp: operation_def reset_def Let_def signatures)
    next
      case (err f s1)
      have "pg s1 = None"
        using err(1) assms(1,2) run_query_no_client [OF assms(1), of w fs]
        by (auto simp: operation_def begin_tx_def end_tx_def sql_def andThen_def abind_def change_def fail_def
            no_client select reset_def Let_def split: if_splits)
      with err show ?thesis by simp
    qed
  qed
qed

theorem nothing_before_hello_witness:
  "pg ((new_session log_world)\<lparr>state := Failed\<rparr>) = None"
  using nothing_before_hello [of "new_session log_world" COMMIT log_world "[]"
      "[into_message unauthorized]" "(new_session log_world)\<lparr>state := Failed\<rparr>"]
  by (simp add: serve_message_def dispatch_def operation_def end_tx_def sql_def andThen_def abind_def no_client
      new_session_def unauthorized_def signatures)

section \<open>Settings, values and versions\<close>

definition setting_candidates :: "(json \<Rightarrow> string) \<Rightarrow> (string \<times> pvalue) list \<Rightarrow> (string \<times> string) list \<Rightarrow> (string \<times> string) list" where
  "setting_candidates jt meta table = concat (map (\<lambda>(key, setting).
     case Option.bind (map_of meta key) (setting_text jt) of None \<Rightarrow> [] | Some text \<Rightarrow> [(setting, text)]) table)"

lemma collect_settings_first:
  "distinct (map fst out) \<Longrightarrow>
     distinct (map fst (collect_settings jt meta table out)) \<and>
     map_of (collect_settings jt meta table out) = map_of (out @ setting_candidates jt meta table)"
proof (induction jt meta table out rule: collect_settings.induct)
  case (1 jt meta out)
  then show ?case by (simp add: setting_candidates_def)
next
  case (2 jt meta key st table out)
  show ?case
  proof (cases "Option.bind (map_of meta key) (setting_text jt)")
    case None
    with 2 show ?thesis by (auto simp: setting_candidates_def split: option.splits)
  next
    case (Some t)
    then obtain v where v: "map_of meta key = Some v" "setting_text jt v = Some t" by (auto simp: bind_eq_Some_conv)
    let ?out = "if st \<in> set (map fst out) then out else out @ [(st, t)]"
    have "map_of (?out @ setting_candidates jt meta table) = map_of (out @ (st, t) # setting_candidates jt meta table)"
    proof (cases "st \<in> set (map fst out)")
      case True
      then have "map_of out st \<noteq> None" by (simp add: map_of_eq_None_iff)
      with True show ?thesis by (auto simp: fun_eq_iff map_add_def split: option.splits)
    qed simp
    moreover have "distinct (map fst ?out)" using 2(4) by auto
    ultimately show ?thesis
      using 2(3) [OF v] v Some by (simp add: setting_candidates_def)
  qed
qed

text \<open>a transaction gets each known setting at most once, and from the first of its spellings, in
  the order of the table, that the metadata gives a value.\<close>

theorem tx_settings_first_alias:
  "map_get extra ''tx_metadata'' = Some (PMap meta) \<Longrightarrow>
     distinct (map fst (tx_settings jt extra)) \<and>
     map_of (tx_settings jt extra) = map_of (setting_candidates jt meta TX_SETTINGS)"
  using collect_settings_first [of "[]" jt meta TX_SETTINGS] by (simp add: tx_settings_def)

theorem tx_settings_first_alias_witness:
  "map_of (tx_settings (\<lambda>j. ''?'') (PMap [(''tx_metadata'',
      PMap [(''requestId'', PString ''b''), (''request_id'', PString ''a'')])])) ''og.request_id'' = Some ''a''"
  by (subst conjunct2 [OF tx_settings_first_alias [of _ "[(''requestId'', PString ''b''), (''request_id'', PString ''a'')]"]])
    (simp_all add: setting_candidates_def TX_SETTINGS_def)









text \<open>A proposal \<open>[0, range, minor, major]\<close> offers \<open>major.minor\<close> down to \<open>major.(minor - range)\<close>.\<close>

definition offers :: "u32 \<Rightarrow> nat \<Rightarrow> nat \<Rightarrow> bool" where
  "offers p major minor \<longleftrightarrow>
     (let top = unat (drop_bit 8 p AND 0xFF); range = unat (drop_bit 16 p AND 0xFF)
      in unat (p AND 0xFF) = major \<and> minor \<le> top \<and> top - range \<le> minor)"

lemma unat_min_sub: "unat (a - min r a :: u32) = unat a - unat r"
  by (cases "r \<le> a") (auto simp: min_def unat_sub_if_size word_le_nat_alt)

lemma speaks_offers: "speaks p \<longleftrightarrow> offers p 4 4"
proof -
  have "p AND 0xFF = 4 \<longleftrightarrow> unat (p AND 0xFF) = 4"
    using word_unat_eq_iff [of "p AND 0xFF" 4] by simp
  then show ?thesis
    by (simp add: speaks_def offers_def Let_def word_le_nat_alt unat_min_sub)
qed

text \<open>the gateway agrees on a version exactly when a proposal of the client, range included, offers
  Bolt 4.4; it then answers 4.4.\<close>

theorem handshake_agrees:
  "handshake preamble = Some (answer, True) \<longleftrightarrow>
     take 4 preamble = MAGIC \<and> (\<exists>p \<in> set (proposals (drop 4 preamble)). offers p 4 4) \<and> answer = [0, 0, 4, 4]"
proof -
  have agreed: "to_be 4 BOLT_4_4 = [0, 0, 4, 4]" "BOLT_4_4 \<noteq> NO_VERSION"
    by (simp_all add: BOLT_4_4_def NO_VERSION_def to_be_4 del: to_be.simps)
  have f: "(\<exists>p \<in> set ps. offers p 4 4) \<longleftrightarrow> find speaks ps \<noteq> None" for ps
    by (auto simp: find_None_iff speaks_offers)
  show ?thesis
  proof (cases "find speaks (proposals (drop 4 preamble))")
    case None
    then show ?thesis unfolding f by (simp add: handshake_def)
  next
    case (Some p)
    then show ?thesis unfolding f using agreed by (auto simp: handshake_def)
  qed
qed

end
