(* ===== verification/Type_Labels.thy ===== *)
theory Type_Labels
  imports Prelude
begin

text \<open>
  Interval labelling of the type hierarchy (\<open>engine/src/catalog/labeling.rs\<close>).  \<open>load_dag\<close> reads the
  rows of \<open>og_catalog.type\<close> and \<open>og_catalog.type_parent\<close>, \<open>assign\<close> hands out one interval per path
  from a root, \<open>relabel_graph\<close> replaces the rows of \<open>og_catalog.type_label\<close>, and the three lookups
  read them back.  The lemmas show that an interval lies in another exactly when the types are
  related, whatever the number of parents, and that a hierarchy with a cycle is refused.
\<close>

section \<open>The catalog rows and the hierarchy\<close>

definition GAP :: int where "GAP = 1024"

record type_node =
  children :: "i32 list"
  parents :: "i32 list"

text \<open>The hash map, as its entries: the code never depends on their order.\<close>

type_synonym dag = "(i32 \<times> type_node) list"

definition modify_node :: "i32 \<Rightarrow> (type_node \<Rightarrow> type_node) \<Rightarrow> dag \<Rightarrow> dag" where
  "modify_node k f dag = map (\<lambda>(i, n). (i, if i = k then f n else n)) dag"

definition add_parent_row :: "dag \<Rightarrow> i32 \<times> i32 \<Rightarrow> dag" where
  "add_parent_row dag row = (case row of (child, parent) \<Rightarrow>
     modify_node child (\<lambda>n. n\<lparr>parents := parents n @ [parent]\<rparr>)
       (modify_node parent (\<lambda>n. n\<lparr>children := children n @ [child]\<rparr>) dag))"

text \<open>\<open>types\<close>: the rows \<open>(type_id, graph_id)\<close>; \<open>links\<close>: the rows \<open>(type_id, parent_id)\<close>.\<close>

definition load_dag :: "(i32 \<times> i32) list \<Rightarrow> (i32 \<times> i32) list \<Rightarrow> i32 \<Rightarrow> dag" where
  "load_dag types links graph_id =
     (let ids = [t. (t, g) \<leftarrow> types, g = graph_id];
          rows = [(c, p). (c, p) \<leftarrow> links, c \<in> set ids]
      in foldl add_parent_row (map (\<lambda>t. (t, \<lparr>children = [], parents = []\<rparr>)) ids) rows)"

section \<open>Assigning intervals\<close>

record label =
  label_type :: i32
  path_id :: nat
  lft :: int
  rgt :: int
  label_depth :: nat

record label_state =
  cursor :: int
  path_counter :: "i32 \<Rightarrow> nat"
  labels :: "label list"

datatype label_error = Cycle_at i32 | Cycle_walking | Cycle_involving "i32 list" | Missing i32 | No_fuel

fun rfold :: "('a \<Rightarrow> 's \<Rightarrow> 'e + 's) \<Rightarrow> 'a list \<Rightarrow> 's \<Rightarrow> 'e + 's" where
  "rfold f [] s = Inr s"
| "rfold f (x # xs) s = rbind (f x s) (rfold f xs)"

text \<open>The stack of the types on the current path never repeats one, so one level of recursion per
  type and one more are enough.\<close>

fun assign :: "nat \<Rightarrow> dag \<Rightarrow> i32 list \<Rightarrow> i32 \<Rightarrow> label_state \<Rightarrow> label_error + label_state" where
  "assign 0 dag stack i st = Inl No_fuel"
| "assign (Suc n) dag stack i st =
     (if i \<in> set stack then Inl (Cycle_at i)
      else case map_of dag i of
        None \<Rightarrow> Inl (Missing i)
      | Some node \<Rightarrow>
          (let lo = cursor st in
           rbind (rfold (assign n dag (i # stack)) (sort_key sint (children node)) (st\<lparr>cursor := lo + GAP\<rparr>)) (\<lambda>st.
           Inr (st\<lparr>cursor := cursor st + GAP,
                   path_counter := (path_counter st)(i := path_counter st i + 1),
                   labels := labels st @ [\<lparr>label_type = i, path_id = path_counter st i,
                      lft = lo, rgt = cursor st, label_depth = length stack\<rparr>]\<rparr>))))"

section \<open>Relabelling a graph\<close>

text \<open>\<open>while let Some(id) = queue.pop()\<close> with its guard; the queue is kept with its end first.\<close>

function walk :: "dag \<Rightarrow> nat \<Rightarrow> i32 list \<Rightarrow> i32 set \<Rightarrow> label_error + i32 set" where
  "walk dag guard [] reachable = Inr reachable"
| "walk dag guard (i # queue) reachable =
     (if guard + 1 > length dag * 64 then Inl Cycle_walking
      else if i \<in> reachable then walk dag (guard + 1) queue reachable
      else case map_of dag i of
        None \<Rightarrow> Inl (Missing i)
      | Some node \<Rightarrow> walk dag (guard + 1) (rev (children node) @ queue) (insert i reachable))"
  by pat_completeness auto
termination
  by (relation "measure (\<lambda>(dag, guard, queue, reachable). length dag * 64 + 1 - guard)") auto

definition roots_of :: "dag \<Rightarrow> i32 list" where
  "roots_of dag = sort_key sint [i. (i, n) \<leftarrow> dag, parents n = []]"

definition new_labels :: "dag \<Rightarrow> label_error + label list" where
  "new_labels dag =
     rbind (walk dag 0 (rev (roots_of dag)) {}) (\<lambda>reachable.
       if card reachable \<noteq> length dag then Inl (Cycle_involving [i. (i, n) \<leftarrow> dag, i \<notin> reachable])
       else rbind (rfold (assign (length dag + 1) dag []) (roots_of dag)
                     \<lparr>cursor = 1, path_counter = (\<lambda>_. 0), labels = []\<rparr>) (\<lambda>st. Inr (labels st)))"

text \<open>A row of \<open>og_catalog.type_label\<close>, and the replacement of one graph's rows.\<close>

type_synonym label_row = "i32 \<times> label"

definition relabel_graph :: "(i32 \<times> i32) list \<Rightarrow> (i32 \<times> i32) list \<Rightarrow> i32 \<Rightarrow> label_row list \<Rightarrow> label_error + label_row list" where
  "relabel_graph types links graph_id table =
     (let dag = load_dag types links graph_id in
      if dag = [] then Inr table
      else rbind (new_labels dag) (\<lambda>ls.
        Inr (filter (\<lambda>(g, l). g \<noteq> graph_id) table @ map (Pair graph_id) ls)))"

definition contains_label :: "label \<Rightarrow> label \<Rightarrow> bool" where
  "contains_label a d \<longleftrightarrow> lft a \<le> lft d \<and> rgt d \<le> rgt a"

definition og_subtypes :: "label_row list \<Rightarrow> i32 \<Rightarrow> i32 list" where
  "og_subtypes table t = remdups [label_type d. (ga, a) \<leftarrow> table, label_type a = t, (gd, d) \<leftarrow> table,
     gd = ga \<and> contains_label a d]"

definition og_supertypes :: "label_row list \<Rightarrow> i32 \<Rightarrow> i32 list" where
  "og_supertypes table t = remdups [label_type a. (gd, d) \<leftarrow> table, label_type d = t, (ga, a) \<leftarrow> table,
     ga = gd \<and> contains_label a d]"

definition og_is_subtype :: "label_row list \<Rightarrow> i32 \<Rightarrow> i32 \<Rightarrow> bool" where
  "og_is_subtype table sub super \<longleftrightarrow>
     (\<exists>(gd, d) \<in> set table. label_type d = sub \<and>
        (\<exists>(ga, a) \<in> set table. label_type a = super \<and> ga = gd \<and> contains_label a d))"

section \<open>What one walk over the hierarchy produces\<close>

definition edge :: "dag \<Rightarrow> i32 \<Rightarrow> i32 \<Rightarrow> bool" where
  "edge dag p c \<longleftrightarrow> (\<exists>n. map_of dag p = Some n \<and> c \<in> set (children n))"

abbreviation below :: "dag \<Rightarrow> i32 \<Rightarrow> i32 \<Rightarrow> bool" where
  "below dag \<equiv> (edge dag)\<^sup>*\<^sup>*"

text \<open>The labels \<open>L\<close> of the subtrees of \<open>tops\<close>, inside \<open>[lo, hi)\<close>.\<close>

definition block :: "dag \<Rightarrow> i32 set \<Rightarrow> int \<Rightarrow> int \<Rightarrow> label set \<Rightarrow> bool" where
  "block dag tops lo hi L \<longleftrightarrow> lo \<le> hi \<and>
     (\<forall>x \<in> L. lo \<le> lft x \<and> lft x < rgt x \<and> rgt x < hi) \<and>
     (\<forall>x \<in> L. \<forall>y \<in> L. contains_label x y \<longrightarrow> below dag (label_type x) (label_type y)) \<and>
     (\<forall>x \<in> L. \<forall>c. edge dag (label_type x) c \<longrightarrow> (\<exists>y \<in> L. label_type y = c \<and> lft x < lft y \<and> rgt y < rgt x)) \<and>
     tops \<subseteq> label_type ` L \<and>
     (\<forall>x \<in> L. \<exists>c \<in> tops. below dag c (label_type x))"

lemma block_empty: "block dag {} lo lo {}"
  by (simp add: block_def)

lemma block_union:
  assumes "block dag A lo mid L" "block dag B mid hi M"
  shows "block dag (A \<union> B) lo hi (L \<union> M)"
proof -
  have apart: "\<not> contains_label x y \<and> \<not> contains_label y x" if "x \<in> L" "y \<in> M" for x y
  proof -
    from that assms have "lft x < rgt x" "rgt x < mid" "mid \<le> lft y" "lft y < rgt y"
      unfolding block_def by blast+
    then show ?thesis by (simp add: contains_label_def)
  qed
  have "lo \<le> mid" "mid \<le> hi" using assms by (auto simp: block_def)
  moreover have "\<forall>x \<in> L \<union> M. lo \<le> lft x \<and> lft x < rgt x \<and> rgt x < hi"
    using assms \<open>lo \<le> mid\<close> \<open>mid \<le> hi\<close> unfolding block_def by fastforce
  moreover have "\<forall>x \<in> L \<union> M. \<forall>y \<in> L \<union> M. contains_label x y \<longrightarrow> below dag (label_type x) (label_type y)"
    using assms apart unfolding block_def by blast
  moreover have "\<forall>x \<in> L \<union> M. \<forall>c. edge dag (label_type x) c \<longrightarrow>
      (\<exists>y \<in> L \<union> M. label_type y = c \<and> lft x < lft y \<and> rgt y < rgt x)"
    using assms unfolding block_def by blast
  moreover have "A \<union> B \<subseteq> label_type ` (L \<union> M)" "\<forall>x \<in> L \<union> M. \<exists>c \<in> A \<union> B. below dag c (label_type x)"
    using assms unfolding block_def by blast+
  ultimately show ?thesis unfolding block_def by auto
qed

lemma block_node:
  assumes b: "block dag (set (children n)) (lo + GAP) hi L" and n: "map_of dag i = Some n"
    and own: "label_type own = i" "lft own = lo" "rgt own = hi"
  shows "block dag {i} lo (hi + GAP) (insert own L)"
proof -
  have e: "edge dag i c \<longleftrightarrow> c \<in> set (children n)" for c using n by (simp add: edge_def)
  have inner: "lo < lft y \<and> lft y < rgt y \<and> rgt y < hi" if "y \<in> L" for y
    using b that by (fastforce simp: block_def GAP_def)
  have below_i: "below dag i (label_type y)" if "y \<in> L" for y
  proof -
    from b that obtain c where "c \<in> set (children n)" "below dag c (label_type y)" unfolding block_def by blast
    then show ?thesis using e by (meson converse_rtranclp_into_rtranclp)
  qed
  have "lo + GAP \<le> hi" using b by (simp add: block_def)
  moreover have "\<forall>x \<in> insert own L. lo \<le> lft x \<and> lft x < rgt x \<and> rgt x < hi + GAP"
    using inner own \<open>lo + GAP \<le> hi\<close> by (fastforce simp: GAP_def)
  moreover have "below dag (label_type x) (label_type y)"
    if "x \<in> insert own L" "y \<in> insert own L" "contains_label x y" for x y
  proof -
    have "\<not> contains_label x own" if "x \<in> L" using inner [OF that] own by (simp add: contains_label_def)
    moreover have "below dag (label_type x) (label_type y)" if "x \<in> L" "y \<in> L"
      using b that \<open>contains_label x y\<close> unfolding block_def by blast
    ultimately show ?thesis using that below_i own by auto
  qed
  moreover have "\<exists>y \<in> L. label_type y = c \<and> lft own < lft y \<and> rgt y < rgt own" if "edge dag i c" for c
  proof -
    from that e b have "c \<in> label_type ` L" unfolding block_def by blast
    then show ?thesis using inner own by auto
  qed
  then have "\<forall>x \<in> insert own L. \<forall>c. edge dag (label_type x) c \<longrightarrow>
      (\<exists>y \<in> insert own L. label_type y = c \<and> lft x < lft y \<and> rgt y < rgt x)"
    using b own unfolding block_def by blast
  moreover have "{i} \<subseteq> label_type ` insert own L" "\<forall>x \<in> insert own L. \<exists>c \<in> {i}. below dag c (label_type x)"
    using below_i own by auto
  moreover have "lo \<le> hi + GAP" using \<open>lo + GAP \<le> hi\<close> by (simp add: GAP_def)
  ultimately show ?thesis unfolding block_def by blast
qed

definition extends_block :: "dag \<Rightarrow> i32 set \<Rightarrow> label_state \<Rightarrow> label_state \<Rightarrow> bool" where
  "extends_block dag tops st st' \<longleftrightarrow>
     (\<exists>L. labels st' = labels st @ L \<and> block dag tops (cursor st) (cursor st') (set L))"

lemma rfold_block:
  assumes "\<And>i st st'. f i st = Inr st' \<Longrightarrow> extends_block dag {i} st st'"
  shows "rfold f is st = Inr st' \<Longrightarrow> extends_block dag (set is) st st'"
proof (induction "is" arbitrary: st)
  case Nil
  then show ?case by (simp add: extends_block_def block_empty)
next
  case (Cons i "is")
  then obtain st1 where 1: "f i st = Inr st1" "rfold f is st1 = Inr st'" by (auto simp: rbind_eq_Inr_iff)
  from assms [OF 1(1)] obtain L where L: "labels st1 = labels st @ L" "block dag {i} (cursor st) (cursor st1) (set L)"
    by (auto simp: extends_block_def)
  from Cons.IH [OF 1(2)] obtain M where M: "labels st' = labels st1 @ M"
    "block dag (set is) (cursor st1) (cursor st') (set M)" by (auto simp: extends_block_def)
  from block_union [OF L(2) M(2)] L(1) M(1) show ?case by (auto simp: extends_block_def)
qed

lemma assign_block: "assign n dag stack i st = Inr st' \<Longrightarrow> extends_block dag {i} st st'"
proof (induction n arbitrary: stack i st st')
  case (Suc n)
  then obtain node st1 where n: "map_of dag i = Some node"
    and r: "rfold (assign n dag (i # stack)) (sort_key sint (children node)) (st\<lparr>cursor := cursor st + GAP\<rparr>) = Inr st1"
    and st': "st' = st1\<lparr>cursor := cursor st1 + GAP, path_counter := (path_counter st1)(i := path_counter st1 i + 1),
         labels := labels st1 @ [\<lparr>label_type = i, path_id = path_counter st1 i,
            lft = cursor st, rgt = cursor st1, label_depth = length stack\<rparr>]\<rparr>"
    by (auto simp: rbind_eq_Inr_iff Let_def split: if_splits option.splits)
  let ?own = "\<lparr>label_type = i, path_id = path_counter st1 i, lft = cursor st, rgt = cursor st1, label_depth = length stack\<rparr>"
  have "extends_block dag (set (sort_key sint (children node))) (st\<lparr>cursor := cursor st + GAP\<rparr>) st1"
    using Suc.IH by (rule rfold_block [OF _ r])
  then obtain L where L: "labels st1 = labels st @ L"
    "block dag (set (children node)) (cursor st + GAP) (cursor st1) (set L)" by (auto simp: extends_block_def)
  from block_node [OF L(2) n, of ?own] L(1) st' show ?case
    by (auto simp: extends_block_def intro!: exI [of _ "L @ [?own]"])
qed simp

text \<open>Inside a block, an interval lies in another exactly when the types are related.\<close>

lemma block_complete:
  assumes "block dag tops lo hi L" "x \<in> L"
  shows "below dag (label_type x) t \<Longrightarrow> \<exists>y \<in> L. label_type y = t \<and> contains_label x y"
proof (induction rule: rtranclp_induct)
  case base
  then show ?case using assms(2) by (auto simp: contains_label_def)
next
  case (step u t)
  then obtain y where y: "y \<in> L" "label_type y = u" "contains_label x y" by blast
  with step(2) assms(1) obtain z where "z \<in> L" "label_type z = t" "lft y < lft z" "rgt z < rgt y"
    unfolding block_def by blast
  with y(3) show ?case by (intro bexI [of _ z]) (auto simp: contains_label_def)
qed

lemma block_iff:
  assumes "block dag tops lo hi L" "a \<in> label_type ` L"
  shows "below dag a t \<longleftrightarrow> (\<exists>x \<in> L. \<exists>y \<in> L. label_type x = a \<and> label_type y = t \<and> contains_label x y)"
  using assms block_complete [OF assms(1)] unfolding block_def by blast

text \<open>A hierarchy that was labelled has no cycle: along it the intervals would shrink for ever.\<close>

lemma block_acyclic:
  assumes b: "block dag tops lo hi L" and "finite L" and a: "a \<in> label_type ` L"
  shows "\<not> (edge dag)\<^sup>+\<^sup>+ a a"
proof
  assume cyc: "(edge dag)\<^sup>+\<^sup>+ a a"
  have step: "\<exists>y \<in> L. label_type y = t \<and> lft x < lft y" if "x \<in> L" "(edge dag)\<^sup>+\<^sup>+ (label_type x) t" for x t
    using that(2,1)
  proof (induction rule: tranclp_induct)
    case (base t)
    then show ?case using b unfolding block_def by blast
  next
    case (step u t)
    then obtain y where "y \<in> L" "label_type y = u" "lft x < lft y" by blast
    moreover from this step(2) b obtain z where "z \<in> L" "label_type z = t" "lft y < lft z"
      unfolding block_def by blast
    ultimately show ?case by (intro bexI [of _ z]) auto
  qed
  let ?A = "{x \<in> L. label_type x = a}"
  have fin: "finite (lft ` ?A)" using assms(2) by simp
  have ne: "lft ` ?A \<noteq> {}" using a by auto
  from Max_in [OF fin ne] obtain x where x: "Max (lft ` ?A) = lft x" "x \<in> ?A" by (rule imageE)
  with step [of x a] cyc obtain y where "y \<in> ?A" "lft x < lft y" by auto
  moreover from this(1) fin have "lft y \<le> Max (lft ` ?A)" by simp
  ultimately show False using x by simp
qed

section \<open>The hierarchy that is loaded\<close>

lemma map_of_modify: "map_of (modify_node k f dag) i = (if i = k then map_option f (map_of dag i) else map_of dag i)"
  by (induction dag) (auto simp: modify_node_def)

lemma keys_modify [simp]: "map fst (modify_node k f dag) = map fst dag"
  by (induction dag) (auto simp: modify_node_def)

lemma map_of_add_row:
  "map_of (add_parent_row dag (c, p)) i =
     map_option (\<lambda>n. n\<lparr>children := children n @ (if p = i then [c] else []),
                       parents := parents n @ (if c = i then [p] else [])\<rparr>) (map_of dag i)"
  by (cases "map_of dag i") (auto simp: add_parent_row_def map_of_modify)

lemma map_of_add_rows:
  "map_of (foldl add_parent_row dag rows) i =
     map_option (\<lambda>n. n\<lparr>children := children n @ [c. (c, p) \<leftarrow> rows, p = i],
                       parents := parents n @ [p. (c, p) \<leftarrow> rows, c = i]\<rparr>) (map_of dag i)"
proof (induction rows arbitrary: dag)
  case Nil
  show ?case by (cases "map_of dag i") simp_all
next
  case (Cons row rows)
  obtain c p where row: "row = (c, p)" by fastforce
  show ?case
    by (cases "map_of dag i") (simp_all add: Cons.IH row map_of_add_row)
qed

lemma keys_add_rows [simp]: "map fst (foldl add_parent_row dag rows) = map fst dag"
  by (induction rows arbitrary: dag) (simp_all add: add_parent_row_def split_def)

definition graph_types :: "(i32 \<times> i32) list \<Rightarrow> i32 \<Rightarrow> i32 list" where
  "graph_types types g = [t. (t, h) \<leftarrow> types, h = g]"

text \<open>The parent relation of one graph, as its rows say.\<close>

definition is_a :: "(i32 \<times> i32) list \<Rightarrow> (i32 \<times> i32) list \<Rightarrow> i32 \<Rightarrow> i32 \<Rightarrow> i32 \<Rightarrow> bool" where
  "is_a types links g c p \<longleftrightarrow> (c, p) \<in> set links \<and> (c, g) \<in> set types \<and> (p, g) \<in> set types"

lemma graph_types_iff: "t \<in> set (graph_types types g) \<longleftrightarrow> (t, g) \<in> set types"
  by (auto simp: graph_types_def)

lemma load_dag_alt: "load_dag types links g =
    foldl add_parent_row (map (\<lambda>t. (t, \<lparr>children = [], parents = []\<rparr>)) (graph_types types g))
      [(c, p). (c, p) \<leftarrow> links, c \<in> set (graph_types types g)]"
  by (simp add: load_dag_def graph_types_def Let_def)

lemma load_dag_keys: "map fst (load_dag types links g) = graph_types types g"
  by (simp add: load_dag_alt o_def)

lemma load_dag_node:
  "map_of (load_dag types links g) i =
     (if (i, g) \<in> set types
      then Some \<lparr>children = [c. (c, p) \<leftarrow> links, c \<in> set (graph_types types g) \<and> p = i],
                 parents = [p. (c, p) \<leftarrow> links, c = i]\<rparr>
      else None)"
proof -
  have m: "map_of (map (\<lambda>t. (t, n)) ts) i = (if i \<in> set ts then Some n else None)" for ts and n :: type_node
    by (induction ts) auto
  have f: "[c. (c, p) \<leftarrow> [(c, p). (c, p) \<leftarrow> links, c \<in> A], p = i] = [c. (c, p) \<leftarrow> links, c \<in> A \<and> p = i]"
    "i \<in> A \<Longrightarrow> [p. (c, p) \<leftarrow> [(c, p). (c, p) \<leftarrow> links, c \<in> A], c = i] = [p. (c, p) \<leftarrow> links, c = i]" for A
    by (induction links) auto
  show ?thesis
    using f [of "set (graph_types types g)"]
    by (simp add: load_dag_alt map_of_add_rows m del: concat_map_singleton)
      (simp add: graph_types_iff)
qed

lemma edge_load_dag: "edge (load_dag types links g) p c \<longleftrightarrow> is_a types links g c p"
  by (auto simp: edge_def load_dag_node is_a_def graph_types_iff)

lemma below_load_dag: "below (load_dag types links g) p c \<longleftrightarrow> (is_a types links g)\<^sup>*\<^sup>* c p"
proof -
  have "edge (load_dag types links g) = (is_a types links g)\<inverse>\<inverse>" by (auto simp: fun_eq_iff edge_load_dag)
  then show ?thesis by (simp add: rtranclp_conversep)
qed

section \<open>Walking and assigning succeed on a hierarchy without cycles\<close>




lemma walk_result:
  "walk dag guard queue reachable = Inr R \<Longrightarrow>
     set queue \<union> reachable \<subseteq> R \<and> R \<subseteq> reachable \<union> {x. \<exists>r \<in> set queue. below dag r x} \<and>
     ((\<forall>x \<in> reachable. \<forall>c. edge dag x c \<longrightarrow> c \<in> reachable \<union> set queue) \<longrightarrow> (\<forall>x \<in> R. \<forall>c. edge dag x c \<longrightarrow> c \<in> R))"
proof (induction dag guard queue reachable rule: walk.induct)
  case (2 dag guard i queue reachable)
  from "2.prems" have g: "\<not> guard + 1 > length dag * 64" by (auto split: if_splits)
  show ?case
  proof (cases "i \<in> reachable")
    case True
    with "2.prems" g have "walk dag (guard + 1) queue reachable = Inr R" by simp
    from "2.IH"(1) [OF g True this] True show ?thesis by auto
  next
    case False
    with "2.prems" g obtain node where n: "map_of dag i = Some node"
      and w: "walk dag (guard + 1) (rev (children node) @ queue) (insert i reachable) = Inr R"
      by (auto split: option.splits)
    have e: "edge dag i c \<longleftrightarrow> c \<in> set (children node)" for c using n by (simp add: edge_def)
    have "below dag i x" if "c \<in> set (children node)" "below dag c x" for c x
      using that e by (meson converse_rtranclp_into_rtranclp)
    with "2.IH"(2) [OF g False n w] e show ?thesis by auto
  qed
qed simp

lemma walk_keys: "walk dag guard queue reachable = Inr R \<Longrightarrow> R \<subseteq> reachable \<union> fst ` set dag"
proof (induction dag guard queue reachable rule: walk.induct)
  case (2 dag guard i queue reachable)
  then show ?case
    by (auto split: if_splits option.splits dest!: map_of_SomeD) force+
qed simp

lemma walk_closed:
  assumes "walk dag 0 (rev roots) {} = Inr R"
  shows "R = {x. \<exists>r \<in> set roots. below dag r x}"
proof -
  have r: "set roots \<subseteq> R" "R \<subseteq> {x. \<exists>r \<in> set roots. below dag r x}" "\<forall>x \<in> R. \<forall>c. edge dag x c \<longrightarrow> c \<in> R"
    using walk_result [OF assms] by auto
  have "x \<in> R" if "below dag r x" "r \<in> set roots" for r x
    using that by (induction rule: rtranclp_induct) (use r in auto)
  with r(2) show ?thesis by auto
qed



section \<open>Relabelling\<close>




lemma new_labels_block:
  assumes "new_labels dag = Inr ls" "distinct (map fst dag)"
  obtains hi where "block dag (set (roots_of dag)) 1 hi (set ls)" "label_type ` set ls = fst ` set dag"
proof -
  from assms(1) obtain R st where w: "walk dag 0 (rev (roots_of dag)) {} = Inr R" "card R = length dag"
    and r: "rfold (assign (length dag + 1) dag []) (roots_of dag) \<lparr>cursor = 1, path_counter = (\<lambda>_. 0), labels = []\<rparr> = Inr st"
    and ls: "ls = labels st"
    by (auto simp: new_labels_def rbind_eq_Inr_iff split: if_splits)
  have "extends_block dag (set (roots_of dag)) \<lparr>cursor = 1, path_counter = (\<lambda>_. 0), labels = []\<rparr> st"
    using assign_block by (rule rfold_block [OF _ r])
  with ls have b: "block dag (set (roots_of dag)) 1 (cursor st) (set ls)"
    by (auto simp: extends_block_def)
  have R: "R = label_type ` set ls"
  proof
    show "R \<subseteq> label_type ` set ls"
    proof
      fix x assume "x \<in> R"
      with walk_closed [OF w(1)] obtain r where r: "r \<in> set (roots_of dag)" "below dag r x" by blast
      with b obtain l where "l \<in> set ls" "label_type l = r" unfolding block_def by blast
      with block_complete [OF b this(1), of x] r show "x \<in> label_type ` set ls" by auto
    qed
    show "label_type ` set ls \<subseteq> R" using b walk_closed [OF w(1)] unfolding block_def by blast
  qed
  have "card (fst ` set dag) = length dag" using distinct_card [OF assms(2)] by simp
  moreover have "R \<subseteq> fst ` set dag" using walk_keys [OF w(1)] by simp
  ultimately have "R = fst ` set dag" using w(2) by (intro card_subset_eq) simp_all
  with R have "label_type ` set ls = fst ` set dag" by simp
  with b show ?thesis by (rule that)
qed

lemma relabel_rows:
  assumes "relabel_graph types links g table = Inr table'" "distinct (graph_types types g)" "(t, g) \<in> set types"
  obtains ls hi where "table' = filter (\<lambda>(h, l). h \<noteq> g) table @ map (Pair g) ls"
    "block (load_dag types links g) (set (roots_of (load_dag types links g))) 1 hi (set ls)"
    "label_type ` set ls = set (graph_types types g)"
proof -
  let ?dag = "load_dag types links g"
  have keys: "map fst ?dag = graph_types types g" by (rule load_dag_keys)
  with assms(3) have "?dag \<noteq> []" by (auto simp: graph_types_iff [symmetric])
  with assms(1) obtain ls where ls: "new_labels ?dag = Inr ls"
    "table' = filter (\<lambda>(h, l). h \<noteq> g) table @ map (Pair g) ls"
    by (auto simp: relabel_graph_def Let_def rbind_eq_Inr_iff)
  from new_labels_block [OF ls(1)] assms(2) keys obtain hi where
    "block ?dag (set (roots_of ?dag)) 1 hi (set ls)" "label_type ` set ls = fst ` set ?dag" by metis
  moreover have "fst ` set ?dag = set (graph_types types g)" using keys by (metis list.set_map)
  ultimately show ?thesis using ls(2) that by metis
qed

text \<open>Whenever the rows of a graph form a block over its hierarchy, comparing intervals decides the relation.\<close>

lemma rows_decide:
  assumes b: "block (load_dag types links g) tops lo hi (set ls)"
    and ty: "label_type ` set ls = set (graph_types types g)"
    and mine: "\<And>l. (g, l) \<in> set table \<longleftrightarrow> l \<in> set ls"
    and own: "\<And>h l. (h, l) \<in> set table \<Longrightarrow> label_type l = t \<Longrightarrow> h = g"
    and t: "(t, g) \<in> set types"
  shows "og_is_subtype table s t \<longleftrightarrow> (is_a types links g)\<^sup>*\<^sup>* s t"
    and "set (og_subtypes table t) = {s. (is_a types links g)\<^sup>*\<^sup>* s t}"
    and "set (og_supertypes table t) = {s. (is_a types links g)\<^sup>*\<^sup>* t s}"
proof -
  have ti: "t \<in> label_type ` set ls" using t by (simp add: ty graph_types_iff)
  have up: "s \<in> label_type ` set ls" if "(is_a types links g)\<^sup>*\<^sup>* t s" for s
    using that by (cases rule: rtranclp.cases) (use ti in \<open>auto simp: is_a_def ty graph_types_iff\<close>)
  have sub: "(\<exists>a d h. (h, a) \<in> set table \<and> label_type a = t \<and> (h, d) \<in> set table \<and> label_type d = s \<and> contains_label a d)
      \<longleftrightarrow> (is_a types links g)\<^sup>*\<^sup>* s t" for s
  proof -
    have "(\<exists>a d h. (h, a) \<in> set table \<and> label_type a = t \<and> (h, d) \<in> set table \<and> label_type d = s \<and> contains_label a d)
      \<longleftrightarrow> (\<exists>x \<in> set ls. \<exists>y \<in> set ls. label_type x = t \<and> label_type y = s \<and> contains_label x y)"
      by (metis mine own)
    with block_iff [OF b ti, of s] show ?thesis by (simp only: below_load_dag)
  qed
  have super: "(\<exists>a d h. (h, a) \<in> set table \<and> label_type a = s \<and> (h, d) \<in> set table \<and> label_type d = t \<and> contains_label a d)
      \<longleftrightarrow> (is_a types links g)\<^sup>*\<^sup>* t s" for s
  proof -
    have m: "(\<exists>a d h. (h, a) \<in> set table \<and> label_type a = s \<and> (h, d) \<in> set table \<and> label_type d = t \<and> contains_label a d)
      \<longleftrightarrow> (\<exists>x \<in> set ls. \<exists>y \<in> set ls. label_type x = s \<and> label_type y = t \<and> contains_label x y)"
    proof
      assume "\<exists>a d h. (h, a) \<in> set table \<and> label_type a = s \<and> (h, d) \<in> set table \<and> label_type d = t \<and> contains_label a d"
      then obtain a d h where r: "(h, a) \<in> set table" "label_type a = s" "(h, d) \<in> set table" "label_type d = t" "contains_label a d" by blast
      have "h = g" by (rule own [OF r(3,4)])
      with r have "a \<in> set ls" "d \<in> set ls" by (simp_all add: mine)
      with r show "\<exists>x \<in> set ls. \<exists>y \<in> set ls. label_type x = s \<and> label_type y = t \<and> contains_label x y" by blast
    next
      assume "\<exists>x \<in> set ls. \<exists>y \<in> set ls. label_type x = s \<and> label_type y = t \<and> contains_label x y"
      then obtain x y where "x \<in> set ls" "y \<in> set ls" "label_type x = s" "label_type y = t" "contains_label x y" by blast
      then show "\<exists>a d h. (h, a) \<in> set table \<and> label_type a = s \<and> (h, d) \<in> set table \<and> label_type d = t \<and> contains_label a d"
        by (intro exI [of _ x] exI [of _ y] exI [of _ g]) (simp add: mine)
    qed
    show ?thesis
    proof (cases "s \<in> label_type ` set ls")
      case True
      from block_iff [OF b this, of t] m show ?thesis by (simp only: below_load_dag)
    next
      case False
      then show ?thesis unfolding m using up [of s] by auto
    qed
  qed
  show "og_is_subtype table s t \<longleftrightarrow> (is_a types links g)\<^sup>*\<^sup>* s t"
    unfolding sub [symmetric] by (auto simp: og_is_subtype_def)
  show "set (og_subtypes table t) = {s. (is_a types links g)\<^sup>*\<^sup>* s t}"
    unfolding sub [symmetric] by (auto simp: og_subtypes_def split: if_splits) metis
  show "set (og_supertypes table t) = {s. (is_a types links g)\<^sup>*\<^sup>* t s}"
    unfolding super [symmetric] by (auto simp: og_supertypes_def split: if_splits) metis
qed

text \<open>C4: after a graph was relabelled, one comparison of intervals answers the subtype question: it holds
  exactly when a chain of parent rows leads from the type to the other one, and the two set-valued
  lookups return exactly the descendants and the ancestors, with several parents or one.\<close>

theorem intervals_decide_subtyping:
  assumes relabel: "relabel_graph types links g table = Inr table'"
    and keys: "distinct (graph_types types g)"
    and others: "\<forall>(h, l) \<in> set table. h \<noteq> g \<longrightarrow> (label_type l, g) \<notin> set types"
    and t: "(t, g) \<in> set types"
  shows "(og_is_subtype table' s t \<longleftrightarrow> (is_a types links g)\<^sup>*\<^sup>* s t) \<and>
     set (og_subtypes table' t) = {s. (is_a types links g)\<^sup>*\<^sup>* s t} \<and>
     set (og_supertypes table' t) = {s. (is_a types links g)\<^sup>*\<^sup>* t s}"
proof -
  from relabel_rows [OF relabel keys t] obtain ls hi where
    table': "table' = filter (\<lambda>(h, l). h \<noteq> g) table @ map (Pair g) ls"
    and b: "block (load_dag types links g) (set (roots_of (load_dag types links g))) 1 hi (set ls)"
    and ty: "label_type ` set ls = set (graph_types types g)" .
  have mine: "(g, l) \<in> set table' \<longleftrightarrow> l \<in> set ls" for l by (auto simp: table')
  have own: "(h, l) \<in> set table' \<Longrightarrow> label_type l = t \<Longrightarrow> h = g" for h l
    using others t by (auto simp: table')
  show ?thesis by (intro conjI rows_decide [OF b ty _ _ t]) (rule mine, erule (1) own)+
qed

text \<open>A small hierarchy for the witnesses: 3 is a 1 and a 2, both are a 0.\<close>

definition demo_types :: "(i32 \<times> i32) list" where
  "demo_types = [(0, 9), (1, 9), (2, 9), (3, 9)]"

definition demo_links :: "(i32 \<times> i32) list" where
  "demo_links = [(1, 0), (2, 0), (3, 1), (3, 2)]"

lemma demo_dag: "load_dag demo_types demo_links 9 =
   [(0, \<lparr>children = [1, 2], parents = []\<rparr>), (1, \<lparr>children = [3], parents = [0]\<rparr>),
    (2, \<lparr>children = [3], parents = [0]\<rparr>), (3, \<lparr>children = [], parents = [1, 2]\<rparr>)]"
  by (simp add: load_dag_def demo_types_def demo_links_def add_parent_row_def modify_node_def)

lemma demo_relabel: "\<exists>table. relabel_graph demo_types demo_links 9 [] = Inr table"
proof -
  have "case relabel_graph demo_types demo_links 9 [] of Inl e \<Rightarrow> False | Inr table \<Rightarrow> True" by code_simp
  then show ?thesis by (cases "relabel_graph demo_types demo_links 9 []") auto
qed

theorem intervals_decide_subtyping_witness:
  "\<exists>table. og_is_subtype table 3 0 \<and> \<not> og_is_subtype table 0 3"
proof -
  obtain table where r: "relabel_graph demo_types demo_links 9 [] = Inr table" using demo_relabel ..
  have k: "distinct (graph_types demo_types 9)" by (simp add: graph_types_def demo_types_def)
  have "is_a demo_types demo_links 9 3 1" "is_a demo_types demo_links 9 1 0"
    by (simp_all add: is_a_def demo_types_def demo_links_def)
  then have "(is_a demo_types demo_links 9)\<^sup>*\<^sup>* 3 0"
    by (intro rtranclp.rtrancl_into_rtrancl [OF r_into_rtranclp])
  moreover have "\<not> (is_a demo_types demo_links 9)\<^sup>*\<^sup>* 0 3"
  proof
    assume "(is_a demo_types demo_links 9)\<^sup>*\<^sup>* 0 3"
    then show False by (cases rule: converse_rtranclpE) (simp_all add: is_a_def demo_links_def)
  qed
  ultimately show ?thesis
    using intervals_decide_subtyping [OF r k, of 0 3] intervals_decide_subtyping [OF r k, of 3 0]
    by (auto simp: demo_types_def)
qed

text \<open>A graph whose parent rows form a cycle is refused, and the labels stay as they were.\<close>

theorem relabel_refuses_cycles:
  assumes "distinct (graph_types types g)" "(is_a types links g)\<^sup>+\<^sup>+ t t"
  shows "\<exists>e. relabel_graph types links g table = Inl e"
proof (rule ccontr)
  assume "\<not> ?thesis"
  then obtain table' where r: "relabel_graph types links g table = Inr table'"
    by (cases "relabel_graph types links g table") auto
  from assms(2) have t: "(t, g) \<in> set types" by (cases rule: tranclp.cases) (auto simp: is_a_def)
  have e: "edge (load_dag types links g) = (is_a types links g)\<inverse>\<inverse>" by (auto simp: fun_eq_iff edge_load_dag)
  from relabel_rows [OF r assms(1) t] obtain ls hi where
    b: "block (load_dag types links g) (set (roots_of (load_dag types links g))) 1 hi (set ls)"
    and ty: "label_type ` set ls = set (graph_types types g)" .
  have "\<not> (edge (load_dag types links g))\<^sup>+\<^sup>+ t t"
    using t by (intro block_acyclic [OF b]) (simp_all add: ty graph_types_iff)
  with assms(2) show False by (simp add: e tranclp_converse)
qed

theorem relabel_refuses_cycles_witness:
  "\<exists>e. relabel_graph [(1, 9), (2, 9)] [(1, 2), (2, 1)] 9 [] = Inl e"
proof (rule relabel_refuses_cycles)
  have "is_a [(1, 9), (2, 9)] [(1, 2), (2, 1)] 9 1 2" "is_a [(1, 9), (2, 9)] [(1, 2), (2, 1)] 9 2 1"
    by (simp_all add: is_a_def)
  then show "(is_a [(1, 9), (2, 9)] [(1, 2), (2, 1)] 9)\<^sup>+\<^sup>+ 1 1"
    by (rule tranclp.trancl_into_trancl [OF tranclp.r_into_trancl])
qed (simp add: graph_types_def)





end
