(* ===== verification/Adjacency.thy ===== *)
theory Adjacency
  imports Prelude "HOL-Library.Multiset"
begin

text \<open>
  Adjacency segments (\<open>engine/src/storage/adjacency.rs\<close>): the rows of \<open>og_data.og_adj\<close>, each with up
  to \<open>CHUNK\<close> neighbours of one node for one relation type in one direction as two aligned arrays,
  and the SQL of \<open>append\<close>, \<open>remove\<close>, \<open>og_degree\<close> and \<open>og_degree_all\<close> on them.  What a client relies
  on is the locale \<open>edge_index\<close>: adding and removing an edge changes the neighbours of one key by
  exactly that edge.  The model is shown to provide it, and to keep segments dense and aligned.
\<close>

section \<open>Segments\<close>

definition CHUNK :: nat where "CHUNK = 256"

text \<open>A direction is the \<open>"char"\<close> \<open>'o'\<close> or \<open>'i'\<close>.\<close>

record segment =
  seg_src :: i64
  seg_etype :: i32
  seg_dir :: char
  seg_seq :: nat
  seg_n :: nat
  seg_nbr :: "i64 list"
  seg_eid :: "i64 list"

type_synonym key = "i64 \<times> i32 \<times> char"

definition seg_key :: "segment \<Rightarrow> key" where
  "seg_key r = (seg_src r, seg_etype r, seg_dir r)"

definition seqs_of :: "segment list \<Rightarrow> key \<Rightarrow> nat list" where
  "seqs_of table k = map seg_seq (filter (\<lambda>r. seg_key r = k) table)"

text \<open>The \<open>UPDATE\<close> of the tail segment while it has room, and the \<open>INSERT\<close> of a new one when no row was
  updated.\<close>

definition is_tail_with_room :: "segment list \<Rightarrow> key \<Rightarrow> segment \<Rightarrow> bool" where
  "is_tail_with_room table k r \<longleftrightarrow> seg_key r = k \<and> seg_seq r = Max (set (seqs_of table k)) \<and> seg_n r < CHUNK"

definition next_seq :: "segment list \<Rightarrow> key \<Rightarrow> nat" where
  "next_seq table k = (if seqs_of table k = [] then 0 else Max (set (seqs_of table k)) + 1)"

definition adj_append :: "i64 \<Rightarrow> i32 \<Rightarrow> char \<Rightarrow> i64 \<Rightarrow> i64 \<Rightarrow> segment list \<Rightarrow> segment list" where
  "adj_append src etype dir nbr eid table =
     (let k = (src, etype, dir) in
      if \<exists>r \<in> set table. is_tail_with_room table k r
      then map (\<lambda>r. if is_tail_with_room table k r
                    then r\<lparr>seg_nbr := seg_nbr r @ [nbr], seg_eid := seg_eid r @ [eid], seg_n := seg_n r + 1\<rparr>
                    else r) table
      else table @ [\<lparr>seg_src = src, seg_etype = etype, seg_dir = dir, seg_seq = next_seq table k,
                     seg_n = 1, seg_nbr = [nbr], seg_eid = [eid]\<rparr>])"

text \<open>\<open>array_position\<close> counted from 0, and the splice of both arrays around it.\<close>

fun position :: "'a \<Rightarrow> 'a list \<Rightarrow> nat" where
  "position x [] = 0"
| "position x (y # ys) = (if x = y then 0 else Suc (position x ys))"

definition splice_out :: "nat \<Rightarrow> 'a list \<Rightarrow> 'a list" where
  "splice_out i xs = take i xs @ drop (Suc i) xs"

definition drop_edge :: "i64 \<Rightarrow> segment \<Rightarrow> segment" where
  "drop_edge eid r = (let i = position eid (seg_eid r) in
     r\<lparr>seg_nbr := splice_out i (seg_nbr r), seg_eid := splice_out i (seg_eid r), seg_n := seg_n r - 1\<rparr>)"

text \<open>The subquery picks one segment with the edge (\<open>LIMIT 1\<close>); the update meets it by its primary key.\<close>

definition adj_remove :: "i64 \<Rightarrow> i32 \<Rightarrow> char \<Rightarrow> i64 \<Rightarrow> segment list \<Rightarrow> segment list" where
  "adj_remove src etype dir eid table =
     (let k = (src, etype, dir);
          table = (case find (\<lambda>r. seg_key r = k \<and> eid \<in> set (seg_eid r)) table of
              None \<Rightarrow> table
            | Some i \<Rightarrow> map (\<lambda>r. if seg_key r = seg_key i \<and> seg_seq r = seg_seq i then drop_edge eid r else r) table)
      in filter (\<lambda>r. \<not> (seg_key r = k \<and> seg_n r = 0)) table)"

definition og_degree :: "segment list \<Rightarrow> i64 \<Rightarrow> i32 \<Rightarrow> char \<Rightarrow> nat" where
  "og_degree table src etype dir = sum_list (map seg_n (filter (\<lambda>r. seg_key r = (src, etype, dir)) table))"

definition og_degree_all :: "segment list \<Rightarrow> i64 \<Rightarrow> char \<Rightarrow> nat" where
  "og_degree_all table src dir = sum_list (map seg_n (filter (\<lambda>r. seg_src r = src \<and> seg_dir r = dir) table))"

section \<open>What a client relies on\<close>

text \<open>An index of edges by key; an edge is a neighbour with an edge id.\<close>

locale edge_index =
  fixes at :: "'s \<Rightarrow> key \<Rightarrow> (i64 \<times> i64) multiset"
    and add :: "i64 \<Rightarrow> i32 \<Rightarrow> char \<Rightarrow> i64 \<Rightarrow> i64 \<Rightarrow> 's \<Rightarrow> 's"
    and del :: "i64 \<Rightarrow> i32 \<Rightarrow> char \<Rightarrow> i64 \<Rightarrow> 's \<Rightarrow> 's"
    and ok :: "'s \<Rightarrow> bool"
  assumes ok_add: "ok s \<Longrightarrow> ok (add src t d nbr e s)"
    and ok_del: "ok s \<Longrightarrow> ok (del src t d e s)"
    and at_add: "ok s \<Longrightarrow> at (add src t d nbr e s) k = (if k = (src, t, d) then add_mset (nbr, e) (at s k) else at s k)"
    and at_del: "ok s \<Longrightarrow> (nbr, e) \<in># at s (src, t, d) \<Longrightarrow> (\<And>nbr'. (nbr', e) \<in># at s (src, t, d) \<Longrightarrow> nbr' = nbr) \<Longrightarrow>
      at (del src t d e s) k = (if k = (src, t, d) then at s k - {#(nbr, e)#} else at s k)"
begin

text \<open>Removing the edge that was just added gives the index back.\<close>

lemma add_del:
  assumes "ok s" "\<And>nbr'. (nbr', e) \<notin># at s (src, t, d)"
  shows "at (del src t d e (add src t d nbr e s)) k = at s k"
proof -
  have "at (del src t d e (add src t d nbr e s)) k =
      (if k = (src, t, d) then at (add src t d nbr e s) k - {#(nbr, e)#} else at (add src t d nbr e s) k)"
    by (rule at_del) (use assms at_add [OF assms(1)] ok_add [OF assms(1)] in \<open>auto split: if_splits\<close>)
  then show ?thesis using at_add [OF assms(1)] by simp
qed

text \<open>Adding both directions of an edge, as every edge of the graph is added.\<close>

lemma add_both:
  "ok s \<Longrightarrow> at (add dst t (CHR ''i'') src e (add src t (CHR ''o'') dst e s)) k =
     (if k = (dst, t, CHR ''i'') then add_mset (src, e) (at s k)
      else if k = (src, t, CHR ''o'') then add_mset (dst, e) (at s k) else at s k)"
  by (simp add: at_add ok_add)

end

section \<open>The segments provide it\<close>

definition seg_edges :: "segment \<Rightarrow> (i64 \<times> i64) list" where
  "seg_edges r = zip (seg_nbr r) (seg_eid r)"

definition adjacent :: "segment list \<Rightarrow> key \<Rightarrow> (i64 \<times> i64) multiset" where
  "adjacent table k = mset (concat (map seg_edges (filter (\<lambda>r. seg_key r = k) table)))"

definition seg_ok :: "segment \<Rightarrow> bool" where
  "seg_ok r \<longleftrightarrow> length (seg_nbr r) = seg_n r \<and> length (seg_eid r) = seg_n r \<and> 1 \<le> seg_n r \<and> seg_n r \<le> CHUNK"

definition seg_pk :: "segment \<Rightarrow> key \<times> nat" where
  "seg_pk r = (seg_key r, seg_seq r)"

definition adj_ok :: "segment list \<Rightarrow> bool" where
  "adj_ok table \<longleftrightarrow> distinct (map seg_pk table) \<and> (\<forall>r \<in> set table. seg_ok r)"

lemma adjacent_Nil [simp]: "adjacent [] k = {#}"
  by (simp add: adjacent_def)

lemma adjacent_Cons [simp]:
  "adjacent (r # table) k = (if seg_key r = k then mset (seg_edges r) else {#}) + adjacent table k"
  by (simp add: adjacent_def)

lemma adjacent_append [simp]: "adjacent (a @ b) k = adjacent a k + adjacent b k"
  by (simp add: adjacent_def)

text \<open>A row of a table by its primary key, with the rest of the table around it.\<close>

lemma row_split:
  assumes "distinct (map seg_pk table)" "r \<in> set table"
  obtains pre post where "table = pre @ r # post" "\<forall>x \<in> set pre \<union> set post. seg_pk x \<noteq> seg_pk r"
proof -
  from assms(2) obtain pre post where "table = pre @ r # post" by (meson split_list)
  with assms(1) show ?thesis by (intro that) (auto simp: rev_image_eqI)
qed

lemma map_row:
  assumes "\<forall>x \<in> set pre \<union> set post. \<not> P x" "P r"
  shows "map (\<lambda>x. if P x then f x else x) (pre @ r # post) = pre @ f r # post"
  using assms by (simp add: map_idI)

lemma seqs_of_mem: "r \<in> set table \<Longrightarrow> seg_key r = k \<Longrightarrow> seg_seq r \<in> set (seqs_of table k)"
  by (auto simp: seqs_of_def)

lemma next_seq_fresh: "r \<in> set table \<Longrightarrow> seg_key r = k \<Longrightarrow> seg_seq r < next_seq table k"
proof -
  assume "r \<in> set table" "seg_key r = k"
  then have s: "seg_seq r \<in> set (seqs_of table k)" by (rule seqs_of_mem)
  then have "seg_seq r \<le> Max (set (seqs_of table k))" by simp
  moreover from s have "seqs_of table k \<noteq> []" by auto
  ultimately show ?thesis by (simp add: next_seq_def)
qed

lemma append_cases:
  assumes "adj_ok table"
  obtains (room) pre r post where "table = pre @ r # post" "seg_key r = (src, t, d)" "seg_n r < CHUNK"
      "adj_append src t d nbr e table =
         pre @ r\<lparr>seg_nbr := seg_nbr r @ [nbr], seg_eid := seg_eid r @ [e], seg_n := seg_n r + 1\<rparr> # post"
  | (new) "adj_append src t d nbr e table =
      table @ [\<lparr>seg_src = src, seg_etype = t, seg_dir = d, seg_seq = next_seq table (src, t, d),
                seg_n = 1, seg_nbr = [nbr], seg_eid = [e]\<rparr>]"
proof (cases "\<exists>r \<in> set table. is_tail_with_room table (src, t, d) r")
  case True
  then obtain r where r: "r \<in> set table" "is_tail_with_room table (src, t, d) r" by blast
  from row_split [OF _ r(1)] assms obtain pre post where
    t: "table = pre @ r # post" and other: "\<forall>x \<in> set pre \<union> set post. seg_pk x \<noteq> seg_pk r"
    by (auto simp: adj_ok_def)
  have "\<forall>x \<in> set pre \<union> set post. \<not> is_tail_with_room table (src, t, d) x"
    using other r(2) by (auto simp: is_tail_with_room_def seg_pk_def)
  note m = map_row [OF this r(2)]
  show ?thesis
  proof (rule room [OF t])
    show "seg_key r = (src, t, d)" "seg_n r < CHUNK" using r(2) by (auto simp: is_tail_with_room_def)
    show "adj_append src t d nbr e table =
         pre @ r\<lparr>seg_nbr := seg_nbr r @ [nbr], seg_eid := seg_eid r @ [e], seg_n := seg_n r + 1\<rparr> # post"
      using True m by (simp add: adj_append_def flip: t)
  qed
next
  case False
  then show ?thesis by (intro new) (simp add: adj_append_def)
qed

lemma seg_key_simps [simp]:
  "seg_key (r\<lparr>seg_nbr := a, seg_eid := b, seg_n := n\<rparr>) = seg_key r"
  "seg_pk (r\<lparr>seg_nbr := a, seg_eid := b, seg_n := n\<rparr>) = seg_pk r"
  by (simp_all add: seg_key_def seg_pk_def)

lemma adj_append_ok: "adj_ok table \<Longrightarrow> adj_ok (adj_append src t d nbr e table)"
proof -
  assume ok: "adj_ok table"
  show ?thesis
  proof (cases rule: append_cases [OF ok, of src t d nbr e])
  case (1 pre r post)
  with ok show ?thesis by (auto simp: adj_ok_def seg_ok_def)
next
  case 2
  have "seg_pk r \<noteq> ((src, t, d), next_seq table (src, t, d))" if "r \<in> set table" for r
    using next_seq_fresh [OF that, of "(src, t, d)"] by (auto simp: seg_pk_def)
  then have "((src, t, d), next_seq table (src, t, d)) \<notin> seg_pk ` set table" by fastforce
  with ok show ?thesis
    by (simp add: 2 adj_ok_def seg_ok_def CHUNK_def seg_pk_def seg_key_def)
  qed
qed

lemma adj_append_adjacent:
  "adj_ok table \<Longrightarrow> adjacent (adj_append src t d nbr e table) k =
     (if k = (src, t, d) then add_mset (nbr, e) (adjacent table k) else adjacent table k)"
proof -
  assume ok: "adj_ok table"
  show ?thesis
  proof (cases rule: append_cases [OF ok, of src t d nbr e])
    case (1 pre r post)
    with ok show ?thesis by (auto simp: adj_ok_def seg_ok_def seg_edges_def)
  next
    case 2
    then show ?thesis by (auto simp: seg_edges_def seg_key_def)
  qed
qed

lemma position_nth: "x \<in> set xs \<Longrightarrow> position x xs < length xs \<and> xs ! position x xs = x"
  by (induction xs) auto

lemma mset_splice: "i < length xs \<Longrightarrow> mset (splice_out i xs) = mset xs - {#xs ! i#}"
proof -
  assume i: "i < length xs"
  have "mset xs = mset (take i xs @ xs ! i # drop (Suc i) xs)" using id_take_nth_drop [OF i] by simp
  then show ?thesis by (simp add: splice_out_def)
qed

lemma zip_splice: "length xs = length ys \<Longrightarrow> zip (splice_out i xs) (splice_out i ys) = splice_out i (zip xs ys)"
  by (simp add: splice_out_def take_zip drop_zip)

lemma remove_cases:
  assumes "adj_ok table"
  obtains (absent) "\<forall>r \<in> set table. seg_key r = (src, t, d) \<longrightarrow> e \<notin> set (seg_eid r)" "adj_remove src t d e table = table"
  | (found) pre r post where "table = pre @ r # post" "seg_key r = (src, t, d)" "e \<in> set (seg_eid r)"
      "adj_remove src t d e table = pre @ (if seg_n r = 1 then [] else [drop_edge e r]) @ post"
proof (cases "find (\<lambda>r. seg_key r = (src, t, d) \<and> e \<in> set (seg_eid r)) table")
  case None
  moreover have "filter (\<lambda>r. \<not> (seg_key r = (src, t, d) \<and> seg_n r = 0)) table = table"
    using assms by (auto simp: adj_ok_def seg_ok_def intro!: filter_True)
  moreover have "adj_remove src t d e table = filter (\<lambda>r. \<not> (seg_key r = (src, t, d) \<and> seg_n r = 0)) table"
    using None by (simp add: adj_remove_def)
  ultimately show ?thesis by (intro absent) (auto simp: find_None_iff)
next
  case (Some r)
  then have r: "r \<in> set table" "seg_key r = (src, t, d)" "e \<in> set (seg_eid r)"
    by (auto simp: find_Some_iff)
  from row_split [OF _ r(1)] assms obtain pre post where
    t: "table = pre @ r # post" and other: "\<forall>x \<in> set pre \<union> set post. seg_pk x \<noteq> seg_pk r"
    by (auto simp: adj_ok_def)
  have m: "map (\<lambda>x. if seg_key x = seg_key r \<and> seg_seq x = seg_seq r then drop_edge e x else x) table
      = pre @ drop_edge e r # post"
    unfolding t using other by (intro map_row) (auto simp: seg_pk_def)
  have n: "seg_n (drop_edge e r) = seg_n r - 1" "seg_key (drop_edge e r) = (src, t, d)"
    using r(2) by (simp_all add: drop_edge_def Let_def)
  have keep: "filter (\<lambda>r. \<not> (seg_key r = (src, t, d) \<and> seg_n r = 0)) xs = xs" if "set xs \<subseteq> set table" for xs
  proof (rule filter_True, rule ballI)
    fix x assume "x \<in> set xs"
    with that assms have "1 \<le> seg_n x" by (auto simp: adj_ok_def seg_ok_def)
    then show "\<not> (seg_key x = (src, t, d) \<and> seg_n x = 0)" by simp
  qed
  have "1 \<le> seg_n r" using assms r(1) by (simp add: adj_ok_def seg_ok_def)
  moreover have "adj_remove src t d e table =
      filter (\<lambda>r. \<not> (seg_key r = (src, t, d) \<and> seg_n r = 0)) (pre @ drop_edge e r # post)"
    using Some by (simp add: adj_remove_def flip: m)
  moreover have "set pre \<subseteq> set table" "set post \<subseteq> set table" by (auto simp: t)
  ultimately have "adj_remove src t d e table = pre @ (if seg_n r = 1 then [] else [drop_edge e r]) @ post"
    using keep [of pre] keep [of post] by (auto simp: n)
  with t r show ?thesis by (intro found)
qed

lemma drop_edge_ok: "seg_ok r \<Longrightarrow> e \<in> set (seg_eid r) \<Longrightarrow> seg_n r \<noteq> 1 \<Longrightarrow> seg_ok (drop_edge e r)"
  using position_nth [of e "seg_eid r"]
  by (auto simp: seg_ok_def drop_edge_def Let_def splice_out_def)

lemma drop_edge_edges:
  assumes "seg_ok r" "e \<in> set (seg_eid r)"
  obtains nbr where "mset (seg_edges r) = add_mset (nbr, e) (mset (seg_edges (drop_edge e r)))"
proof -
  let ?i = "position e (seg_eid r)"
  have i: "?i < length (seg_edges r)" "seg_edges r ! ?i = (seg_nbr r ! ?i, e)"
    using assms position_nth [of e "seg_eid r"] by (auto simp: seg_ok_def seg_edges_def)
  have "mset (seg_edges (drop_edge e r)) = mset (seg_edges r) - {#(seg_nbr r ! ?i, e)#}"
    using assms(1) mset_splice [OF i(1)] i(2)
    by (simp add: drop_edge_def Let_def seg_edges_def seg_ok_def zip_splice)
  moreover have "(seg_nbr r ! ?i, e) \<in># mset (seg_edges r)" using i by (metis nth_mem_mset)
  ultimately show ?thesis by (intro that [of "seg_nbr r ! ?i"]) simp
qed

lemma adj_remove_ok: "adj_ok table \<Longrightarrow> adj_ok (adj_remove src t d e table)"
proof -
  assume ok: "adj_ok table"
  show ?thesis
  proof (cases rule: remove_cases [OF ok, of src t d e])
    case (2 pre r post)
    have "seg_pk (drop_edge e r) = seg_pk r" by (simp add: drop_edge_def Let_def)
    with ok show ?thesis using 2 drop_edge_ok [of r e] by (auto simp: adj_ok_def)
  qed (use ok in simp)
qed

lemma adj_remove_adjacent:
  assumes ok: "adj_ok table" and e: "(nbr, e) \<in># adjacent table (src, t, d)"
    and only: "\<And>nbr'. (nbr', e) \<in># adjacent table (src, t, d) \<Longrightarrow> nbr' = nbr"
  shows "adjacent (adj_remove src t d e table) k =
     (if k = (src, t, d) then adjacent table k - {#(nbr, e)#} else adjacent table k)"
proof (cases rule: remove_cases [OF ok, of src t d e])
  case 1
  with e have False by (auto simp: adjacent_def seg_edges_def dest: set_zip_rightD)
  then show ?thesis ..
next
  case (2 pre r post)
  have r: "seg_ok r" using ok 2(1) by (simp add: adj_ok_def)
  from drop_edge_edges [OF r 2(3)] obtain nbr' where
    d: "mset (seg_edges r) = add_mset (nbr', e) (mset (seg_edges (drop_edge e r)))" .
  then have "(nbr', e) \<in># adjacent table (src, t, d)" using 2(1,2) by simp
  then have "nbr' = nbr" by (rule only)
  moreover have "seg_edges (drop_edge e r) = []" if "seg_n r = 1"
    using that r position_nth [OF 2(3)] by (auto simp: seg_ok_def drop_edge_def seg_edges_def splice_out_def)
  moreover have "seg_key (drop_edge e r) = seg_key r" by (simp add: drop_edge_def Let_def)
  ultimately show ?thesis using 2 d by auto
qed

interpretation adj: edge_index adjacent adj_append adj_remove adj_ok
  by unfold_locales (fact adj_append_ok adj_remove_ok adj_append_adjacent adj_remove_adjacent)+

lemma og_degree_adjacent:
  "adj_ok table \<Longrightarrow> og_degree table src t d = size (adjacent table (src, t, d))"
proof -
  assume "adj_ok table"
  then have "\<forall>r \<in> set table. seg_ok r" by (simp add: adj_ok_def)
  then show ?thesis
    by (induction table) (auto simp: og_degree_def seg_ok_def seg_edges_def)
qed

section \<open>Properties\<close>

text \<open>C34: Storing an edge keeps the segments dense, aligned, within \<open>CHUNK\<close> and uniquely numbered, and
  adds exactly that edge to the neighbours of exactly its key.\<close>

theorem adj_append_adds:
  assumes "adj_ok table"
  shows "adj_ok (adj_append src t d nbr e table) \<and>
    adjacent (adj_append src t d nbr e table) k =
      (if k = (src, t, d) then add_mset (nbr, e) (adjacent table k) else adjacent table k)"
  using adj.ok_add [OF assms] adj.at_add [OF assms] by blast

text \<open>A full segment: the next edge opens the second one.\<close>

definition full_segment :: segment where
  "full_segment = \<lparr>seg_src = 1, seg_etype = 7, seg_dir = CHR ''o'', seg_seq = 0, seg_n = 256,
     seg_nbr = replicate 256 2, seg_eid = map (\<lambda>i. of_nat i) [0..<256]\<rparr>"

lemma full_segment_ok: "adj_ok [full_segment]"
  by (simp add: adj_ok_def seg_ok_def full_segment_def CHUNK_def)

theorem adj_append_adds_witness:
  "adjacent (adj_append 1 7 (CHR ''o'') 3 300 [full_segment]) (1, 7, CHR ''o'') =
     add_mset (3, 300) (adjacent [full_segment] (1, 7, CHR ''o'')) \<and>
   length (adj_append 1 7 (CHR ''o'') 3 300 [full_segment]) = 2"
proof -
  have "length (adj_append 1 7 (CHR ''o'') 3 300 [full_segment]) = 2"
    by (simp add: adj_append_def is_tail_with_room_def full_segment_def CHUNK_def)
  with adj_append_adds [OF full_segment_ok, of 1 7 "CHR ''o''" 3 300 "(1, 7, CHR ''o'')"] show ?thesis by simp
qed

text \<open>Removing the edge that was just stored gives every key the neighbours it had, and the segments
  are as well formed as before, also when a segment became empty and was dropped.\<close>

theorem adj_remove_undoes_append:
  assumes "adj_ok table" "\<And>nbr'. (nbr', e) \<notin># adjacent table (src, t, d)"
  shows "adj_ok (adj_remove src t d e (adj_append src t d nbr e table)) \<and>
    adjacent (adj_remove src t d e (adj_append src t d nbr e table)) k = adjacent table k"
  using adj.ok_del [OF adj.ok_add [OF assms(1)]] adj.add_del [OF assms] by blast

theorem adj_remove_undoes_append_witness:
  "adjacent (adj_remove 1 7 (CHR ''o'') 300 (adj_append 1 7 (CHR ''o'') 3 300 [])) (1, 7, CHR ''o'') = {#}"
  using adj_remove_undoes_append [of "[]" 300 1 7 "CHR ''o''" 3 "(1, 7, CHR ''o'')"] by (simp add: adj_ok_def)

lemma degree_types:
  "finite S \<Longrightarrow> seg_etype ` set table \<subseteq> S \<Longrightarrow> og_degree_all table src d = (\<Sum>t \<in> S. og_degree table src t d)"
proof (induction table)
  case (Cons r table)
  have "(\<Sum>t \<in> S. og_degree (r # table) src t d) =
      (\<Sum>t \<in> S. if t = seg_etype r then (if seg_src r = src \<and> seg_dir r = d then seg_n r else 0) else 0) +
      (\<Sum>t \<in> S. og_degree table src t d)"
    unfolding sum.distrib [symmetric] by (rule sum.cong) (auto simp: og_degree_def seg_key_def)
  moreover have "og_degree_all (r # table) src d =
      (if seg_src r = src \<and> seg_dir r = d then seg_n r else 0) + og_degree_all table src d"
    by (simp add: og_degree_all_def)
  ultimately show ?case using Cons by simp
qed (simp add: og_degree_def og_degree_all_def)

text \<open>The degree of a node counts its edges, by relation type; over all relation types it is the sum.\<close>

theorem og_degree_counts:
  assumes "adj_ok table"
  shows "og_degree table src t d = size (adjacent table (src, t, d)) \<and>
    og_degree_all table src d = (\<Sum>t \<in> seg_etype ` set table. size (adjacent table (src, t, d)))"
  using og_degree_adjacent [OF assms] degree_types [of "seg_etype ` set table" table src d] by simp

theorem og_degree_counts_witness: "size (adjacent [full_segment] (1, 7, CHR ''o'')) = 256"
  using og_degree_counts [OF full_segment_ok, of 1 7 "CHR ''o''"]
  by (simp add: og_degree_def seg_key_def full_segment_def)

end
