(* ===== verification/Graph_Store.thy ===== *)
theory Graph_Store
  imports Machine_Ids Type_Labels Adjacency Json
begin

text \<open>
  The write paths of graph storage (\<open>engine/src/storage/mod.rs\<close>) with the counters of
  \<open>engine/src/stats.rs\<close> and the lookups of \<open>engine/src/catalog/types.rs\<close> they use.  A statement either
  returns a value and the changed database or raises, which aborts it and leaves the database as it
  was.  The adjacency index is used through the laws of \<open>edge_index\<close>; the lemmas show that it always
  mirrors the edge registry in both directions, that ids are never handed out twice, and that
  deleting a node leaves no edge behind.
\<close>

section \<open>Catalog rows\<close>

record type_row =
  tr_id :: i32
  tr_graph :: i32
  tr_name :: string
  tr_kind :: char
  tr_abstract :: bool
  tr_storage :: "string option"

record role_row =
  ro_id :: i32
  ro_rel :: i32
  ro_name :: string
  ro_player :: "i32 option"
  ro_ordinal :: i32
  ro_card_min :: i32
  ro_card_max :: "i32 option"

record prop_row =
  pr_type :: i32
  pr_name :: string
  pr_column :: string
  pr_dtype :: string
  pr_required :: bool
  pr_key :: bool

datatype write_op = Create | Set | Delete

text \<open>Beside its rows the catalog has what only PostgreSQL can answer: the source of a virtual type and
  whether the role has the privilege of a write on a column, or on the table for a deletion.\<close>

record catalog =
  types :: "type_row list"
  type_labels :: "label_row list"
  roles :: "role_row list"
  properties :: "prop_row list"
  virtual_source :: "i32 \<Rightarrow> string option"
  privileged :: "write_op \<Rightarrow> string \<Rightarrow> string \<Rightarrow> bool"

datatype store_error =
    Not_entity string
  | Not_relation string
  | Abstract_type string
  | Unknown_type i32
  | No_storage i64
  | Read_only_virtual string string
  | Reserved_property string
  | Write_denied write_op string string
  | Role_mismatch string string
  | No_role string
  | Bad_id id_error

definition type_at :: "catalog \<Rightarrow> i32 \<Rightarrow> type_row option" where
  "type_at c t = find (\<lambda>r. tr_id r = t) (types c)"

definition type_kind :: "catalog \<Rightarrow> i32 \<Rightarrow> store_error + char" where
  "type_kind c t = (case type_at c t of Some r \<Rightarrow> Inr (tr_kind r) | None \<Rightarrow> Inl (Unknown_type t))"

definition try_type_name :: "catalog \<Rightarrow> i32 \<Rightarrow> string option" where
  "try_type_name c t = map_option tr_name (type_at c t)"

definition storage_table :: "catalog \<Rightarrow> i32 \<Rightarrow> string option" where
  "storage_table c t = Option.bind (type_at c t) tr_storage"

definition type_name_of :: "catalog \<Rightarrow> i32 \<Rightarrow> string" where
  "type_name_of c t = (case try_type_name c t of Some n \<Rightarrow> n | None \<Rightarrow> ''type#'' @ show_int (sint t))"

definition refuse_virtual_write :: "catalog \<Rightarrow> i32 \<Rightarrow> store_error + unit" where
  "refuse_virtual_write c t = (case virtual_source c t of
       None \<Rightarrow> Inr ()
     | Some source \<Rightarrow> Inl (Read_only_virtual
         (case try_type_name c t of Some n \<Rightarrow> n | None \<Rightarrow> show_int (sint t)) source))"

text \<open>\<open>security::check_write\<close>, \<open>is_reserved_key\<close> and \<open>check_reserved_keys\<close>.\<close>

definition denied_column :: "catalog \<Rightarrow> write_op \<Rightarrow> string \<Rightarrow> string list \<Rightarrow> string option" where
  "denied_column c op table cols = (case op of
       Delete \<Rightarrow> if privileged c Delete table [] then None else Some []
     | _ \<Rightarrow> find (\<lambda>col. \<not> privileged c op table col) cols)"

lemma find_never [simp]: "find (\<lambda>x. False) xs = None"
  by (simp add: find_None_iff)

definition check_write :: "catalog \<Rightarrow> i32 \<Rightarrow> string \<Rightarrow> write_op \<Rightarrow> string list \<Rightarrow> store_error + unit" where
  "check_write c t table op cols = (case denied_column c op table cols of
       None \<Rightarrow> Inr ()
     | Some col \<Rightarrow> Inl (Write_denied op (type_name_of c t) col))"

definition is_reserved_key :: "string \<Rightarrow> bool" where
  "is_reserved_key k \<longleftrightarrow> k \<in> {''_id'', ''_type'', ''_src'', ''_dst''} \<or> starts_with ''__'' k"

definition check_reserved_keys :: "json \<Rightarrow> store_error + unit" where
  "check_reserved_keys props = (case props of
       JObj m \<Rightarrow> (case find is_reserved_key (map fst m) of
           Some k \<Rightarrow> Inl (Reserved_property k) | None \<Rightarrow> Inr ())
     | _ \<Rightarrow> Inr ())"

section \<open>Planning the properties of a write\<close>

text \<open>The column type a value wants, and when a column can hold it.\<close>

fun infer_column_type :: "json \<Rightarrow> string option" where
  "infer_column_type (JBool b) = Some ''bool''"
| "infer_column_type (JNum (JFloat f)) = Some ''float8''"
| "infer_column_type (JNum n) = Some ''int8''"
| "infer_column_type (JStr s) = Some ''text''"
| "infer_column_type _ = None"

definition WIDENABLE :: "string list" where
  "WIDENABLE = [''bool'', ''int8'', ''float8'']"

definition type_accepts :: "string \<Rightarrow> string \<Rightarrow> bool" where
  "type_accepts declared wanted \<longleftrightarrow> declared = wanted \<or>
     (declared, wanted) \<in> {(''float8'', ''int8''), (''numeric'', ''int8''), (''numeric'', ''float8'')}"

text \<open>Whether a payload asks for a new column or for a column to be widened (\<open>declare_new_props\<close>).\<close>

definition needs_declaring :: "prop_row list \<Rightarrow> json \<Rightarrow> bool" where
  "needs_declaring existing props = (case props of
       JObj m \<Rightarrow> list_ex (\<lambda>(key, value). case infer_column_type value of
           None \<Rightarrow> False
         | Some want \<Rightarrow> (case find (\<lambda>p. pr_name p = key) existing of
               None \<Rightarrow> True
             | Some p \<Rightarrow> pr_dtype p \<in> set WIDENABLE \<and> \<not> type_accepts (pr_dtype p) want)) m
     | _ \<Rightarrow> False)"

record prop_plan =
  plan_columns :: "string list"
  plan_exprs :: "string list"
  plan_declared :: "string list"
  ext_needed :: bool

text \<open>\<open>k.replace('\'', "''")\<close>, and the quoted key.\<close>

definition double_quotes :: "string \<Rightarrow> string" where
  "double_quotes k = concat (map (\<lambda>c. if c = CHR 0x27 then [c, c] else [c]) k)"

definition quote_json_key :: "string \<Rightarrow> string" where
  "quote_json_key k = [CHR 0x27] @ double_quotes k @ [CHR 0x27]"

definition ends_with :: "string \<Rightarrow> string \<Rightarrow> bool" where
  "ends_with suffix s \<longleftrightarrow> starts_with (rev suffix) (rev s)"

function trim_end_matches :: "string \<Rightarrow> string \<Rightarrow> string" where
  "trim_end_matches p s = (if p \<noteq> [] \<and> ends_with p s \<and> length p \<le> length s
     then trim_end_matches p (take (length s - length p) s) else s)"
  by pat_completeness auto
termination
  by (relation "measure (\<lambda>(p, s). length s)") (auto simp: neq_Nil_conv)

declare trim_end_matches.simps [simp del]

definition prop_expr :: "string \<Rightarrow> string \<Rightarrow> string \<Rightarrow> string" where
  "prop_expr param name dtype =
     (let lit = quote_json_key name in
      if ends_with ''[]'' dtype
      then ''(SELECT array_agg(x)::'' @ dtype @ '' FROM jsonb_array_elements_text('' @ param @ ''->'' @ lit @
           '') AS t(x_raw), LATERAL (SELECT t.x_raw::'' @ trim_end_matches ''[]'' dtype @ '') AS c(x))''
      else ''('' @ param @ ''->>'' @ lit @ '')::'' @ dtype)"

definition plan_props :: "prop_row list \<Rightarrow> json \<Rightarrow> string \<Rightarrow> prop_plan" where
  "plan_props rows props param =
     (let used = filter (\<lambda>p. json_get props (pr_name p) \<noteq> None) rows; declared = map pr_name rows in
      \<lparr>plan_columns = map pr_column used,
       plan_exprs = map (\<lambda>p. prop_expr param (pr_name p) (pr_dtype p)) used,
       plan_declared = declared,
       ext_needed = (case props of JObj m \<Rightarrow> list_ex (\<lambda>k. k \<notin> set declared) (map fst m) | _ \<Rightarrow> False)\<rparr>)"

definition ext_expr :: "prop_plan \<Rightarrow> string \<Rightarrow> string" where
  "ext_expr plan param =
     (if plan_declared plan = [] then ''NULLIF('' @ param @ '', '' @ quote_json_key ''{}'' @ ''::jsonb)''
      else ''NULLIF('' @ param @ '' - ARRAY['' @ join '','' (map quote_json_key (plan_declared plan)) @
           '']::text[], '' @ quote_json_key ''{}'' @ ''::jsonb)'')"

definition planned :: "catalog \<Rightarrow> i32 \<Rightarrow> json \<Rightarrow> string \<Rightarrow> store_error + prop_plan" where
  "planned c t props param = rbind (check_reserved_keys props) (\<lambda>_.
     Inr (plan_props (filter (\<lambda>p. pr_type p = t) (properties c)) props param))"

section \<open>The database\<close>

record edge_row =
  er_id :: i64
  er_type :: i32
  er_src :: i64
  er_dst :: i64

text \<open>A row of a typed table: its endpoints for an edge, and the assignments it received, each a column
  with the SQL that computes it from the payload bound to the statement.\<close>

record stored_row =
  st_table :: string
  st_id :: i64
  st_ends :: "(i64 \<times> i64) option"
  st_sets :: "(string \<times> string \<times> json) list"

record counters =
  nodes_created :: nat
  nodes_deleted :: nat
  relationships_created :: nat
  relationships_deleted :: nat
  properties_count :: nat
  labels_added :: nat
  indexes_added :: nat
  indexes_removed :: nat
  constraints_added :: nat
  constraints_removed :: nat

record db =
  next_id :: "i32 \<Rightarrow> nat"
  og_node :: "(i64 \<times> i32) list"
  og_edge :: "edge_row list"
  og_adj :: "segment list"
  og_role_player :: "(i64 \<times> i32 \<times> i64) list"
  stored :: "stored_row list"
  stats :: counters

type_synonym 'a stmt = "db \<Rightarrow> store_error + 'a \<times> db"

definition empty_db :: db where
  "empty_db = \<lparr>next_id = (\<lambda>_. 1), og_node = [], og_edge = [], og_adj = [], og_role_player = [], stored = [],
     stats = \<lparr>nodes_created = 0, nodes_deleted = 0, relationships_created = 0, relationships_deleted = 0,
              properties_count = 0, labels_added = 0, indexes_added = 0, indexes_removed = 0,
              constraints_added = 0, constraints_removed = 0\<rparr>\<rparr>"

text \<open>The counters of \<open>stats.rs\<close>.\<close>

definition node_created :: "counters \<Rightarrow> counters" where
  "node_created c = c\<lparr>nodes_created := nodes_created c + 1, labels_added := labels_added c + 1\<rparr>"

definition node_deleted :: "counters \<Rightarrow> counters" where
  "node_deleted c = c\<lparr>nodes_deleted := nodes_deleted c + 1\<rparr>"

definition relationship_created :: "counters \<Rightarrow> counters" where
  "relationship_created c = c\<lparr>relationships_created := relationships_created c + 1\<rparr>"

definition relationship_deleted :: "counters \<Rightarrow> counters" where
  "relationship_deleted c = c\<lparr>relationships_deleted := relationships_deleted c + 1\<rparr>"

definition properties_set :: "json \<Rightarrow> counters \<Rightarrow> counters" where
  "properties_set props c = (case props of
       JObj m \<Rightarrow> c\<lparr>properties_count := properties_count c + length m\<rparr> | _ \<Rightarrow> c)"

definition index_added :: "counters \<Rightarrow> counters" where
  "index_added c = c\<lparr>indexes_added := indexes_added c + 1\<rparr>"

definition index_removed :: "counters \<Rightarrow> counters" where
  "index_removed c = c\<lparr>indexes_removed := indexes_removed c + 1\<rparr>"

definition constraint_added :: "counters \<Rightarrow> counters" where
  "constraint_added c = c\<lparr>constraints_added := constraints_added c + 1\<rparr>"

definition constraint_removed :: "counters \<Rightarrow> counters" where
  "constraint_removed c = c\<lparr>constraints_removed := constraints_removed c + 1\<rparr>"

definition snapshot_total :: "counters \<Rightarrow> nat" where
  "snapshot_total c = nodes_created c + nodes_deleted c + relationships_created c + relationships_deleted c +
     properties_count c + labels_added c + indexes_added c + indexes_removed c + constraints_added c + constraints_removed c"

text \<open>\<open>INSERT \<dots> ON CONFLICT DO UPDATE \<dots> RETURNING next_id - 1\<close>; a type without a row starts at 1.\<close>

definition alloc_id :: "i32 \<Rightarrow> i64 stmt" where
  "alloc_id t d = (case make_id 0 t (of_nat (next_id d t)) of
       Inl e \<Rightarrow> Inl (Bad_id e)
     | Inr i \<Rightarrow> Inr (i, d\<lparr>next_id := (next_id d)(t := next_id d t + 1)\<rparr>))"

section \<open>Nodes\<close>

definition row_sets :: "prop_plan \<Rightarrow> json \<Rightarrow> string \<Rightarrow> (string \<times> string \<times> json) list" where
  "row_sets plan props ext = map (\<lambda>(c, e). (c, e, props)) (zip (plan_columns plan) (plan_exprs plan)) @
     (if ext_needed plan then [(''__ext'', ext, props)] else [])"

definition touched :: "prop_plan \<Rightarrow> string list" where
  "touched plan = plan_columns plan @ (if ext_needed plan then [''__ext''] else [])"

definition create_node_inner :: "catalog \<Rightarrow> i32 \<Rightarrow> string \<Rightarrow> json \<Rightarrow> i64 stmt" where
  "create_node_inner c t type_name props d =
     rbind (type_kind c t) (\<lambda>k.
     if k \<noteq> CHR ''e'' then Inl (Not_entity type_name) else
     (case storage_table c t of
        None \<Rightarrow> Inl (Abstract_type type_name)
      | Some table \<Rightarrow>
     rbind (refuse_virtual_write c t) (\<lambda>_.
     rbind (planned c t props ''$2'') (\<lambda>plan.
     let ext = ext_expr plan ''$2'' in
     rbind (check_write c t table Create (''id'' # touched plan)) (\<lambda>_.
     rbind (alloc_id t d) (\<lambda>(nid, d).
     Inr (nid, d\<lparr>og_node := og_node d @ [(nid, t)],
                  stored := stored d @ [\<lparr>st_table = table, st_id = nid, st_ends = None,
                                        st_sets = row_sets plan props ext\<rparr>],
                  stats := properties_set props (node_created (stats d))\<rparr>)))))))"

text \<open>The merge of the overflow payload in an \<open>UPDATE\<close>.\<close>

definition ext_merge :: "string \<Rightarrow> string" where
  "ext_merge ext = ''COALESCE(__ext,'' @ quote_json_key ''{}'' @ ''::jsonb) || COALESCE('' @ ext @ '','' @
     quote_json_key ''{}'' @ ''::jsonb)''"

definition update_row :: "string \<Rightarrow> i64 \<Rightarrow> (string \<times> string \<times> json) list \<Rightarrow> stored_row list \<Rightarrow> stored_row list" where
  "update_row table i sets rows =
     map (\<lambda>r. if st_table r = table \<and> st_id r = i then r\<lparr>st_sets := st_sets r @ sets\<rparr> else r) rows"

definition set_node_props_inner :: "catalog \<Rightarrow> i64 \<Rightarrow> json \<Rightarrow> unit stmt" where
  "set_node_props_inner c i props d =
     (let t = id_type i in
      rbind (refuse_virtual_write c t) (\<lambda>_.
      (case storage_table c t of
         None \<Rightarrow> Inl (No_storage i)
       | Some table \<Rightarrow>
      rbind (planned c t props ''$2'') (\<lambda>plan.
      rbind (check_write c t table Set (touched plan)) (\<lambda>_.
      if \<not> ext_needed plan \<and> plan_columns plan = [] then Inr ((), d)
      else Inr ((), d\<lparr>stored := update_row table i (row_sets plan props (ext_merge (ext_expr plan ''$2''))) (stored d),
                       stats := properties_set props (stats d)\<rparr>))))))"

definition set_edge_props_inner :: "catalog \<Rightarrow> i64 \<Rightarrow> json \<Rightarrow> unit stmt" where
  "set_edge_props_inner c i props d =
     (let t = id_type i in
      (case storage_table c t of
         None \<Rightarrow> Inl (No_storage i)
       | Some table \<Rightarrow>
      rbind (planned c t props ''$2'') (\<lambda>plan.
      rbind (check_write c t table Set (touched plan)) (\<lambda>_.
      let sets = row_sets plan props (ext_merge (ext_expr plan ''$2'')) in
      if sets = [] then Inr ((), d)
      else Inr ((), d\<lparr>stored := update_row table i sets (stored d), stats := properties_set props (stats d)\<rparr>)))))"

section \<open>Edges\<close>

text \<open>The declared player types of the roles of the relation and of the relations above it.\<close>

fun check_roles :: "catalog \<Rightarrow> string \<Rightarrow> i64 \<Rightarrow> i64 \<Rightarrow> role_row list \<Rightarrow> store_error + unit" where
  "check_roles c rel_type src dst [] = Inr ()"
| "check_roles c rel_type src dst (r # rs) =
     (case ro_player r of
        None \<Rightarrow> check_roles c rel_type src dst rs
      | Some player \<Rightarrow>
          (let actual = (if ro_ordinal r = 0 then id_type src else id_type dst) in
           if \<not> og_is_subtype (type_labels c) actual player
           then Inl (Role_mismatch (ro_name r) rel_type)
           else check_roles c rel_type src dst rs))"

definition validate_roles :: "catalog \<Rightarrow> i32 \<Rightarrow> string \<Rightarrow> i64 \<Rightarrow> i64 \<Rightarrow> store_error + unit" where
  "validate_roles c t rel_type src dst =
     check_roles c rel_type src dst
       (filter (\<lambda>r. ro_rel r \<in> set (og_supertypes (type_labels c) t) \<and> ro_player r \<noteq> None \<and> ro_ordinal r \<in> {0, 1})
         (roles c))"

definition create_edge_inner :: "catalog \<Rightarrow> i32 \<Rightarrow> string \<Rightarrow> i64 \<Rightarrow> i64 \<Rightarrow> json \<Rightarrow> i64 stmt" where
  "create_edge_inner c t rel_type src dst props d =
     rbind (type_kind c t) (\<lambda>k.
     if k \<noteq> CHR ''r'' then Inl (Not_relation rel_type) else
     (case storage_table c t of
        None \<Rightarrow> Inl (Abstract_type rel_type)
      | Some table \<Rightarrow>
     rbind (validate_roles c t rel_type src dst) (\<lambda>_.
     rbind (planned c t props ''$4'') (\<lambda>plan.
     let ext = ext_expr plan ''$4'' in
     rbind (check_write c t table Create ([''id'', ''src'', ''dst''] @ touched plan)) (\<lambda>_.
     rbind (alloc_id t d) (\<lambda>(eid, d).
     Inr (eid, d\<lparr>og_edge := og_edge d @ [\<lparr>er_id = eid, er_type = t, er_src = src, er_dst = dst\<rparr>],
                  stored := stored d @ [\<lparr>st_table = table, st_id = eid, st_ends = Some (src, dst),
                                        st_sets = row_sets plan props ext\<rparr>],
                  og_adj := adj_append dst t CHR ''i'' src eid (adj_append src t CHR ''o'' dst eid (og_adj d)),
                  stats := properties_set props (relationship_created (stats d))\<rparr>)))))))"

definition delete_stored :: "catalog \<Rightarrow> i32 \<Rightarrow> i64 \<Rightarrow> stored_row list \<Rightarrow> stored_row list" where
  "delete_stored c t i rows = (case storage_table c t of
       None \<Rightarrow> rows
     | Some table \<Rightarrow> filter (\<lambda>r. \<not> (st_table r = table \<and> st_id r = i)) rows)"

definition may_delete :: "catalog \<Rightarrow> i32 \<Rightarrow> store_error + unit" where
  "may_delete c t = (case storage_table c t of
       None \<Rightarrow> Inr () | Some table \<Rightarrow> check_write c t table Delete [])"

definition delete_edge_inner :: "catalog \<Rightarrow> i64 \<Rightarrow> nat stmt" where
  "delete_edge_inner c eid d =
     (let t = id_type eid in
      case find (\<lambda>e. er_id e = eid) (og_edge d) of
        None \<Rightarrow> Inr (0, d)
      | Some e \<Rightarrow>
          rbind (may_delete c t) (\<lambda>_.
          Inr (1, d\<lparr>og_adj := adj_remove (er_dst e) t CHR ''i'' eid (adj_remove (er_src e) t CHR ''o'' eid (og_adj d)),
                     stored := delete_stored c t eid (stored d),
                     og_edge := filter (\<lambda>e. er_id e \<noteq> eid) (og_edge d),
                     og_role_player := filter (\<lambda>(e, r, p). e \<noteq> eid) (og_role_player d),
                     stats := relationship_deleted (stats d)\<rparr>)))"

fun delete_edges :: "catalog \<Rightarrow> i64 list \<Rightarrow> nat stmt" where
  "delete_edges c [] d = Inr (0, d)"
| "delete_edges c (e # es) d =
     rbind (delete_edge_inner c e d) (\<lambda>(n, d). rbind (delete_edges c es d) (\<lambda>(m, d). Inr (n + m, d)))"

definition incident :: "segment list \<Rightarrow> i64 \<Rightarrow> i64 list" where
  "incident table i = remdups (concat (map seg_eid (filter (\<lambda>r. seg_src r = i) table)))"

definition delete_node_inner :: "catalog \<Rightarrow> i64 \<Rightarrow> nat stmt" where
  "delete_node_inner c i d =
     (let t = id_type i in
      rbind (refuse_virtual_write c t) (\<lambda>_.
      rbind (may_delete c t) (\<lambda>_.
      rbind (delete_edges c (incident (og_adj d) i) d) (\<lambda>(removed, d).
      Inr (removed + 1,
           d\<lparr>stored := delete_stored c t i (stored d),
             og_node := filter (\<lambda>(n, t). n \<noteq> i) (og_node d),
             og_adj := filter (\<lambda>r. seg_src r \<noteq> i) (og_adj d),
             stats := node_deleted (stats d)\<rparr>)))))"

text \<open>An extra player of an n-ary relation; \<open>rel_type_id\<close> is the relation the name resolved to.\<close>

definition og_add_role_player :: "catalog \<Rightarrow> i32 \<Rightarrow> i64 \<Rightarrow> string \<Rightarrow> i64 \<Rightarrow> unit stmt" where
  "og_add_role_player c rel_type_id edge_id role player d =
     (case find (\<lambda>r. ro_rel r \<in> set (og_supertypes (type_labels c) rel_type_id) \<and> ro_name r = role) (roles c) of
        None \<Rightarrow> Inl (No_role role)
      | Some r \<Rightarrow>
          (case ro_player r of
             Some pt \<Rightarrow> if pt \<noteq> 0 \<and> \<not> og_is_subtype (type_labels c) (id_type player) pt
               then Inl (Role_mismatch role (type_name_of c pt))
               else Inr ((), d\<lparr>og_role_player := List.insert (edge_id, ro_id r, player) (og_role_player d)\<rparr>)
           | None \<Rightarrow> Inr ((), d\<lparr>og_role_player := List.insert (edge_id, ro_id r, player) (og_role_player d)\<rparr>)))"

section \<open>The registry and its mirror\<close>

text \<open>The edges the index must hold under a key: those that leave the node, or those that reach it.\<close>

definition mirrored :: "edge_row list \<Rightarrow> key \<Rightarrow> (i64 \<times> i64) multiset" where
  "mirrored edges k = (case k of (n, t, dir) \<Rightarrow>
     if dir = CHR ''o'' then mset (map (\<lambda>e. (er_dst e, er_id e)) (filter (\<lambda>e. er_src e = n \<and> er_type e = t) edges))
     else if dir = CHR ''i'' then mset (map (\<lambda>e. (er_src e, er_id e)) (filter (\<lambda>e. er_dst e = n \<and> er_type e = t) edges))
     else {#})"

definition store_ok :: "db \<Rightarrow> bool" where
  "store_ok d \<longleftrightarrow> adj_ok (og_adj d) \<and> adjacent (og_adj d) = mirrored (og_edge d) \<and>
     distinct (map er_id (og_edge d)) \<and> (\<forall>t. next_id d t \<le> 2 ^ 36) \<and>
     (\<forall>e \<in> set (og_edge d). \<exists>l < next_id d (er_type e). make_id 0 (er_type e) (of_nat l) = Inr (er_id e))"

lemma mirrored_append [simp]: "mirrored (a @ b) k = mirrored a k + mirrored b k"
  by (simp add: mirrored_def split: prod.split)

lemma mirrored_one: "mirrored [e] k =
    (if k = (er_dst e, er_type e, CHR ''i'') then {#(er_src e, er_id e)#}
     else if k = (er_src e, er_type e, CHR ''o'') then {#(er_dst e, er_id e)#} else {#})"
  by (auto simp: mirrored_def split: prod.split)

lemma mirrored_ids: "(m, i) \<in># mirrored edges k \<Longrightarrow> i \<in> er_id ` set edges"
  by (auto simp: mirrored_def split: prod.splits if_splits)

lemma of_nat_inj36: "(of_nat a :: i64) = of_nat b \<Longrightarrow> a \<le> 2 ^ 36 \<Longrightarrow> b \<le> 2 ^ 36 \<Longrightarrow> a = b"
proof -
  assume eq: "(of_nat a :: i64) = of_nat b" and le: "a \<le> 2 ^ 36" "b \<le> 2 ^ 36"
  have "unat (of_nat a :: i64) = a" "unat (of_nat b :: i64) = b"
    using le by (simp_all add: unsigned_of_nat take_bit_nat_eq_self)
  with eq show ?thesis by metis
qed

lemma alloc_local:
  assumes "make_id 0 t (of_nat l) = Inr i" "l \<le> 2 ^ 36"
  shows "l < 2 ^ 36 \<and> id_type i = t \<and> id_local i = of_nat l"
proof -
  obtain s t' l' where b: "s < 2 ^ 9" "t' < 2 ^ 18" "l' < 2 ^ 36" "t = of_nat t'" "of_nat l = (of_nat l' :: i64)"
    "i = packed s t' l'"
    using make_id_packed [OF assms(1)] by blast
  have "l = l'" using b(5) assms(2) b(3) by (intro of_nat_inj36) simp_all
  with b show ?thesis by (simp add: packed_fields)
qed

lemma alloc_ok:
  assumes "alloc_id t d = Inr (i, d1)" "store_ok d"
  shows "d1 = d\<lparr>next_id := (next_id d)(t := next_id d t + 1)\<rparr>" "make_id 0 t (of_nat (next_id d t)) = Inr i"
    "next_id d t < 2 ^ 36" "id_type i = t" "i \<notin> er_id ` set (og_edge d)"
proof -
  from assms(1) show d1: "d1 = d\<lparr>next_id := (next_id d)(t := next_id d t + 1)\<rparr>"
    and m: "make_id 0 t (of_nat (next_id d t)) = Inr i"
    by (auto simp: alloc_id_def split: sum.splits)
  have n: "next_id d s \<le> 2 ^ 36" for s using assms(2) by (simp add: store_ok_def)
  note a = alloc_local [OF m n]
  from a show "next_id d t < 2 ^ 36" "id_type i = t" by simp_all
  show "i \<notin> er_id ` set (og_edge d)"
  proof
    assume "i \<in> er_id ` set (og_edge d)"
    then obtain e l where e: "e \<in> set (og_edge d)" "er_id e = i" "l < next_id d (er_type e)"
      "make_id 0 (er_type e) (of_nat l) = Inr i"
      using assms(2) unfolding store_ok_def by blast
    have "l \<le> 2 ^ 36" using e(3) n [of "er_type e"] by simp
    from alloc_local [OF e(4) this] a have t: "er_type e = t" and "of_nat l = (of_nat (next_id d t) :: i64)" by auto
    from this(2) \<open>l \<le> 2 ^ 36\<close> n have "l = next_id d t" by (rule of_nat_inj36)
    with e(3) t show False by simp
  qed
qed

lemma create_edge_effect:
  assumes "create_edge_inner c t rel src dst props d = Inr (eid, d')"
  obtains d1 where "alloc_id t d = Inr (eid, d1)" "next_id d' = next_id d1"
    "og_edge d' = og_edge d @ [\<lparr>er_id = eid, er_type = t, er_src = src, er_dst = dst\<rparr>]"
    "og_adj d' = adj_append dst t CHR ''i'' src eid (adj_append src t CHR ''o'' dst eid (og_adj d))"
    "og_node d' = og_node d"
proof -
  from assms obtain d1 where a: "alloc_id t d = Inr (eid, d1)"
    and d': "next_id d' = next_id d1" "og_edge d' = og_edge d1 @ [\<lparr>er_id = eid, er_type = t, er_src = src, er_dst = dst\<rparr>]"
      "og_adj d' = adj_append dst t CHR ''i'' src eid (adj_append src t CHR ''o'' dst eid (og_adj d1))"
      "og_node d' = og_node d1"
    by (auto simp: create_edge_inner_def rbind_eq_Inr_iff Let_def split: if_splits option.splits)
  from a have "og_edge d1 = og_edge d" "og_adj d1 = og_adj d" "og_node d1 = og_node d"
    by (auto simp: alloc_id_def split: sum.splits)
  with d' show ?thesis by (intro that [OF a]) simp_all
qed

lemma create_edge_ok:
  assumes "create_edge_inner c t rel src dst props d = Inr (eid, d')" "store_ok d"
  shows "store_ok d'"
proof -
  from create_edge_effect [OF assms(1)] obtain d1 where a: "alloc_id t d = Inr (eid, d1)" "next_id d' = next_id d1"
    and e: "og_edge d' = og_edge d @ [\<lparr>er_id = eid, er_type = t, er_src = src, er_dst = dst\<rparr>]"
    and adj: "og_adj d' = adj_append dst t CHR ''i'' src eid (adj_append src t CHR ''o'' dst eid (og_adj d))" .
  note al = alloc_ok [OF a(1) assms(2)]
  have ok: "adj_ok (og_adj d)" using assms(2) by (simp add: store_ok_def)
  have "adjacent (og_adj d') k = mirrored (og_edge d') k" for k
    using assms(2) by (simp add: adj adj.add_both [OF ok] e mirrored_one store_ok_def)
  moreover have "adj_ok (og_adj d')" by (simp add: adj adj.ok_add ok)
  moreover have "distinct (map er_id (og_edge d'))" using assms(2) al(5) by (simp add: e store_ok_def)
  moreover have n: "next_id d' = (next_id d)(t := next_id d t + 1)" by (simp add: a(2) al(1))
  moreover have "next_id d' s \<le> 2 ^ 36" for s using assms(2) al(3) by (simp add: n store_ok_def)
  moreover have "\<exists>l < next_id d' (er_type x). make_id 0 (er_type x) (of_nat l) = Inr (er_id x)"
    if "x \<in> set (og_edge d')" for x
  proof (cases "x \<in> set (og_edge d)")
    case True
    then obtain l where "l < next_id d (er_type x)" "make_id 0 (er_type x) (of_nat l) = Inr (er_id x)"
      using assms(2) unfolding store_ok_def by blast
    then show ?thesis by (intro exI [of _ l]) (auto simp: n)
  next
    case False
    with that al(2) show ?thesis by (intro exI [of _ "next_id d t"]) (simp add: e n)
  qed
  ultimately show ?thesis by (auto simp: store_ok_def)
qed

lemma edge_type:
  assumes "store_ok d" "e \<in> set (og_edge d)"
  shows "id_type (er_id e) = er_type e"
proof -
  obtain l where "l < next_id d (er_type e)" "make_id 0 (er_type e) (of_nat l) = Inr (er_id e)"
    using assms unfolding store_ok_def by blast
  moreover have "next_id d (er_type e) \<le> 2 ^ 36" using assms(1) by (simp add: store_ok_def)
  ultimately show ?thesis using alloc_local [of "er_type e" l "er_id e"] by simp
qed

lemma delete_edge_effect:
  assumes "delete_edge_inner c eid d = Inr (n, d')"
  obtains (absent) "eid \<notin> er_id ` set (og_edge d)" "n = 0" "d' = d"
  | (gone) e where "e \<in> set (og_edge d)" "er_id e = eid" "n = 1"
      "og_edge d' = filter (\<lambda>e. er_id e \<noteq> eid) (og_edge d)" "next_id d' = next_id d"
      "og_adj d' = adj_remove (er_dst e) (id_type eid) CHR ''i'' eid (adj_remove (er_src e) (id_type eid) CHR ''o'' eid (og_adj d))"
      "og_node d' = og_node d"
proof (cases "find (\<lambda>e. er_id e = eid) (og_edge d)")
  case None
  with assms show ?thesis by (intro absent) (auto simp: delete_edge_inner_def Let_def find_None_iff)
next
  case (Some e)
  then have "e \<in> set (og_edge d)" "er_id e = eid" by (auto simp: find_Some_iff)
  with assms Some show ?thesis
    by (intro gone [of e]) (auto simp: delete_edge_inner_def rbind_eq_Inr_iff Let_def)
qed

lemma distinct_split:
  assumes "distinct (map f xs)" "x \<in> set xs"
  obtains a b where "xs = a @ x # b" "filter (\<lambda>y. f y \<noteq> f x) xs = a @ b"
proof -
  from assms(2) obtain a b where x: "xs = a @ x # b" by (meson split_list)
  with assms(1) have "\<forall>y \<in> set a \<union> set b. f y \<noteq> f x" by (auto simp: rev_image_eqI)
  with x show ?thesis by (intro that) (auto simp: filter_id_conv)
qed

lemma delete_edge_ok:
  assumes "delete_edge_inner c eid d = Inr (n, d')" "store_ok d"
  shows "store_ok d'"
  using assms(1)
proof (cases rule: delete_edge_effect)
  case absent
  with assms(2) show ?thesis by simp
next
  case (gone e)
  have ok: "adj_ok (og_adj d)" and m: "adjacent (og_adj d) = mirrored (og_edge d)"
    and dist: "distinct (map er_id (og_edge d))" using assms(2) by (simp_all add: store_ok_def)
  have t: "id_type eid = er_type e" using edge_type [OF assms(2) gone(1)] gone(2) by simp
  from distinct_split [OF dist gone(1)] obtain a b where
    ab: "og_edge d = a @ e # b" "og_edge d' = a @ b" using gone(2,4) by metis
  have m0: "mirrored (og_edge d) k = mirrored [e] k + mirrored (a @ b) k" for k
    using mirrored_append [of "a @ [e]" b k] by (simp add: ab(1))
  have fresh: "(nbr, eid) \<notin># mirrored (a @ b) k" for nbr k
  proof
    assume "(nbr, eid) \<in># mirrored (a @ b) k"
    then have "eid \<in> er_id ` set (a @ b)" by (rule mirrored_ids)
    with dist gone(2) show False by (auto simp: ab(1))
  qed
  let ?o = "(er_src e, er_type e, CHR ''o'')" and ?i = "(er_dst e, er_type e, CHR ''i'')"
  let ?adj1 = "adj_remove (er_src e) (er_type e) CHR ''o'' eid (og_adj d)"
  have o: "adjacent (og_adj d) ?o = add_mset (er_dst e, eid) (mirrored (a @ b) ?o)"
    by (simp add: m m0 mirrored_one gone(2) del: mirrored_append)
  have at1: "adjacent ?adj1 k = (if k = ?o then adjacent (og_adj d) k - {#(er_dst e, eid)#} else adjacent (og_adj d) k)" for k
    by (rule adj.at_del [OF ok]) (use fresh in \<open>auto simp: o simp del: mirrored_append\<close>)
  have ok1: "adj_ok ?adj1" using ok by (rule adj.ok_del)
  have i: "adjacent ?adj1 ?i = add_mset (er_src e, eid) (mirrored (a @ b) ?i)"
    by (simp add: at1 m m0 mirrored_one gone(2) del: mirrored_append)
  have at2: "adjacent (og_adj d') k = (if k = ?i then adjacent ?adj1 k - {#(er_src e, eid)#} else adjacent ?adj1 k)" for k
    unfolding gone(6) t by (rule adj.at_del [OF ok1]) (use fresh in \<open>auto simp: i simp del: mirrored_append\<close>)
  have at2: "adjacent (og_adj d') k = mirrored (a @ b) k" for k
  proof -
    consider "k = ?i" | "k = ?o" | "k \<noteq> ?i" "k \<noteq> ?o" by blast
    then show ?thesis
    proof cases
      case 1
      then show ?thesis unfolding at2 by (simp only: i) simp
    next
      case 2
      then have "adjacent (og_adj d') k = adjacent (og_adj d) ?o - {#(er_dst e, eid)#}" by (simp add: at2 at1)
      with 2 show ?thesis by (simp only: o) simp
    next
      case 3
      then show ?thesis by (simp add: at2 at1 m m0 mirrored_one del: mirrored_append)
    qed
  qed
  have "adj_ok (og_adj d')" using ok1 by (simp add: gone(6) t adj.ok_del)
  with at2 show ?thesis using assms(2) gone(5) ab by (auto simp: store_ok_def)
qed

lemma delete_edges_effect:
  "delete_edges c es d = Inr (n, d') \<Longrightarrow> store_ok d \<Longrightarrow> distinct es \<Longrightarrow>
     store_ok d' \<and> og_edge d' = filter (\<lambda>e. er_id e \<notin> set es) (og_edge d) \<and> og_node d' = og_node d \<and>
     n = length (filter (\<lambda>e. er_id e \<in> set es) (og_edge d))"
proof (induction es arbitrary: d n)
  case (Cons e es)
  then obtain a d1 b where 1: "delete_edge_inner c e d = Inr (a, d1)" "delete_edges c es d1 = Inr (b, d')" "n = a + b"
    by (auto simp: rbind_eq_Inr_iff)
  have ok: "store_ok d1" using 1(1) Cons.prems(2) by (rule delete_edge_ok)
  have IH: "store_ok d'" "og_edge d' = filter (\<lambda>x. er_id x \<notin> set es) (og_edge d1)" "og_node d' = og_node d1"
    "b = length (filter (\<lambda>x. er_id x \<in> set es) (og_edge d1))"
    using Cons.IH [OF 1(2) ok] Cons.prems(3) by simp_all
  have dist: "distinct (map er_id (og_edge d))" using Cons.prems(2) by (simp add: store_ok_def)
  from 1(1) show ?case
  proof (cases rule: delete_edge_effect)
    case absent
    then have "filter (\<lambda>x. er_id x \<notin> set es) (og_edge d) = filter (\<lambda>x. er_id x \<notin> set (e # es)) (og_edge d)"
      "filter (\<lambda>x. er_id x \<in> set es) (og_edge d) = filter (\<lambda>x. er_id x \<in> set (e # es)) (og_edge d)"
      by (auto intro!: filter_cong)
    with absent IH 1(3) show ?thesis by simp
  next
    case (gone x)
    from distinct_split [OF dist gone(1)] obtain p q where
      pq: "og_edge d = p @ x # q" "filter (\<lambda>y. er_id y \<noteq> e) (og_edge d) = p @ q" using gone(2) by metis
    have ne: "er_id y \<noteq> e" if "y \<in> set (p @ q)" for y
      using that unfolding pq(2) [symmetric] by simp
    have "filter (\<lambda>x. er_id x \<in> set es) (p @ q) = filter (\<lambda>x. er_id x \<in> set (e # es)) (p @ q)"
      using ne by (intro filter_cong) auto
    moreover have "b = length (filter (\<lambda>x. er_id x \<in> set es) (p @ q))"
      using IH(4) gone(4) pq(2) by simp
    moreover have "length (filter (\<lambda>x. er_id x \<in> set (e # es)) (og_edge d))
        = 1 + length (filter (\<lambda>x. er_id x \<in> set (e # es)) (p @ q))"
      using gone(2) by (simp add: pq(1))
    ultimately have "length (filter (\<lambda>x. er_id x \<in> set (e # es)) (og_edge d)) = 1 + b" by (simp only:)
    moreover have "og_edge d' = filter (\<lambda>y. er_id y \<notin> set (e # es)) (og_edge d)"
      by (auto simp: IH(2) gone(4) intro!: filter_cong)
    ultimately show ?thesis using IH gone 1(3) by simp
  qed
qed simp

lemma incident_edges:
  assumes "store_ok d"
  shows "i \<in> set (incident (og_adj d) n) \<longleftrightarrow> (\<exists>e \<in> set (og_edge d). er_id e = i \<and> (er_src e = n \<or> er_dst e = n))"
proof -
  have al: "\<forall>r \<in> set (og_adj d). length (seg_nbr r) = length (seg_eid r)"
    and m: "adjacent (og_adj d) = mirrored (og_edge d)"
    using assms by (auto simp: store_ok_def adj_ok_def seg_ok_def)
  have at: "(nbr, i) \<in># adjacent (og_adj d) k \<longleftrightarrow> (\<exists>r \<in> set (og_adj d). seg_key r = k \<and> (nbr, i) \<in> set (seg_edges r))" for nbr k
    by (auto simp: adjacent_def)
  have "i \<in> set (incident (og_adj d) n) \<longleftrightarrow> (\<exists>r \<in> set (og_adj d). seg_src r = n \<and> i \<in> set (seg_eid r))"
    by (auto simp: incident_def)
  also have "\<dots> \<longleftrightarrow> (\<exists>r \<in> set (og_adj d). seg_src r = n \<and> (\<exists>nbr. (nbr, i) \<in> set (seg_edges r)))"
  proof -
    have "set (seg_eid r) = snd ` set (seg_edges r)" if "r \<in> set (og_adj d)" for r
      using al that by (metis map_snd_zip seg_edges_def set_map)
    then show ?thesis by (force simp: image_iff)
  qed
  also have "\<dots> \<longleftrightarrow> (\<exists>nbr t dir. (nbr, i) \<in># adjacent (og_adj d) (n, t, dir))"
    unfolding at by (auto simp: seg_key_def)
  also have "\<dots> \<longleftrightarrow> (\<exists>nbr t dir. (nbr, i) \<in># mirrored (og_edge d) (n, t, dir))" by (simp add: m)
  also have "\<dots> \<longleftrightarrow> (\<exists>e \<in> set (og_edge d). er_id e = i \<and> (er_src e = n \<or> er_dst e = n))"
  proof
    assume "\<exists>nbr t dir. (nbr, i) \<in># mirrored (og_edge d) (n, t, dir)"
    then show "\<exists>e \<in> set (og_edge d). er_id e = i \<and> (er_src e = n \<or> er_dst e = n)"
      by (auto simp: mirrored_def split: if_splits)
  next
    assume "\<exists>e \<in> set (og_edge d). er_id e = i \<and> (er_src e = n \<or> er_dst e = n)"
    then obtain e where e: "e \<in> set (og_edge d)" "er_id e = i" "er_src e = n \<or> er_dst e = n" by blast
    then have "(er_dst e, i) \<in># mirrored (og_edge d) (n, er_type e, CHR ''o'') \<or>
        (er_src e, i) \<in># mirrored (og_edge d) (n, er_type e, CHR ''i'')"
      by (auto simp: mirrored_def)
    then show "\<exists>nbr t dir. (nbr, i) \<in># mirrored (og_edge d) (n, t, dir)" by blast
  qed
  finally show ?thesis .
qed

lemma adjacent_other: "adjacent (filter (\<lambda>r. seg_src r \<noteq> n) table) k = (if fst k = n then {#} else adjacent table k)"
  by (induction table) (auto simp: seg_key_def)

lemma delete_node_effect:
  assumes "delete_node_inner c i d = Inr (n, d')" "store_ok d"
  shows "store_ok d' \<and> og_edge d' = filter (\<lambda>e. er_src e \<noteq> i \<and> er_dst e \<noteq> i) (og_edge d) \<and>
     og_node d' = filter (\<lambda>(m, t). m \<noteq> i) (og_node d) \<and>
     n = length (filter (\<lambda>e. er_src e = i \<or> er_dst e = i) (og_edge d)) + 1"
proof -
  let ?es = "incident (og_adj d) i"
  obtain m d1 where 1: "delete_edges c ?es d = Inr (m, d1)" and n: "n = m + 1"
    and d': "og_node d' = filter (\<lambda>(m, t). m \<noteq> i) (og_node d1)" "og_adj d' = filter (\<lambda>r. seg_src r \<noteq> i) (og_adj d1)"
      "og_edge d' = og_edge d1" "next_id d' = next_id d1"
    using assms(1) by (auto simp: delete_node_inner_def Let_def rbind_eq_Inr_iff)
  have "distinct ?es" by (simp add: incident_def)
  note e = delete_edges_effect [OF 1 assms(2) this]
  have dist: "distinct (map er_id (og_edge d))" using assms(2) by (simp add: store_ok_def)
  have inc: "er_id x \<in> set ?es \<longleftrightarrow> er_src x = i \<or> er_dst x = i" if "x \<in> set (og_edge d)" for x
    using incident_edges [OF assms(2), of "er_id x" i] that dist by (auto simp: distinct_map inj_on_def)
  have f: "filter (\<lambda>e. er_id e \<notin> set ?es) (og_edge d) = filter (\<lambda>e. er_src e \<noteq> i \<and> er_dst e \<noteq> i) (og_edge d)"
    "filter (\<lambda>e. er_id e \<in> set ?es) (og_edge d) = filter (\<lambda>e. er_src e = i \<or> er_dst e = i) (og_edge d)"
    using inc by (auto intro!: filter_cong)
  have none: "mirrored (og_edge d1) (i, t, dir) = {#}" for t dir
    using e f by (auto simp: mirrored_def filter_empty_conv)
  have "adjacent (og_adj d') k = mirrored (og_edge d1) k" for k
    using e none by (cases k) (auto simp: d' adjacent_other store_ok_def)
  moreover have "adj_ok (og_adj d')"
    using e by (auto simp: d' store_ok_def adj_ok_def distinct_map_filter)
  ultimately have "store_ok d'" using e by (auto simp: d' store_ok_def)
  with e f n d' show ?thesis by simp
qed

section \<open>Properties\<close>

text \<open>C1: creating an edge registers it under a new id and puts it into both directions of the adjacency
  index, and nothing else; the id says the relation type; the index mirrors the registry as before.\<close>

theorem create_edge_mirrored:
  assumes "create_edge_inner c t rel src dst props d = Inr (eid, d')" "store_ok d"
  shows "store_ok d' \<and> id_type eid = t \<and> eid \<notin> er_id ` set (og_edge d) \<and>
    og_edge d' = og_edge d @ [\<lparr>er_id = eid, er_type = t, er_src = src, er_dst = dst\<rparr>] \<and>
    adjacent (og_adj d') (src, t, CHR ''o'') = add_mset (dst, eid) (adjacent (og_adj d) (src, t, CHR ''o'')) \<and>
    adjacent (og_adj d') (dst, t, CHR ''i'') = add_mset (src, eid) (adjacent (og_adj d) (dst, t, CHR ''i''))"
proof -
  from create_edge_effect [OF assms(1)] obtain d1 where "alloc_id t d = Inr (eid, d1)"
    "og_edge d' = og_edge d @ [\<lparr>er_id = eid, er_type = t, er_src = src, er_dst = dst\<rparr>]"
    "og_adj d' = adj_append dst t CHR ''i'' src eid (adj_append src t CHR ''o'' dst eid (og_adj d))" .
  moreover have "adj_ok (og_adj d)" using assms(2) by (simp add: store_ok_def)
  ultimately show ?thesis
    using create_edge_ok [OF assms] alloc_ok(4,5) assms(2) adj.add_both by simp
qed


text \<open>C3: deleting a node deletes every edge that leaves or reaches it and no other, reports how many
  elements went, and leaves neither the registry nor the index with a trace of it.\<close>

theorem delete_node_leaves_nothing:
  assumes "delete_node_inner c i d = Inr (n, d')" "store_ok d"
  shows "store_ok d' \<and> og_edge d' = filter (\<lambda>e. er_src e \<noteq> i \<and> er_dst e \<noteq> i) (og_edge d) \<and>
     n = length (filter (\<lambda>e. er_src e = i \<or> er_dst e = i) (og_edge d)) + 1 \<and>
     (\<forall>t dir. adjacent (og_adj d') (i, t, dir) = {#})"
proof -
  note e = delete_node_effect [OF assms]
  have "adjacent (og_adj d') (i, t, dir) = mirrored (og_edge d') (i, t, dir)" for t dir
    using e by (simp add: store_ok_def)
  moreover have "mirrored (og_edge d') (i, t, dir) = {#}" for t dir
    using e by (auto simp: mirrored_def filter_empty_conv)
  ultimately show ?thesis using e by simp
qed

text \<open>C29: an edge is only created between players its relation and the relations above it accept: each end
  is a subtype of the player type declared for its role.\<close>

theorem roles_enforced:
  assumes "create_edge_inner c t rel src dst props d = Inr (eid, d')"
    and "r \<in> set (roles c)" "ro_rel r \<in> set (og_supertypes (type_labels c) t)" "ro_ordinal r \<in> {0, 1}"
    and "ro_player r = Some player"
  shows "og_is_subtype (type_labels c) (id_type (if ro_ordinal r = 0 then src else dst)) player"
proof -
  have checked: "check_roles c rel src dst rs = Inr () \<Longrightarrow> x \<in> set rs \<Longrightarrow> ro_player x = Some p \<Longrightarrow>
      og_is_subtype (type_labels c) (if ro_ordinal x = 0 then id_type src else id_type dst) p" for rs x p
    by (induction c rel src dst rs rule: check_roles.induct) (auto simp: Let_def split: if_splits option.splits)
  from assms(1) have "validate_roles c t rel src dst = Inr ()"
    by (auto simp: create_edge_inner_def rbind_eq_Inr_iff split: if_splits option.splits)
  with checked [of _ r player] assms(2-5) show ?thesis
    by (auto simp: validate_roles_def if_distrib [of id_type] cong: if_cong)
qed

text \<open>No property of a write is lost and none is written twice over: each goes to the column declared for
  it, or the overflow payload is written; and no system key gets through.\<close>

theorem planned_covers:
  assumes "planned c t (JObj m) param = Inr plan" "k \<in> fst ` set m"
  shows "\<not> is_reserved_key k \<and>
    (if \<exists>p \<in> set (properties c). pr_type p = t \<and> pr_name p = k
     then \<forall>p \<in> set (properties c). pr_type p = t \<and> pr_name p = k \<longrightarrow>
            (pr_column p, prop_expr param k (pr_dtype p)) \<in> set (zip (plan_columns plan) (plan_exprs plan))
     else ext_needed plan)"
proof -
  from assms(1) have reserved: "find is_reserved_key (map fst m) = None"
    and plan: "plan = plan_props (filter (\<lambda>p. pr_type p = t) (properties c)) (JObj m) param"
    by (auto simp: planned_def check_reserved_keys_def rbind_eq_Inr_iff split: option.splits)
  have "\<not> is_reserved_key k" using reserved assms(2) by (auto simp: find_None_iff)
  moreover have "map_of m k \<noteq> None" using assms(2) by (simp add: map_of_eq_None_iff)
  moreover have z: "set (zip (map f ps) (map g ps)) = (\<lambda>p. (f p, g p)) ` set ps" for f g and ps :: "prop_row list"
    by (induction ps) auto
  have "(pr_column p, prop_expr param k (pr_dtype p)) \<in> set (zip (plan_columns plan) (plan_exprs plan))"
    if "p \<in> set (properties c)" "pr_type p = t" "pr_name p = k" for p
    using that calculation(2) by (auto simp: plan plan_props_def Let_def z intro!: image_eqI [of _ _ p])
  moreover have "ext_needed plan" if "\<not> (\<exists>p \<in> set (properties c). pr_type p = t \<and> pr_name p = k)"
    using that assms(2) by (auto simp: plan plan_props_def Let_def list_ex_iff intro!: bexI [of _ "(k, _)"])
  ultimately show ?thesis by auto
qed

section \<open>A small database\<close>

definition demo_catalog :: catalog where
  "demo_catalog =
     \<lparr>types = [\<lparr>tr_id = 1, tr_graph = 9, tr_name = ''Person'', tr_kind = CHR ''e'', tr_abstract = False, tr_storage = Some ''og_data.n_1''\<rparr>,
               \<lparr>tr_id = 2, tr_graph = 9, tr_name = ''KNOWS'', tr_kind = CHR ''r'', tr_abstract = False, tr_storage = Some ''og_data.e_2''\<rparr>],
      type_labels = [(9, \<lparr>label_type = 1, path_id = 0, lft = 1, rgt = 1025, label_depth = 0\<rparr>),
                     (9, \<lparr>label_type = 2, path_id = 0, lft = 2049, rgt = 3073, label_depth = 0\<rparr>)],
      roles = [\<lparr>ro_id = 5, ro_rel = 2, ro_name = ''who'', ro_player = Some 1, ro_ordinal = 0, ro_card_min = 0, ro_card_max = None\<rparr>],
      properties = [\<lparr>pr_type = 2, pr_name = ''since'', pr_column = ''p_since'', pr_dtype = ''int8'', pr_required = False,
                    pr_key = False\<rparr>],
      virtual_source = (\<lambda>_. None),
      privileged = (\<lambda>_ _ _. True)\<rparr>"

abbreviation person :: "nat \<Rightarrow> i64" where
  "person n \<equiv> packed 0 1 n"

definition demo_props :: json where
  "demo_props = JObj [(''since'', JNum (PosInt 2020))]"

lemma empty_db_ok: "store_ok empty_db"
  by (auto simp: store_ok_def empty_db_def adj_ok_def mirrored_def fun_eq_iff)

lemma demo_edge:
  obtains d where "create_edge_inner demo_catalog 2 ''KNOWS'' (person 1) (person 2) demo_props empty_db = Inr (packed 0 2 1, d)"
proof -
  have "make_id 0 2 1 = Inr (packed 0 2 1)" using make_id_of_nat [of 0 2 1] by simp
  then have "\<exists>d. create_edge_inner demo_catalog 2 ''KNOWS'' (person 1) (person 2) demo_props empty_db = Inr (packed 0 2 1, d)"
    by (simp add: create_edge_inner_def type_kind_def type_at_def storage_table_def validate_roles_def planned_def
        check_reserved_keys_def is_reserved_key_def starts_with_def check_write_def denied_column_def alloc_id_def demo_catalog_def
        demo_props_def empty_db_def og_supertypes_def og_is_subtype_def contains_label_def packed_fields Let_def)
  then show ?thesis using that by blast
qed

theorem create_edge_mirrored_witness:
  "\<exists>d :: db. adjacent (og_adj d) (person 1, 2, CHR ''o'') = {#(person 2, packed 0 2 1)#} \<and>
       adjacent (og_adj d) (person 2, 2, CHR ''i'') = {#(person 1, packed 0 2 1)#}"
proof -
  obtain d where d: "create_edge_inner demo_catalog 2 ''KNOWS'' (person 1) (person 2) demo_props empty_db = Inr (packed 0 2 1, d)"
    using demo_edge .
  from create_edge_mirrored [OF d empty_db_ok]
  have "adjacent (og_adj d) (person 1, 2, CHR ''o'') = {#(person 2, packed 0 2 1)#} \<and>
       adjacent (og_adj d) (person 2, 2, CHR ''i'') = {#(person 1, packed 0 2 1)#}"
    by (simp add: empty_db_def)
  then show ?thesis by blast
qed

lemma demo_deletes:
  assumes "og_edge d = [\<lparr>er_id = packed 0 2 1, er_type = 2, er_src = person 1, er_dst = person 2\<rparr>]"
  shows "\<exists>n d'. delete_edge_inner demo_catalog (packed 0 2 1) d = Inr (n, d')"
    and "\<exists>n d'. delete_node_inner demo_catalog (person 1) d = Inr (n, d')"
proof -
  have e: "\<exists>n d'. delete_edge_inner demo_catalog i d = Inr (n, d')" for i d
    by (auto simp: delete_edge_inner_def may_delete_def check_write_def denied_column_def demo_catalog_def Let_def split: option.split)
  then show "\<exists>n d'. delete_edge_inner demo_catalog (packed 0 2 1) d = Inr (n, d')" .
  have es: "\<exists>n d'. delete_edges demo_catalog is d = Inr (n, d')" for "is" d
  proof (induction "is" arbitrary: d)
    case (Cons i "is")
    obtain n d1 where "delete_edge_inner demo_catalog i d = Inr (n, d1)" using e by blast
    moreover obtain m d2 where "delete_edges demo_catalog is d1 = Inr (m, d2)" using Cons by blast
    ultimately show ?case by simp
  qed simp
  obtain n d1 where "delete_edges demo_catalog (incident (og_adj d) (person 1)) d = Inr (n, d1)" using es by blast
  then show "\<exists>n d'. delete_node_inner demo_catalog (person 1) d = Inr (n, d')"
    by (auto simp: delete_node_inner_def may_delete_def check_write_def denied_column_def refuse_virtual_write_def demo_catalog_def
        Let_def split: option.split)
qed

lemma demo_edge_row:
  obtains d where "store_ok d" "og_edge d = [\<lparr>er_id = packed 0 2 1, er_type = 2, er_src = person 1, er_dst = person 2\<rparr>]"
proof -
  obtain d where d: "create_edge_inner demo_catalog 2 ''KNOWS'' (person 1) (person 2) demo_props empty_db = Inr (packed 0 2 1, d)"
    using demo_edge .
  from create_edge_effect [OF this] have "og_edge d = [\<lparr>er_id = packed 0 2 1, er_type = 2, er_src = person 1, er_dst = person 2\<rparr>]"
    by (auto simp: empty_db_def)
  with create_edge_ok [OF d empty_db_ok] show ?thesis by (rule that)
qed


theorem delete_node_leaves_nothing_witness:
  "\<exists>d d'. og_edge d \<noteq> [] \<and> delete_node_inner demo_catalog (person 1) d = Inr (2, d') \<and> og_edge d' = []"
proof -
  obtain d where d: "store_ok d" "og_edge d = [\<lparr>er_id = packed 0 2 1, er_type = 2, er_src = person 1, er_dst = person 2\<rparr>]"
    using demo_edge_row .
  from demo_deletes(2) [OF d(2)] obtain n d' where "delete_node_inner demo_catalog (person 1) d = Inr (n, d')" by blast
  moreover from delete_node_leaves_nothing [OF this d(1)] have "n = 2" "og_edge d' = []"
    by (simp_all add: d(2))
  ultimately show ?thesis using d(2) by (intro exI [of _ d] exI [of _ d']) auto
qed

theorem roles_enforced_witness:
  "og_is_subtype (type_labels demo_catalog) (id_type (person 1)) 1"
proof -
  obtain d where d: "create_edge_inner demo_catalog 2 ''KNOWS'' (person 1) (person 2) demo_props empty_db = Inr (packed 0 2 1, d)"
    using demo_edge .
  have "\<lparr>ro_id = 5, ro_rel = 2, ro_name = ''who'', ro_player = Some 1, ro_ordinal = 0, ro_card_min = 0, ro_card_max = None\<rparr> \<in> set (roles demo_catalog)"
    by (simp add: demo_catalog_def)
  from roles_enforced [OF d this, of 1] show ?thesis
    by (simp add: demo_catalog_def og_supertypes_def contains_label_def)
qed

theorem planned_covers_witness:
  "\<exists>plan. planned demo_catalog 2 demo_props ''$4'' = Inr plan \<and> set (plan_columns plan) \<noteq> {}"
proof -
  obtain plan where p: "planned demo_catalog 2 demo_props ''$4'' = Inr plan"
    by (simp add: planned_def check_reserved_keys_def demo_props_def is_reserved_key_def starts_with_def)
  from planned_covers [of demo_catalog 2 "[(''since'', JNum (PosInt 2020))]" "''$4''" plan "''since''"]
  have "\<exists>x. x \<in> set (zip (plan_columns plan) (plan_exprs plan))"
    using p by (auto simp: demo_props_def demo_catalog_def)
  with p show ?thesis by (auto dest: set_zip_leftD)
qed

end
