(* ===== verification/Cypher_Lexer.thy ===== *)
theory Cypher_Lexer
  imports Utf8 Float64
begin

text \<open>
  The Cypher lexer (\<open>engine/src/cypher/lexer.rs\<close>): tokens with their offset and source spelling.  The
  lexer's state is the rest of the source, \<open>src[pos..]\<close>; an offset is what is missing from the source.
  \<open>char::is_alphabetic\<close> and \<open>char::is_numeric\<close> are computed for ASCII and read the Unicode tables of the
  standard library, a parameter, for other characters.  The lemmas show that every token has its
  offset in the source, in order, and that a printed token sequence is read back.
\<close>

section \<open>Tokens\<close>

datatype tok =
    Ident string
  | QuotedIdent string
  | Keyword string
  | TInt i64
  | TFloat f64
  | TStr string
  | TParam string
  | Punct string
  | Eof

record token =
  tok_of :: tok
  pos_of :: nat
  raw_of :: string

definition KEYWORDS :: "string list" where
  "KEYWORDS =
     [''match'', ''optional'', ''where'', ''return'', ''with'', ''create'', ''merge'', ''set'', ''remove'', ''delete'',
      ''detach'', ''order'', ''by'', ''skip'', ''limit'', ''distinct'', ''as'', ''and'', ''or'', ''not'', ''xor'', ''in'',
      ''is'', ''null'', ''true'', ''false'', ''unwind'', ''union'', ''all'', ''asc'', ''desc'', ''starts'', ''ends'',
      ''contains'', ''case'', ''when'', ''then'', ''else'', ''end'', ''exists'', ''count'', ''on'', ''call'', ''yield'',
      ''drop'']"

text \<open>The Unicode tables beyond ASCII.\<close>

record unicode =
  alphabetic :: "nat \<Rightarrow> bool"
  numeric :: "nat \<Rightarrow> bool"

definition is_alphabetic :: "unicode \<Rightarrow> nat \<Rightarrow> bool" where
  "is_alphabetic u cp \<longleftrightarrow>
     (if cp < 128 then (65 \<le> cp \<and> cp \<le> 90) \<or> (97 \<le> cp \<and> cp \<le> 122) else alphabetic u cp)"

definition is_alphanumeric :: "unicode \<Rightarrow> nat \<Rightarrow> bool" where
  "is_alphanumeric u cp \<longleftrightarrow> is_alphabetic u cp \<or> (if cp < 128 then 48 \<le> cp \<and> cp \<le> 57 else numeric u cp)"

section \<open>White space and comments\<close>

text \<open>The rest after the end of the line, and after \<open>*/\<close> or at the end of the source.\<close>

fun skip_line :: "string \<Rightarrow> string" where
  "skip_line [] = []"
| "skip_line (c # s) = (if c = CHR 0x0A then s else skip_line s)"

fun skip_block :: "string \<Rightarrow> string" where
  "skip_block [] = []"
| "skip_block (c # s) = (if c = CHR ''*'' \<and> take 1 s = ''/'' then drop 1 s else skip_block s)"

lemma skip_line_length: "length (skip_line s) \<le> length s"
  by (induction s) auto

lemma skip_block_length: "length (skip_block s) \<le> length s"
  by (induction s) auto

function skip_trivia :: "string \<Rightarrow> string" where
  "skip_trivia [] = []"
| "skip_trivia (c # s) =
     (if is_space_b c then skip_trivia s
      else if c = CHR ''/'' \<and> take 1 s = ''/'' then skip_trivia (skip_line (c # s))
      else if c = CHR ''/'' \<and> take 1 s = ''*'' then skip_trivia (skip_block (drop 1 s))
      else c # s)"
  by pat_completeness auto
termination
proof (relation "measure length")
  show "(skip_line (c # s), c # s) \<in> measure length"
    if "\<not> is_space_b c" "c = CHR ''/'' \<and> take 1 s = ''/''" for c s
    using that skip_line_length [of s] by simp
  show "(skip_block (drop 1 s), c # s) \<in> measure length" for c s
    using skip_block_length [of "drop 1 s"] by simp
qed auto

section \<open>The token readers\<close>

definition peek_char :: "string \<Rightarrow> (nat \<times> nat) option" where
  "peek_char rest = (if valid_utf8 rest then utf8_first rest else None)"

definition at_word_start :: "unicode \<Rightarrow> string \<Rightarrow> bool" where
  "at_word_start u rest \<longleftrightarrow> (case peek_char rest of
       Some (c, _) \<Rightarrow> is_alphabetic u c \<or> c = byte_of (CHR ''_'')
     | None \<Rightarrow> False)"

lemma peek_char_len: "peek_char s = Some (c, n) \<Longrightarrow> 0 < n \<and> n \<le> length s"
  by (auto simp: peek_char_def dest: utf8_first_len split: if_splits)

text \<open>The bytes of the word and the rest; the lossy conversion of the bytes is at the caller.\<close>

function word_bytes :: "unicode \<Rightarrow> string \<Rightarrow> nat" where
  "word_bytes u rest = (case peek_char rest of
       Some (c, n) \<Rightarrow>
         if is_alphanumeric u c \<or> c = byte_of (CHR ''_'') then n + word_bytes u (drop n rest) else 0
     | None \<Rightarrow> 0)"
  by pat_completeness auto
termination
  by (relation "measure (\<lambda>(u, s). length s)") (auto dest: peek_char_len)

declare word_bytes.simps [simp del]

definition take_word :: "unicode \<Rightarrow> string \<Rightarrow> string \<times> string" where
  "take_word u rest = (utf8_lossy (take (word_bytes u rest) rest), drop (word_bytes u rest) rest)"

fun take_until :: "string \<Rightarrow> char \<Rightarrow> string \<Rightarrow> string \<Rightarrow> string + string \<times> string" where
  "take_until offset q done [] = Inl (''unterminated quoted identifier starting at offset '' @ offset)"
| "take_until offset q done (c # s) =
     (if c = q then Inr (utf8_lossy done, s) else take_until offset q (done @ [c]) s)"

definition utf8_len :: "char \<Rightarrow> nat" where
  "utf8_len b = (if byte_of b \<ge> 0xF0 then 4 else if byte_of b \<ge> 0xE0 then 3 else if byte_of b \<ge> 0xC0 then 2 else 1)"

definition unescape :: "char \<Rightarrow> string" where
  "unescape esc =
     (if esc = CHR ''n'' then [CHR 0x0A] else if esc = CHR ''t'' then [CHR 0x09]
      else if esc = CHR ''r'' then [CHR 0x0D] else if esc = CHR ''0'' then [CHR 0x00]
      else utf8_encode (byte_of esc))"

function take_string :: "char \<Rightarrow> string \<Rightarrow> string \<Rightarrow> string + string \<times> string" where
  "take_string q done [] = Inl ''unterminated string literal''"
| "take_string q done (c # s) =
     (if c = CHR 0x5C then (case s of
          [] \<Rightarrow> Inl ''unterminated string literal''
        | esc # s \<Rightarrow> take_string q (done @ unescape esc) s)
      else if c = q then Inr (done, s)
      else if byte_of c < 0x80 then take_string q (done @ [c]) s
      else take_string q (done @ utf8_lossy (take (utf8_len c) (c # s))) (drop (utf8_len c) (c # s)))"
  by pat_completeness auto
termination
  by (relation "measure (\<lambda>(q, d, s). length s)") (auto simp: utf8_len_def)

section \<open>Numbers\<close>

text \<open>The characters of a number, given what was read of it so far.\<close>

function scan_number :: "bool \<Rightarrow> string \<Rightarrow> string \<Rightarrow> string \<times> bool \<times> string" where
  "scan_number is_float done [] = (done, is_float, [])"
| "scan_number is_float done (c # s) =
     (if is_digit_b c then scan_number is_float (done @ [c]) s
      else if c = CHR ''.'' \<and> \<not> is_float \<and> s \<noteq> [] \<and> is_digit_b (hd s) then scan_number True (done @ [c]) s
      else if c \<in> {CHR ''e'', CHR ''E''} \<and> done \<noteq> [] then
        (if take 1 s = ''+'' \<or> take 1 s = ''-'' then scan_number True (done @ c # take 1 s) (drop 1 s)
         else scan_number True (done @ [c]) s)
      else (done, is_float, c # s))"
  by pat_completeness auto
termination
  by (relation "measure (\<lambda>(f, d, s). length s)") auto

text \<open>\<open>str::parse::<i64>\<close> of digits and \<open>str::parse::<f64>\<close> of a decimal number without sign.\<close>

definition parse_i64 :: "string \<Rightarrow> string + i64" where
  "parse_i64 s =
     (if s = [] then Inl ''cannot parse integer from empty string''
      else if \<not> (\<forall>c \<in> set s. is_digit_b c) then Inl ''invalid digit found in string''
      else if nat_of_digits s < 2 ^ 63 then Inr (of_nat (nat_of_digits s))
      else Inl ''number too large to fit in target type'')"

definition parse_exponent :: "string \<Rightarrow> int option" where
  "parse_exponent s =
     (let (neg, ds) = (if take 1 s = ''-'' then (True, drop 1 s) else if take 1 s = ''+'' then (False, drop 1 s) else (False, s))
      in if ds = [] \<or> \<not> (\<forall>c \<in> set ds. is_digit_b c) then None
         else Some (if neg then - int (nat_of_digits ds) else int (nat_of_digits ds)))"

definition parse_f64 :: "string \<Rightarrow> string + f64" where
  "parse_f64 s =
     (let whole = takeWhile is_digit_b s; s1 = dropWhile is_digit_b s;
          frac = (if take 1 s1 = ''.'' then takeWhile is_digit_b (drop 1 s1) else []);
          s2 = (if take 1 s1 = ''.'' then dropWhile is_digit_b (drop 1 s1) else s1);
          ex = (if s2 = [] then Some 0
                else if hd s2 \<in> {CHR ''e'', CHR ''E''} then parse_exponent (tl s2) else None)
      in if s = [] then Inl ''cannot parse float from empty string''
         else case (whole @ frac = [], ex) of
           (False, Some x) \<Rightarrow>
             (let k = x - int (length frac); m = nat_of_digits (whole @ frac) in
              Inr (if 0 \<le> k then f64_of_ratio (m * 10 ^ nat k) 1 else f64_of_ratio m (10 ^ nat (- k))))
         | _ \<Rightarrow> Inl ''invalid float literal'')"

definition take_number :: "string \<Rightarrow> string + tok \<times> string" where
  "take_number rest = (case scan_number False [] rest of (num, is_float, rest) \<Rightarrow>
     if is_float then rbind (parse_f64 num) (\<lambda>f. Inr (TFloat f, rest))
     else rbind (parse_i64 num) (\<lambda>i. Inr (TInt i, rest)))"

section \<open>Punctuation\<close>

definition THREE :: "string list" where "THREE = [''<->'']"

definition TWO :: "string list" where
  "TWO = [''<='', ''>='', ''<>'', ''!='', ''->'', ''<-'', ''..'', ''=~'', ''+='', ''||'']"

definition ONE :: string where "ONE = ''()[]{}<>=+-*/%^.,:;|''"

definition take_punct :: "nat \<Rightarrow> string \<Rightarrow> string + tok \<times> string" where
  "take_punct pos rest =
     (case find (\<lambda>p. starts_with p rest) (THREE @ TWO) of
        Some p \<Rightarrow> Inr (Punct p, drop (length p) rest)
      | None \<Rightarrow>
          if hd rest \<in> set ONE then Inr (Punct [hd rest], tl rest)
          else Inl (''unexpected character '' @ [CHR 0x27] @ utf8_encode (byte_of (hd rest)) @ [CHR 0x27] @
                    '' at offset '' @ show_nat pos))"

section \<open>The token stream\<close>

text \<open>One token: its kind, its source spelling when it is a word, and the rest.\<close>

definition next_token :: "unicode \<Rightarrow> nat \<Rightarrow> string \<Rightarrow> string + (tok \<times> string) \<times> string" where
  "next_token u start rest = (let c = hd rest in
     if c = CHR 0x60 then rbind (take_until (show_nat (start + 1)) c [] (tl rest)) (\<lambda>(s, rest). Inr ((QuotedIdent s, []), rest))
     else if c = CHR 0x27 \<or> c = CHR 0x22 then rbind (take_string c [] (tl rest)) (\<lambda>(s, rest). Inr ((TStr s, []), rest))
     else if c = CHR ''$'' then
       (let (name, rest) = take_word u (tl rest) in
        if name = [] then Inl (''expected a parameter name after '' @ [CHR 0x27] @ ''$'' @ [CHR 0x27] @
          '' at offset '' @ show_nat start)
        else Inr ((TParam name, []), rest))
     else if is_digit_b c then rbind (take_number rest) (\<lambda>(t, rest). Inr ((t, []), rest))
     else if at_word_start u rest then
       (let (w, rest) = take_word u rest; lw = to_ascii_lowercase w in
        Inr ((if lw \<in> set KEYWORDS then Keyword lw else Ident w, w), rest))
     else rbind (take_punct start rest) (\<lambda>(t, rest). Inr ((t, []), rest)))"

lemma skip_trivia_length: "length (skip_trivia s) \<le> length s"
proof (induction s rule: skip_trivia.induct)
  case (2 c s)
  show ?case
    using "2.IH" skip_line_length [of s] skip_block_length [of "drop 1 s"]
    by (cases "is_space_b c") auto
qed simp

lemma word_bytes_length: "word_bytes u s \<le> length s"
proof (induction u s rule: word_bytes.induct)
  case (1 u s)
  show ?case
  proof (cases "peek_char s")
    case (Some p)
    obtain c n where p: "p = (c, n)" by fastforce
    with Some have "0 < n \<and> n \<le> length s" by (simp add: peek_char_len)
    with 1 [OF Some p [symmetric]] show ?thesis
      by (subst word_bytes.simps) (use Some p in auto)
  qed (simp add: word_bytes.simps [of u s])
qed

lemma word_bytes_pos: "at_word_start u s \<Longrightarrow> 0 < word_bytes u s"
  using peek_char_len [of s]
  by (subst word_bytes.simps) (auto simp: at_word_start_def is_alphanumeric_def split: option.splits)

lemma take_until_length: "take_until off q d s = Inr (w, r) \<Longrightarrow> length r < length s"
  by (induction off q d s rule: take_until.induct) (auto split: if_splits)

lemma take_string_length: "take_string q d s = Inr (w, r) \<Longrightarrow> length r < length s"
proof (induction q d s rule: take_string.induct)
  case (2 q d c s)
  show ?case
  proof (cases "c = CHR 0x5C")
    case True
    with 2 show ?thesis by (cases s) auto
  next
    case False
    have "length (drop (utf8_len c) (c # s)) \<le> length s" by (simp add: utf8_len_def)
    with 2 False show ?thesis by (auto split: if_splits)
  qed
qed simp

lemma scan_number_length: "scan_number f d s = (w, f', r) \<Longrightarrow> length r \<le> length s"
  by (induction f d s rule: scan_number.induct) (auto split: if_splits)

lemma take_number_length: "is_digit_b c \<Longrightarrow> take_number (c # s) = Inr (t, r) \<Longrightarrow> length r < Suc (length s)"
proof -
  assume "is_digit_b c" "take_number (c # s) = Inr (t, r)"
  then obtain w f where "scan_number False [c] s = (w, f, r)"
    by (auto simp: take_number_def rbind_eq_Inr_iff split: prod.splits if_splits)
  from scan_number_length [OF this] show ?thesis by simp
qed

lemma take_punct_length: "s \<noteq> [] \<Longrightarrow> take_punct pos s = Inr (t, r) \<Longrightarrow> length r < length s"
  by (auto simp: take_punct_def THREE_def TWO_def starts_with_def split: option.splits if_splits)

lemma next_token_length: "s \<noteq> [] \<Longrightarrow> next_token u start s = Inr (t, r) \<Longrightarrow> length r < length s"
proof -
  assume s: "s \<noteq> []" and n: "next_token u start s = Inr (t, r)"
  then obtain c s' where cs: "s = c # s'" by (auto simp: neq_Nil_conv)
  show ?thesis
  proof (cases "is_digit_b c")
    case True
    then have "c \<notin> {CHR 0x60, CHR 0x27, CHR 0x22, CHR ''$''}" by (auto simp: is_digit_b_def)
    with n cs True show ?thesis
      by (auto simp: next_token_def rbind_eq_Inr_iff dest: take_number_length)
  next
    case False
    with n cs word_bytes_pos [of u s] word_bytes_length [of u s'] show ?thesis
      by (auto simp: next_token_def Let_def rbind_eq_Inr_iff take_word_def
          dest: take_until_length take_string_length split: if_splits dest!: take_punct_length [rotated])
  qed
qed

function lex_from :: "unicode \<Rightarrow> nat \<Rightarrow> string \<Rightarrow> string + token list" where
  "lex_from u len rest =
     (let rest = skip_trivia rest; start = len - length rest in
      if rest = [] then Inr [\<lparr>tok_of = Eof, pos_of = start, raw_of = []\<rparr>]
      else (case next_token u start rest of
          Inl e \<Rightarrow> Inl e
        | Inr ((t, raw), rest) \<Rightarrow>
            rbind (lex_from u len rest) (\<lambda>ts. Inr (\<lparr>tok_of = t, pos_of = start, raw_of = raw\<rparr> # ts))))"
  by pat_completeness auto
termination
proof (relation "measure (\<lambda>(u, len, s). length s)")
  fix u len s x xa b x1 y xaa ya
  assume "x = skip_trivia s" "x \<noteq> []" "next_token u xa x = Inr b" "(x1, y) = b"
  then have "length y < length x" using next_token_length by metis
  with skip_trivia_length [of s] \<open>x = skip_trivia s\<close>
  show "((u, len, y), u, len, s) \<in> measure (\<lambda>(u, len, s). length s)" by simp
qed simp

declare lex_from.simps [simp del]

definition tokenize :: "unicode \<Rightarrow> string \<Rightarrow> string + token list" where
  "tokenize u src = lex_from u (length src) src"

section \<open>Every token is in the source\<close>

lemma word_valid: "valid_utf8 (take (word_bytes u s) s)"
proof (induction u s rule: word_bytes.induct)
  case (1 u s)
  show ?case
  proof (cases "word_bytes u s = 0")
    case False
    then obtain c n where p: "peek_char s = Some (c, n)" "is_alphanumeric u c \<or> c = byte_of (CHR ''_'')"
      by (subst (asm) word_bytes.simps) (auto split: option.splits if_splits)
    then have w: "word_bytes u s = n + word_bytes u (drop n s)" by (subst word_bytes.simps) auto
    have f: "utf8_first s = Some (c, n)" using p(1) by (simp add: peek_char_def split: if_splits)
    have n: "n \<le> length s" using utf8_first_len [OF f] by simp
    let ?r = "take (word_bytes u (drop n s)) (drop n s)"
    have "take (word_bytes u s) s = take n s @ ?r" by (simp add: w take_add)
    moreover have "valid_utf8 (take n s @ ?r)"
      using valid_utf8_step [OF utf8_first_take [OF f, of ?r]] 1 [OF p(1) refl p(2)] n by simp
    ultimately show ?thesis by simp
  qed simp
qed

lemma take_word_eq: "take_word u s = (take (word_bytes u s) s, drop (word_bytes u s) s)"
  by (simp add: take_word_def utf8_lossy_valid word_valid)

text \<open>Every reader leaves an end of what it was given.\<close>

definition ends_in :: "string \<Rightarrow> string \<Rightarrow> bool" where
  "ends_in rest s \<longleftrightarrow> (\<exists>n. rest = drop n s)"

lemma ends_in_refl [simp]: "ends_in s s"
  unfolding ends_in_def by (rule exI [of _ 0]) simp

lemma ends_in_Cons: "ends_in r s \<Longrightarrow> ends_in r (c # s)"
  unfolding ends_in_def by (metis drop_Suc_Cons)

lemma ends_in_drop: "ends_in r (drop n s) \<Longrightarrow> ends_in r s"
  unfolding ends_in_def by auto

lemma ends_in_tail: "ends_in (drop n s) s"
  unfolding ends_in_def by blast

lemma ends_in_trans: "ends_in r s \<Longrightarrow> ends_in s t \<Longrightarrow> ends_in r t"
  unfolding ends_in_def by auto

lemma ends_in_at: "ends_in r s \<Longrightarrow> drop (length s - length r) s = r"
  by (cases "length r = 0") (auto simp: ends_in_def)

lemma ends_in_length: "ends_in r s \<Longrightarrow> length r \<le> length s"
  by (auto simp: ends_in_def)

lemma skip_line_ends: "ends_in (skip_line s) s"
  by (induction s) (auto intro: ends_in_Cons)

lemma skip_block_ends: "ends_in (skip_block s) s"
  by (induction s) (auto intro: ends_in_Cons ends_in_tail)

lemma skip_trivia_ends: "ends_in (skip_trivia s) s"
proof (induction s rule: skip_trivia.induct)
  case (2 c s)
  have "ends_in (skip_trivia (skip_line (c # s))) (c # s)" if "\<not> is_space_b c" "c = CHR ''/'' \<and> take 1 s = ''/''"
    using "2.IH"(2) [OF that] skip_line_ends ends_in_trans by blast
  moreover have "ends_in (skip_trivia (skip_block (drop 1 s))) (c # s)"
    if "\<not> is_space_b c" "\<not> (c = CHR ''/'' \<and> take 1 s = ''/'')" "c = CHR ''/'' \<and> take 1 s = ''*''"
    using "2.IH"(3) [OF that] skip_block_ends [of "drop 1 s"] ends_in_trans ends_in_drop ends_in_Cons by metis
  ultimately show ?case using "2.IH"(1) by (auto intro: ends_in_Cons)
qed simp

lemma take_until_ends: "take_until off q d s = Inr (w, r) \<Longrightarrow> ends_in r s"
  by (induction off q d s rule: take_until.induct) (auto split: if_splits intro: ends_in_Cons)

lemma take_string_ends: "take_string q d s = Inr (w, r) \<Longrightarrow> ends_in r s"
proof (induction q d s rule: take_string.induct)
  case (2 q d c s)
  then show ?case
    by (cases s) (auto split: if_splits intro: ends_in_Cons ends_in_drop)
qed simp

lemma scan_number_ends: "scan_number f d s = (w, f', r) \<Longrightarrow> ends_in r s"
  by (induction f d s rule: scan_number.induct) (auto split: if_splits intro: ends_in_Cons ends_in_drop)

lemma take_number_ends: "take_number s = Inr (t, r) \<Longrightarrow> ends_in r s"
  by (auto simp: take_number_def rbind_eq_Inr_iff split: prod.splits if_splits dest: scan_number_ends)

lemma take_punct_ends: "take_punct pos s = Inr (t, r) \<Longrightarrow> ends_in r s"
  by (auto simp: take_punct_def ends_in_def split: option.splits if_splits intro: exI [of _ 1] simp: drop_Suc)

text \<open>The word of a token is its spelling, and a keyword is that of its spelling in lower case.\<close>

definition spelled :: "string \<Rightarrow> token \<Rightarrow> bool" where
  "spelled src t \<longleftrightarrow> (case tok_of t of
       Keyword k \<Rightarrow> k = to_ascii_lowercase (raw_of t) \<and> k \<in> set KEYWORDS \<and>
         take (length (raw_of t)) (drop (pos_of t) src) = raw_of t
     | Ident w \<Rightarrow> w = raw_of t \<and> w \<noteq> [] \<and> to_ascii_lowercase w \<notin> set KEYWORDS \<and>
         take (length w) (drop (pos_of t) src) = w
     | _ \<Rightarrow> raw_of t = [])"

lemma take_number_kind: "take_number s = Inr (t, r) \<Longrightarrow> (\<exists>i. t = TInt i) \<or> (\<exists>f. t = TFloat f)"
  by (auto simp: take_number_def rbind_eq_Inr_iff split: prod.splits if_splits)

lemma take_punct_kind: "take_punct pos s = Inr (t, r) \<Longrightarrow> \<exists>p. t = Punct p"
  by (auto simp: take_punct_def split: option.splits if_splits)

lemma next_token_spelled:
  assumes "next_token u start s = Inr ((t, raw), r)" "s \<noteq> []" "s = drop start src"
  shows "ends_in r s \<and> t \<noteq> Eof \<and> spelled src \<lparr>tok_of = t, pos_of = start, raw_of = raw\<rparr>"
proof -
  obtain c s' where cs: "s = c # s'" using assms(2) by (auto simp: neq_Nil_conv)
  consider (quoted) "c = CHR 0x60" | (str) "c = CHR 0x27 \<or> c = CHR 0x22" | (param) "c = CHR ''$''" | (num) "is_digit_b c"
    | (word) "at_word_start u s" "c \<notin> {CHR 0x60, CHR 0x27, CHR 0x22, CHR ''$''}" "\<not> is_digit_b c"
    | (punct) "\<not> at_word_start u s" "c \<notin> {CHR 0x60, CHR 0x27, CHR 0x22, CHR ''$''}" "\<not> is_digit_b c"
    by blast
  then show ?thesis
  proof cases
    case quoted
    with assms(1) cs obtain w where "take_until (show_nat (start + 1)) c [] s' = Inr (w, r)" "t = QuotedIdent w" "raw = []"
      by (auto simp: next_token_def rbind_eq_Inr_iff)
    with cs show ?thesis by (auto simp: spelled_def dest: take_until_ends intro: ends_in_Cons)
  next
    case str
    then have "c \<noteq> CHR 0x60" by auto
    with str assms(1) cs obtain w where "take_string c [] s' = Inr (w, r)" "t = TStr w" "raw = []"
      by (auto simp: next_token_def rbind_eq_Inr_iff)
    with cs show ?thesis by (auto simp: spelled_def dest: take_string_ends intro: ends_in_Cons)
  next
    case param
    with assms(1) cs have "r = drop (word_bytes u s') s'" "t = TParam (take (word_bytes u s') s')" "raw = []"
      by (auto simp: next_token_def take_word_eq Let_def split: if_splits)
    with cs show ?thesis by (auto simp: spelled_def intro: ends_in_Cons ends_in_tail)
  next
    case num
    then have "c \<notin> {CHR 0x60, CHR 0x27, CHR 0x22, CHR ''$''}" by (auto simp: is_digit_b_def)
    with num assms(1) cs have "take_number s = Inr (t, r)" "raw = []"
      by (auto simp: next_token_def rbind_eq_Inr_iff)
    with take_number_ends take_number_kind show ?thesis by (fastforce simp: spelled_def)
  next
    case word
    have "take (word_bytes u s) s \<noteq> []" using word_bytes_pos [OF word(1)] assms(2) by simp
    moreover have "r = drop (word_bytes u s) s" "raw = take (word_bytes u s) s"
      "t = (if to_ascii_lowercase raw \<in> set KEYWORDS then Keyword (to_ascii_lowercase raw) else Ident raw)"
      using word assms(1) cs by (auto simp: next_token_def take_word_eq Let_def)
    moreover have "take (length raw) s = raw" by (simp add: \<open>raw = take (word_bytes u s) s\<close> min_def)
    moreover have "ends_in r s" by (simp add: \<open>r = drop (word_bytes u s) s\<close> ends_in_tail)
    ultimately show ?thesis by (simp add: spelled_def flip: assms(3))
  next
    case punct
    with assms(1) cs have "rbind (take_punct start s) (\<lambda>(t, rest). Inr ((t, []), rest)) = Inr ((t, raw), r)"
      by (auto simp: next_token_def Let_def)
    then have "take_punct start s = Inr (t, r)" "raw = []" by (auto simp: rbind_eq_Inr_iff)
    with take_punct_ends take_punct_kind show ?thesis by (fastforce simp: spelled_def)
  qed
qed

lemma lex_from_tokens:
  "lex_from u (length src) rest = Inr ts \<Longrightarrow> ends_in rest src \<Longrightarrow>
    (\<forall>t \<in> set ts. length src - length rest \<le> pos_of t \<and> pos_of t \<le> length src \<and> spelled src t) \<and>
    sorted_wrt (<) (map pos_of ts) \<and> (\<exists>ts'. map tok_of ts = ts' @ [Eof] \<and> Eof \<notin> set ts')"
proof (induction u "length src" rest arbitrary: ts rule: lex_from.induct)
  case (1 u rest)
  define r where "r = skip_trivia rest"
  define start where "start = length src - length r"
  have r: "ends_in r src" using skip_trivia_ends "1.prems"(2) ends_in_trans unfolding r_def by blast
  have le: "length src - length rest \<le> start" "start \<le> length src"
    using skip_trivia_length [of rest] by (auto simp: start_def r_def)
  show ?case
  proof (cases "r = []")
    case True
    with "1.prems"(1) have "ts = [\<lparr>tok_of = Eof, pos_of = start, raw_of = []\<rparr>]"
      by (subst (asm) lex_from.simps) (simp add: Let_def start_def flip: r_def)
    with le show ?thesis by (auto simp: spelled_def intro: exI [of _ "[]"])
  next
    case False
    with "1.prems"(1) obtain t raw r' ts' where n: "next_token u start r = Inr ((t, raw), r')"
      and ts': "lex_from u (length src) r' = Inr ts'" and ts: "ts = \<lparr>tok_of = t, pos_of = start, raw_of = raw\<rparr> # ts'"
      by (subst (asm) lex_from.simps)
        (auto simp: Let_def start_def rbind_eq_Inr_iff simp flip: r_def split: sum.splits prod.splits)
    have at: "r = drop start src" using ends_in_at [OF r] by (simp add: start_def)
    note sp = next_token_spelled [OF n False at]
    then have r': "ends_in r' src" using r ends_in_trans by blast
    have shrink: "start < length src - length r'"
      using next_token_length [OF False n] ends_in_length [OF r] by (simp add: start_def)
    have IH: "(\<forall>t \<in> set ts'. length src - length r' \<le> pos_of t \<and> pos_of t \<le> length src \<and> spelled src t) \<and>
      sorted_wrt (<) (map pos_of ts') \<and> (\<exists>ts''. map tok_of ts' = ts'' @ [Eof] \<and> Eof \<notin> set ts'')"
      using "1.hyps" [OF r_def start_def False n refl refl ts' r'] .
    then obtain ks where "map tok_of ts' = ks @ [Eof]" "Eof \<notin> set ks" by blast
    then have "map tok_of ts = (t # ks) @ [Eof]" "Eof \<notin> set (t # ks)" using sp by (auto simp: ts)
    moreover have "\<forall>t \<in> set ts. length src - length rest \<le> pos_of t \<and> pos_of t \<le> length src \<and> spelled src t"
      using IH sp le shrink by (auto simp: ts)
    moreover have "sorted_wrt (<) (map pos_of ts)" using IH shrink by (auto simp: ts)
    ultimately show ?thesis by blast
  qed
qed

text \<open>Lexing always returns.  The tokens it gives stand in the source in order, each at its offset, and
  end with one end-of-input token; a word keeps its spelling in the source, and is a keyword exactly
  when that spelling in lower case is one.\<close>

theorem tokenize_in_source:
  assumes "tokenize u src = Inr ts"
  shows "(\<forall>t \<in> set ts. pos_of t \<le> length src \<and> spelled src t) \<and> sorted_wrt (<) (map pos_of ts) \<and>
    (\<exists>ts'. map tok_of ts = ts' @ [Eof] \<and> Eof \<notin> set ts')"
  using lex_from_tokens [OF assms [unfolded tokenize_def] ends_in_refl] by auto

definition no_tables :: unicode where
  "no_tables = \<lparr>alphabetic = (\<lambda>_. False), numeric = (\<lambda>_. False)\<rparr>"

lemma lex_example:
  "tokenize no_tables ''MATCH (n)'' = Inr
     [\<lparr>tok_of = Keyword ''match'', pos_of = 0, raw_of = ''MATCH''\<rparr>, \<lparr>tok_of = Punct ''('', pos_of = 6, raw_of = []\<rparr>,
      \<lparr>tok_of = Ident ''n'', pos_of = 7, raw_of = ''n''\<rparr>, \<lparr>tok_of = Punct '')'', pos_of = 8, raw_of = []\<rparr>,
      \<lparr>tok_of = Eof, pos_of = 9, raw_of = []\<rparr>]"
  by code_simp

theorem tokenize_in_source_witness:
  "spelled ''MATCH (n)'' \<lparr>tok_of = Keyword ''match'', pos_of = 0, raw_of = ''MATCH''\<rparr>"
  using tokenize_in_source [OF lex_example] by simp

section \<open>A printed token sequence is read back\<close>

definition escape :: "string \<Rightarrow> string" where
  "escape s = concat (map (\<lambda>c. if c = CHR 0x5C \<or> c = CHR 0x27 then [CHR 0x5C, c] else [c]) s)"

fun lexeme :: "tok \<Rightarrow> string" where
  "lexeme (Ident w) = w"
| "lexeme (QuotedIdent s) = CHR 0x60 # s @ [CHR 0x60]"
| "lexeme (Keyword k) = k"
| "lexeme (TInt i) = show_nat (unat i)"
| "lexeme (TStr s) = CHR 0x27 # escape s @ [CHR 0x27]"
| "lexeme (TParam w) = CHR ''$'' # w"
| "lexeme (Punct p) = p"
| "lexeme t = []"

definition word_char :: "char \<Rightarrow> bool" where
  "word_char c \<longleftrightarrow> is_upper_b c \<or> is_lower_b c \<or> is_digit_b c \<or> c = CHR ''_''"

definition word_ok :: "string \<Rightarrow> bool" where
  "word_ok w \<longleftrightarrow> w \<noteq> [] \<and> (\<forall>c \<in> set w. word_char c) \<and> \<not> is_digit_b (hd w)"

fun lexable :: "tok \<Rightarrow> bool" where
  "lexable (Ident w) = (word_ok w \<and> to_ascii_lowercase w \<notin> set KEYWORDS)"
| "lexable (QuotedIdent s) = (valid_utf8 s \<and> CHR 0x60 \<notin> set s)"
| "lexable (Keyword k) = (k \<in> set KEYWORDS)"
| "lexable (TInt i) = (0 \<le> sint i)"
| "lexable (TStr s) = valid_utf8 s"
| "lexable (TParam w) = (w \<noteq> [] \<and> (\<forall>c \<in> set w. word_char c))"
| "lexable (Punct p) = (p \<in> set (THREE @ TWO) \<or> p \<in> set (map (\<lambda>c. [c]) ONE))"
| "lexable t = False"

definition print_toks :: "tok list \<Rightarrow> string" where
  "print_toks ts = concat (map (\<lambda>t. lexeme t @ '' '') ts)"

text \<open>Words.\<close>

lemma word_char_ascii: "word_char c \<Longrightarrow> byte_of c < 128"
  by (auto simp: word_char_def is_upper_b_def is_lower_b_def is_digit_b_def)

lemma word_char_alnum: "word_char c \<Longrightarrow> is_alphanumeric u (byte_of c) \<or> byte_of c = byte_of (CHR ''_'')"
  by (auto simp: word_char_def is_upper_b_def is_lower_b_def is_digit_b_def is_alphanumeric_def is_alphabetic_def)

lemma word_bytes_word:
  "\<forall>c \<in> set w. word_char c \<Longrightarrow> valid_utf8 r \<Longrightarrow> word_bytes u (w @ CHR '' '' # r) = length w"
proof (induction w)
  case Nil
  then show ?case
    by (subst word_bytes.simps)
      (simp add: peek_char_def valid_utf8_step [OF utf8_first_ascii] is_alphanumeric_def is_alphabetic_def)
next
  case (Cons c w)
  have "valid_utf8 (c # w @ CHR '' '' # r)"
    using valid_utf8_append [OF valid_utf8_ascii [of "c # w @ '' ''"] Cons.prems(2)] Cons.prems(1) word_char_ascii by auto
  then have "peek_char (c # w @ CHR '' '' # r) = Some (byte_of c, 1)"
    using Cons.prems(1) word_char_ascii by (simp add: peek_char_def)
  then show ?case
    using Cons word_char_alnum [of c u] by (subst word_bytes.simps) auto
qed

lemma take_word_word:
  "\<forall>c \<in> set w. word_char c \<Longrightarrow> valid_utf8 r \<Longrightarrow> take_word u (w @ CHR '' '' # r) = (w, CHR '' '' # r)"
  by (simp add: take_word_eq word_bytes_word)

text \<open>Strings.\<close>

lemma utf8_first_wide:
  "utf8_first (c # s) = Some (cp, n) \<Longrightarrow> 128 \<le> byte_of c \<Longrightarrow>
    utf8_len c = n \<and> (\<forall>b \<in> set (take n (c # s)). 128 \<le> byte_of b)"
  by (auto simp: utf8_first_def utf8_len_def Let_def second_ok_def is_cont_def split: list.splits if_splits)

lemma escape_append: "escape (a @ b) = escape a @ escape b"
  by (simp add: escape_def)

lemma escape_wide: "\<forall>b \<in> set s. 128 \<le> byte_of b \<Longrightarrow> escape s = s"
  by (induction s) (auto simp: escape_def)

lemma take_string_wide:
  "128 \<le> byte_of c \<Longrightarrow> c \<noteq> CHR 0x5C \<Longrightarrow> c \<noteq> CHR 0x27 \<Longrightarrow> take_string (CHR 0x27) d (c # s) =
     take_string (CHR 0x27) (d @ utf8_lossy (take (utf8_len c) (c # s))) (drop (utf8_len c) (c # s))"
  by simp

lemma take_string_escape:
  "valid_utf8 s \<Longrightarrow> take_string (CHR 0x27) d (escape s @ CHR 0x27 # r) = Inr (d @ s, r)"
proof (induction s arbitrary: d rule: valid_utf8.induct)
  case (1 s)
  show ?case
  proof (cases s)
    case Nil
    then show ?thesis by (simp add: escape_def)
  next
    case (Cons c s')
    with "1.prems" obtain cp n where f: "utf8_first s = Some (cp, n)" "valid_utf8 (drop n s)"
      using valid_utf8_first by blast
    have split: "escape s = escape (take n s) @ escape (drop n s)" by (simp flip: escape_append)
    note IH = "1.IH" [OF f(1) refl f(2)]
    show ?thesis
    proof (cases "byte_of c < 128")
      case True
      with f have n: "n = 1" by (simp add: Cons)
      have "unescape c = [c]" if "c = CHR 0x5C \<or> c = CHR 0x27" using that by (auto simp: unescape_def utf8_encode_def)
      with IH True show ?thesis unfolding split by (auto simp: n Cons escape_def)
    next
      case False
      then have w: "utf8_len c = n" "\<forall>b \<in> set (take n s). 128 \<le> byte_of b"
        using utf8_first_wide [of c s' cp n] f(1) by (simp_all add: Cons)
      have len: "0 < n" "n \<le> length s" using utf8_first_len [OF f(1)] by simp_all
      have v: "valid_utf8 (take n s)" using valid_utf8_step [OF utf8_first_take [OF f(1), of "[]"]] by simp
      have c: "c \<noteq> CHR 0x5C" "c \<noteq> CHR 0x27" using False by auto
      define t where "t = take n s"
      have t: "t = c # tl t" "length t = n" using len by (cases n; simp add: t_def Cons)+
      define x where "x = escape s @ CHR 0x27 # r"
      have x: "x = t @ escape (drop n s) @ CHR 0x27 # r"
        unfolding x_def split using escape_wide [OF w(2)] by (simp add: t_def)
      then have "x = c # tl x" by (subst (asm) t(1)) simp
      with take_string_wide [of c d "tl x"] False c
      have "take_string (CHR 0x27) d x = take_string (CHR 0x27) (d @ utf8_lossy (take n x)) (drop n x)"
        by (simp add: w(1))
      also have "\<dots> = take_string (CHR 0x27) (d @ t) (escape (drop n s) @ CHR 0x27 # r)"
        using t(2) v by (simp add: x utf8_lossy_valid t_def)
      also have "\<dots> = Inr (d @ t @ drop n s, r)" using IH by simp
      finally show ?thesis by (simp add: t_def x_def)
    qed
  qed
qed

lemma escape_valid: "valid_utf8 s \<Longrightarrow> valid_utf8 (escape s)"
proof (induction s rule: valid_utf8.induct)
  case (1 s)
  show ?case
  proof (cases s)
    case Nil
    then show ?thesis by (simp add: escape_def)
  next
    case (Cons c s')
    with "1.prems" obtain cp n where f: "utf8_first s = Some (cp, n)" "valid_utf8 (drop n s)"
      using valid_utf8_first by blast
    have "valid_utf8 (escape (take n s))"
    proof (cases "byte_of c < 128")
      case True
      with f have n: "n = 1" by (simp add: Cons)
      show ?thesis using True by (intro valid_utf8_ascii) (auto simp: n Cons escape_def)
    next
      case False
      then have "escape (take n s) = take n s"
        using utf8_first_wide [of c s' cp n] f(1) by (intro escape_wide) (simp add: Cons)
      moreover have "valid_utf8 (take n s)" using valid_utf8_step [OF utf8_first_take [OF f(1), of "[]"]] by simp
      ultimately show ?thesis by simp
    qed
    with "1.IH" [OF f(1) refl f(2)] show ?thesis
      using valid_utf8_append [of "escape (take n s)" "escape (drop n s)"] by (simp flip: escape_append)
  qed
qed

lemma take_until_quote: "CHR 0x60 \<notin> set s \<Longrightarrow> valid_utf8 (d @ s) \<Longrightarrow>
    take_until off (CHR 0x60) d (s @ CHR 0x60 # r) = Inr (d @ s, r)"
  by (induction s arbitrary: d) (auto simp: utf8_lossy_valid)

text \<open>Numbers.\<close>

lemma scan_digits: "\<forall>c \<in> set s. is_digit_b c \<Longrightarrow> scan_number False d (s @ CHR '' '' # r) = (d @ s, False, CHR '' '' # r)"
  by (induction s arbitrary: d) (auto simp: is_digit_b_def)

lemma parse_i64_show: "0 \<le> sint i \<Longrightarrow> parse_i64 (show_nat (unat i)) = Inr i"
proof -
  assume "0 \<le> sint i"
  then have "unat i < 2 ^ 63" by (rule unat_of_sint)
  then show ?thesis by (simp add: parse_i64_def show_nat_digits nat_of_show_nat)
qed

text \<open>Punctuation.\<close>

lemma starts_with_simps [simp]:
  "starts_with [] s" "\<not> starts_with (c # cs) []"
  "starts_with (c # cs) (d # ds) \<longleftrightarrow> c = d \<and> starts_with cs ds"
  by (auto simp: starts_with_def)

lemma list_member_cases:
  "x \<in> set (xs @ ys) \<Longrightarrow> (x \<in> set xs \<Longrightarrow> P) \<Longrightarrow> (x \<in> set ys \<Longrightarrow> P) \<Longrightarrow> P"
  "x \<in> set [] \<Longrightarrow> P" "x \<in> set (y # ys) \<Longrightarrow> (x = y \<Longrightarrow> P) \<Longrightarrow> (x \<in> set ys \<Longrightarrow> P) \<Longrightarrow> P"
  by auto

lemma take_punct_read: "lexable (Punct p) \<Longrightarrow> take_punct pos (p @ CHR '' '' # r) = Inr (Punct p, CHR '' '' # r)"
proof -
  assume "lexable (Punct p)"
  then consider (longer) "p \<in> set (THREE @ TWO)" | (one) c where "p = [c]" "c \<in> set ONE" by auto
  then show ?thesis
  proof cases
    case longer
    then have "find (\<lambda>q. starts_with q (p @ CHR '' '' # r)) (THREE @ TWO) = Some p"
      unfolding THREE_def TWO_def by (elim list_member_cases) simp_all
    then show ?thesis by (simp add: take_punct_def)
  next
    case one
    have "find (\<lambda>q. starts_with q (c # CHR '' '' # r)) (THREE @ TWO) = None"
      by (simp add: THREE_def TWO_def)
    with one show ?thesis by (simp add: take_punct_def)
  qed
qed

lemma keyword_word: "k \<in> set KEYWORDS \<Longrightarrow> word_ok k \<and> to_ascii_lowercase k = k"
proof -
  have "\<forall>k \<in> set KEYWORDS. word_ok k \<and> to_ascii_lowercase k = k" by code_simp
  then show "k \<in> set KEYWORDS \<Longrightarrow> word_ok k \<and> to_ascii_lowercase k = k" by blast
qed

lemma punct_ascii: "lexable (Punct p) \<Longrightarrow> p \<noteq> [] \<and> \<not> is_space_b (hd p) \<and> (hd p = CHR ''/'' \<longrightarrow> p = ''/'') \<and> (\<forall>c \<in> set p. byte_of c < 128)"
proof -
  have "\<forall>p \<in> set (THREE @ TWO @ map (\<lambda>c. [c]) ONE).
      p \<noteq> [] \<and> \<not> is_space_b (hd p) \<and> (hd p = CHR ''/'' \<longrightarrow> p = ''/'') \<and> (\<forall>c \<in> set p. byte_of c < 128)" by code_simp
  then show "lexable (Punct p) \<Longrightarrow> ?thesis" by auto
qed

lemma word_char_start: "word_char c \<Longrightarrow> \<not> is_space_b c \<and> c \<noteq> CHR ''/''"
  by (auto simp: word_char_def is_space_b_def is_upper_b_def is_lower_b_def is_digit_b_def)

lemma digit_char: "is_digit_b c \<Longrightarrow> word_char c"
  by (simp add: word_char_def)

text \<open>No lexeme starts with white space or a comment, and all are valid UTF-8.\<close>

lemma word_start: "w \<noteq> [] \<Longrightarrow> \<forall>c \<in> set w. word_char c \<Longrightarrow>
    \<not> is_space_b (hd w) \<and> (hd w = CHR ''/'' \<longrightarrow> w = ''/'') \<and> valid_utf8 w"
  using word_char_start [of "hd w"] word_char_ascii by (auto intro: valid_utf8_ascii)

lemma quoted_valid: "valid_utf8 s \<Longrightarrow> byte_of q < 128 \<Longrightarrow> valid_utf8 (q # s @ [q])"
  using valid_utf8_step [OF utf8_first_ascii [of q "s @ [q]"]]
  by (simp add: valid_utf8_append valid_utf8_ascii)

lemma lexeme_start:
  "lexable t \<Longrightarrow> lexeme t \<noteq> [] \<and> \<not> is_space_b (hd (lexeme t)) \<and> (hd (lexeme t) = CHR ''/'' \<longrightarrow> lexeme t = ''/'') \<and>
    valid_utf8 (lexeme t)"
proof (cases t)
  case (Keyword k)
  assume "lexable t"
  with Keyword keyword_word [of k] word_start [of k] show ?thesis by (simp add: word_ok_def)
next
  case (TInt i)
  then show ?thesis
    using word_start [of "show_nat (unat i)"] show_nat_digits [of "unat i"] digit_char by simp
next
  case (TStr s)
  assume "lexable t"
  with TStr show ?thesis by (simp add: quoted_valid escape_valid is_space_b_def)
next
  case (QuotedIdent s)
  assume "lexable t"
  with QuotedIdent show ?thesis by (simp add: quoted_valid is_space_b_def)
next
  case (TParam w)
  assume "lexable t"
  with TParam show ?thesis using word_start [of w]
    by (auto simp: is_space_b_def valid_utf8_step [OF utf8_first_ascii])
next
  case (Punct p)
  assume "lexable t"
  with Punct punct_ascii [of p] show ?thesis by (auto intro: valid_utf8_ascii)
qed (use word_start in \<open>auto simp: word_ok_def\<close>)

lemma print_valid: "\<forall>t \<in> set ts. lexable t \<Longrightarrow> valid_utf8 (print_toks ts)"
proof (induction ts)
  case (Cons t ts)
  then show ?case
    using lexeme_start [of t] by (auto simp: print_toks_def valid_utf8_append valid_utf8_ascii simp flip: append_assoc)
qed (simp add: print_toks_def)

lemma skip_lexeme: "lexable t \<Longrightarrow> skip_trivia (lexeme t @ CHR '' '' # r) = lexeme t @ CHR '' '' # r"
  using lexeme_start [of t] by (cases "lexeme t") auto

lemma at_word_start_ascii:
  "byte_of c < 128 \<Longrightarrow> at_word_start u (c # s) \<longleftrightarrow> valid_utf8 (c # s) \<and> word_char c \<and> \<not> is_digit_b c"
proof -
  have "byte_of c = 95 \<longleftrightarrow> c = CHR ''_''" using of_char_eq_iff [of c "CHR ''_''"] by simp
  then show "byte_of c < 128 \<Longrightarrow> ?thesis"
    by (auto simp: at_word_start_def peek_char_def is_alphabetic_def word_char_def
        is_upper_b_def is_lower_b_def is_digit_b_def)
qed

lemma next_token_word:
  assumes "word_ok w" "valid_utf8 r"
  shows "next_token u start (w @ CHR '' '' # r) =
    Inr ((if to_ascii_lowercase w \<in> set KEYWORDS then Keyword (to_ascii_lowercase w) else Ident w, w), CHR '' '' # r)"
proof -
  obtain c w' where w: "w = c # w'" using assms(1) by (auto simp: word_ok_def neq_Nil_conv)
  have c: "word_char c" "\<not> is_digit_b c" using assms(1) by (auto simp: word_ok_def w)
  have "valid_utf8 (w @ CHR '' '' # r)"
  proof -
    have "valid_utf8 (w @ '' '')"
      using assms(1) word_char_ascii by (intro valid_utf8_ascii) (auto simp: word_ok_def)
    with valid_utf8_append [of "w @ '' ''" r] assms(2) show ?thesis by simp
  qed
  then have "at_word_start u (w @ CHR '' '' # r)"
    using c word_char_ascii [of c] by (simp add: w at_word_start_ascii)
  moreover have "c \<notin> {CHR 0x60, CHR 0x27, CHR 0x22, CHR ''$''}"
    using c(1) by (auto simp: word_char_def is_upper_b_def is_lower_b_def is_digit_b_def)
  moreover have "take_word u (w @ CHR '' '' # r) = (w, CHR '' '' # r)"
    using assms by (intro take_word_word) (auto simp: word_ok_def)
  ultimately show ?thesis using c by (simp add: next_token_def Let_def w)
qed

lemma next_token_lexeme:
  assumes "lexable t" "valid_utf8 r"
  shows "\<exists>raw. next_token u start (lexeme t @ CHR '' '' # r) = Inr ((t, raw), CHR '' '' # r)"
proof (cases t)
  case (Ident w)
  with assms next_token_word [of w r u start] show ?thesis by simp
next
  case (Keyword k)
  with assms next_token_word [of k r u start] keyword_word [of k] show ?thesis by simp
next
  case (QuotedIdent s)
  with assms take_until_quote [of s "[]" "show_nat (start + 1)" "CHR '' '' # r"] show ?thesis
    by (simp add: next_token_def)
next
  case (TInt i)
  let ?d = "show_nat (unat i)"
  obtain c d where d: "?d = c # d" by (cases ?d) auto
  have c: "is_digit_b c" using show_nat_digits [of "unat i"] by (simp add: d)
  then have "c \<notin> {CHR 0x60, CHR 0x27, CHR 0x22, CHR ''$''}" by (auto simp: is_digit_b_def)
  moreover have "take_number (?d @ CHR '' '' # r) = Inr (TInt i, CHR '' '' # r)"
    using scan_digits [OF show_nat_digits, of "[]" "unat i" r] assms(1) TInt
    by (simp add: take_number_def parse_i64_show)
  ultimately show ?thesis using c by (simp add: TInt next_token_def d)
next
  case (TStr s)
  with assms take_string_escape [of s "[]" "CHR '' '' # r"] show ?thesis by (simp add: next_token_def)
next
  case (TParam w)
  with assms show ?thesis by (simp add: next_token_def take_word_word)
next
  case (Punct p)
  then obtain c p' where p: "p = c # p'" "byte_of c < 128" using assms(1) punct_ascii [of p] by (cases p) auto
  have "\<forall>p \<in> set (THREE @ TWO @ map (\<lambda>c. [c]) ONE).
      \<not> word_char (hd p) \<and> hd p \<notin> {CHR 0x60, CHR 0x27, CHR 0x22, CHR ''$''}" by code_simp
  moreover have "p \<in> set (THREE @ TWO @ map (\<lambda>c. [c]) ONE)" using assms(1) by (auto simp: Punct)
  ultimately have "\<not> word_char (hd p) \<and> hd p \<notin> {CHR 0x60, CHR 0x27, CHR 0x22, CHR ''$''}" by (rule bspec)
  then have "\<not> word_char c \<and> c \<notin> {CHR 0x60, CHR 0x27, CHR 0x22, CHR ''$''}" by (simp add: p)
  moreover have "\<not> is_digit_b c" using calculation digit_char by blast
  ultimately show ?thesis
    using take_punct_read [of p start r] assms(1) p(2) by (simp add: Punct next_token_def p(1) at_word_start_ascii)
qed (use assms in auto)

lemma lex_from_printed:
  "\<forall>t \<in> set ts. lexable t \<Longrightarrow> rest = print_toks ts \<or> rest = CHR '' '' # print_toks ts \<Longrightarrow>
    \<exists>out. lex_from u len rest = Inr out \<and> map tok_of out = ts @ [Eof]"
proof (induction ts arbitrary: rest)
  case Nil
  then have "skip_trivia rest = []" by (auto simp: print_toks_def is_space_b_def)
  then show ?case by (subst lex_from.simps) (simp add: Let_def)
next
  case (Cons t ts)
  let ?r = "lexeme t @ CHR '' '' # print_toks ts"
  have p: "print_toks (t # ts) = ?r" by (simp add: print_toks_def)
  have "skip_trivia (CHR '' '' # ?r) = skip_trivia ?r" by (simp add: is_space_b_def)
  then have r: "skip_trivia rest = ?r" using Cons.prems skip_lexeme [of t "print_toks ts"] p by auto
  have ne: "?r \<noteq> []" by simp
  obtain raw where n: "next_token u (len - length ?r) ?r = Inr ((t, raw), CHR '' '' # print_toks ts)"
    using next_token_lexeme [of t "print_toks ts" u "len - length ?r"] Cons.prems(1) print_valid [of ts] by auto
  obtain out where "lex_from u len (CHR '' '' # print_toks ts) = Inr out" "map tok_of out = ts @ [Eof]"
    using Cons.IH [of "CHR '' '' # print_toks ts"] Cons.prems(1) by auto
  with n show ?case by (subst lex_from.simps) (simp add: Let_def r del: append_eq_Cons_conv)
qed

text \<open>C37: Printing tokens, with the quotes and backslashes of strings escaped and a space after each, and
  lexing the text gives the tokens back, whatever the Unicode tables say.\<close>

theorem tokenize_printed:
  assumes "\<forall>t \<in> set ts. lexable t"
  shows "\<exists>out. tokenize u (print_toks ts) = Inr out \<and> map tok_of out = ts @ [Eof]"
  unfolding tokenize_def using lex_from_printed [OF assms] by blast

theorem tokenize_printed_witness:
  "\<exists>out. tokenize no_tables (print_toks [Keyword ''return'', TStr (CHR 0x27 # ''x''), Punct ''<='', TInt 42, TParam ''p'']) = Inr out \<and>
    map tok_of out = [Keyword ''return'', TStr (CHR 0x27 # ''x''), Punct ''<='', TInt 42, TParam ''p'', Eof]"
proof -
  let ?ts = "[Keyword ''return'', TStr (CHR 0x27 # ''x''), Punct ''<='', TInt 42, TParam ''p'']"
  have "\<forall>t \<in> set ?ts. lexable t"
    by (simp add: KEYWORDS_def THREE_def TWO_def word_char_def is_lower_b_def valid_utf8_ascii)
  from tokenize_printed [OF this] show ?thesis by simp
qed

end
