(* ===== verification/Cypher_Ast.thy ===== *)
theory Cypher_Ast
  imports Cypher_Lexer
begin

text \<open>
  The Cypher syntax tree (\<open>engine/src/cypher/ast.rs\<close>), type by type, with the two functions on
  expressions the compiler uses: which expressions aggregate, and the column name of a projection item
  without an alias.  A constructor that clashes with a name of the library is suffixed (\<open>NotE\<close>, \<open>InOp\<close>, \<open>IntL\<close>, \<open>AllOf\<close>);
  \<open>Option\<close> and \<open>Vec\<close> are \<open>option\<close> and lists, \<open>Box\<close> is transparent.
\<close>

section \<open>Expressions\<close>

datatype dir = Out | In | Both

datatype lit =
    IntL i64
  | Float f64
  | Str string
  | Bool bool
  | Null

datatype bin_op =
    Add | Sub | Mul | Div | Mod | Pow | Eq | Ne | Lt | Le | Gt | Ge | And | Or | Xor | InOp
  | StartsWith | EndsWith | Contains | Regex | Concat

datatype list_pred_kind = Any | AllOf | NoneOf | Single

datatype expr =
    Lit lit
  | Param string
  | Var string
  | Prop expr string
  | Binary bin_op expr expr
  | NotE expr
  | Neg expr
  | IsNull expr bool
  | Func string "expr list" bool
  | ListE "expr list"
  | MapE "(string \<times> expr) list"
  | CaseE "expr option" "(expr \<times> expr) list" "expr option"
  | ListComp string expr "expr option" "expr option"
  | ListPred list_pred_kind string expr expr
  | MapProjection string "map_proj_item list"
  | Star
and map_proj_item =
    ItemProp string
  | ItemAll
  | Entry string expr

section \<open>Patterns\<close>

record node_pat =
  node_var :: "string option"
  labels :: "string list"
  node_props :: "(string \<times> expr) list"

record rel_pat =
  rel_var :: "string option"
  rel_types :: "string list"
  rel_dir :: dir
  rel_props :: "(string \<times> expr) list"
  rel_range :: "(u32 \<times> u32) option"

datatype pat_elem = Node node_pat | Rel rel_pat

record pattern =
  path_var :: "string option"
  elems :: "pat_elem list"

section \<open>Clauses\<close>

record return_item =
  item_expr :: expr
  item_alias :: "string option"

record order_item =
  order_expr :: expr
  order_desc :: bool

record projection =
  items :: "return_item list"
  dedup :: bool
  order :: "order_item list"
  skip :: "expr option"
  limit :: "expr option"

datatype set_op =
    SetProp string string expr
  | SetMap string expr bool
  | SetLabel string "string list"

datatype index_kind = Btree | Vector | Fulltext
datatype constraint_kind = Unique | NotNull | NodeKey

datatype ddl =
    CreateIndex (ix_name: "string option") (ix_kind: index_kind) (on_relationship: bool) (ix_label: string)
      (ix_props: "string list") (ix_options: "(string \<times> expr) list") (ix_if_not_exists: bool)
  | CreateConstraint (con_name: "string option") (con_label: string) (con_props: "string list")
      (con_kind: constraint_kind) (con_if_not_exists: bool)
  | Drop string bool bool

datatype clause =
    Match "pattern list" bool "expr option"
  | Unwind expr string
  | With projection "expr option"
  | Return projection
  | Create "pattern list"
  | Merge pattern "set_op list" "set_op list"
  | SetC "set_op list"
  | Remove "set_op list"
  | Delete "expr list" bool
  | Call string "expr list" "(string \<times> string) list"
  | Ddl ddl

datatype query = Query (clauses: "clause list") (union_of: "(bool \<times> query) option")

section \<open>Aggregates and column names\<close>

definition AGGS :: "string list" where
  "AGGS = [''count'', ''sum'', ''avg'', ''min'', ''max'', ''collect'', ''stdev'', ''percentile'']"

fun is_aggregate :: "expr \<Rightarrow> bool" where
  "is_aggregate (Func name args d) \<longleftrightarrow> to_ascii_lowercase name \<in> set AGGS \<or> (\<exists>a \<in> set args. is_aggregate a)"
| "is_aggregate (Binary bop a b) \<longleftrightarrow> is_aggregate a \<or> is_aggregate b"
| "is_aggregate (NotE a) = is_aggregate a"
| "is_aggregate (Neg a) = is_aggregate a"
| "is_aggregate (IsNull a w) = is_aggregate a"
| "is_aggregate (ListE xs) \<longleftrightarrow> (\<exists>x \<in> set xs. is_aggregate x)"
| "is_aggregate (MapE kv) \<longleftrightarrow> (\<exists>(k, v) \<in> set kv. is_aggregate v)"
| "is_aggregate (CaseE operand whens els) \<longleftrightarrow>
     (case operand of Some a \<Rightarrow> is_aggregate a | None \<Rightarrow> False) \<or>
     (\<exists>(a, b) \<in> set whens. is_aggregate a \<or> is_aggregate b) \<or>
     (case els of Some e \<Rightarrow> is_aggregate e | None \<Rightarrow> False)"
| "is_aggregate _ \<longleftrightarrow> False"

fun default_alias :: "expr \<Rightarrow> string" where
  "default_alias (Var v) = v"
| "default_alias (Prop b p) = (case b of Var v \<Rightarrow> v @ ''.'' @ p | _ \<Rightarrow> p)"
| "default_alias (Func name args d) = name @ ''('' @ join '', '' (map default_alias args) @ '')''"
| "default_alias (Lit (Str s)) = [CHR 0x22] @ s @ [CHR 0x22]"
| "default_alias (Lit (IntL i)) = show_int (sint i)"
| "default_alias (Lit (Float f)) = show_f64 f"
| "default_alias (Lit (Bool b)) = (if b then ''true'' else ''false'')"
| "default_alias (Lit Null) = ''NULL''"
| "default_alias (Param p) = ''$'' @ p"
| "default_alias Star = ''*''"
| "default_alias _ = ''expr''"

end
