(* ===== verification/Token_Parser.thy ===== *)
theory Token_Parser
  imports Prelude
begin

text \<open>
  What the recursive-descent parsers share.  A parser reads a constant source and passes its state (the
  position in the token stream) on; it ends in a result or in an error, which is a message, the
  underflow of a position, or the end of the fuel a loop or a recursion was given.  The locale
  \<open>token_stream\<close> states what a stream of tokens promises when it is advanced, and proves the rules by
  which a parser is \<open>total\<close>: on a given number of tokens it always ends, in a message or in a result
  that consumed at least what it should.
\<close>

datatype perror = Fuel | Underflow | Msg string

type_synonym ('s, 't, 'a) parser = "'s \<Rightarrow> 't \<Rightarrow> perror + 'a \<times> 't"

section \<open>Combinators\<close>

definition ret :: "'a \<Rightarrow> ('s, 't, 'a) parser" where
  "ret x S t = Inr (x, t)"

definition pbind :: "('s, 't, 'a) parser \<Rightarrow> ('a \<Rightarrow> ('s, 't, 'b) parser) \<Rightarrow> ('s, 't, 'b) parser" where
  "pbind p f S t = (case p S t of Inl e \<Rightarrow> Inl e | Inr (x, t) \<Rightarrow> f x S t)"

text \<open>A decision on the current token, without consuming it, and on any other fact of the position.\<close>

definition look :: "('s \<Rightarrow> 't \<Rightarrow> 'k) \<Rightarrow> ('k \<Rightarrow> ('s, 't, 'a) parser) \<Rightarrow> ('s, 't, 'a) parser" where
  "look peek f S t = f (peek S t) S t"

text \<open>\<open>if c { Some(p) } else { None }\<close>.\<close>

definition opt :: "('s, 't, bool) parser \<Rightarrow> ('s, 't, 'a) parser \<Rightarrow> ('s, 't, 'a option) parser" where
  "opt c p = pbind c (\<lambda>b. if b then pbind p (\<lambda>x. ret (Some x)) else ret None)"

text \<open>\<open>while c { push(p) }\<close>.\<close>

fun while_eat :: "nat \<Rightarrow> ('s, 't, bool) parser \<Rightarrow> ('s, 't, 'a) parser \<Rightarrow> ('s, 't, 'a list) parser" where
  "while_eat 0 c p = (\<lambda>S t. Inl Fuel)"
| "while_eat (Suc n) c p = pbind c (\<lambda>b. if b then pbind p (\<lambda>x. pbind (while_eat n c p) (\<lambda>xs. ret (x # xs))) else ret [])"

text \<open>\<open>loop { push(p); if !c { break } }\<close>.\<close>

definition sep_list :: "nat \<Rightarrow> ('s, 't, bool) parser \<Rightarrow> ('s, 't, 'a) parser \<Rightarrow> ('s, 't, 'a list) parser" where
  "sep_list n c p = pbind p (\<lambda>x. pbind (while_eat n c p) (\<lambda>xs. ret (x # xs)))"

text \<open>\<open>loop { a = match step(a) { Some(b) => b, None => break } }\<close>.\<close>

fun chain :: "nat \<Rightarrow> ('a \<Rightarrow> ('s, 't, 'a option) parser) \<Rightarrow> 'a \<Rightarrow> ('s, 't, 'a) parser" where
  "chain 0 step a = (\<lambda>S t. Inl Fuel)"
| "chain (Suc n) step a = pbind (step a) (\<lambda>r. case r of None \<Rightarrow> ret a | Some b \<Rightarrow> chain n step b)"

text \<open>Fuel for a loop: the length of the source, since every round consumes a token.\<close>

definition with_fuel :: "('s \<Rightarrow> nat) \<Rightarrow> (nat \<Rightarrow> ('s, 't, 'a) parser) \<Rightarrow> ('s, 't, 'a) parser" where
  "with_fuel len p S t = p (len S) S t"

lemma pbind_Inr: "p S t = Inr (x, t') \<Longrightarrow> pbind p f S t = f x S t'"
  by (simp add: pbind_def)

lemma pbind_assoc: "pbind (pbind p f) g = pbind p (\<lambda>x. pbind (f x) g)"
  by (intro ext) (simp add: pbind_def split: sum.split)

lemma pbind_ret [simp]: "pbind (ret x) f = f x"
  by (intro ext) (simp add: pbind_def ret_def)

lemma pbind_cong [fundef_cong]:
  "p S t = p' S' t' \<Longrightarrow> (\<And>x u. p' S' t' = Inr (x, u) \<Longrightarrow> f x S u = f' x S' u) \<Longrightarrow> pbind p f S t = pbind p' f' S' t'"
  by (simp add: pbind_def split: sum.split)

section \<open>Streams of tokens\<close>

locale token_stream =
  fixes len :: "'s \<Rightarrow> nat"
    and pos :: "'t \<Rightarrow> nat"
    and good :: "'s \<Rightarrow> bool"
    and peek :: "'s \<Rightarrow> 't \<Rightarrow> 'k"
    and bump :: "('s, 't, 'k) parser"
    and eof :: 'k
  assumes bump_live: "good S \<Longrightarrow> pos t < len S \<Longrightarrow> peek S t \<noteq> eof \<Longrightarrow>
      \<exists>t'. bump S t = Inr (peek S t, t') \<and> pos t' = Suc (pos t) \<and> pos t' < len S"
    and bump_eof: "good S \<Longrightarrow> pos t < len S \<Longrightarrow> peek S t = eof \<Longrightarrow> bump S t = Inr (eof, t)"
begin

text \<open>With at most \<open>m\<close> tokens left, and one that is not the end if \<open>live\<close>: the parser ends in a message, or
  in a result \<open>x\<close> after at least \<open>k x\<close> tokens and before the end of the stream.\<close>

definition total :: "bool \<Rightarrow> nat \<Rightarrow> ('a \<Rightarrow> nat) \<Rightarrow> ('s, 't, 'a) parser \<Rightarrow> bool" where
  "total live m k p \<longleftrightarrow> (\<forall>S t. good S \<and> pos t < len S \<and> len S - pos t \<le> m \<and> (live \<longrightarrow> peek S t \<noteq> eof) \<longrightarrow>
     (\<exists>msg. p S t = Inl (Msg msg)) \<or> (\<exists>x t'. p S t = Inr (x, t') \<and> pos t + k x \<le> pos t' \<and> pos t' < len S))"

lemma totalI:
  assumes "\<And>S t. good S \<Longrightarrow> pos t < len S \<Longrightarrow> len S - pos t \<le> m \<Longrightarrow> live \<longrightarrow> peek S t \<noteq> eof \<Longrightarrow>
     (\<exists>msg. p S t = Inl (Msg msg)) \<or> (\<exists>x t'. p S t = Inr (x, t') \<and> pos t + k x \<le> pos t' \<and> pos t' < len S)"
  shows "total live m k p"
  using assms unfolding total_def by blast

lemma totalD:
  assumes "total live m k p" "good S" "pos t < len S" "len S - pos t \<le> m" "live \<longrightarrow> peek S t \<noteq> eof"
  shows "(\<exists>msg. p S t = Inl (Msg msg)) \<or> (\<exists>x t'. p S t = Inr (x, t') \<and> pos t + k x \<le> pos t' \<and> pos t' < len S)"
  using assms unfolding total_def by blast

lemma total_weaken:
  "total live m k p \<Longrightarrow> live \<longrightarrow> live' \<Longrightarrow> m' \<le> m \<Longrightarrow> (\<And>x. k' x \<le> k x) \<Longrightarrow> total live' m' k' p"
proof (rule totalI)
  fix S t
  assume p: "total live m k p" and le: "live \<longrightarrow> live'" "m' \<le> m" "\<And>x. k' x \<le> k x"
    and St: "good S" "pos t < len S" "len S - pos t \<le> m'" "live' \<longrightarrow> peek S t \<noteq> eof"
  have "len S - pos t \<le> m" "live \<longrightarrow> peek S t \<noteq> eof" using St le by auto
  note totalD [OF p St(1,2) this]
  moreover have "pos t + k' x \<le> pos t'" if "pos t + k x \<le> pos t'" for x t'
    using that le(3) [of x] by linarith
  ultimately show "(\<exists>msg. p S t = Inl (Msg msg)) \<or>
    (\<exists>x t'. p S t = Inr (x, t') \<and> pos t + k' x \<le> pos t' \<and> pos t' < len S)" by blast
qed

lemma total_zero: "total live 0 k p"
  by (rule totalI) simp

lemma total_ret: "k x = 0 \<Longrightarrow> total live m k (ret x)"
  by (simp add: total_def ret_def)

lemma total_msg: "(\<And>S t. \<exists>msg. p S t = Inl (Msg msg)) \<Longrightarrow> total live m k p"
  unfolding total_def by blast

lemma total_bind:
  assumes p: "total live m j p" and f: "\<And>x. total False (m - j x) (\<lambda>y. k y - j x) (f x)"
  shows "total live m k (pbind p f)"
proof (rule totalI)
  fix S t assume St: "good S" "pos t < len S" "len S - pos t \<le> m" "live \<longrightarrow> peek S t \<noteq> eof"
  consider msg where "p S t = Inl (Msg msg)"
    | x t' where "p S t = Inr (x, t')" "pos t + j x \<le> pos t'" "pos t' < len S"
    using totalD [OF p St] by blast
  then show "(\<exists>msg. pbind p f S t = Inl (Msg msg)) \<or>
    (\<exists>y u. pbind p f S t = Inr (y, u) \<and> pos t + k y \<le> pos u \<and> pos u < len S)"
  proof cases
    case 2
    have le: "len S - pos t' \<le> m - j x" using 2 St by linarith
    have "(\<exists>msg. f x S t' = Inl (Msg msg)) \<or>
      (\<exists>y u. f x S t' = Inr (y, u) \<and> pos t' + (k y - j x) \<le> pos u \<and> pos u < len S)"
      by (rule totalD [OF f St(1) 2(3) le]) simp
    moreover have "pos t + k y \<le> pos u" if "pos t' + (k y - j x) \<le> pos u" for y u
      using that 2(2) by linarith
    ultimately show ?thesis unfolding pbind_Inr [where p = p, OF 2(1)] by blast
  qed (simp add: pbind_def)
qed

lemma total_if: "(b \<Longrightarrow> total live m k p) \<Longrightarrow> (\<not> b \<Longrightarrow> total live m k q) \<Longrightarrow> total live m k (if b then p else q)"
  by simp

lemma total_look:
  "(\<And>x. x \<noteq> eof \<Longrightarrow> total True m k (f x)) \<Longrightarrow> (\<not> live \<Longrightarrow> total False m k (f eof)) \<Longrightarrow> total live m k (look peek f)"
  unfolding total_def look_def by metis

text \<open>A decision on anything else.\<close>

lemma total_ask: "(\<And>x. total live m k (f x)) \<Longrightarrow> total live m k (look q f)"
  by (simp add: total_def look_def)

lemma total_bump_live: "total True m (\<lambda>_. 1) bump"
proof (rule totalI)
  fix S t assume "good S" "pos t < len S" "True \<longrightarrow> peek S t \<noteq> eof"
  then obtain t' where "bump S t = Inr (peek S t, t')" "pos t' = Suc (pos t)" "pos t' < len S"
    using bump_live by blast
  then show "(\<exists>msg. bump S t = Inl (Msg msg)) \<or> (\<exists>x t'. bump S t = Inr (x, t') \<and> pos t + 1 \<le> pos t' \<and> pos t' < len S)"
    by simp
qed

lemma total_bump: "total False m (\<lambda>_. 0) bump"
proof (rule totalI)
  fix S t assume "good S" "pos t < len S"
  then show "(\<exists>msg. bump S t = Inl (Msg msg)) \<or> (\<exists>x t'. bump S t = Inr (x, t') \<and> pos t + 0 \<le> pos t' \<and> pos t' < len S)"
    using bump_live [of S t] bump_eof [of S t] by (cases "peek S t = eof") auto
qed

lemma total_opt:
  assumes c: "total live m (\<lambda>b. if b then 1 else 0) c" and p: "total False (m - 1) (\<lambda>_. 0) p"
  shows "total live m (\<lambda>r. case r of None \<Rightarrow> 0 | Some _ \<Rightarrow> 1) (opt c p)"
  unfolding opt_def
proof (rule total_bind [OF c])
  fix b
  show "total False (m - (if b then 1 else 0)) (\<lambda>y. (case y of None \<Rightarrow> 0 | Some _ \<Rightarrow> 1) - (if b then 1 else 0))
    (if b then pbind p (\<lambda>x. ret (Some x)) else ret None)"
    using p by (auto intro!: total_bind [OF total_weaken [OF p]] total_ret)
qed

lemma total_while:
  assumes "m \<le> n" "\<And>i. i \<le> m \<Longrightarrow> total False i (\<lambda>b. if b then 1 else 0) c"
    and p: "\<And>i. i < m \<Longrightarrow> total False i (\<lambda>_. 0) p" and nil: "k [] = 0"
    and cons: "\<And>x xs. k (x # xs) \<le> 1"
  shows "total live m k (while_eat n c p)"
  using assms
proof (induction n arbitrary: m live k)
  case 0
  then show ?case by (auto intro!: totalI)
next
  case (Suc n)
  show ?case
  proof (cases "m = 0")
    case True
    then show ?thesis by (auto intro!: totalI)
  next
    case False
    then have IH: "total l i (\<lambda>_. 0) (while_eat n c p)" if "i < m" for l i
      using that Suc.prems by (intro Suc.IH) auto
    note nil = Suc.prems(4) and cons = Suc.prems(5)
    have rest: "total False (m - 1) (\<lambda>y. k y - 1) (pbind p (\<lambda>x. pbind (while_eat n c p) (\<lambda>xs. ret (x # xs))))"
      using False cons by (intro total_bind [where j = "\<lambda>_. 0"] Suc.prems(3) IH total_ret) (simp_all add: cons [simplified])
    have "total False m (\<lambda>b. if b then 1 else 0) c" using Suc.prems(2) by simp
    then have "total live m (\<lambda>b. if b then 1 else 0) c" by (rule total_weaken) auto
    then show ?thesis
      unfolding while_eat.simps
    proof (rule total_bind)
      fix b
      show "total False (m - (if b then 1 else 0)) (\<lambda>y. k y - (if b then 1 else 0))
        (if b then pbind p (\<lambda>x. pbind (while_eat n c p) (\<lambda>xs. ret (x # xs))) else ret [])"
        using rest nil by (auto intro!: total_ret)
    qed
  qed
qed

lemma total_chain:
  assumes "m \<le> n" "\<And>a i. i \<le> m \<Longrightarrow> total False i (\<lambda>r. case r of None \<Rightarrow> 0 | Some _ \<Rightarrow> 1) (step a)"
    and k: "\<And>x. k x = 0"
  shows "total live m k (chain n step a)"
  using assms(1,2)
proof (induction n arbitrary: m a live)
  case 0
  then show ?case by (auto intro!: totalI)
next
  case (Suc n)
  show ?case
  proof (cases "m = 0")
    case True
    then show ?thesis by (auto intro!: totalI)
  next
    case False
    have "total False m (\<lambda>r. case r of None \<Rightarrow> 0 | Some _ \<Rightarrow> 1) (step a)" using Suc.prems(2) by simp
    then have "total live m (\<lambda>r. case r of None \<Rightarrow> 0 | Some _ \<Rightarrow> 1) (step a)" by (rule total_weaken) auto
    then show ?thesis
      unfolding chain.simps
    proof (rule total_bind)
      fix r :: "'a option"
      show "total False (m - (case r of None \<Rightarrow> 0 | Some _ \<Rightarrow> 1)) (\<lambda>y. k y - (case r of None \<Rightarrow> 0 | Some _ \<Rightarrow> 1))
        (case r of None \<Rightarrow> ret a | Some b \<Rightarrow> chain n step b)"
      proof (cases r)
        case None
        then show ?thesis by (simp add: total_ret k)
      next
        case (Some b)
        have "total False (m - 1) k (chain n step b)"
          using False Suc.prems by (intro Suc.IH) auto
        moreover have "k = (\<lambda>_. 0)" using k by blast
        ultimately show ?thesis by (simp add: Some)
      qed
    qed
  qed
qed

lemma total_fuel:
  assumes "\<And>n i. i \<le> m \<Longrightarrow> i \<le> n \<Longrightarrow> total live i k (p n)"
  shows "total live m k (with_fuel len p)"
proof (rule totalI)
  fix S t assume St: "good S" "pos t < len S" "len S - pos t \<le> m" "live \<longrightarrow> peek S t \<noteq> eof"
  have "total live (min m (len S)) k (p (len S))" by (rule assms) simp_all
  from totalD [OF this St(1,2)] St(3,4)
  show "(\<exists>msg. with_fuel len p S t = Inl (Msg msg)) \<or>
    (\<exists>x t'. with_fuel len p S t = Inr (x, t') \<and> pos t + k x \<le> pos t' \<and> pos t' < len S)"
    by (simp add: with_fuel_def)
qed

end

end
