(* ===== verification/Cypher_Parser.thy ===== *)
theory Cypher_Parser
  imports Cypher_Ast Token_Parser
begin

text \<open>
  The recursive-descent Cypher parser (\<open>engine/src/cypher/parser.rs\<close>), function by function.  A parser
  reads the tokens and the text of the query and passes its position \<open>i\<close> on.  The expression parsers
  take the parser of a nested expression as an argument; \<open>parse_expr\<close> ties the knot, with one step of
  fuel per nesting, and the number of tokens is always enough.  Errors are the source's messages, with
  the offset and the snippet of \<open>err\<close>.
\<close>

section \<open>Reading tokens\<close>

record source =
  toks :: "token list"
  src :: string

type_synonym 'a cparser = "(source, nat, 'a) parser"

definition clamp :: "source \<Rightarrow> nat \<Rightarrow> nat" where
  "clamp S i = min i (length (toks S) - 1)"

definition peek :: "source \<Rightarrow> nat \<Rightarrow> tok" where
  "peek S i = tok_of (toks S ! clamp S i)"

definition peek_at :: "nat \<Rightarrow> source \<Rightarrow> nat \<Rightarrow> tok" where
  "peek_at n S i = tok_of (toks S ! clamp S (i + n))"

definition bump :: "tok cparser" where
  "bump S i = Inr (tok_of (toks S ! clamp S i), if i < length (toks S) - 1 then i + 1 else i)"

definition at_kw :: "string \<Rightarrow> source \<Rightarrow> nat \<Rightarrow> bool" where
  "at_kw k S i \<longleftrightarrow> peek S i = Keyword k"

definition at_punct :: "string \<Rightarrow> source \<Rightarrow> nat \<Rightarrow> bool" where
  "at_punct p S i \<longleftrightarrow> peek S i = Punct p"

definition eat :: "(source \<Rightarrow> nat \<Rightarrow> bool) \<Rightarrow> bool cparser" where
  "eat test = look test (\<lambda>b. if b then pbind bump (\<lambda>_. ret True) else ret False)"

definition eat_kw :: "string \<Rightarrow> bool cparser" where "eat_kw k = eat (at_kw k)"
definition eat_punct :: "string \<Rightarrow> bool cparser" where "eat_punct p = eat (at_punct p)"

definition ellipsis :: string where "ellipsis = [CHR 0xE2, CHR 0x80, CHR 0xA6]"

definition err :: "string \<Rightarrow> source \<Rightarrow> nat \<Rightarrow> perror" where
  "err msg S i =
     (let pos = pos_of (toks S ! clamp S i);
          snippet = concat (take 36 (drop (pos - 12) (utf8_chars (src S))))
      in Msg (msg @ '' at offset '' @ show_nat pos @ '', near: '' @ ellipsis @ snippet @ ellipsis))"

definition fail :: "string \<Rightarrow> 'a cparser" where
  "fail msg S i = Inl (err msg S i)"

definition quoted :: "string \<Rightarrow> string" where
  "quoted s = [CHR 0x27] @ s @ [CHR 0x27]"

definition expect :: "bool cparser \<Rightarrow> string \<Rightarrow> unit cparser" where
  "expect p what = pbind p (\<lambda>b. if b then ret () else fail (''expected '' @ quoted what))"

definition expect_punct :: "string \<Rightarrow> unit cparser" where
  "expect_punct p = expect (eat_punct p) p"

definition expect_kw :: "string \<Rightarrow> unit cparser" where
  "expect_kw k = expect (eat_kw k) (to_ascii_uppercase k)"

definition expect_eof :: "unit cparser" where
  "expect_eof = look peek (\<lambda>t. if t = Eof then ret () else fail ''unexpected trailing input'')"

text \<open>A name: after a token that is none, the position steps back for the message.\<close>

definition name :: "string cparser" where
  "name S i = (case bump S i of
       Inl e \<Rightarrow> Inl e
     | Inr (t, j) \<Rightarrow> (case t of
           Ident s \<Rightarrow> Inr (s, j)
         | QuotedIdent s \<Rightarrow> Inr (s, j)
         | Keyword _ \<Rightarrow> Inr (raw_of (toks S ! clamp S i), j)
         | _ \<Rightarrow> if j = 0 then Inl Underflow else Inl (err ''expected a name'' S (j - 1))))"

definition fueled :: "(nat \<Rightarrow> 'a cparser) \<Rightarrow> 'a cparser" where
  "fueled = with_fuel (\<lambda>S. length (toks S))"

definition comma_list :: "'a cparser \<Rightarrow> 'a list cparser" where
  "comma_list p = fueled (\<lambda>n. sep_list n (eat_punct '','') p)"

definition while_punct :: "string \<Rightarrow> 'a cparser \<Rightarrow> 'a list cparser" where
  "while_punct sep p = fueled (\<lambda>n. while_eat n (eat_punct sep) p)"

definition word_at :: "nat \<Rightarrow> source \<Rightarrow> nat \<Rightarrow> string option" where
  "word_at n S i = (case peek_at n S i of
       Ident s \<Rightarrow> Some (to_ascii_lowercase s)
     | QuotedIdent s \<Rightarrow> Some (to_ascii_lowercase s)
     | Keyword s \<Rightarrow> Some s
     | _ \<Rightarrow> None)"

definition at_word :: "string \<Rightarrow> source \<Rightarrow> nat \<Rightarrow> bool" where
  "at_word w S i \<longleftrightarrow> word_at 0 S i = Some w"

definition eat_word :: "string \<Rightarrow> bool cparser" where "eat_word w = eat (at_word w)"

definition expect_word :: "string \<Rightarrow> unit cparser" where
  "expect_word w = expect (eat_word w) (to_ascii_uppercase w)"

text \<open>\<open>IF [NOT] EXISTS\<close>; the position is restored when the words do not follow.\<close>

definition eat_if_exists :: "bool \<Rightarrow> bool cparser" where
  "eat_if_exists negated S save =
     pbind (eat_word ''if'') (\<lambda>b. if \<not> b then ret False else
     pbind (if negated then eat_kw ''not'' else ret True) (\<lambda>b. if \<not> b then (\<lambda>S _. Inr (False, save)) else
     pbind (eat_kw ''exists'') (\<lambda>b. if \<not> b then (\<lambda>S _. Inr (False, save)) else ret True))) S save"

section \<open>Expressions\<close>

text \<open>A loop over left-associative operators: \<open>oper\<close> says which operator the current token is.\<close>

definition left_step :: "(tok \<Rightarrow> bin_op option) \<Rightarrow> expr cparser \<Rightarrow> expr \<Rightarrow> expr option cparser" where
  "left_step oper p lhs = look peek (\<lambda>t. case oper t of
       None \<Rightarrow> ret None
     | Some bop \<Rightarrow> pbind bump (\<lambda>_. pbind p (\<lambda>rhs. ret (Some (Binary bop lhs rhs)))))"

definition left_assoc :: "(tok \<Rightarrow> bin_op option) \<Rightarrow> expr cparser \<Rightarrow> expr cparser" where
  "left_assoc oper p = pbind p (\<lambda>lhs. fueled (\<lambda>n. chain n (left_step oper p) lhs))"

definition or_op :: "tok \<Rightarrow> bin_op option" where
  "or_op t = (if t = Keyword ''or'' then Some Or else None)"

definition xor_op :: "tok \<Rightarrow> bin_op option" where
  "xor_op t = (if t = Keyword ''xor'' then Some Xor else None)"

definition and_op :: "tok \<Rightarrow> bin_op option" where
  "and_op t = (if t = Keyword ''and'' then Some And else None)"

definition comparison_op :: "tok \<Rightarrow> bin_op option" where
  "comparison_op t =
     (if t = Punct ''='' then Some Eq
      else if t = Punct ''<>'' \<or> t = Punct ''!='' then Some Ne
      else if t = Punct ''<='' then Some Le
      else if t = Punct ''>='' then Some Ge
      else if t = Punct ''<'' then Some Lt
      else if t = Punct ''>'' then Some Gt
      else if t = Punct ''=~'' then Some Regex
      else if t = Keyword ''in'' then Some InOp
      else if t = Keyword ''starts'' then Some StartsWith
      else if t = Keyword ''ends'' then Some EndsWith
      else if t = Keyword ''contains'' then Some Contains
      else None)"

definition additive_op :: "tok \<Rightarrow> bin_op option" where
  "additive_op t = (if t = Punct ''+'' then Some Add else if t = Punct ''-'' then Some Sub
     else if t = Punct ''||'' then Some Concat else None)"

definition multiplicative_op :: "tok \<Rightarrow> bin_op option" where
  "multiplicative_op t = (if t = Punct ''*'' then Some Mul else if t = Punct ''/'' then Some Div
     else if t = Punct ''%'' then Some Mod else None)"

text \<open>The arguments of a call, a map of properties, and the forms of \<open>parse_primary\<close> that nest.\<close>

definition parse_call_args :: "expr cparser \<Rightarrow> string \<Rightarrow> expr cparser" where
  "parse_call_args e f =
     pbind (expect_punct ''('') (\<lambda>_.
     pbind (eat_kw ''distinct'') (\<lambda>distinct.
     pbind (pbind (eat_punct ''*'') (\<lambda>star.
              if star then ret [Star]
              else look (at_punct '')'') (\<lambda>none. if none then ret [] else comma_list e))) (\<lambda>args.
     pbind (expect_punct '')'') (\<lambda>_. ret (Func f args distinct)))))"

definition parse_prop_map :: "expr cparser \<Rightarrow> (string \<times> expr) list cparser" where
  "parse_prop_map e =
     pbind (expect_punct ''{'') (\<lambda>_.
     pbind (eat_punct ''}'') (\<lambda>none. if none then ret [] else
     pbind (comma_list (pbind name (\<lambda>k. pbind (expect_punct '':'') (\<lambda>_. pbind e (\<lambda>v. ret (k, v)))))) (\<lambda>out.
     pbind (expect_punct ''}'') (\<lambda>_. ret out))))"

definition map_proj_entry :: "expr cparser \<Rightarrow> map_proj_item cparser" where
  "map_proj_entry e =
     pbind (eat_punct ''.'') (\<lambda>dot.
       if dot then pbind (eat_punct ''*'') (\<lambda>star. if star then ret ItemAll else pbind name (\<lambda>p. ret (ItemProp p)))
       else pbind name (\<lambda>key. pbind (expect_punct '':'') (\<lambda>_. pbind e (\<lambda>v. ret (Entry key v)))))"

definition parse_map_projection :: "expr cparser \<Rightarrow> string \<Rightarrow> expr cparser" where
  "parse_map_projection e var =
     pbind (expect_punct ''{'') (\<lambda>_.
     pbind (look (at_punct ''}'') (\<lambda>none. if none then ret [] else comma_list (map_proj_entry e))) (\<lambda>items.
     pbind (expect_punct ''}'') (\<lambda>_. ret (MapProjection var items))))"

definition list_pred_ahead :: "source \<Rightarrow> nat \<Rightarrow> bool" where
  "list_pred_ahead S i \<longleftrightarrow> peek_at 1 S i = Punct ''('' \<and> (case peek_at 2 S i of Ident _ \<Rightarrow> True | _ \<Rightarrow> False) \<and>
     peek_at 3 S i = Keyword ''in''"

definition parse_list_pred :: "expr cparser \<Rightarrow> list_pred_kind \<Rightarrow> expr cparser" where
  "parse_list_pred e kind =
     pbind (expect_punct ''('') (\<lambda>_. pbind name (\<lambda>var. pbind (expect_kw ''in'') (\<lambda>_. pbind e (\<lambda>source.
     pbind (expect_kw ''where'') (\<lambda>_. pbind e (\<lambda>filter. pbind (expect_punct '')'') (\<lambda>_.
       ret (ListPred kind var source filter))))))))"

definition parse_case :: "expr cparser \<Rightarrow> expr cparser" where
  "parse_case e =
     pbind (expect_kw ''case'') (\<lambda>_.
     pbind (look (at_kw ''when'') (\<lambda>w. if \<not> w then pbind e (\<lambda>x. ret (Some x)) else ret None)) (\<lambda>operand.
     pbind (fueled (\<lambda>n. while_eat n (eat_kw ''when'')
              (pbind e (\<lambda>cond. pbind (expect_kw ''then'') (\<lambda>_. pbind e (\<lambda>v. ret (cond, v))))))) (\<lambda>whens.
     pbind (opt (eat_kw ''else'') e) (\<lambda>els.
     pbind (expect_kw ''end'') (\<lambda>_. ret (CaseE operand whens els))))))"

text \<open>\<open>[\<close> opens a list or a comprehension.\<close>

definition binder_ahead :: "source \<Rightarrow> nat \<Rightarrow> bool" where
  "binder_ahead S i \<longleftrightarrow> (case peek S i of Ident _ \<Rightarrow> True | _ \<Rightarrow> False) \<and> peek_at 1 S i = Keyword ''in''"

definition parse_bracket :: "expr cparser \<Rightarrow> expr cparser" where
  "parse_bracket e = look binder_ahead (\<lambda>comp.
     if comp then
       pbind name (\<lambda>var. pbind (expect_kw ''in'') (\<lambda>_. pbind e (\<lambda>source.
       pbind (opt (eat_kw ''where'') e) (\<lambda>filter. pbind (opt (eat_punct ''|'') e) (\<lambda>project.
       pbind (expect_punct '']'') (\<lambda>_. ret (ListComp var source filter project)))))))
     else
       pbind (look (at_punct '']'') (\<lambda>none. if none then ret [] else comma_list e)) (\<lambda>items.
       pbind (expect_punct '']'') (\<lambda>_. ret (ListE items))))"

text \<open>A dotted name is a function name when the run of \<open>.name\<close> arrives at \<open>(\<close> in time.\<close>

definition MAX_NAMESPACE_DEPTH :: nat where "MAX_NAMESPACE_DEPTH = 3"

fun segments_from :: "nat \<Rightarrow> nat \<Rightarrow> source \<Rightarrow> nat \<Rightarrow> nat" where
  "segments_from 0 segments S i = 0"
| "segments_from (Suc left) segments S i =
     (if peek_at (2 * segments) S i = Punct ''.'' \<and> (case peek_at (2 * segments + 1) S i of Ident _ \<Rightarrow> True | _ \<Rightarrow> False)
      then (if peek_at (2 * (segments + 1)) S i = Punct ''('' then segments + 1
            else segments_from left (segments + 1) S i)
      else 0)"

definition call_segments :: "source \<Rightarrow> nat \<Rightarrow> nat" where
  "call_segments = segments_from MAX_NAMESPACE_DEPTH 0"

fun take_segments :: "nat \<Rightarrow> string \<Rightarrow> string cparser" where
  "take_segments 0 full = ret full"
| "take_segments (Suc n) full = pbind bump (\<lambda>_. pbind name (\<lambda>s. take_segments n (full @ ''.'' @ s)))"

definition parse_named :: "expr cparser \<Rightarrow> string \<Rightarrow> expr cparser" where
  "parse_named e n =
     pbind (look call_segments (\<lambda>k. take_segments k n)) (\<lambda>full.
     look peek (\<lambda>t. if t = Punct ''('' then parse_call_args e full
       else if t = Punct ''{'' then parse_map_projection e full
       else ret (Var full)))"

definition list_pred_of :: "string \<Rightarrow> list_pred_kind" where
  "list_pred_of n = (if to_ascii_lowercase n = ''any'' then Any
     else if to_ascii_lowercase n = ''none'' then NoneOf else Single)"

definition primary_arm :: "expr cparser \<Rightarrow> bool \<Rightarrow> tok \<Rightarrow> expr cparser" where
  "primary_arm e pred t = (case t of
       TInt n \<Rightarrow> pbind bump (\<lambda>_. ret (Lit (IntL n)))
     | TFloat f \<Rightarrow> pbind bump (\<lambda>_. ret (Lit (Float f)))
     | TStr s \<Rightarrow> pbind bump (\<lambda>_. ret (Lit (Str s)))
     | TParam p \<Rightarrow> pbind bump (\<lambda>_. ret (Param p))
     | Keyword k \<Rightarrow>
         if k = ''true'' then pbind bump (\<lambda>_. ret (Lit (Bool True)))
         else if k = ''false'' then pbind bump (\<lambda>_. ret (Lit (Bool False)))
         else if k = ''null'' then pbind bump (\<lambda>_. ret (Lit Null))
         else if k = ''case'' then parse_case e
         else if k = ''count'' \<or> k = ''exists'' then
           pbind bump (\<lambda>_. look (at_punct ''('') (\<lambda>call. if call then parse_call_args e k else ret (Var k)))
         else if k = ''all'' \<and> pred then pbind bump (\<lambda>_. parse_list_pred e AllOf)
         else fail ''expected an expression''
     | Punct p \<Rightarrow>
         if p = ''('' then pbind bump (\<lambda>_. pbind e (\<lambda>x. pbind (expect_punct '')'') (\<lambda>_. ret x)))
         else if p = ''['' then pbind bump (\<lambda>_. parse_bracket e)
         else if p = ''{'' then pbind (parse_prop_map e) (\<lambda>kv. ret (MapE kv))
         else fail ''expected an expression''
     | Ident n \<Rightarrow>
         if to_ascii_lowercase n \<in> {''any'', ''none'', ''single''} \<and> pred
         then pbind bump (\<lambda>_. parse_list_pred e (list_pred_of n))
         else pbind bump (\<lambda>_. parse_named e n)
     | _ \<Rightarrow> fail ''expected an expression'')"

definition parse_primary :: "expr cparser \<Rightarrow> expr cparser" where
  "parse_primary e = look list_pred_ahead (\<lambda>pred. look peek (primary_arm e pred))"

definition postfix_step :: "expr cparser \<Rightarrow> expr \<Rightarrow> expr option cparser" where
  "postfix_step e x =
     pbind (eat_punct ''.'') (\<lambda>dot. if dot then pbind name (\<lambda>p. ret (Some (Prop x p))) else
     pbind (eat_punct ''['') (\<lambda>idx. if idx then
       pbind e (\<lambda>i. pbind (expect_punct '']'') (\<lambda>_. ret (Some (Func ''element_at'' [x, i] False))))
       else ret None))"

definition parse_postfix :: "expr cparser \<Rightarrow> expr cparser" where
  "parse_postfix e = pbind (parse_primary e) (\<lambda>x. fueled (\<lambda>n. chain n (postfix_step e) x))"

fun parse_unary :: "expr cparser \<Rightarrow> nat \<Rightarrow> expr cparser" where
  "parse_unary e 0 = (\<lambda>S i. Inl Fuel)"
| "parse_unary e (Suc n) =
     pbind (eat_punct ''-'') (\<lambda>minus. if minus then pbind (parse_unary e n) (\<lambda>x. ret (Neg x)) else
     pbind (eat_punct ''+'') (\<lambda>plus. if plus then parse_unary e n else parse_postfix e))"

fun parse_power :: "expr cparser \<Rightarrow> nat \<Rightarrow> expr cparser" where
  "parse_power e 0 = (\<lambda>S i. Inl Fuel)"
| "parse_power e (Suc n) = pbind (fueled (parse_unary e)) (\<lambda>lhs.
     pbind (eat_punct ''^'') (\<lambda>hat. if hat then pbind (parse_power e n) (\<lambda>rhs. ret (Binary Pow lhs rhs)) else ret lhs))"

definition parse_multiplicative :: "expr cparser \<Rightarrow> expr cparser" where
  "parse_multiplicative e = left_assoc multiplicative_op (fueled (parse_power e))"

definition parse_additive :: "expr cparser \<Rightarrow> expr cparser" where
  "parse_additive e = left_assoc additive_op (parse_multiplicative e)"

definition comparison_step :: "expr cparser \<Rightarrow> expr \<Rightarrow> expr option cparser" where
  "comparison_step p lhs = look peek (\<lambda>t. case comparison_op t of
       Some bop \<Rightarrow>
         pbind bump (\<lambda>_.
         pbind (if bop \<in> {StartsWith, EndsWith} then expect_kw ''with'' else ret ()) (\<lambda>_.
         pbind p (\<lambda>rhs. ret (Some (Binary bop lhs rhs)))))
     | None \<Rightarrow>
         if t = Keyword ''is'' then
           pbind bump (\<lambda>_. pbind (eat_kw ''not'') (\<lambda>negated. pbind (expect_kw ''null'') (\<lambda>_.
             ret (Some (IsNull lhs (\<not> negated))))))
         else ret None)"

definition parse_comparison :: "expr cparser \<Rightarrow> expr cparser" where
  "parse_comparison e = pbind (parse_additive e) (\<lambda>lhs. fueled (\<lambda>n. chain n (comparison_step (parse_additive e)) lhs))"

fun parse_not :: "expr cparser \<Rightarrow> nat \<Rightarrow> expr cparser" where
  "parse_not e 0 = (\<lambda>S i. Inl Fuel)"
| "parse_not e (Suc n) =
     pbind (eat_kw ''not'') (\<lambda>b. if b then pbind (parse_not e n) (\<lambda>x. ret (NotE x)) else parse_comparison e)"

definition parse_and :: "expr cparser \<Rightarrow> expr cparser" where
  "parse_and e = left_assoc and_op (fueled (parse_not e))"

definition parse_xor :: "expr cparser \<Rightarrow> expr cparser" where
  "parse_xor e = left_assoc xor_op (parse_and e)"

definition parse_or :: "expr cparser \<Rightarrow> expr cparser" where
  "parse_or e = left_assoc or_op (parse_xor e)"

fun parse_expr :: "nat \<Rightarrow> expr cparser" where
  "parse_expr 0 = (\<lambda>S i. Inl Fuel)"
| "parse_expr (Suc n) = parse_or (parse_expr n)"

definition expression :: "expr cparser" where
  "expression = fueled parse_expr"

section \<open>Patterns\<close>

definition MAX_VAR_LENGTH :: u32 where "MAX_VAR_LENGTH = 8"

definition at_name :: "source \<Rightarrow> nat \<Rightarrow> bool" where
  "at_name S i \<longleftrightarrow> (case peek S i of Ident _ \<Rightarrow> True | QuotedIdent _ \<Rightarrow> True | _ \<Rightarrow> False)"

definition optional_name :: "string option cparser" where
  "optional_name = look at_name (\<lambda>b. if b then pbind name (\<lambda>v. ret (Some v)) else ret None)"

definition optional_props :: "expr cparser \<Rightarrow> (string \<times> expr) list cparser" where
  "optional_props e = look (at_punct ''{'') (\<lambda>b. if b then parse_prop_map e else ret [])"

text \<open>\<open>:A:B|C\<close>: the labels of every group, in order.\<close>

definition parse_labels :: "string list cparser" where
  "parse_labels = pbind (while_punct '':'' (pbind name (\<lambda>l. pbind (while_punct ''|'' name) (\<lambda>ls. ret (l # ls)))))
     (\<lambda>groups. ret (concat groups))"

definition parse_node_pat :: "expr cparser \<Rightarrow> node_pat cparser" where
  "parse_node_pat e =
     pbind (expect_punct ''('') (\<lambda>_. pbind optional_name (\<lambda>var. pbind parse_labels (\<lambda>labels.
     pbind (optional_props e) (\<lambda>props. pbind (expect_punct '')'') (\<lambda>_.
       ret \<lparr>node_var = var, labels = labels, node_props = props\<rparr>)))))"

definition parse_types :: "string list cparser" where
  "parse_types = pbind (eat_punct '':'') (\<lambda>b. if \<not> b then ret [] else
     pbind name (\<lambda>t. pbind (while_punct ''|'' (pbind (eat_punct '':'') (\<lambda>_. name))) (\<lambda>ts. ret (t # ts))))"

definition int_or :: "u32 \<Rightarrow> u32 cparser" where
  "int_or dflt = look peek (\<lambda>t. case t of TInt n \<Rightarrow> pbind bump (\<lambda>_. ret (ucast n)) | _ \<Rightarrow> ret dflt)"

text \<open>\<open>*\<close>, \<open>*n\<close>, \<open>*n..\<close>, \<open>*n..m\<close>; without \<open>..\<close> the upper end is the lower one.\<close>

definition parse_range :: "(u32 \<times> u32) option cparser" where
  "parse_range = pbind (eat_punct ''*'') (\<lambda>b. if \<not> b then ret None else
     pbind (int_or 1) (\<lambda>lo.
     pbind (pbind (eat_punct ''..'') (\<lambda>dots. if dots then int_or MAX_VAR_LENGTH else ret lo)) (\<lambda>hi.
       ret (Some (lo, max hi lo)))))"

definition parse_rel_body :: "expr cparser \<Rightarrow> rel_pat cparser" where
  "parse_rel_body e = pbind (eat_punct ''['') (\<lambda>b.
     if \<not> b then ret \<lparr>rel_var = None, rel_types = [], rel_dir = Both, rel_props = [], rel_range = None\<rparr>
     else pbind optional_name (\<lambda>var. pbind parse_types (\<lambda>types. pbind parse_range (\<lambda>range.
       pbind (optional_props e) (\<lambda>props. pbind (expect_punct '']'') (\<lambda>_.
         ret \<lparr>rel_var = var, rel_types = types, rel_dir = Both, rel_props = props, rel_range = range\<rparr>))))))"

definition parse_rel_pat :: "expr cparser \<Rightarrow> rel_pat cparser" where
  "parse_rel_pat e =
     pbind (pbind (eat_punct ''<-'') (\<lambda>b. if b then ret In else
            pbind (eat_punct ''-'') (\<lambda>b. if b then ret Both else fail ''expected a relationship pattern''))) (\<lambda>dir.
     pbind (parse_rel_body e) (\<lambda>r.
     pbind (eat_punct ''->'') (\<lambda>b. if b then ret (r\<lparr>rel_dir := if dir = In then Both else Out\<rparr>) else
     pbind (eat_punct ''-'') (\<lambda>b. if b then ret (r\<lparr>rel_dir := if dir \<noteq> In then Both else dir\<rparr>) else
       fail (''expected '' @ quoted ''->'' @ '' or '' @ quoted ''-'' @ '' to close the relationship pattern'')))))"

definition path_ahead :: "source \<Rightarrow> nat \<Rightarrow> bool" where
  "path_ahead S i \<longleftrightarrow> (case peek S i of Ident _ \<Rightarrow> True | _ \<Rightarrow> False) \<and> peek_at 1 S i = Punct ''=''"

definition at_rel :: "source \<Rightarrow> nat \<Rightarrow> bool" where
  "at_rel S i \<longleftrightarrow> at_punct ''-'' S i \<or> at_punct ''<-'' S i \<or> at_punct ''<'' S i"

definition parse_pattern :: "expr cparser \<Rightarrow> pattern cparser" where
  "parse_pattern e =
     pbind (look path_ahead (\<lambda>b. if b then pbind name (\<lambda>v. pbind bump (\<lambda>_. ret (Some v))) else ret None)) (\<lambda>path.
     pbind (parse_node_pat e) (\<lambda>first.
     pbind (fueled (\<lambda>n. chain n (\<lambda>elems. look at_rel (\<lambda>b. if b
         then pbind (parse_rel_pat e) (\<lambda>r. pbind (parse_node_pat e) (\<lambda>nd. ret (Some (elems @ [Rel r, Node nd]))))
         else ret None)) [Node first])) (\<lambda>elems.
       ret \<lparr>path_var = path, elems = elems\<rparr>)))"

definition patterns :: "expr cparser \<Rightarrow> pattern list cparser" where
  "patterns e = comma_list (parse_pattern e)"

section \<open>Index and constraint statements\<close>

definition create_is_ddl :: "source \<Rightarrow> nat \<Rightarrow> bool" where
  "create_is_ddl S i = (case word_at 1 S i of
       None \<Rightarrow> False
     | Some w \<Rightarrow>
         if w \<in> {''index'', ''constraint'', ''lookup''} then True
         else if w \<in> {''vector'', ''fulltext'', ''text'', ''point'', ''range''} then word_at 2 S i = Some ''index''
         else False)"

definition first_rel_type :: "pat_elem list \<Rightarrow> string option" where
  "first_rel_type es = (case concat (map (\<lambda>el. case el of Rel r \<Rightarrow> take 1 (rel_types r) | Node _ \<Rightarrow> []) es) of
       [] \<Rightarrow> None | t # _ \<Rightarrow> Some t)"

definition empty_node_ahead :: "source \<Rightarrow> nat \<Rightarrow> bool" where
  "empty_node_ahead S i \<longleftrightarrow> at_punct ''('' S i \<and> peek_at 1 S i = Punct '')''"

definition parse_ddl_target :: "expr cparser \<Rightarrow> (bool \<times> string) cparser" where
  "parse_ddl_target e = look empty_node_ahead (\<lambda>b.
     if b then pbind (parse_pattern e) (\<lambda>pat. case first_rel_type (elems pat) of
         Some t \<Rightarrow> ret (True, t)
       | None \<Rightarrow> fail ''expected a relationship type in the index target'')
     else pbind (expect_punct ''('') (\<lambda>_. pbind name (\<lambda>_. pbind (expect_punct '':'') (\<lambda>_. pbind name (\<lambda>label.
       pbind (expect_punct '')'') (\<lambda>_. ret (False, label)))))))"

definition ddl_prop :: "string cparser" where
  "ddl_prop = pbind name (\<lambda>_. pbind (expect_punct ''.'') (\<lambda>_. name))"

definition parse_ddl_props :: "string list cparser" where
  "parse_ddl_props =
     pbind (eat_word ''each'') (\<lambda>each. look (at_punct ''['') (\<lambda>bracket.
     pbind (if each \<or> bracket then pbind (expect_punct ''['') (\<lambda>_. ret (Some '']''))
            else pbind (eat_punct ''('') (\<lambda>b. ret (if b then Some '')'' else None))) (\<lambda>close.
     pbind (case close of None \<Rightarrow> pbind ddl_prop (\<lambda>p. ret [p]) | Some _ \<Rightarrow> comma_list ddl_prop) (\<lambda>props.
     pbind (case close of None \<Rightarrow> ret () | Some c \<Rightarrow> expect_punct c) (\<lambda>_. ret props)))))"

fun flatten_value :: "string \<Rightarrow> expr \<Rightarrow> (string \<times> expr) list" where
  "flatten_value k (MapE inner) = concat (map (\<lambda>(k, v). flatten_value k v) inner)"
| "flatten_value k v = [(to_ascii_lowercase k, v)]"

definition parse_ddl_options :: "expr cparser \<Rightarrow> (string \<times> expr) list cparser" where
  "parse_ddl_options e = pbind (parse_prop_map e) (\<lambda>kv. ret (concat (map (\<lambda>(k, v). flatten_value k v) kv)))"

text \<open>\<open>[name] [IF NOT EXISTS]\<close> before \<open>FOR\<close>.\<close>

definition ddl_name :: "(string option \<times> bool) cparser" where
  "ddl_name = pbind (eat_if_exists True) (\<lambda>early. look (at_word ''for'') (\<lambda>for.
     if \<not> for \<and> \<not> early then pbind name (\<lambda>n. pbind (eat_if_exists True) (\<lambda>late. ret (Some n, late)))
     else ret (None, early)))"

definition constraint_kind :: "constraint_kind cparser" where
  "constraint_kind =
     pbind (eat_word ''unique'') (\<lambda>b. if b then ret Unique else
     pbind (eat_kw ''not'') (\<lambda>b. if b then pbind (expect_kw ''null'') (\<lambda>_. ret NotNull) else
     pbind (pbind (eat_word ''node'') (\<lambda>b. if b then ret True else eat_word ''relationship'')) (\<lambda>b.
       if b then pbind (expect_word ''key'') (\<lambda>_. ret NodeKey)
       else fail ''expected UNIQUE, NOT NULL or NODE KEY'')))"

definition parse_constraint_body :: "expr cparser \<Rightarrow> clause cparser" where
  "parse_constraint_body e =
     pbind ddl_name (\<lambda>(nm, if_not_exists).
     pbind (expect_word ''for'') (\<lambda>_. pbind (parse_ddl_target e) (\<lambda>(_, label).
     pbind (pbind (eat_word ''require'') (\<lambda>b. if b then ret () else expect_word ''assert'')) (\<lambda>_.
     pbind parse_ddl_props (\<lambda>props. pbind (expect_kw ''is'') (\<lambda>_. pbind constraint_kind (\<lambda>kind.
       ret (Ddl (CreateConstraint nm label props kind if_not_exists)))))))))"

definition ddl_index_kind :: "index_kind cparser" where
  "ddl_index_kind =
     pbind (eat_word ''vector'') (\<lambda>b. if b then ret Vector else
     pbind (eat_word ''fulltext'') (\<lambda>b. if b then ret Fulltext else
     pbind (eat_word ''text'') (\<lambda>b. if b then ret Btree else
     pbind (eat_word ''point'') (\<lambda>b. if b then ret Btree else
     pbind (eat_word ''range'') (\<lambda>_. ret Btree)))))"

definition parse_ddl_create :: "expr cparser \<Rightarrow> clause cparser" where
  "parse_ddl_create e =
     pbind (expect_kw ''create'') (\<lambda>_. pbind ddl_index_kind (\<lambda>kind.
     pbind (eat_word ''constraint'') (\<lambda>b. if b then parse_constraint_body e else
     pbind (eat_word ''lookup'') (\<lambda>_. pbind (expect_word ''index'') (\<lambda>_.
     pbind ddl_name (\<lambda>(nm, if_not_exists).
     pbind (expect_word ''for'') (\<lambda>_. pbind (parse_ddl_target e) (\<lambda>(on_relationship, label).
     pbind (expect_kw ''on'') (\<lambda>_. pbind parse_ddl_props (\<lambda>props.
     pbind (pbind (eat_word ''options'') (\<lambda>b. if b then parse_ddl_options e else ret [])) (\<lambda>options.
       ret (Ddl (CreateIndex nm kind on_relationship label props options if_not_exists)))))))))))))"

definition parse_drop :: "clause cparser" where
  "parse_drop =
     pbind (expect_kw ''drop'') (\<lambda>_.
     pbind (pbind (eat_word ''constraint'') (\<lambda>b. if b then ret True
            else pbind (expect_word ''index'') (\<lambda>_. ret False))) (\<lambda>con.
     pbind name (\<lambda>n. pbind (eat_if_exists False) (\<lambda>if_exists. ret (Ddl (Drop n if_exists con))))))"

section \<open>Clauses\<close>

definition parse_match_body :: "expr cparser \<Rightarrow> bool \<Rightarrow> clause cparser" where
  "parse_match_body e optional =
     pbind (patterns e) (\<lambda>ps. pbind (opt (eat_kw ''where'') e) (\<lambda>cond. ret (Match ps optional cond)))"

definition parse_match :: "expr cparser \<Rightarrow> bool \<Rightarrow> clause cparser" where
  "parse_match e optional = pbind (expect_kw ''match'') (\<lambda>_. parse_match_body e optional)"

text \<open>\<open>OPTIONAL MATCH\<close>: the source steps back over \<open>MATCH\<close> and consumes it again.\<close>

definition step_back :: "unit cparser" where
  "step_back S i = (if i = 0 then Inl Underflow else Inr ((), i - 1))"

definition parse_optional :: "expr cparser \<Rightarrow> clause cparser" where
  "parse_optional e = pbind bump (\<lambda>_. pbind (expect_kw ''match'') (\<lambda>_. pbind step_back (\<lambda>_. pbind bump (\<lambda>_.
     parse_match_body e True))))"

definition parse_unwind :: "expr cparser \<Rightarrow> clause cparser" where
  "parse_unwind e =
     pbind (expect_kw ''unwind'') (\<lambda>_. pbind e (\<lambda>x. pbind (expect_kw ''as'') (\<lambda>_. pbind name (\<lambda>alias. ret (Unwind x alias)))))"

definition return_item :: "expr cparser \<Rightarrow> return_item cparser" where
  "return_item e =
     pbind (pbind (eat_punct ''*'') (\<lambda>star. if star then ret Star else e)) (\<lambda>x.
     pbind (opt (eat_kw ''as'') name) (\<lambda>alias. ret \<lparr>item_expr = x, item_alias = alias\<rparr>))"

definition order_item :: "expr cparser \<Rightarrow> order_item cparser" where
  "order_item e = pbind e (\<lambda>x. pbind (eat_kw ''desc'') (\<lambda>desc.
     if desc then ret \<lparr>order_expr = x, order_desc = True\<rparr>
     else pbind (eat_kw ''asc'') (\<lambda>_. ret \<lparr>order_expr = x, order_desc = False\<rparr>)))"

definition order_by :: "expr cparser \<Rightarrow> order_item list cparser" where
  "order_by e = pbind (eat_kw ''order'') (\<lambda>b. if b then pbind (expect_kw ''by'') (\<lambda>_. comma_list (order_item e)) else ret [])"

definition parse_projection :: "expr cparser \<Rightarrow> projection cparser" where
  "parse_projection e =
     pbind (eat_kw ''distinct'') (\<lambda>dedup. pbind (comma_list (return_item e)) (\<lambda>items.
     pbind (order_by e) (\<lambda>order.
     pbind (opt (eat_kw ''skip'') e) (\<lambda>skip. pbind (opt (eat_kw ''limit'') e) (\<lambda>limit.
       ret \<lparr>items = items, dedup = dedup, order = order, skip = skip, limit = limit\<rparr>)))))"

definition parse_with :: "expr cparser \<Rightarrow> clause cparser" where
  "parse_with e = pbind (expect_kw ''with'') (\<lambda>_. pbind (parse_projection e) (\<lambda>proj.
     pbind (opt (eat_kw ''where'') e) (\<lambda>cond. ret (With proj cond))))"

definition parse_return :: "expr cparser \<Rightarrow> clause cparser" where
  "parse_return e = pbind (expect_kw ''return'') (\<lambda>_. pbind (parse_projection e) (\<lambda>proj. ret (Return proj)))"

definition parse_call :: "expr cparser \<Rightarrow> clause cparser" where
  "parse_call e =
     pbind (expect_kw ''call'') (\<lambda>_. pbind name (\<lambda>first. pbind (while_punct ''.'' name) (\<lambda>more.
     pbind (pbind (eat_punct ''('') (\<lambda>b. if \<not> b then ret [] else
       pbind (look (at_punct '')'') (\<lambda>none. if none then ret [] else comma_list e)) (\<lambda>args.
       pbind (expect_punct '')'') (\<lambda>_. ret args)))) (\<lambda>args.
     pbind (pbind (eat_kw ''yield'') (\<lambda>b. if \<not> b then ret [] else
       comma_list (pbind name (\<lambda>col. pbind (eat_kw ''as'') (\<lambda>as.
         if as then pbind name (\<lambda>alias. ret (col, alias)) else ret (col, col)))))) (\<lambda>yields.
       ret (Call (join ''.'' (first # more)) args yields))))))"

definition parse_create :: "expr cparser \<Rightarrow> clause cparser" where
  "parse_create e = look create_is_ddl (\<lambda>b. if b then parse_ddl_create e else
     pbind (expect_kw ''create'') (\<lambda>_. pbind (patterns e) (\<lambda>ps. ret (Create ps))))"

text \<open>\<open>var:A:B\<close>; the caller has seen the first colon.\<close>

definition set_labels :: "string \<Rightarrow> set_op cparser" where
  "set_labels var = pbind (while_punct '':'' name) (\<lambda>ls. ret (SetLabel var ls))"

definition set_item :: "expr cparser \<Rightarrow> set_op cparser" where
  "set_item e = pbind name (\<lambda>var.
     pbind (eat_punct ''.'') (\<lambda>dot. if dot then pbind name (\<lambda>prop. pbind (expect_punct ''='') (\<lambda>_. pbind e (\<lambda>v. ret (SetProp var prop v)))) else
     look (at_punct '':'') (\<lambda>colon. if colon then set_labels var else
     pbind (eat_punct ''+='') (\<lambda>b. if b then pbind e (\<lambda>v. ret (SetMap var v True)) else
     pbind (eat_punct ''='') (\<lambda>b. if b then pbind e (\<lambda>v. ret (SetMap var v False)) else
       fail (''SET expects `var.prop = '' @ ellipsis @ ''`, `var = {'' @ ellipsis @ ''}`, `var += {'' @ ellipsis @ ''}` or `var:Label`''))))))"

definition parse_set_items :: "expr cparser \<Rightarrow> set_op list cparser" where
  "parse_set_items e = comma_list (set_item e)"

definition parse_set :: "expr cparser \<Rightarrow> clause cparser" where
  "parse_set e = pbind (expect_kw ''set'') (\<lambda>_. pbind (parse_set_items e) (\<lambda>xs. ret (SetC xs)))"

definition remove_item :: "set_op cparser" where
  "remove_item = pbind name (\<lambda>var.
     pbind (eat_punct ''.'') (\<lambda>dot. if dot then pbind name (\<lambda>prop. ret (SetProp var prop (Lit Null))) else
     look (at_punct '':'') (\<lambda>colon. if colon then set_labels var else fail ''REMOVE expects a property or a label'')))"

definition parse_remove :: "clause cparser" where
  "parse_remove = pbind (expect_kw ''remove'') (\<lambda>_. pbind (comma_list remove_item) (\<lambda>xs. ret (Remove xs)))"

text \<open>The actions of \<open>MERGE\<close>: what is set on creation, and what on a match.\<close>

definition merge_action :: "expr cparser \<Rightarrow> set_op list \<times> set_op list \<Rightarrow> (set_op list \<times> set_op list) option cparser" where
  "merge_action e acc = (case acc of (on_create, on_match) \<Rightarrow>
     pbind (eat_kw ''on'') (\<lambda>on. if \<not> on then ret None else
     pbind (eat_kw ''create'') (\<lambda>b. if b then
       pbind (expect_kw ''set'') (\<lambda>_. pbind (parse_set_items e) (\<lambda>xs. ret (Some (on_create @ xs, on_match)))) else
     pbind (eat_kw ''match'') (\<lambda>b. if b then
       pbind (expect_kw ''set'') (\<lambda>_. pbind (parse_set_items e) (\<lambda>xs. ret (Some (on_create, on_match @ xs))))
     else fail ''expected ON CREATE or ON MATCH''))))"

definition parse_merge :: "expr cparser \<Rightarrow> clause cparser" where
  "parse_merge e = pbind (expect_kw ''merge'') (\<lambda>_. pbind (parse_pattern e) (\<lambda>pat.
     pbind (fueled (\<lambda>n. chain n (merge_action e) ([], []))) (\<lambda>(on_create, on_match). ret (Merge pat on_create on_match))))"

definition parse_delete :: "expr cparser \<Rightarrow> clause cparser" where
  "parse_delete e = pbind (eat_kw ''detach'') (\<lambda>detach. pbind (expect_kw ''delete'') (\<lambda>_.
     pbind (comma_list e) (\<lambda>xs. ret (Delete xs detach))))"

section \<open>Queries\<close>

text \<open>The next clause, or none at \<open>UNION\<close> and at the end.\<close>

definition parse_clause :: "expr cparser \<Rightarrow> clause option cparser" where
  "parse_clause e = look peek (\<lambda>t. case t of
       Keyword k \<Rightarrow>
         if k = ''union'' then ret None
         else if k = ''match'' then pbind (parse_match e False) (\<lambda>c. ret (Some c))
         else if k = ''optional'' then pbind (parse_optional e) (\<lambda>c. ret (Some c))
         else if k = ''unwind'' then pbind (parse_unwind e) (\<lambda>c. ret (Some c))
         else if k = ''with'' then pbind (parse_with e) (\<lambda>c. ret (Some c))
         else if k = ''return'' then pbind (parse_return e) (\<lambda>c. ret (Some c))
         else if k = ''create'' then pbind (parse_create e) (\<lambda>c. ret (Some c))
         else if k = ''merge'' then pbind (parse_merge e) (\<lambda>c. ret (Some c))
         else if k = ''set'' then pbind (parse_set e) (\<lambda>c. ret (Some c))
         else if k = ''remove'' then pbind parse_remove (\<lambda>c. ret (Some c))
         else if k = ''delete'' \<or> k = ''detach'' then pbind (parse_delete e) (\<lambda>c. ret (Some c))
         else if k = ''call'' then pbind (parse_call e) (\<lambda>c. ret (Some c))
         else if k = ''drop'' then pbind parse_drop (\<lambda>c. ret (Some c))
         else fail (''unexpected clause '' @ quoted (to_ascii_uppercase k))
     | Eof \<Rightarrow> ret None
     | _ \<Rightarrow> fail ''expected a clause keyword'')"

definition parse_clauses :: "expr cparser \<Rightarrow> clause list cparser" where
  "parse_clauses e = fueled (\<lambda>n. chain n (\<lambda>cs. pbind (parse_clause e) (\<lambda>r.
     ret (case r of None \<Rightarrow> None | Some c \<Rightarrow> Some (cs @ [c])))) [])"

fun parse_query :: "nat \<Rightarrow> query cparser" where
  "parse_query 0 = (\<lambda>S i. Inl Fuel)"
| "parse_query (Suc n) = pbind (parse_clauses expression) (\<lambda>cs.
     if cs = [] then (\<lambda>S i. Inl (Msg ''empty query'')) else
     pbind (eat_kw ''union'') (\<lambda>u. if \<not> u then ret (Query cs None) else
     pbind (eat_kw ''all'') (\<lambda>every. pbind (parse_query n) (\<lambda>q. ret (Query cs (Some (every, q)))))))"

definition parse :: "unicode \<Rightarrow> string \<Rightarrow> perror + query" where
  "parse u text = (case tokenize u text of
       Inl e \<Rightarrow> Inl (Msg e)
     | Inr ts \<Rightarrow> rbind (pbind (fueled parse_query) (\<lambda>q. pbind expect_eof (\<lambda>_. ret q)) \<lparr>toks = ts, src = text\<rparr> 0)
         (\<lambda>(q, _). Inr q))"

section \<open>Every parser ends\<close>

text \<open>What the lexer gives: at least one token before the end of input, which is the last one only.\<close>

definition well_formed :: "source \<Rightarrow> bool" where
  "well_formed S \<longleftrightarrow> 1 < length (toks S) \<and>
     (\<forall>i < length (toks S). tok_of (toks S ! i) = Eof \<longleftrightarrow> i = length (toks S) - 1)"

interpretation cy: token_stream "\<lambda>S. length (toks S)" "\<lambda>i. i" well_formed peek bump Eof
  by unfold_locales (auto simp: well_formed_def peek_def bump_def clamp_def)

named_theorems total_intros

lemma fueled_total: "(\<And>n i. i \<le> m \<Longrightarrow> i \<le> n \<Longrightarrow> cy.total l i k (p n)) \<Longrightarrow> cy.total l m k (fueled p)"
  unfolding fueled_def by (rule cy.total_fuel)

lemma fail_total [total_intros]: "cy.total l m k (fail msg)"
  by (rule cy.total_msg) (simp add: fail_def err_def Let_def)

lemmas [total_intros] = cy.total_ret cy.total_if cy.total_ask

lemma consumed: "cy.total False m (\<lambda>_. 1) p \<Longrightarrow> (\<And>x. cy.total False (m - 1) (\<lambda>y. k y - 1) (f x)) \<Longrightarrow> cy.total l m k (pbind p f)"
proof (rule cy.total_bind [where j = "\<lambda>_. 1"])
  assume "cy.total False m (\<lambda>_. 1) p"
  then show "cy.total l m (\<lambda>_. 1) p" by (rule cy.total_weaken) auto
qed

lemma kept: "cy.total l m (\<lambda>_. 0) p \<Longrightarrow> (\<And>x. cy.total False m k (f x)) \<Longrightarrow> cy.total l m k (pbind p f)"
  by (rule cy.total_bind [where j = "\<lambda>_. 0"]) simp_all

lemma at_the_end: "cy.total False m (\<lambda>_. 1) p \<Longrightarrow> (\<And>x. k x \<le> 1) \<Longrightarrow> cy.total l m k p"
  by (rule cy.total_weaken) auto

text \<open>A branch inside a sequence is a branch over the whole of it.\<close>

lemma look_sequence [total_intros]: "cy.total l m k (look q (\<lambda>x. pbind (f x) g)) \<Longrightarrow> cy.total l m k (pbind (look q f) g)"
  by (simp add: pbind_def look_def [abs_def] cy.total_def)

lemma bind_sequence [total_intros]: "cy.total l m k (pbind p (\<lambda>x. pbind (f x) g)) \<Longrightarrow> cy.total l m k (pbind (pbind p f) g)"
  by (simp add: pbind_assoc)

lemma if_sequence [total_intros]:
  "(b \<Longrightarrow> cy.total l m k (pbind p g)) \<Longrightarrow> (\<not> b \<Longrightarrow> cy.total l m k (pbind q g)) \<Longrightarrow> cy.total l m k (pbind (if b then p else q) g)"
  by simp

lemma ret_sequence [total_intros]: "cy.total l m k (f x) \<Longrightarrow> cy.total l m k (pbind (ret x) f)"
  by simp

lemma fail_sequence [total_intros]: "cy.total l m k (pbind (fail msg) f)"
  by (rule cy.total_msg) (simp add: fail_def err_def Let_def pbind_def)

text \<open>The primitives.\<close>

lemma eat_total: "(\<And>S i. test S i \<Longrightarrow> peek S i \<noteq> Eof) \<Longrightarrow> cy.total l m (\<lambda>b. if b then 1 else 0) (eat test)"
proof (rule cy.totalI)
  fix S i
  assume t: "\<And>S i. test S i \<Longrightarrow> peek S i \<noteq> Eof" and S: "well_formed S" "i < length (toks S)"
  show "(\<exists>msg. eat test S i = Inl (Msg msg)) \<or>
     (\<exists>x t'. eat test S i = Inr (x, t') \<and> i + (if x then 1 else 0) \<le> t' \<and> t' < length (toks S))"
  proof (cases "test S i")
    case True
    then obtain j where "bump S i = Inr (peek S i, j)" "j = Suc i" "j < length (toks S)"
      using cy.bump_live [OF S t] by blast
    with True have "eat test S i = Inr (True, j)" by (simp add: eat_def look_def pbind_def ret_def)
    moreover have "i + (if True then 1 else 0) \<le> j \<and> j < length (toks S)"
      using \<open>j = Suc i\<close> \<open>j < length (toks S)\<close> by simp
    ultimately show ?thesis by blast
  next
    case False
    then have "eat test S i = Inr (False, i)" by (simp add: eat_def look_def ret_def)
    moreover have "i + (if False then 1 else 0) \<le> i \<and> i < length (toks S)" using S(2) by simp
    ultimately show ?thesis by blast
  qed
qed

lemma eat_bind:
  assumes "\<And>S i. test S i \<Longrightarrow> peek S i \<noteq> Eof" "cy.total False (m - 1) (\<lambda>y. k y - 1) (f True)" "cy.total False m k (f False)"
  shows "cy.total l m k (pbind (eat test) f)"
proof (rule cy.total_bind)
  show "cy.total l m (\<lambda>b. if b then 1 else 0) (eat test)" using assms(1) by (rule eat_total)
  fix b show "cy.total False (m - (if b then 1 else 0)) (\<lambda>y. k y - (if b then 1 else 0)) (f b)"
    using assms(2,3) by (cases b) simp_all
qed

lemma at_live: "at_kw w S i \<Longrightarrow> peek S i \<noteq> Eof" "at_punct w S i \<Longrightarrow> peek S i \<noteq> Eof" "at_word w S i \<Longrightarrow> peek S i \<noteq> Eof"
  by (auto simp: at_kw_def at_punct_def at_word_def word_at_def peek_at_def peek_def)

lemmas eat_defs = eat_kw_def eat_punct_def eat_word_def

lemma eats_total:
  "cy.total l m (\<lambda>b. if b then 1 else 0) (eat_kw w)"
  "cy.total l m (\<lambda>b. if b then 1 else 0) (eat_punct w)"
  "cy.total l m (\<lambda>b. if b then 1 else 0) (eat_word w)"
  unfolding eat_defs by (rule eat_total; erule at_live)+

lemma eats_bind [total_intros]:
  assumes "cy.total False (m - 1) (\<lambda>y. k y - 1) (f True)" "cy.total False m k (f False)"
  shows "cy.total l m k (pbind (eat_kw w) f)" "cy.total l m k (pbind (eat_punct w) f)" "cy.total l m k (pbind (eat_word w) f)"
  unfolding eat_defs using assms by (auto intro!: eat_bind dest: at_live)

lemma eats_last [total_intros]:
  assumes "k True \<le> 1" "k False = 0"
  shows "cy.total l m k (eat_kw w)" "cy.total l m k (eat_punct w)" "cy.total l m k (eat_word w)"
  using assms by (auto intro!: cy.total_weaken [OF eats_total(1)] cy.total_weaken [OF eats_total(2)] cy.total_weaken [OF eats_total(3)])

lemma expects_total:
  "cy.total False m (\<lambda>_. 1) (expect_kw w)" "cy.total False m (\<lambda>_. 1) (expect_punct w)" "cy.total False m (\<lambda>_. 1) (expect_word w)"
  unfolding expect_kw_def expect_punct_def expect_word_def expect_def by (simp_all add: total_intros)

lemma name_total: "cy.total False m (\<lambda>_. 1) name"
proof (rule cy.totalI)
  fix S i
  assume S: "well_formed S" "i < length (toks S)"
  show "(\<exists>msg. name S i = Inl (Msg msg)) \<or> (\<exists>x t'. name S i = Inr (x, t') \<and> i + 1 \<le> t' \<and> t' < length (toks S))"
  proof (cases "peek S i = Eof")
    case True
    then have "i = length (toks S) - 1" using S by (auto simp: peek_def clamp_def well_formed_def)
    with S True show ?thesis by (auto simp: name_def bump_def peek_def err_def Let_def well_formed_def)
  next
    case False
    from cy.bump_live [OF S this] have "bump S i = Inr (peek S i, Suc i)" "Suc i < length (toks S)" by auto
    then show ?thesis by (cases "peek S i") (simp_all add: name_def err_def Let_def)
  qed
qed

lemmas primitives_last [total_intros] = expects_total [THEN at_the_end] name_total [THEN at_the_end]
lemmas primitives_bind [total_intros] = expects_total [THEN consumed] name_total [THEN consumed]

lemma bump_bind [total_intros]:
  "cy.total False (m - 1) (\<lambda>y. k y - 1) p \<Longrightarrow> cy.total True m k (pbind bump (\<lambda>_. p))"
  by (rule cy.total_bind [OF cy.total_bump_live])

text \<open>Loops.\<close>

lemma while_total [total_intros]:
  assumes "\<And>i. i \<le> m \<Longrightarrow> cy.total False i (\<lambda>b. if b then 1 else 0) c" "\<And>i. i < m \<Longrightarrow> cy.total False i (\<lambda>_. 0) p"
    and "k [] = 0" "\<And>x xs. k (x # xs) \<le> 1"
  shows "cy.total l m k (fueled (\<lambda>n. while_eat n c p))"
  by (rule fueled_total, rule cy.total_while) (use assms in auto)

lemma while_bind [total_intros]:
  assumes "\<And>i. i \<le> m \<Longrightarrow> cy.total False i (\<lambda>b. if b then 1 else 0) c" "\<And>i. i < m \<Longrightarrow> cy.total False i (\<lambda>_. 0) p"
    and "\<And>x. cy.total False m k (f x)"
  shows "cy.total l m k (pbind (fueled (\<lambda>n. while_eat n c p)) f)"
  by (rule kept, rule while_total) (use assms in auto)

lemma chain_total:
  assumes "\<And>a i. i \<le> m \<Longrightarrow> cy.total False i (\<lambda>r. case r of None \<Rightarrow> 0 | Some _ \<Rightarrow> 1) (step a)" "\<And>x. k x = 0"
  shows "cy.total l m k (fueled (\<lambda>n. chain n step a))"
  by (rule fueled_total, rule cy.total_chain) (use assms in auto)

lemma chain_bind [total_intros]:
  assumes "\<And>a i. i \<le> m \<Longrightarrow> cy.total False i (\<lambda>r. case r of None \<Rightarrow> 0 | Some _ \<Rightarrow> 1) (step a)" "\<And>x. cy.total False m k (f x)"
  shows "cy.total l m k (pbind (fueled (\<lambda>n. chain n step a)) f)"
  by (rule kept, rule chain_total) (use assms in auto)

lemma while_punct_total [total_intros]:
  assumes "\<And>i. i < m \<Longrightarrow> cy.total False i (\<lambda>_. 0) p" "k [] = 0" "\<And>x xs. k (x # xs) \<le> 1"
  shows "cy.total l m k (while_punct sep p)"
  unfolding while_punct_def by (rule while_total) (use assms eats_total in auto)

lemma while_punct_bind [total_intros]:
  assumes "\<And>i. i < m \<Longrightarrow> cy.total False i (\<lambda>_. 0) p" "\<And>x. cy.total False m k (f x)"
  shows "cy.total l m k (pbind (while_punct sep p) f)"
  by (rule kept, rule while_punct_total) (use assms in auto)

lemma comma_total:
  assumes "\<And>i. i \<le> m \<Longrightarrow> cy.total False i (\<lambda>_. 1) p"
  shows "cy.total False m (\<lambda>_. 1) (comma_list p)"
  unfolding comma_list_def
proof (rule fueled_total)
  fix n i assume i: "i \<le> m" "i \<le> n"
  show "cy.total False i (\<lambda>_. 1) (sep_list n (eat_punct '','') p)"
    unfolding sep_list_def
  proof (rule consumed [OF assms [OF i(1)]], rule kept)
    show "cy.total False (i - 1) (\<lambda>_. 0) (while_eat n (eat_punct '','') p)"
      using i by (intro cy.total_while eats_total cy.total_weaken [OF assms]) auto
  qed (simp add: cy.total_ret)
qed

lemma comma_last [total_intros]:
  "(\<And>i. i \<le> m \<Longrightarrow> cy.total False i (\<lambda>_. 1) p) \<Longrightarrow> (\<And>x. k x \<le> 1) \<Longrightarrow> cy.total l m k (comma_list p)"
  using at_the_end [OF comma_total] .

lemma comma_bind [total_intros]:
  "(\<And>i. i \<le> m \<Longrightarrow> cy.total False i (\<lambda>_. 1) p) \<Longrightarrow> (\<And>x. cy.total False (m - 1) (\<lambda>y. k y - 1) (f x)) \<Longrightarrow>
    cy.total l m k (pbind (comma_list p) f)"
  using consumed [OF comma_total] .

section \<open>The expression parsers end when the nested one does\<close>

text \<open>What the parsers of expressions ask of the parser of a nested expression.\<close>

locale nested =
  fixes e :: "expr cparser" and M :: nat
  assumes nested_total: "m \<le> M \<Longrightarrow> cy.total False m (\<lambda>_. 1) e"
begin

lemmas [total_intros] = nested_total [THEN at_the_end] nested_total [THEN consumed]

lemma call_args_total: "m \<le> Suc M \<Longrightarrow> cy.total False m (\<lambda>_. 1) (parse_call_args e f)"
  unfolding parse_call_args_def by (intro total_intros) simp_all

lemma prop_map_total: "m \<le> Suc M \<Longrightarrow> cy.total False m (\<lambda>_. 1) (parse_prop_map e)"
  unfolding parse_prop_map_def by (intro total_intros) simp_all

lemma map_proj_entry_total: "m \<le> M \<Longrightarrow> cy.total False m (\<lambda>_. 1) (map_proj_entry e)"
  unfolding map_proj_entry_def by (intro total_intros) simp_all

lemmas [total_intros] = map_proj_entry_total [THEN at_the_end]

lemma map_projection_total: "m \<le> Suc M \<Longrightarrow> cy.total False m (\<lambda>_. 1) (parse_map_projection e var)"
  unfolding parse_map_projection_def by (intro total_intros) simp_all

lemma list_pred_total: "m \<le> Suc M \<Longrightarrow> cy.total False m (\<lambda>_. 1) (parse_list_pred e kind)"
  unfolding parse_list_pred_def by (intro total_intros) simp_all

lemma opt_bind [total_intros]:
  assumes "cy.total False (m - 1) (\<lambda>_. 0) p" "\<And>x. cy.total False m k (f x)"
  shows "cy.total l m k (pbind (opt (eat_kw w) p) f)" "cy.total l m k (pbind (opt (eat_punct w) p) f)"
  using assms by (auto intro!: kept cy.total_weaken [OF cy.total_opt [OF eats_total(1)]] cy.total_weaken [OF cy.total_opt [OF eats_total(2)]])

lemma case_total: "m \<le> Suc M \<Longrightarrow> cy.total False m (\<lambda>_. 1) (parse_case e)"
  unfolding parse_case_def by (intro total_intros) (simp_all add: eats_total)

lemma bracket_total: "m \<le> M \<Longrightarrow> cy.total False m (\<lambda>_. 1) (parse_bracket e)"
  unfolding parse_bracket_def by (intro total_intros) (simp_all add: eats_total)

lemma take_segments_total: "cy.total False m (\<lambda>_. 0) (take_segments n full)"
proof (induction n arbitrary: m full)
  case (Suc n)
  show ?case
    unfolding take_segments.simps
    by (rule kept [OF cy.total_bump]) (intro total_intros cy.total_weaken [OF Suc.IH], auto)
qed (simp add: cy.total_ret)

lemma named_total: "m \<le> M \<Longrightarrow> cy.total False m (\<lambda>_. 0) (parse_named e n)"
  unfolding parse_named_def
  by (intro total_intros kept [OF cy.total_weaken [OF take_segments_total]]
      call_args_total [THEN at_the_end] map_projection_total [THEN at_the_end]) simp_all

text \<open>The levels of precedence.\<close>

lemma named_last: "m \<le> M \<Longrightarrow> (\<And>x. k x = 0) \<Longrightarrow> cy.total l m k (parse_named e n)"
  by (rule cy.total_weaken [OF named_total]) auto

lemmas [total_intros] =
  call_args_total [THEN at_the_end] case_total [THEN at_the_end] prop_map_total [THEN consumed] list_pred_total [THEN at_the_end]
  bracket_total [THEN at_the_end] named_last

lemma primary_total: "m \<le> Suc M \<Longrightarrow> cy.total False m (\<lambda>_. 1) (parse_primary e)"
  unfolding parse_primary_def primary_arm_def [abs_def]
  apply (rule cy.total_ask, rule cy.total_look)
  subgoal for pred t
    by (cases t; simp only: tok.case; intro total_intros; simp)
  by (simp add: fail_total)

lemmas [total_intros] = primary_total [THEN consumed] primary_total [THEN at_the_end]

lemma postfix_total: "m \<le> Suc M \<Longrightarrow> cy.total False m (\<lambda>_. 1) (parse_postfix e)"
  unfolding parse_postfix_def postfix_step_def [abs_def]
  by (intro total_intros; (rule chain_total)?; (intro total_intros)?; simp)

lemma unary_total: "m \<le> n \<Longrightarrow> m \<le> Suc M \<Longrightarrow> cy.total False m (\<lambda>_. 1) (parse_unary e n)"
proof (induction n arbitrary: m)
  case (Suc n)
  have IH: "m \<le> n \<Longrightarrow> m \<le> Suc M \<Longrightarrow> cy.total False m (\<lambda>_. 1) (parse_unary e n)" for m by (rule Suc.IH)
  show ?case
    unfolding parse_unary.simps
    by (intro total_intros IH [THEN consumed] IH [THEN at_the_end] postfix_total [THEN at_the_end]) (use Suc.prems in auto)
qed (simp add: cy.total_zero)

lemma fueled_level: "(\<And>n i. i \<le> n \<Longrightarrow> i \<le> m \<Longrightarrow> cy.total False i (\<lambda>_. 1) (p n)) \<Longrightarrow> cy.total False m (\<lambda>_. 1) (fueled p)"
  by (rule fueled_total) auto

lemma power_total: "m \<le> n \<Longrightarrow> m \<le> Suc M \<Longrightarrow> cy.total False m (\<lambda>_. 1) (parse_power e n)"
proof (induction n arbitrary: m)
  case (Suc n)
  have IH: "m \<le> n \<Longrightarrow> m \<le> Suc M \<Longrightarrow> cy.total False m (\<lambda>_. 1) (parse_power e n)" for m by (rule Suc.IH)
  have unary: "m \<le> Suc M \<Longrightarrow> cy.total False m (\<lambda>_. 1) (fueled (parse_unary e))" for m
    by (rule fueled_level, rule unary_total) auto
  show ?case
    unfolding parse_power.simps
    by (intro total_intros IH [THEN consumed] unary [THEN consumed]) (use Suc.prems in auto)
qed (simp add: cy.total_zero)

lemma left_assoc_total:
  assumes p: "\<And>m. m \<le> Suc M \<Longrightarrow> cy.total False m (\<lambda>_. 1) p" and "oper Eof = None" "m \<le> Suc M"
  shows "cy.total False m (\<lambda>_. 1) (left_assoc oper p)"
  unfolding left_assoc_def left_step_def [abs_def]
proof (intro p [THEN consumed] chain_total cy.total_look)
  fix a i t
  assume "i \<le> m - 1"
  then show "cy.total True i (\<lambda>r. case r of None \<Rightarrow> 0 | Some _ \<Rightarrow> 1)
    (case oper t of None \<Rightarrow> ret None | Some bop \<Rightarrow> pbind bump (\<lambda>_. pbind p (\<lambda>rhs. ret (Some (Binary bop a rhs)))))"
    using assms(3) by (cases "oper t") (simp_all, (intro total_intros p [THEN consumed]; simp)+)
qed (use assms in \<open>simp_all add: cy.total_ret\<close>)

lemma multiplicative_total: "m \<le> Suc M \<Longrightarrow> cy.total False m (\<lambda>_. 1) (parse_multiplicative e)"
  unfolding parse_multiplicative_def
  by (rule left_assoc_total, rule fueled_level, rule power_total) (auto simp: multiplicative_op_def)

lemma additive_total: "m \<le> Suc M \<Longrightarrow> cy.total False m (\<lambda>_. 1) (parse_additive e)"
  unfolding parse_additive_def by (rule left_assoc_total [OF multiplicative_total]) (auto simp: additive_op_def)

lemma comparison_total: "m \<le> Suc M \<Longrightarrow> cy.total False m (\<lambda>_. 1) (parse_comparison e)"
  unfolding parse_comparison_def comparison_step_def [abs_def]
proof (intro additive_total [THEN consumed] chain_total cy.total_look)
  fix a i t
  assume "m \<le> Suc M" "i \<le> m - 1"
  then show "cy.total True i (\<lambda>r. case r of None \<Rightarrow> 0 | Some _ \<Rightarrow> 1)
    (case comparison_op t of
        Some bop \<Rightarrow> pbind bump (\<lambda>_. pbind (if bop \<in> {StartsWith, EndsWith} then expect_kw ''with'' else ret ())
          (\<lambda>_. pbind (parse_additive e) (\<lambda>rhs. ret (Some (Binary bop a rhs)))))
      | None \<Rightarrow> if t = Keyword ''is'' then pbind bump (\<lambda>_. pbind (eat_kw ''not'') (\<lambda>negated. pbind (expect_kw ''null'')
          (\<lambda>_. ret (Some (IsNull a (\<not> negated)))))) else ret None)"
    by (cases "comparison_op t") (simp_all only: option.case, (intro total_intros additive_total [THEN consumed]; simp)+)
qed (auto simp: cy.total_ret comparison_op_def)

lemma not_total: "m \<le> n \<Longrightarrow> m \<le> Suc M \<Longrightarrow> cy.total False m (\<lambda>_. 1) (parse_not e n)"
proof (induction n arbitrary: m)
  case (Suc n)
  have IH: "m \<le> n \<Longrightarrow> m \<le> Suc M \<Longrightarrow> cy.total False m (\<lambda>_. 1) (parse_not e n)" for m by (rule Suc.IH)
  show ?case
    unfolding parse_not.simps
    by (intro total_intros IH [THEN consumed] comparison_total [THEN at_the_end]) (use Suc.prems in auto)
qed (simp add: cy.total_zero)

lemma or_total: "m \<le> Suc M \<Longrightarrow> cy.total False m (\<lambda>_. 1) (parse_or e)"
  unfolding parse_or_def parse_xor_def parse_and_def
  by (intro left_assoc_total fueled_level not_total) (auto simp: or_op_def xor_op_def and_op_def)

end

text \<open>With one step of fuel per token, \<open>parse_expr\<close> meets its own contract.\<close>

interpretation ex: nested "parse_expr n" n for n
proof
  show "m \<le> n \<Longrightarrow> cy.total False m (\<lambda>_. 1) (parse_expr n)" for m
  proof (induction n arbitrary: m)
    case (Suc n)
    then have "nested (parse_expr n) n" by unfold_locales
    from nested.or_total [OF this Suc.prems] show ?case by simp
  qed (simp add: cy.total_zero)
qed

section \<open>The patterns, clauses and queries end\<close>

text \<open>A clause reads its expressions with enough fuel for all the tokens.\<close>

locale any_nested =
  fixes e :: "expr cparser"
  assumes any_total: "cy.total False m (\<lambda>_. 1) e"

sublocale any_nested \<subseteq> nested e M for M
  by unfold_locales (rule any_total)

context any_nested
begin

lemmas [total_intros] =
  any_total [THEN at_the_end] any_total [THEN consumed]
  prop_map_total [OF order_refl [THEN le_SucI], THEN at_the_end]

lemma optional_name_bind [total_intros]: "(\<And>x. cy.total False m k (f x)) \<Longrightarrow> cy.total l m k (pbind optional_name f)"
  unfolding optional_name_def by (rule kept) (intro total_intros; simp)

lemma optional_props_bind [total_intros]:
  "(\<And>x. cy.total False m k (f x)) \<Longrightarrow> cy.total l m k (pbind (optional_props e) f)"
  unfolding optional_props_def by (rule kept) (intro total_intros; simp)

lemma labels_bind [total_intros]: "(\<And>x. cy.total False m k (f x)) \<Longrightarrow> cy.total l m k (pbind parse_labels f)"
  unfolding parse_labels_def by (rule kept) (intro total_intros; simp)

lemma node_pat_total: "cy.total False m (\<lambda>_. 1) (parse_node_pat e)"
  unfolding parse_node_pat_def by (intro total_intros; simp)

lemma types_bind [total_intros]: "(\<And>x. cy.total False m k (f x)) \<Longrightarrow> cy.total l m k (pbind parse_types f)"
  unfolding parse_types_def by (rule kept) (intro total_intros; simp)

lemma int_or_total: "cy.total l m (\<lambda>_. 0) (int_or d)"
  unfolding int_or_def
  apply (rule cy.total_look)
  subgoal for t by (cases t; simp only: tok.case; intro total_intros; simp)
  by (simp add: cy.total_ret)

lemma range_bind [total_intros]: "(\<And>x. cy.total False m k (f x)) \<Longrightarrow> cy.total l m k (pbind parse_range f)"
  unfolding parse_range_def by (rule kept) (intro total_intros int_or_total [THEN kept]; simp)

lemma rel_body_total: "cy.total False m (\<lambda>_. 0) (parse_rel_body e)"
  unfolding parse_rel_body_def by (intro total_intros; simp)

lemma rel_pat_total: "cy.total False m (\<lambda>_. 1) (parse_rel_pat e)"
  unfolding parse_rel_pat_def by (intro total_intros rel_body_total [THEN kept]; simp)

lemma pattern_total: "cy.total False m (\<lambda>_. 1) (parse_pattern e)"
  unfolding parse_pattern_def
  by (intro total_intros node_pat_total [THEN consumed] rel_pat_total [THEN consumed] cy.total_bump [THEN kept]; simp)

lemmas [total_intros] = pattern_total [THEN consumed]

lemma patterns_total: "cy.total False m (\<lambda>_. 1) (patterns e)"
  unfolding patterns_def by (rule comma_total, rule pattern_total)

lemmas [total_intros] = patterns_total [THEN consumed]

lemma eats_ok:
  assumes "well_formed S" "i < length (toks S)"
  shows "\<exists>b j. eat_kw w S i = Inr (b, j) \<and> i \<le> j \<and> j < length (toks S)"
    "\<exists>b j. eat_word w S i = Inr (b, j) \<and> i \<le> j \<and> j < length (toks S)"
  using assms by (auto simp: eat_defs eat_def look_def pbind_def ret_def bump_def)

lemma if_exists_total: "cy.total False m (\<lambda>_. 0) (eat_if_exists negated)"
proof (rule cy.totalI)
  fix S i
  assume S: "well_formed S" "i < length (toks S)"
  obtain b j where 1: "eat_word ''if'' S i = Inr (b, j)" "i \<le> j" "j < length (toks S)"
    using eats_ok(2) [OF S] by blast
  obtain c k where 2: "(if negated then eat_kw ''not'' else ret True) S j = Inr (c, k)" "j \<le> k" "k < length (toks S)"
    using eats_ok(1) [OF S(1) 1(3), of "''not''"] 1(3) by (cases negated) (auto simp: ret_def)
  obtain d l where 3: "eat_kw ''exists'' S k = Inr (d, l)" "k \<le> l" "l < length (toks S)"
    using eats_ok(1) [OF S(1) 2(3)] by blast
  show "(\<exists>msg. eat_if_exists negated S i = Inl (Msg msg)) \<or>
    (\<exists>x t'. eat_if_exists negated S i = Inr (x, t') \<and> i + 0 \<le> t' \<and> t' < length (toks S))"
    using S(2) 1 2 3 by (cases b; cases c; cases d) (simp_all add: eat_if_exists_def pbind_def ret_def ex_bool_eq)
qed

text \<open>Index and constraint statements.\<close>

lemmas [total_intros] = if_exists_total [THEN kept]

lemma option_total [total_intros]:
  "(\<And>x. c = Some x \<Longrightarrow> cy.total l m k (f x)) \<Longrightarrow> (c = None \<Longrightarrow> cy.total l m k p) \<Longrightarrow>
    cy.total l m k (case c of None \<Rightarrow> p | Some x \<Rightarrow> f x)"
  by (cases c) simp_all

lemma option_sequence [total_intros]:
  "(\<And>x. c = Some x \<Longrightarrow> cy.total l m k (pbind (f x) g)) \<Longrightarrow> (c = None \<Longrightarrow> cy.total l m k (pbind p g)) \<Longrightarrow>
    cy.total l m k (pbind (case c of None \<Rightarrow> p | Some x \<Rightarrow> f x) g)"
  by (cases c) simp_all

lemma kept_end: "cy.total False m (\<lambda>_. 0) p \<Longrightarrow> (\<And>x. k x = 0) \<Longrightarrow> cy.total l m k p"
  by (rule cy.total_weaken) auto

lemma ddl_target_total: "cy.total False m (\<lambda>_. 1) (parse_ddl_target e)"
  unfolding parse_ddl_target_def by (intro total_intros; simp)

lemma ddl_prop_total: "cy.total False m (\<lambda>_. 1) ddl_prop"
  unfolding ddl_prop_def by (intro total_intros; simp)

lemma ddl_props_total: "cy.total False m (\<lambda>_. 0) parse_ddl_props"
  unfolding parse_ddl_props_def by (intro total_intros ddl_prop_total [THEN consumed] ddl_prop_total; simp)

lemma ddl_options_total: "cy.total False m (\<lambda>_. 0) (parse_ddl_options e)"
  unfolding parse_ddl_options_def
  by (intro prop_map_total [OF order_refl [THEN le_SucI], THEN consumed] total_intros; simp)

lemma ddl_name_total: "cy.total False m (\<lambda>_. 0) ddl_name"
  unfolding ddl_name_def by (intro total_intros; simp)

lemma constraint_kind_total: "cy.total False m (\<lambda>_. 0) constraint_kind"
  unfolding constraint_kind_def by (intro total_intros; simp)

lemma ddl_index_kind_total: "cy.total False m (\<lambda>_. 0) ddl_index_kind"
  unfolding ddl_index_kind_def by (intro total_intros; simp)

lemma pair_total [total_intros]:
  "(\<And>a b. cy.total l m k (f a b)) \<Longrightarrow> cy.total l m k (case p of (a, b) \<Rightarrow> f a b)"
  by (cases p) simp

lemmas [total_intros] =
  ddl_target_total [THEN consumed] ddl_props_total [THEN kept] ddl_options_total [THEN kept]
  ddl_name_total [THEN kept] constraint_kind_total [THEN kept] ddl_index_kind_total [THEN kept]

lemma constraint_body_total: "cy.total False m (\<lambda>_. 0) (parse_constraint_body e)"
  unfolding parse_constraint_body_def by (intro total_intros; simp)

lemma ddl_create_total: "cy.total False m (\<lambda>_. 1) (parse_ddl_create e)"
  unfolding parse_ddl_create_def
  by (intro total_intros constraint_body_total [THEN kept_end]; simp)

lemma drop_total: "cy.total False m (\<lambda>_. 1) parse_drop"
  unfolding parse_drop_def by (intro total_intros; simp)

text \<open>Clauses.\<close>

lemma match_body_total: "cy.total False m (\<lambda>_. 1) (parse_match_body e optional)"
  unfolding parse_match_body_def by (intro total_intros; simp)

lemma match_total: "cy.total False m (\<lambda>_. 1) (parse_match e optional)"
  unfolding parse_match_def by (intro total_intros match_body_total [THEN at_the_end]; simp)

text \<open>The step back over \<open>MATCH\<close> is undone by the next one.\<close>

lemma step_back_total: "cy.total False m (\<lambda>_. 1) (pbind (expect_kw w) (\<lambda>_. pbind step_back (\<lambda>_. bump)))"
proof (rule cy.totalI)
  fix S i
  assume S: "well_formed S" "i < length (toks S)"
  show "(\<exists>msg. pbind (expect_kw w) (\<lambda>_. pbind step_back (\<lambda>_. bump)) S i = Inl (Msg msg)) \<or>
    (\<exists>x j. pbind (expect_kw w) (\<lambda>_. pbind step_back (\<lambda>_. bump)) S i = Inr (x, j) \<and> i + 1 \<le> j \<and> j < length (toks S))"
  proof (cases "at_kw w S i")
    case True
    from cy.bump_live [OF S at_live(1) [OF True]] have b: "bump S i = Inr (peek S i, Suc i)" "Suc i < length (toks S)" by auto
    then have "expect_kw w S i = Inr ((), Suc i)"
      using True by (simp add: expect_kw_def expect_def eat_defs eat_def look_def pbind_def ret_def)
    with b show ?thesis by (simp add: pbind_def step_back_def)
  next
    case False
    then show ?thesis
      by (simp add: expect_kw_def expect_def eat_defs eat_def look_def pbind_def ret_def fail_def err_def Let_def)
  qed
qed

lemma optional_total: "cy.total True m (\<lambda>_. 1) (parse_optional e)"
proof -
  have "parse_optional e = pbind bump (\<lambda>_. pbind (pbind (expect_kw ''match'') (\<lambda>_. pbind step_back (\<lambda>_. bump)))
      (\<lambda>_. parse_match_body e True))"
    by (simp add: parse_optional_def pbind_assoc)
  then show ?thesis
    by (simp only:) (intro bump_bind step_back_total [THEN consumed] match_body_total [THEN at_the_end]; simp)
qed

lemma unwind_total: "cy.total False m (\<lambda>_. 1) (parse_unwind e)"
  unfolding parse_unwind_def by (intro total_intros; simp)

lemma return_item_total: "cy.total False m (\<lambda>_. 1) (return_item e)"
  unfolding return_item_def by (intro total_intros; simp)

lemma order_item_total: "cy.total False m (\<lambda>_. 1) (order_item e)"
  unfolding order_item_def by (intro total_intros; simp)

lemma order_by_total: "cy.total False m (\<lambda>_. 0) (order_by e)"
  unfolding order_by_def by (intro total_intros order_item_total; simp)

lemma projection_total: "cy.total False m (\<lambda>_. 1) (parse_projection e)"
  unfolding parse_projection_def by (intro order_by_total [THEN kept] total_intros return_item_total; simp)

lemmas [total_intros] = projection_total [THEN consumed]

lemma with_total: "cy.total False m (\<lambda>_. 1) (parse_with e)"
  unfolding parse_with_def by (intro total_intros; simp)

lemma return_total: "cy.total False m (\<lambda>_. 1) (parse_return e)"
  unfolding parse_return_def by (intro total_intros; simp)

lemma call_total: "cy.total False m (\<lambda>_. 1) (parse_call e)"
  unfolding parse_call_def by (intro total_intros; simp)

lemma create_total: "cy.total False m (\<lambda>_. 1) (parse_create e)"
  unfolding parse_create_def by (intro total_intros ddl_create_total [THEN at_the_end]; simp)

lemma set_labels_total: "cy.total False m (\<lambda>_. 0) (set_labels var)"
  unfolding set_labels_def by (intro total_intros; simp)

lemma if_known:
  "cy.total l m k p \<Longrightarrow> cy.total l m k (if True then p else q)" "cy.total l m k q \<Longrightarrow> cy.total l m k (if False then p else q)"
  "cy.total l m k q \<Longrightarrow> cy.total l m k (if \<not> True then p else q)" "cy.total l m k p \<Longrightarrow> cy.total l m k (if \<not> False then p else q)"
  by simp_all

lemma set_item_total: "cy.total False m (\<lambda>_. 1) (set_item e)"
  unfolding set_item_def by (intro if_known total_intros set_labels_total [THEN kept_end]) (simp_all, (rule order_refl)+)

lemma set_items_total: "cy.total False m (\<lambda>_. 1) (parse_set_items e)"
  unfolding parse_set_items_def by (rule comma_total, rule set_item_total)

lemmas [total_intros] = set_items_total [THEN consumed]

lemma set_total: "cy.total False m (\<lambda>_. 1) (parse_set e)"
  unfolding parse_set_def by (intro total_intros; simp)

lemma remove_item_total: "cy.total False m (\<lambda>_. 1) remove_item"
  unfolding remove_item_def by (intro total_intros set_labels_total [THEN kept_end]; simp)

lemma remove_total: "cy.total False m (\<lambda>_. 1) parse_remove"
  unfolding parse_remove_def by (intro total_intros remove_item_total; simp)

lemma merge_action_total: "cy.total False m (\<lambda>r. case r of None \<Rightarrow> 0 | Some _ \<Rightarrow> 1) (merge_action e acc)"
  unfolding merge_action_def by (intro if_known total_intros) simp_all

lemma merge_total: "cy.total False m (\<lambda>_. 1) (parse_merge e)"
  unfolding parse_merge_def by (intro total_intros merge_action_total; simp)

lemma delete_total: "cy.total False m (\<lambda>_. 1) (parse_delete e)"
  unfolding parse_delete_def by (intro total_intros; simp)

lemma clause_total: "cy.total False m (\<lambda>r. case r of None \<Rightarrow> 0 | Some _ \<Rightarrow> 1) (parse_clause e)"
proof -
  note c = match_total unwind_total with_total return_total create_total merge_total set_total
    remove_total delete_total call_total drop_total
  have o: "cy.total True m (\<lambda>r. case r of None \<Rightarrow> 0 | Some _ \<Rightarrow> 1) (pbind (parse_optional e) (\<lambda>c. ret (Some c)))"
    by (rule cy.total_bind [OF optional_total]) (simp add: cy.total_ret)
  show ?thesis
    unfolding parse_clause_def
    apply (rule cy.total_look)
    subgoal for t
      by (cases t; simp only: tok.case; intro o total_intros c [THEN consumed]; simp)
    by (simp add: cy.total_ret)
qed

lemma clauses_total: "cy.total False m (\<lambda>_. 0) (parse_clauses e)"
  unfolding parse_clauses_def
  apply (rule chain_total, rule cy.total_bind [OF clause_total])
  subgoal for a i r
    by (cases r) (simp_all add: cy.total_ret)
  by simp

end

interpretation qy: any_nested expression
  unfolding expression_def
  by unfold_locales (rule fueled_total, rule ex.nested_total, assumption)

lemma msg_kept: "cy.total l m k (\<lambda>S i. Inl (Msg text))"
  by (rule cy.total_msg) simp

lemma query_total: "m \<le> n \<Longrightarrow> cy.total False m (\<lambda>_. 0) (parse_query n)"
proof (induction n arbitrary: m)
  case (Suc n)
  have IH: "m \<le> n \<Longrightarrow> cy.total False m (\<lambda>_. 0) (parse_query n)" for m by (rule Suc.IH)
  show ?case
    unfolding parse_query.simps
    by (intro qy.clauses_total [THEN kept] total_intros msg_kept IH [THEN kept]) (use Suc.prems in auto)
qed (simp add: cy.total_zero)

section \<open>Properties\<close>

lemma tokens_well_formed:
  assumes "tokenize u text = Inr ts" "length ts \<noteq> 1"
  shows "well_formed \<lparr>toks = ts, src = text\<rparr>"
proof -
  obtain ts' where ts: "map tok_of ts = ts' @ [Eof]" "Eof \<notin> set ts'"
    using lex_from_tokens [OF assms(1) [unfolded tokenize_def] ends_in_refl] by blast
  then have len: "length ts = Suc (length ts')" by (metis length_append_singleton length_map)
  have at: "tok_of (ts ! i) = (ts' @ [Eof]) ! i" if "i < length ts" for i
    using ts(1) that by (metis nth_map)
  have "tok_of (ts ! i) = Eof \<longleftrightarrow> i = length ts'" if "i < length ts" for i
  proof (cases "i < length ts'")
    case True
    then have "ts' ! i \<noteq> Eof" using ts(2) by (metis nth_mem)
    with True at [OF that] show ?thesis by (simp add: nth_append)
  qed (use at [OF that] that len in \<open>simp add: nth_append\<close>)
  with len assms(2) show ?thesis by (cases "length ts'") (simp_all add: well_formed_def)
qed

lemma empty_source: "tokenize u s = Inr [t] \<Longrightarrow> tok_of t = Eof"
  using lex_from_tokens [of u s s "[t]"] by (auto simp: tokenize_def Cons_eq_append_conv)

text \<open>C38: Parsing ends for every text, in a query or in a message: no loop or recursion of the parser runs on
  without consuming tokens, and the position never steps back before the first token.\<close>

theorem parse_ends:
  "(\<exists>q. parse u text = Inr q) \<or> (\<exists>msg. parse u text = Inl (Msg msg))"
proof (cases "tokenize u text")
  case (Inr ts)
  define S where "S = \<lparr>toks = ts, src = text\<rparr>"
  define p where "p = pbind (fueled parse_query) (\<lambda>q. pbind expect_eof (\<lambda>_. ret q))"
  have "(\<exists>x. p S 0 = Inr x) \<or> (\<exists>msg. p S 0 = Inl (Msg msg))"
  proof (cases "length ts = 1")
    case True
    then obtain t where ts: "ts = [t]" by (auto simp: length_Suc_conv)
    with Inr have "tok_of t = Eof" by (auto intro: empty_source)
    with ts show ?thesis
      by (simp add: p_def S_def fueled_def with_fuel_def pbind_def parse_clauses_def parse_clause_def look_def peek_def
          clamp_def ret_def)
  next
    case False
    then have S: "well_formed S" using Inr by (simp add: S_def tokens_well_formed)
    then have "0 < length (toks S)" unfolding well_formed_def by linarith
    moreover have "cy.total False m (\<lambda>_. 0) p" for m
      unfolding p_def expect_eof_def
      by (intro fueled_total [THEN kept] query_total total_intros; simp)
    ultimately show ?thesis using cy.totalD [OF _ S, of False "length (toks S)" "\<lambda>_. 0" p 0] by simp blast
  qed
  then show ?thesis by (auto simp: parse_def Inr p_def S_def)
qed (simp add: parse_def)

end
