(* ===== verification/Cypher_Print.thy ===== *)
theory Cypher_Print
  imports Cypher_Parser
begin

text \<open>
  Printing Cypher expressions and reading them back.  The printer writes the fewest parentheses the
  precedence of the operators allows, so that the round trip through the parser of
  \<open>engine/src/cypher/parser.rs\<close> pins down precedence, associativity and every form of expression.
\<close>

section \<open>What a parser reads\<close>

definition ahead :: "source \<Rightarrow> nat \<Rightarrow> tok list" where
  "ahead S i = map tok_of (drop i (toks S))"

text \<open>\<open>p\<close> reads exactly the tokens \<open>ts\<close> as \<open>x\<close>, whatever follows, if it satisfies \<open>F\<close>.\<close>

definition reads :: "'a cparser \<Rightarrow> tok list \<Rightarrow> 'a \<Rightarrow> (tok list \<Rightarrow> bool) \<Rightarrow> bool" where
  "reads p ts x F \<longleftrightarrow> (\<forall>S i rest. well_formed S \<longrightarrow> ahead S i = ts @ rest \<longrightarrow> rest \<noteq> [] \<longrightarrow> F rest \<longrightarrow>
     p S i = Inr (x, i + length ts))"

lemma readsI:
  "(\<And>S i rest. well_formed S \<Longrightarrow> ahead S i = ts @ rest \<Longrightarrow> rest \<noteq> [] \<Longrightarrow> F rest \<Longrightarrow> p S i = Inr (x, i + length ts)) \<Longrightarrow>
    reads p ts x F"
  by (simp add: reads_def)

lemma readsD:
  "reads p ts x F \<Longrightarrow> well_formed S \<Longrightarrow> ahead S i = ts @ rest \<Longrightarrow> rest \<noteq> [] \<Longrightarrow> F rest \<Longrightarrow> p S i = Inr (x, i + length ts)"
  by (simp add: reads_def)

lemma ahead_length: "length (ahead S i) = length (toks S) - i"
  by (simp add: ahead_def)

lemma ahead_later: "ahead S i = ts @ rest \<Longrightarrow> ahead S (i + length ts) = rest"
  by (metis ahead_def append_eq_conv_conj drop_drop drop_map add.commute)

lemma ahead_in: "ahead S i = t # rest \<Longrightarrow> i < length (toks S)"
  using ahead_length [of S i] by simp

lemma peek_ahead: "ahead S i = t # rest \<Longrightarrow> peek S i = t"
proof -
  assume a: "ahead S i = t # rest"
  have i: "i < length (toks S)" using ahead_in [OF a] .
  then have "ahead S i = tok_of (toks S ! i) # ahead S (Suc i)" by (simp add: ahead_def flip: Cons_nth_drop_Suc)
  with a i show ?thesis by (simp add: peek_def clamp_def)
qed

lemma peek_at_ahead: "ahead S i = ts @ t # rest \<Longrightarrow> peek_at (length ts) S i = t"
  using peek_ahead [OF ahead_later, of S i ts t rest] by (simp add: peek_at_def peek_def)

lemma bump_ahead: "well_formed S \<Longrightarrow> ahead S i = t # rest \<Longrightarrow> rest \<noteq> [] \<Longrightarrow> bump S i = Inr (t, Suc i)"
proof -
  assume S: "well_formed S" and a: "ahead S i = t # rest" and r: "rest \<noteq> []"
  have "Suc i < length (toks S)" using ahead_length [of S i] a r by (cases rest) auto
  with peek_ahead [OF a] ahead_in [OF a] show ?thesis by (simp add: bump_def peek_def clamp_def)
qed

lemma reads_weaken: "reads p ts x F \<Longrightarrow> (\<And>rest. rest \<noteq> [] \<Longrightarrow> G rest \<Longrightarrow> F rest) \<Longrightarrow> reads p ts x G"
  by (simp add: reads_def)

lemma reads_ret: "reads (ret x) [] x F"
  by (rule readsI) (simp add: ret_def)

lemma reads_bind:
  assumes "reads p ts x F" "reads (f x) us y G" "\<And>rest. rest \<noteq> [] \<Longrightarrow> G rest \<Longrightarrow> F (us @ rest)"
  shows "reads (pbind p f) (ts @ us) y G"
proof (rule readsI)
  fix S i rest
  assume S: "well_formed S" and a: "ahead S i = (ts @ us) @ rest" and r: "rest \<noteq> []" "G rest"
  then have "p S i = Inr (x, i + length ts)"
    by (intro readsD [OF assms(1) S, of i "us @ rest"] assms(3)) simp_all
  moreover have "f x S (i + length ts) = Inr (y, i + length ts + length us)"
    using S r by (intro readsD [OF assms(2)] ahead_later) (simp_all add: a)
  ultimately show "pbind p f S i = Inr (y, i + length (ts @ us))" by (simp add: pbind_def)
qed

lemma reads_look: "reads (f t) (t # ts) x F \<Longrightarrow> reads (look peek f) (t # ts) x F"
  unfolding reads_def look_def by (metis append_Cons peek_ahead)

lemma reads_look_rest:
  "(\<And>t. reads (f t) [] x (\<lambda>rest. hd rest = t \<and> F rest)) \<Longrightarrow> reads (look peek f) [] x F"
proof (rule readsI)
  fix S i rest
  assume f: "\<And>t. reads (f t) [] x (\<lambda>rest. hd rest = t \<and> F rest)"
    and S: "well_formed S" "ahead S i = [] @ rest" "rest \<noteq> []" "F rest"
  then obtain t r where "rest = t # r" by (cases rest) auto
  with S have "peek S i = t" by (auto intro: peek_ahead)
  with readsD [OF f S(1,2,3), of t] S(4) \<open>rest = t # r\<close> show "look peek f S i = Inr (x, i + length [])"
    by (simp add: look_def)
qed

lemma reads_bump: "reads bump [t] t F"
  by (rule readsI) (simp add: bump_ahead)

text \<open>A question about the position whose answer the tokens determine.\<close>

lemma reads_ask:
  assumes "\<And>S i rest. well_formed S \<Longrightarrow> ahead S i = ts @ rest \<Longrightarrow> rest \<noteq> [] \<Longrightarrow> F rest \<Longrightarrow> q S i = b" "reads (f b) ts x F"
  shows "reads (look q f) ts x F"
  by (rule readsI) (simp add: look_def assms(1) readsD [OF assms(2)])

lemma reads_eat:
  "reads (eat_kw k) [Keyword k] True F" "reads (eat_punct p) [Punct p] True F"
  "reads (eat_kw k) [] False (\<lambda>rest. hd rest \<noteq> Keyword k)" "reads (eat_punct p) [] False (\<lambda>rest. hd rest \<noteq> Punct p)"
  by (auto intro!: readsI simp: eat_kw_def eat_punct_def eat_def look_def at_kw_def at_punct_def pbind_def ret_def
      peek_ahead bump_ahead neq_Nil_conv)

lemma skip_eat:
  "reads (f False) ts x F \<Longrightarrow> ts \<noteq> [] \<Longrightarrow> hd ts \<noteq> Keyword k \<Longrightarrow> reads (pbind (eat_kw k) f) ts x F"
  "reads (f False) ts x F \<Longrightarrow> ts \<noteq> [] \<Longrightarrow> hd ts \<noteq> Punct p \<Longrightarrow> reads (pbind (eat_punct p) f) ts x F"
  using reads_bind [OF reads_eat(3), of f ts x F k] reads_bind [OF reads_eat(4), of f ts x F p] by auto

lemma reads_expect: "reads (expect_kw k) [Keyword k] () F" "reads (expect_punct p) [Punct p] () F"
  by (auto intro!: readsI simp: expect_kw_def expect_punct_def expect_def pbind_def ret_def
      readsD [OF reads_eat(1)] readsD [OF reads_eat(2)])

lemma reads_name: "reads name [Ident n] n F" "reads name [QuotedIdent n] n F"
  by (auto intro!: readsI simp: name_def bump_ahead)

lemma reads_fueled:
  assumes "\<And>n. length ts < n \<Longrightarrow> reads (p n) ts x F"
  shows "reads (fueled p) ts x F"
proof (rule readsI)
  fix S i rest
  assume S: "well_formed S" "ahead S i = ts @ rest" "rest \<noteq> []" "F rest"
  have "length ts < length (toks S)" using ahead_length [of S i] S(2,3) by (cases rest) auto
  from readsD [OF assms [OF this] S] show "fueled p S i = Inr (x, i + length ts)"
    by (simp add: fueled_def with_fuel_def)
qed

section \<open>Loops over operators\<close>

text \<open>A loop has read \<open>ts\<close> as the operand \<open>x\<close> so far, and has fuel for what is left.\<close>

definition chains :: "'a cparser \<Rightarrow> ('a \<Rightarrow> 'a option cparser) \<Rightarrow> tok list \<Rightarrow> 'a \<Rightarrow> (tok list \<Rightarrow> bool) \<Rightarrow> bool" where
  "chains p step ts x F \<longleftrightarrow> (\<forall>S i rest. well_formed S \<longrightarrow> ahead S i = ts @ rest \<longrightarrow> rest \<noteq> [] \<longrightarrow> F rest \<longrightarrow>
     (\<exists>d \<le> length ts. pbind p (\<lambda>x. fueled (\<lambda>n. chain n step x)) S i =
        chain (length (toks S) - d) step x S (i + length ts)))"

lemma chains_first: "reads p ts x F \<Longrightarrow> chains p step ts x F"
  unfolding chains_def
  by (intro allI impI exI [of _ 0]) (simp add: pbind_Inr [OF readsD] fueled_def with_fuel_def)

lemma chains_next:
  assumes c: "chains p step ts x F" and s: "reads (step x) us (Some y) G" "us \<noteq> []"
    and F: "\<And>rest. rest \<noteq> [] \<Longrightarrow> G rest \<Longrightarrow> F (us @ rest)"
  shows "chains p step (ts @ us) y G"
  unfolding chains_def
proof (intro allI impI)
  fix S i rest
  let ?loop = "pbind p (\<lambda>x. fueled (\<lambda>n. chain n step x))"
  assume S: "well_formed S" and a: "ahead S i = (ts @ us) @ rest" and r: "rest \<noteq> []" "G rest"
  have a': "ahead S i = ts @ us @ rest" using a by simp
  from c S a' F [OF r] r(1) obtain d where d: "d \<le> length ts"
    "?loop S i = chain (length (toks S) - d) step x S (i + length ts)"
    unfolding chains_def by fastforce
  have "d < length (toks S)" using ahead_length [of S i] a' d(1) r(1) by (cases rest) auto
  then have "length (toks S) - d = Suc (length (toks S) - Suc d)" by simp
  moreover have "step x S (i + length ts) = Inr (Some y, i + length ts + length us)"
    by (rule readsD [OF s(1) S ahead_later r]) (simp add: a')
  ultimately have "?loop S i = chain (length (toks S) - Suc d) step y S (i + length (ts @ us))"
    using d(2) by (simp add: pbind_def add.assoc)
  moreover have "Suc d \<le> length (ts @ us)" using d(1) s(2) by (cases us) auto
  ultimately show "\<exists>d \<le> length (ts @ us). ?loop S i = chain (length (toks S) - d) step y S (i + length (ts @ us))"
    by blast
qed

lemma chains_end:
  assumes c: "chains p step ts x F" and s: "reads (step x) [] None G" and F: "\<And>rest. rest \<noteq> [] \<Longrightarrow> G rest \<Longrightarrow> F rest"
  shows "reads (pbind p (\<lambda>x. fueled (\<lambda>n. chain n step x))) ts x G"
proof (rule readsI)
  fix S i rest
  let ?loop = "pbind p (\<lambda>x. fueled (\<lambda>n. chain n step x))"
  assume S: "well_formed S" and a: "ahead S i = ts @ rest" and r: "rest \<noteq> []" "G rest"
  from c S a F [OF r] r(1) obtain d where d: "d \<le> length ts"
    "?loop S i = chain (length (toks S) - d) step x S (i + length ts)"
    unfolding chains_def by fastforce
  have "d < length (toks S)" using ahead_length [of S i] a d(1) r(1) by (cases rest) auto
  then have "length (toks S) - d = Suc (length (toks S) - Suc d)" by simp
  moreover have "step x S (i + length ts) = Inr (None, i + length ts)"
    using readsD [OF s S _ r, of "i + length ts"] ahead_later [OF a] by simp
  ultimately show "?loop S i = Inr (x, i + length ts)" using d(2) by (simp add: pbind_def ret_def)
qed

section \<open>The printer\<close>

text \<open>The level of an operator, the loosest first, and of an expression.\<close>

fun op_level :: "bin_op \<Rightarrow> nat" where
  "op_level Or = 0"
| "op_level Xor = 1"
| "op_level And = 2"
| "op_level Add = 5"
| "op_level Sub = 5"
| "op_level Concat = 5"
| "op_level Mul = 6"
| "op_level Div = 6"
| "op_level Mod = 6"
| "op_level Pow = 7"
| "op_level _ = 4"

fun level :: "expr \<Rightarrow> nat" where
  "level (Binary bop a b) = op_level bop"
| "level (NotE a) = 3"
| "level (IsNull a w) = 4"
| "level (Neg a) = 8"
| "level (Prop b p) = 9"
| "level _ = 10"

text \<open>Operators associate to the left, except \<open>^\<close>.\<close>

definition left_level :: "bin_op \<Rightarrow> nat" where
  "left_level bop = (if bop = Pow then 8 else op_level bop)"

definition right_level :: "bin_op \<Rightarrow> nat" where
  "right_level bop = (if bop = Pow then 7 else op_level bop + 1)"

fun op_toks :: "bin_op \<Rightarrow> tok list" where
  "op_toks Add = [Punct ''+'']"
| "op_toks Sub = [Punct ''-'']"
| "op_toks Mul = [Punct ''*'']"
| "op_toks Div = [Punct ''/'']"
| "op_toks Mod = [Punct ''%'']"
| "op_toks Pow = [Punct ''^'']"
| "op_toks Eq = [Punct ''='']"
| "op_toks Ne = [Punct ''<>'']"
| "op_toks Lt = [Punct ''<'']"
| "op_toks Le = [Punct ''<='']"
| "op_toks Gt = [Punct ''>'']"
| "op_toks Ge = [Punct ''>='']"
| "op_toks And = [Keyword ''and'']"
| "op_toks Or = [Keyword ''or'']"
| "op_toks Xor = [Keyword ''xor'']"
| "op_toks InOp = [Keyword ''in'']"
| "op_toks StartsWith = [Keyword ''starts'', Keyword ''with'']"
| "op_toks EndsWith = [Keyword ''ends'', Keyword ''with'']"
| "op_toks Contains = [Keyword ''contains'']"
| "op_toks Regex = [Punct ''=~'']"
| "op_toks Concat = [Punct ''||'']"

definition paren :: "nat \<Rightarrow> expr \<Rightarrow> tok list \<Rightarrow> tok list" where
  "paren l e ts = (if level e < l then [Punct ''(''] @ ts @ [Punct '')''] else ts)"

fun commas :: "tok list list \<Rightarrow> tok list" where
  "commas [] = []"
| "commas [ts] = ts"
| "commas (ts # us # tss) = ts @ [Punct '',''] @ commas (us # tss)"

fun lit_tok :: "lit \<Rightarrow> tok" where
  "lit_tok (IntL n) = TInt n"
| "lit_tok (Float f) = TFloat f"
| "lit_tok (Str s) = TStr s"
| "lit_tok (Bool b) = Keyword (if b then ''true'' else ''false'')"
| "lit_tok Null = Keyword ''null''"

definition call_tok :: "string \<Rightarrow> tok" where
  "call_tok f = (if f \<in> {''count'', ''exists''} then Keyword f else Ident f)"

fun pred_tok :: "list_pred_kind \<Rightarrow> tok" where
  "pred_tok AllOf = Keyword ''all''"
| "pred_tok Any = Ident ''any''"
| "pred_tok NoneOf = Ident ''none''"
| "pred_tok Single = Ident ''single''"

text \<open>A name, in backquotes unless it is a plain word.\<close>

definition name_tok :: "string \<Rightarrow> tok" where
  "name_tok n = (if word_ok n \<and> to_ascii_lowercase n \<notin> set KEYWORDS then Ident n else QuotedIdent n)"

lemma name_tok_neq [simp]:
  "name_tok n \<noteq> Punct p" "name_tok n \<noteq> Keyword k" "name_tok n \<noteq> Eof" "Punct p \<noteq> name_tok n" "Keyword k \<noteq> name_tok n"
  by (simp_all add: name_tok_def)

lemma reads_name_tok: "reads name [name_tok n] n F"
  by (simp add: name_tok_def reads_name)

fun body :: "expr \<Rightarrow> tok list" and item_toks :: "map_proj_item \<Rightarrow> tok list" where
  "body (Lit l) = [lit_tok l]"
| "body (Param p) = [TParam p]"
| "body (Var v) = [Ident v]"
| "body (Prop b p) = paren 9 b (body b) @ [Punct ''.'', name_tok p]"
| "body (Binary bop a b) = paren (left_level bop) a (body a) @ op_toks bop @ paren (right_level bop) b (body b)"
| "body (NotE a) = [Keyword ''not''] @ paren 3 a (body a)"
| "body (Neg a) = [Punct ''-''] @ paren 8 a (body a)"
| "body (IsNull a want) = paren 4 a (body a) @ [Keyword ''is''] @ (if want then [] else [Keyword ''not'']) @ [Keyword ''null'']"
| "body (Func f args uniq) = [call_tok f, Punct ''(''] @ (if uniq then [Keyword ''distinct''] else []) @
     (if args = [Star] then [Punct ''*''] else commas (map (\<lambda>a. body a) args)) @ [Punct '')'']"
| "body (ListE xs) = [Punct ''[''] @ commas (map (\<lambda>x. paren 5 x (body x)) xs) @ [Punct '']'']"
| "body (MapE kv) = [Punct ''{''] @ commas (map (\<lambda>(k, v). [name_tok k, Punct '':''] @ body v) kv) @ [Punct ''}'']"
| "body (CaseE operand whens els) = [Keyword ''case''] @ (case operand of None \<Rightarrow> [] | Some x \<Rightarrow> body x) @
     concat (map (\<lambda>(c, v). [Keyword ''when''] @ body c @ [Keyword ''then''] @ body v) whens) @
     (case els of None \<Rightarrow> [] | Some x \<Rightarrow> Keyword ''else'' # body x) @ [Keyword ''end'']"
| "body (ListComp x source cond project) = [Punct ''['', Ident x, Keyword ''in''] @ body source @
     (case cond of None \<Rightarrow> [] | Some f \<Rightarrow> Keyword ''where'' # body f) @
     (case project of None \<Rightarrow> [] | Some p \<Rightarrow> Punct ''|'' # body p) @ [Punct '']'']"
| "body (ListPred kind x source cond) = [pred_tok kind, Punct ''('', Ident x, Keyword ''in''] @ body source @
     [Keyword ''where''] @ body cond @ [Punct '')'']"
| "body (MapProjection x its) = [Ident x, Punct ''{''] @ commas (map item_toks its) @ [Punct ''}'']"
| "body Star = [Punct ''*'']"
| "item_toks (ItemProp p) = [Punct ''.'', name_tok p]"
| "item_toks ItemAll = [Punct ''.'', Punct ''*'']"
| "item_toks (Entry k v) = [name_tok k, Punct '':''] @ body v"

text \<open>An expression at a place that takes expressions of level \<open>l\<close> and tighter.\<close>

definition pr :: "nat \<Rightarrow> expr \<Rightarrow> tok list" where
  "pr l e = paren l e (body e)"

text \<open>What the parser can give: \<open>*\<close> only as the one argument of a call, no function that is called like a
  predicate over a list, and a \<open>CASE\<close> with an operand or a branch.\<close>

definition list_pred_names :: "string set" where
  "list_pred_names = {''any'', ''none'', ''single''}"

fun printable :: "expr \<Rightarrow> bool" and printable_item :: "map_proj_item \<Rightarrow> bool" where
  "printable (Prop b p) = printable b"
| "printable (Binary bop a b) \<longleftrightarrow> printable a \<and> printable b"
| "printable (NotE a) = printable a"
| "printable (Neg a) = printable a"
| "printable (IsNull a w) = printable a"
| "printable (Func f args d) \<longleftrightarrow> to_ascii_lowercase f \<notin> list_pred_names \<and>
     (args = [Star] \<or> (\<forall>a \<in> set args. printable a))"
| "printable (ListE xs) \<longleftrightarrow> (\<forall>x \<in> set xs. printable x)"
| "printable (MapE kv) \<longleftrightarrow> (\<forall>(k, v) \<in> set kv. printable v)"
| "printable (CaseE operand whens els) \<longleftrightarrow> (case operand of None \<Rightarrow> whens \<noteq> [] | Some x \<Rightarrow> printable x) \<and>
     (\<forall>(c, v) \<in> set whens. printable c \<and> printable v) \<and> (case els of None \<Rightarrow> True | Some x \<Rightarrow> printable x)"
| "printable (ListComp x source cond project) \<longleftrightarrow> printable source \<and>
     (case cond of None \<Rightarrow> True | Some f \<Rightarrow> printable f) \<and> (case project of None \<Rightarrow> True | Some p \<Rightarrow> printable p)"
| "printable (ListPred kind x source cond) \<longleftrightarrow> printable source \<and> printable cond"
| "printable (MapProjection x its) \<longleftrightarrow> (\<forall>it \<in> set its. printable_item it)"
| "printable Star \<longleftrightarrow> False"
| "printable _ \<longleftrightarrow> True"
| "printable_item (Entry k v) = printable v"
| "printable_item _ = True"

section \<open>What may follow, and what comes first\<close>

text \<open>A run of \<open>.name\<close> that does not arrive at a call.\<close>

fun no_call :: "tok list \<Rightarrow> bool" where
  "no_call (Punct p # Ident n # r) \<longleftrightarrow> (p = ''.'' \<longrightarrow> take 1 r \<noteq> [Punct ''(''] \<and> no_call r)"
| "no_call _ \<longleftrightarrow> True"

definition stops :: "nat \<Rightarrow> tok \<Rightarrow> bool" where
  "stops l t \<longleftrightarrow> (l \<le> 9 \<longrightarrow> t \<noteq> Punct ''.'' \<and> t \<noteq> Punct ''['') \<and> (l \<le> 7 \<longrightarrow> t \<noteq> Punct ''^'') \<and>
     (l \<le> 6 \<longrightarrow> multiplicative_op t = None) \<and> (l \<le> 5 \<longrightarrow> additive_op t = None) \<and>
     (l \<le> 4 \<longrightarrow> comparison_op t = None \<and> t \<noteq> Keyword ''is'') \<and> (l \<le> 2 \<longrightarrow> and_op t = None) \<and>
     (l \<le> 1 \<longrightarrow> xor_op t = None) \<and> (l \<le> 0 \<longrightarrow> or_op t = None)"

text \<open>What may follow an expression of level \<open>l\<close>.\<close>

definition follow :: "nat \<Rightarrow> tok list \<Rightarrow> bool" where
  "follow l rest \<longleftrightarrow> rest \<noteq> [] \<and> hd rest \<noteq> Punct ''('' \<and> hd rest \<noteq> Punct ''{'' \<and> no_call rest \<and> stops l (hd rest)"

lemma stops_mono: "stops l t \<Longrightarrow> l \<le> k \<Longrightarrow> stops k t"
  by (auto simp: stops_def)

lemma follow_mono: "follow l rest \<Longrightarrow> l \<le> k \<Longrightarrow> follow k rest"
  by (auto simp: follow_def intro: stops_mono)

lemmas op_defs = multiplicative_op_def additive_op_def comparison_op_def and_op_def xor_op_def or_op_def

definition clause_words :: "string list" where
  "clause_words = [''match'', ''optional'', ''unwind'', ''with'', ''return'', ''create'', ''merge'', ''set'', ''remove'', ''delete'',
     ''detach'', ''call'', ''drop'', ''union'']"

definition closers :: "tok set" where
  "closers = {Punct '')'', Punct '']'', Punct ''}'', Punct '','', Punct ''|'', Keyword ''when'', Keyword ''then'', Keyword ''else'',
     Keyword ''end'', Keyword ''where'', Keyword ''as'', Keyword ''order'', Keyword ''skip'', Keyword ''limit'', Keyword ''desc'',
     Keyword ''asc'', Keyword ''on'', Eof} \<union> Keyword ` set clause_words"

lemma no_call_other: "t \<noteq> Punct ''.'' \<Longrightarrow> no_call (t # r)"
  by (cases "t # r" rule: no_call.cases) auto

lemma follow_closer: "t \<in> closers \<Longrightarrow> follow l (t # r)"
  unfolding closers_def clause_words_def list.set image_insert image_empty
  by (elim UnE insertE emptyE) (simp_all add: follow_def stops_def op_defs no_call_other)

lemma follow_op: "follow (Suc (op_level bop)) (op_toks bop @ r)" if "bop \<noteq> Pow"
  using that by (cases bop) (simp_all add: follow_def stops_def op_defs no_call_other)

lemma follow_others: "follow 5 (Keyword ''is'' # r)" "follow 8 (Punct ''^'' # r)"
  by (simp_all add: follow_def stops_def op_defs no_call_other)

lemma follow_field: "follow 10 rest \<Longrightarrow> follow 10 (Punct ''.'' # name_tok p # rest)"
  by (cases rest) (auto simp: follow_def stops_def name_tok_def)

text \<open>The first token of a printed expression.\<close>

definition starts :: "nat \<Rightarrow> tok \<Rightarrow> bool" where
  "starts l t \<longleftrightarrow> t \<notin> {Punct '')'', Punct '']'', Punct ''}'', Punct ''*'', Punct '','', Punct ''.'', Keyword ''distinct'', Keyword ''when'', Eof} \<and>
     (3 < l \<longrightarrow> t \<noteq> Keyword ''not'') \<and> (8 < l \<longrightarrow> t \<noteq> Punct ''-'' \<and> t \<noteq> Punct ''+'')"

lemma starts_mono: "starts k t \<Longrightarrow> l \<le> k \<Longrightarrow> starts l t"
  by (auto simp: starts_def)

lemma starts_open: "starts l (Punct ''('')"
  by (simp add: starts_def)

lemma paren_starts:
  assumes "\<exists>t ts. body e = t # ts \<and> starts (level e) t"
  shows "\<exists>t ts. paren l e (body e) = t # ts \<and> starts l t"
  using assms starts_open starts_mono by (fastforce simp: paren_def)

lemma op_levels: "left_level bop = level (Binary bop a b) \<or> bop = Pow"
  by (simp add: left_level_def)

lemma body_starts: "printable e \<Longrightarrow> \<exists>t ts. body e = t # ts \<and> starts (level e) t"
proof (induction e)
  case (Lit l)
  then show ?case by (cases l) (simp_all add: starts_def)
next
  case (Prop b p)
  then obtain t ts where "paren 9 b (body b) = t # ts" "starts 9 t" using paren_starts by fastforce
  then show ?case by simp
next
  case (Binary bop a b)
  then obtain t ts where "paren (left_level bop) a (body a) = t # ts" "starts (left_level bop) t" using paren_starts by fastforce
  moreover have "op_level bop \<le> left_level bop" by (cases bop) (simp_all add: left_level_def)
  ultimately show ?case by (auto intro: starts_mono)
next
  case (IsNull a want)
  then obtain t ts where "paren 4 a (body a) = t # ts" "starts 4 t" using paren_starts by fastforce
  then show ?case by simp
next
  case (Func f args d)
  then show ?case by (simp add: starts_def call_tok_def)
next
  case (ListPred kind x s c)
  then show ?case by (cases kind) (simp_all add: starts_def)
qed (simp_all add: starts_def)

lemma pr_starts: "printable e \<Longrightarrow> \<exists>t ts. pr l e = t # ts \<and> starts l t"
  unfolding pr_def by (rule paren_starts, rule body_starts)

lemma pr_nonempty: "printable e \<Longrightarrow> pr l e \<noteq> []"
  using pr_starts [of e l] by auto

text \<open>The second one, of an element of a list: it does not look like the opens_comp of a comprehension.\<close>

definition opens_comp :: "tok list \<Rightarrow> bool" where
  "opens_comp ts \<longleftrightarrow> (\<exists>x r. ts = Ident x # Keyword ''in'' # r)"

lemma opens_comp_simps [simp]:
  "opens_comp (Ident x # t # r) \<longleftrightarrow> t = Keyword ''in''" "\<not> opens_comp [t]" "\<not> opens_comp []"
  "\<not> opens_comp (Punct p # r)" "\<not> opens_comp (Keyword p # r)" "\<not> opens_comp (TInt i # r)" "\<not> opens_comp (TStr s # r)" "\<not> opens_comp (TFloat f # r)"
  "\<not> opens_comp (TParam s # r)"
  by (simp_all add: opens_comp_def)

lemma pr_not_comp: "printable e \<Longrightarrow> 5 \<le> l \<Longrightarrow> rest \<noteq> [] \<Longrightarrow> hd rest \<noteq> Keyword ''in'' \<Longrightarrow> \<not> opens_comp (pr l e @ rest)"
proof (induction e arbitrary: l rest)
  case (Lit x)
  then show ?case by (cases x) (simp_all add: pr_def paren_def)
next
  case (Var v)
  then show ?case by (cases rest) (simp_all add: pr_def paren_def)
next
  case (Prop b p)
  then show ?case using Prop.IH [of 9 "[Punct ''.'', name_tok p] @ rest"] by (simp add: pr_def paren_def)
next
  case (Binary bop a b)
  show ?case
  proof (cases "op_level bop < l")
    case False
    then have five: "5 \<le> op_level bop" using Binary.prems(2) by simp
    then have "5 \<le> left_level bop" by (simp add: left_level_def)
    moreover have "hd (op_toks bop @ r) \<noteq> Keyword ''in''" "op_toks bop \<noteq> []" for r using five by (cases bop; simp)+
    ultimately show ?thesis
      using Binary.IH(1) [of "left_level bop" "op_toks bop @ paren (right_level bop) b (body b) @ rest"] Binary.prems False
      by (simp add: pr_def paren_def)
  qed (simp add: pr_def paren_def)
next
  case (IsNull a w)
  then show ?case by (simp add: pr_def paren_def)
next
  case (Func f args d)
  then show ?case by (simp add: pr_def paren_def call_tok_def)
next
  case (ListPred kind x s c)
  then show ?case by (cases kind) (simp_all add: pr_def paren_def)
qed (simp_all add: pr_def paren_def)

section \<open>The levels of precedence\<close>

definition at_level :: "nat \<Rightarrow> expr cparser \<Rightarrow> expr cparser" where
  "at_level l e =
     (if l = 0 then parse_or e else if l = 1 then parse_xor e else if l = 2 then parse_and e
      else if l = 3 then fueled (parse_not e) else if l = 4 then parse_comparison e else if l = 5 then parse_additive e
      else if l = 6 then parse_multiplicative e else if l = 7 then fueled (parse_power e)
      else if l = 8 then fueled (parse_unary e) else if l = 9 then parse_postfix e else parse_primary e)"

definition left_levels :: "nat set" where "left_levels = {0, 1, 2, 4, 5, 6, 9}"

definition step_level :: "nat \<Rightarrow> expr cparser \<Rightarrow> expr \<Rightarrow> expr option cparser" where
  "step_level l e =
     (if l = 0 then left_step or_op (at_level 1 e) else if l = 1 then left_step xor_op (at_level 2 e)
      else if l = 2 then left_step and_op (at_level 3 e) else if l = 4 then comparison_step (at_level 5 e)
      else if l = 5 then left_step additive_op (at_level 6 e) else if l = 6 then left_step multiplicative_op (at_level 7 e)
      else postfix_step e)"

lemma at_left_level: "l \<in> left_levels \<Longrightarrow> at_level l e = pbind (at_level (Suc l) e) (\<lambda>x. fueled (\<lambda>n. chain n (step_level l e) x))"
  unfolding left_levels_def
  by (elim insertE emptyE)
    (simp_all add: at_level_def step_level_def parse_or_def parse_xor_def parse_and_def parse_comparison_def parse_additive_def
      parse_multiplicative_def parse_postfix_def left_assoc_def)

text \<open>What reading at a level means: for the recursive levels, with any fuel above the number of tokens.\<close>

definition reads_level :: "nat \<Rightarrow> expr cparser \<Rightarrow> tok list \<Rightarrow> expr \<Rightarrow> bool" where
  "reads_level l e ts x \<longleftrightarrow>
     (if l = 3 then \<forall>n > length ts. reads (parse_not e n) ts x (follow l)
      else if l = 7 then \<forall>n > length ts. reads (parse_power e n) ts x (follow l)
      else if l = 8 then \<forall>n > length ts. reads (parse_unary e n) ts x (follow l)
      else reads (at_level l e) ts x (follow l))"

abbreviation chains_level :: "nat \<Rightarrow> expr cparser \<Rightarrow> tok list \<Rightarrow> expr \<Rightarrow> bool" where
  "chains_level l e ts x \<equiv> chains (at_level (Suc l) e) (step_level l e) ts x (follow (Suc l))"

lemma reads_level_at: "reads_level l e ts x \<Longrightarrow> reads (at_level l e) ts x (follow l)"
  unfolding reads_level_def
  by (auto split: if_splits simp: at_level_def intro!: reads_fueled)

lemma follow_here: "follow l rest \<Longrightarrow> stops l (hd rest)"
  by (simp add: follow_def)

lemma stop_left: "(\<And>rest. follow l rest \<Longrightarrow> oper (hd rest) = None) \<Longrightarrow> reads (left_step oper p x) [] None (follow l)"
  unfolding left_step_def
proof (rule reads_look_rest)
  fix t
  assume "\<And>rest. follow l rest \<Longrightarrow> oper (hd rest) = None"
  then show "reads (case oper t of None \<Rightarrow> ret None | Some bop \<Rightarrow> pbind bump (\<lambda>_. pbind p (\<lambda>rhs. ret (Some (Binary bop x rhs)))))
    [] None (\<lambda>rest. hd rest = t \<and> follow l rest)"
    by (cases "oper t") (auto simp: reads_def ret_def)
qed

lemma stop_comparison: "reads (comparison_step p x) [] None (follow 4)"
  unfolding comparison_step_def
proof (rule reads_look_rest)
  fix t
  show "reads (case comparison_op t of
       Some bop \<Rightarrow> pbind bump (\<lambda>_. pbind (if bop \<in> {StartsWith, EndsWith} then expect_kw ''with'' else ret ()) (\<lambda>_.
         pbind p (\<lambda>rhs. ret (Some (Binary bop x rhs)))))
     | None \<Rightarrow> if t = Keyword ''is'' then pbind bump (\<lambda>_. pbind (eat_kw ''not'') (\<lambda>negated. pbind (expect_kw ''null'') (\<lambda>_.
             ret (Some (IsNull x (\<not> negated)))))) else ret None)
    [] None (\<lambda>rest. hd rest = t \<and> follow 4 rest)"
    by (cases "comparison_op t") (auto simp: reads_def ret_def follow_def stops_def)
qed

lemma stop_postfix: "reads (postfix_step e x) [] None (follow 9)"
  unfolding postfix_step_def
  by (rule reads_bind [where ts = "[]" and us = "[]", simplified], rule reads_eat(4), simp,
      rule reads_bind [where ts = "[]" and us = "[]", simplified], rule reads_eat(4), simp, rule reads_ret)
    (auto simp: follow_def stops_def)

lemma stop_level: "l \<in> left_levels \<Longrightarrow> reads (step_level l e x) [] None (follow l)"
  unfolding left_levels_def
  by (elim insertE emptyE)
    (simp_all add: step_level_def stop_comparison stop_postfix, (rule stop_left, simp add: follow_def stops_def)+)

lemma chains_level_reads: "l \<in> left_levels \<Longrightarrow> chains_level l e ts x \<Longrightarrow> reads_level l e ts x"
proof -
  assume l: "l \<in> left_levels" and c: "chains_level l e ts x"
  have "reads (at_level l e) ts x (follow l)"
    unfolding at_left_level [OF l]
    by (rule chains_end [OF c stop_level [OF l]]) (auto intro: follow_mono)
  with l show ?thesis by (auto simp: reads_level_def left_levels_def)
qed

text \<open>From a level to the next looser one.\<close>

lemma not_lift:
  "reads_level 4 e ts x \<Longrightarrow> ts \<noteq> [] \<Longrightarrow> hd ts \<noteq> Keyword ''not'' \<Longrightarrow> reads_level 3 e ts x"
  unfolding reads_level_def
proof (simp, intro allI impI)
  fix n assume r: "reads (at_level 4 e) ts x (follow 4)" "ts \<noteq> []" "hd ts \<noteq> Keyword ''not''" "length ts < n"
  then obtain k where n: "n = Suc k" by (cases n) auto
  have "reads (parse_comparison e) ts x (follow 3)"
    by (rule reads_weaken [OF r(1) [unfolded at_level_def, simplified]]) (auto intro: follow_mono)
  then have "reads (parse_not e (Suc k)) ts x (follow 3)"
    unfolding parse_not.simps by (intro skip_eat) (use r(2,3) in simp_all)
  then show "reads (parse_not e n) ts x (follow 3)" by (simp add: n)
qed

lemma unary_lift:
  "reads_level 9 e ts x \<Longrightarrow> ts \<noteq> [] \<Longrightarrow> hd ts \<noteq> Punct ''-'' \<Longrightarrow> hd ts \<noteq> Punct ''+'' \<Longrightarrow> reads_level 8 e ts x"
  unfolding reads_level_def
proof (simp, intro allI impI)
  fix n assume r: "reads (at_level 9 e) ts x (follow 9)" "ts \<noteq> []" "hd ts \<noteq> Punct ''-''" "hd ts \<noteq> Punct ''+''" "length ts < n"
  then obtain k where n: "n = Suc k" by (cases n) auto
  have "reads (parse_postfix e) ts x (follow 8)"
    by (rule reads_weaken [OF r(1) [unfolded at_level_def, simplified]]) (auto intro: follow_mono)
  then have "reads (parse_unary e (Suc k)) ts x (follow 8)"
    unfolding parse_unary.simps
    by (intro skip_eat) (use r(2,3,4) in \<open>simp_all add: skip_eat\<close>)
  then show "reads (parse_unary e n) ts x (follow 8)" by (simp add: n)
qed

lemma power_lift: "reads_level 8 e ts x \<Longrightarrow> reads_level 7 e ts x"
proof -
  assume "reads_level 8 e ts x"
  from reads_level_at [OF this] have r: "reads (fueled (parse_unary e)) ts x (follow 8)" by (simp add: at_level_def)
  have "reads (parse_power e (Suc k)) (ts @ [] @ []) x (follow 7)" for k
    unfolding parse_power.simps
    by (rule reads_bind [OF r], rule reads_bind [OF reads_eat(4)], simp, rule reads_ret)
      (auto simp: follow_def stops_def)
  then show ?thesis unfolding reads_level_def by (auto simp: gr0_conv_Suc less_eq_Suc_le dest!: Suc_le_D)
qed

lemma lift_level:
  assumes r: "reads_level (Suc l) e ts x" and l: "l < 10" and ts: "ts = t # ts'" "starts (Suc l) t"
  shows "reads_level l e ts x \<and> (l \<in> left_levels \<longrightarrow> chains_level l e ts x)"
proof (cases "l \<in> left_levels")
  case True
  have "chains_level l e ts x" by (rule chains_first, rule reads_level_at, rule r)
  with True chains_level_reads show ?thesis by blast
next
  case False
  with l have "l = 3 \<or> l = 7 \<or> l = 8" by (auto simp: left_levels_def)
  with r ts False show ?thesis
    using not_lift [of e ts x] power_lift [of e ts x] unary_lift [of e ts x] by (auto simp: starts_def)
qed

section \<open>Reading token by token\<close>

lemma reads_more: "reads p ts y G \<Longrightarrow> reads (f y) us x F \<Longrightarrow> (\<And>rest. rest \<noteq> [] \<Longrightarrow> F rest \<Longrightarrow> G (us @ rest)) \<Longrightarrow>
    reads (pbind p f) (ts @ us) x F"
  by (rule reads_bind)

lemma reads_Cons:
  "reads (f t) ts x F \<Longrightarrow> reads (pbind bump f) (t # ts) x F"
  "reads (g ()) ts x F \<Longrightarrow> reads (pbind (expect_punct p) g) (Punct p # ts) x F"
  "reads (g ()) ts x F \<Longrightarrow> reads (pbind (expect_kw k) g) (Keyword k # ts) x F"
  "reads (h n) ts x F \<Longrightarrow> reads (pbind name h) (Ident n # ts) x F"
  "reads (h n) ts x F \<Longrightarrow> reads (pbind name h) (name_tok n # ts) x F"
  "reads (c True) ts x F \<Longrightarrow> reads (pbind (eat_punct p) c) (Punct p # ts) x F"
  "reads (c True) ts x F \<Longrightarrow> reads (pbind (eat_kw k) c) (Keyword k # ts) x F"
proof -
  note b = reads_bind [where F = "\<lambda>_. True" and us = ts and G = F and y = x]
  show "reads (f t) ts x F \<Longrightarrow> reads (pbind bump f) (t # ts) x F" using b [OF reads_bump, of f t] by simp
  show "reads (g ()) ts x F \<Longrightarrow> reads (pbind (expect_punct p) g) (Punct p # ts) x F" using b [OF reads_expect(2), of g p] by simp
  show "reads (g ()) ts x F \<Longrightarrow> reads (pbind (expect_kw k) g) (Keyword k # ts) x F" using b [OF reads_expect(1), of g k] by simp
  show "reads (h n) ts x F \<Longrightarrow> reads (pbind name h) (Ident n # ts) x F" using b [OF reads_name(1), of h n] by simp
  show "reads (h n) ts x F \<Longrightarrow> reads (pbind name h) (name_tok n # ts) x F" using b [OF reads_name_tok, of h n] by simp
  show "reads (c True) ts x F \<Longrightarrow> reads (pbind (eat_punct p) c) (Punct p # ts) x F" using b [OF reads_eat(2), of c p] by simp
  show "reads (c True) ts x F \<Longrightarrow> reads (pbind (eat_kw k) c) (Keyword k # ts) x F" using b [OF reads_eat(1), of c k] by simp
qed

lemma skip_last:
  "reads (f False) [] x F \<Longrightarrow> (\<And>rest. rest \<noteq> [] \<Longrightarrow> F rest \<Longrightarrow> hd rest \<noteq> Keyword k) \<Longrightarrow> reads (pbind (eat_kw k) f) [] x F"
  "reads (f False) [] x F \<Longrightarrow> (\<And>rest. rest \<noteq> [] \<Longrightarrow> F rest \<Longrightarrow> hd rest \<noteq> Punct p) \<Longrightarrow> reads (pbind (eat_punct p) f) [] x F"
  using reads_bind [OF reads_eat(3), of f "[]" x F k] reads_bind [OF reads_eat(4), of f "[]" x F p] by auto

lemma reads_opt_none:
  "ts \<noteq> [] \<Longrightarrow> hd ts \<noteq> Keyword k \<Longrightarrow> reads (f None) ts x F \<Longrightarrow> reads (pbind (opt (eat_kw k) p) f) ts x F"
  "ts \<noteq> [] \<Longrightarrow> hd ts \<noteq> Punct k \<Longrightarrow> reads (f None) ts x F \<Longrightarrow> reads (pbind (opt (eat_punct k) p) f) ts x F"
  unfolding opt_def pbind_assoc by (simp_all add: skip_eat)

lemma reads_opt_some:
  assumes "reads p us y G" "reads (f (Some y)) ts x F" "\<And>rest. rest \<noteq> [] \<Longrightarrow> F rest \<Longrightarrow> G (ts @ rest)"
  shows "reads (pbind (opt (eat_kw k) p) f) (Keyword k # us @ ts) x F"
    "reads (pbind (opt (eat_punct q) p) f) (Punct q # us @ ts) x F"
  unfolding opt_def pbind_assoc
  by (intro reads_Cons; simp add: pbind_assoc; rule reads_more [OF assms(1)]; use assms(2,3) in simp)+

text \<open>Loops over separated items.\<close>

lemma reads_while:
  assumes true: "\<And>G. reads c [t] True G" and false: "reads c [] False (\<lambda>rest. hd rest \<noteq> t)"
    and items: "\<And>x. x \<in> set xs \<Longrightarrow> reads p (f x) x G" and G: "\<And>r. G (t # r)"
    and F: "\<And>rest. rest \<noteq> [] \<Longrightarrow> F rest \<Longrightarrow> G rest \<and> hd rest \<noteq> t"
    and n: "length (concat (map (\<lambda>x. t # f x) xs)) < n"
  shows "reads (while_eat n c p) (concat (map (\<lambda>x. t # f x) xs)) xs F"
  using items n
proof (induction xs arbitrary: n)
  case Nil
  then obtain k where n: "n = Suc k" by (cases n) auto
  have "reads (while_eat n c p) ([] @ []) [] F"
    unfolding n while_eat.simps by (rule reads_bind [OF false]) (use F in \<open>auto intro: reads_ret\<close>)
  then show ?case by simp
next
  case (Cons x xs)
  then obtain k where n: "n = Suc k" "length (concat (map (\<lambda>x. t # f x) xs)) < k" by (cases n) auto
  let ?ts = "concat (map (\<lambda>x. t # f x) xs)"
  have IH: "reads (while_eat k c p) ?ts xs F" using Cons n by simp
  have after: "G (?ts @ rest)" if "rest \<noteq> []" "F rest" for rest
    using that F G by (cases xs) auto
  have item: "reads p (f x) x G" using Cons.prems(1) by simp
  have rest: "reads (pbind (while_eat k c p) (\<lambda>xs. ret (x # xs))) (?ts @ []) (x # xs) F"
    by (rule reads_bind [OF IH reads_ret]) simp
  have "reads (pbind p (\<lambda>x. pbind (while_eat k c p) (\<lambda>xs. ret (x # xs)))) (f x @ ?ts @ []) (x # xs) F"
    by (rule reads_bind [OF item], rule rest) (use after in simp)
  then have "reads (while_eat n c p) ([t] @ f x @ ?ts @ []) (x # xs) F"
    unfolding n while_eat.simps by (intro reads_bind [OF true, where G = F]) auto
  then show ?case by simp
qed

lemma commas_Cons: "commas (ts # tss) = ts @ concat (map (\<lambda>ts. Punct '','' # ts) tss)"
  by (induction tss arbitrary: ts) auto

lemma reads_commas:
  assumes "xs \<noteq> []" and items: "\<And>x. x \<in> set xs \<Longrightarrow> reads p (f x) x G" and G: "\<And>r. G (Punct '','' # r)"
    and F: "\<And>rest. rest \<noteq> [] \<Longrightarrow> F rest \<Longrightarrow> G rest \<and> hd rest \<noteq> Punct '',''"
  shows "reads (comma_list p) (commas (map f xs)) xs F"
proof -
  obtain y ys where xs: "xs = y # ys" using assms(1) by (cases xs) auto
  let ?ts = "concat (map (\<lambda>x. Punct '','' # f x) ys)"
  have commas: "commas (map f xs) = f y @ ?ts @ []" by (simp add: xs commas_Cons comp_def)
  have after: "G (?ts @ rest)" if "rest \<noteq> []" "F rest" for rest
    using that F G by (cases ys) auto
  show ?thesis
    unfolding comma_list_def
  proof (rule reads_fueled)
    fix n assume n: "length (commas (map f xs)) < n"
    have loop: "reads (while_eat n (eat_punct '','') p) ?ts ys F"
      by (rule reads_while [OF reads_eat(2,4), where G = G]) (use n items F G in \<open>auto simp: xs commas_Cons comp_def\<close>)
    have rest: "reads (pbind (while_eat n (eat_punct '','') p) (\<lambda>xs. ret (y # xs))) (?ts @ []) (y # ys) F"
      by (rule reads_bind [OF loop reads_ret]) simp
    have "reads (sep_list n (eat_punct '','') p) (f y @ ?ts @ []) xs F"
      unfolding sep_list_def xs by (rule reads_bind [OF items], simp add: xs, rule rest) (use after in auto)
    then show "reads (sep_list n (eat_punct '','') p) (commas (map f xs)) xs F" by (simp only: commas)
  qed
qed

section \<open>The primary expressions\<close>

lemma reads_primary:
  "(\<And>pred. reads (primary_arm e pred t) (t # ts) x F) \<Longrightarrow> reads (parse_primary e) (t # ts) x F"
  unfolding parse_primary_def reads_def look_def by (simp add: peek_ahead)

lemma reads_primary_pred:
  assumes "\<And>S i rest. well_formed S \<Longrightarrow> ahead S i = (t # ts) @ rest \<Longrightarrow> rest \<noteq> [] \<Longrightarrow> F rest \<Longrightarrow> list_pred_ahead S i = b"
    "reads (primary_arm e b t) (t # ts) x F"
  shows "reads (parse_primary e) (t # ts) x F"
  unfolding parse_primary_def by (rule reads_ask [OF assms(1)]) (auto intro: reads_look assms(2))

lemma lit_reads: "reads (parse_primary e) [lit_tok l] (Lit l) F"
  by (rule reads_primary) (cases l; auto simp: primary_arm_def intro!: reads_Cons reads_ret)

lemma param_reads: "reads (parse_primary e) [TParam p] (Param p) F"
  by (rule reads_primary) (auto simp: primary_arm_def intro!: reads_Cons reads_ret)

text \<open>A name that is neither called nor the start of a path that is.\<close>

lemma ahead_last: "well_formed S \<Longrightarrow> ahead S i = ts @ [t] \<Longrightarrow> t = Eof"
proof -
  assume S: "well_formed S" and a: "ahead S i = ts @ [t]"
  have i: "i < length (toks S)" using ahead_length [of S i] a by (cases "i < length (toks S)") auto
  then have "last (ahead S i) = tok_of (last (toks S))" by (simp add: ahead_def last_map)
  moreover have "toks S \<noteq> []" using i by auto
  ultimately show "t = Eof" using S a by (simp add: well_formed_def last_conv_nth)
qed

lemma no_segments:
  assumes "well_formed S"
  shows "ahead S i = pre @ rest \<Longrightarrow> length pre = 2 * s \<Longrightarrow> rest \<noteq> [] \<Longrightarrow> no_call rest \<Longrightarrow> segments_from left s S i = 0"
proof (induction left arbitrary: s pre rest)
  case (Suc left)
  obtain t r where rest: "rest = t # r" using Suc.prems(3) by (cases rest) auto
  have t: "peek_at (2 * s) S i = t" using peek_at_ahead [of S i pre t r] Suc.prems(1,2) by (simp add: rest)
  show ?case
  proof (cases "\<exists>n. t = Punct ''.'' \<and> peek_at (2 * s + 1) S i = Ident n")
    case True
    then obtain n where n: "t = Punct ''.''" "peek_at (2 * s + 1) S i = Ident n" by blast
    have "r \<noteq> []" using ahead_last [OF assms, of i pre t] Suc.prems(1) n(1) by (auto simp: rest)
    then obtain t2 r2 where r: "r = t2 # r2" by (cases r) auto
    have "t2 = Ident n" using peek_at_ahead [of S i "pre @ [t]" t2 r2] Suc.prems(1,2) n(2) by (simp add: rest r)
    have "r2 \<noteq> []" using ahead_last [OF assms, of i "pre @ [t]" t2] Suc.prems(1) \<open>t2 = Ident n\<close> by (auto simp: rest r)
    then obtain t3 r3 where r2: "r2 = t3 # r3" by (cases r2) auto
    have "peek_at (2 * (s + 1)) S i = t3"
      using peek_at_ahead [of S i "pre @ [t, t2]" t3 r3] Suc.prems(1,2) by (simp add: rest r r2)
    moreover have "t3 \<noteq> Punct ''(''" "no_call r2"
      using Suc.prems(4) n(1) \<open>t2 = Ident n\<close> by (auto simp: rest r r2)
    moreover have "segments_from left (s + 1) S i = 0"
      by (rule Suc.IH [of "pre @ [t, t2]" r2]) (use Suc.prems(1,2) r2 calculation(3) in \<open>simp_all add: rest r\<close>)
    ultimately show ?thesis by simp
  next
    case False
    then show ?thesis by (auto simp: t split: tok.splits)
  qed
qed simp

lemma no_call_segments: "well_formed S \<Longrightarrow> ahead S i = rest \<Longrightarrow> rest \<noteq> [] \<Longrightarrow> no_call rest \<Longrightarrow> call_segments S i = 0"
  unfolding call_segments_def using no_segments [of S i "[]" rest 0] by simp

lemma var_reads: "reads (parse_primary e) [Ident v] (Var v) (follow 10)"
proof (rule reads_primary_pred [where b = False])
  fix S i rest
  assume "ahead S i = [Ident v] @ rest" "rest \<noteq> []" "follow 10 rest"
  then have "peek_at 1 S i \<noteq> Punct ''(''"
    using peek_at_ahead [of S i "[Ident v]" "hd rest" "tl rest"] by (simp add: follow_def)
  then show "list_pred_ahead S i = False" by (simp add: list_pred_ahead_def)
next
  have "reads (look call_segments (\<lambda>k. take_segments k v)) [] v (follow 10)"
    by (rule reads_ask [where b = 0]) (auto simp: follow_def no_call_segments intro: reads_ret)
  moreover have "reads (look peek (\<lambda>t. if t = Punct ''('' then parse_call_args e v
      else if t = Punct ''{'' then parse_map_projection e v else ret (Var v))) [] (Var v) (follow 10)"
    by (rule reads_look_rest, rule readsI) (auto simp: follow_def ret_def)
  ultimately have "reads (parse_named e v) ([] @ []) (Var v) (follow 10)"
    unfolding parse_named_def by (rule reads_bind) simp
  then show "reads (primary_arm e False (Ident v)) [Ident v] (Var v) (follow 10)"
    by (auto simp: primary_arm_def intro!: reads_Cons)
qed

text \<open>A name before \<open>(\<close> or \<open>{\<close>.\<close>

lemma named_reads:
  assumes "reads (parse_call_args e v) (Punct ''('' # ts) x F \<and> p = ''('' \<or> reads (parse_map_projection e v) (Punct ''{'' # ts) x F \<and> p = ''{''"
  shows "reads (parse_named e v) (Punct p # ts) x F"
proof -
  have "reads (look call_segments (\<lambda>k. take_segments k v)) [] v (\<lambda>rest. hd rest = Punct p)"
  proof (rule reads_ask [where b = 0])
    fix S i rest
    assume "well_formed S" "ahead S i = [] @ rest" "rest \<noteq> []" "hd rest = Punct p"
    moreover have "p \<noteq> ''.''" using assms by auto
    ultimately show "call_segments S i = 0" by (intro no_call_segments) (auto simp: neq_Nil_conv no_call_other)
  qed (simp add: reads_ret)
  moreover have "reads (look peek (\<lambda>t. if t = Punct ''('' then parse_call_args e v
      else if t = Punct ''{'' then parse_map_projection e v else ret (Var v))) (Punct p # ts) x F"
    using assms by (intro reads_look) auto
  ultimately have "reads (parse_named e v) ([] @ Punct p # ts) x F"
    unfolding parse_named_def by (rule reads_bind) simp
  then show ?thesis by simp
qed

text \<open>What the nested parser reads.\<close>

definition nests :: "expr cparser \<Rightarrow> tok list \<Rightarrow> expr \<Rightarrow> bool" where
  "nests e ts x \<longleftrightarrow> reads e ts x (follow 0)"

lemma nests_more:
  "nests e ts x \<Longrightarrow> reads (f x) (t # us) y F \<Longrightarrow> t \<in> closers \<Longrightarrow> reads (pbind e f) (ts @ t # us) y F"
  unfolding nests_def by (rule reads_more [where G = "follow 0"]) (auto intro: follow_closer)

lemma nests_last: "nests e ts x \<Longrightarrow> reads e ts x (\<lambda>rest. hd rest \<in> closers)"
  unfolding nests_def by (erule reads_weaken) (auto simp: neq_Nil_conv intro: follow_closer)

lemma in_closers [simp]:
  "Punct '')'' \<in> closers" "Punct '']'' \<in> closers" "Punct ''}'' \<in> closers" "Punct '','' \<in> closers" "Punct ''|'' \<in> closers"
  "Keyword ''when'' \<in> closers" "Keyword ''then'' \<in> closers" "Keyword ''else'' \<in> closers" "Keyword ''end'' \<in> closers"
  "Keyword ''where'' \<in> closers" "Keyword ''as'' \<in> closers" "Keyword ''order'' \<in> closers" "Keyword ''skip'' \<in> closers"
  "Keyword ''limit'' \<in> closers" "Keyword ''desc'' \<in> closers" "Keyword ''asc'' \<in> closers" "Keyword ''on'' \<in> closers"
  "Eof \<in> closers" "w \<in> set clause_words \<Longrightarrow> Keyword w \<in> closers"
  by (simp_all add: closers_def)

lemma paren_reads: "nests e ts x \<Longrightarrow> reads (parse_primary e) (Punct ''('' # ts @ [Punct '')'']) x F"
  by (rule reads_primary) (auto simp: primary_arm_def intro!: reads_Cons nests_more reads_ret)

text \<open>A list of nested expressions before a closing token.\<close>

lemma reads_list:
  assumes "\<And>x. x \<in> set xs \<Longrightarrow> reads p (f x) x (\<lambda>rest. hd rest \<in> closers)" "xs \<noteq> []"
    and "reads (g xs) (t # us) y F" "t \<in> closers - {Punct '',''}"
  shows "reads (pbind (comma_list p) g) (commas (map f xs) @ t # us) y F"
proof (rule reads_more)
  show "reads (comma_list p) (commas (map f xs)) xs (\<lambda>rest. hd rest \<in> closers - {Punct '',''})"
    by (rule reads_commas [OF assms(2,1)]) auto
qed (use assms in auto)

text \<open>The forms with lists.\<close>

lemma reads_ask_false: "reads (f False) ts x F \<Longrightarrow> ts \<noteq> [] \<Longrightarrow> hd ts \<noteq> Punct p \<Longrightarrow> reads (look (at_punct p) f) ts x F"
  by (rule reads_ask [where b = False]) (auto simp: neq_Nil_conv at_punct_def dest: peek_ahead)

lemma reads_ask_true: "reads (f True) (Punct p # ts) x F \<Longrightarrow> reads (look (at_punct p) f) (Punct p # ts) x F"
  by (rule reads_ask [where b = True]) (auto simp: at_punct_def dest: peek_ahead)

lemma look_pbind: "pbind (look q f) g = look q (\<lambda>x. pbind (f x) g)"
  by (intro ext) (simp add: pbind_def look_def)

text \<open>\<open>if at(close) { [] } else { list }\<close>.\<close>

lemma reads_optional_list:
  assumes "\<And>x. x \<in> set xs \<Longrightarrow> reads p (f x) x (\<lambda>rest. hd rest \<in> closers)"
    and "\<And>x. x \<in> set xs \<Longrightarrow> \<exists>t ts. f x = t # ts \<and> t \<noteq> Punct c"
    and g: "reads (g xs) (Punct c # us) y F" and c: "Punct c \<in> closers - {Punct '',''}"
  shows "reads (pbind (look (at_punct c) (\<lambda>none. if none then ret [] else comma_list p)) g) (commas (map f xs) @ Punct c # us) y F"
proof (cases xs)
  case Nil
  then show ?thesis using g by (auto simp: look_pbind intro!: reads_ask_true)
next
  case (Cons x xs')
  then obtain t ts where "f x = t # ts" "t \<noteq> Punct c" using assms(2) by fastforce
  then have "commas (map f xs) = t # ts @ concat (map (\<lambda>ts. Punct '','' # ts) (map f xs'))" by (simp add: Cons commas_Cons)
  moreover have "reads (pbind (comma_list p) g) (commas (map f xs) @ Punct c # us) y F"
    by (rule reads_list [where p = p and f = f and xs = xs and g = g]) (use assms(1) g c Cons in auto)
  ultimately show ?thesis
    unfolding look_pbind using \<open>t \<noteq> Punct c\<close> by (intro reads_ask_false) auto
qed

lemma call_args_reads:
  assumes "args = [Star] \<or> (\<forall>a \<in> set args. printable a \<and> nests e (body a) a)"
  shows "reads (parse_call_args e f) (Punct ''('' # (if uniq then [Keyword ''distinct''] else []) @
     (if args = [Star] then [Punct ''*''] else commas (map body args)) @ [Punct '')'']) (Func f args uniq) F"
proof -
  define rest where "rest = (if args = [Star] then [Punct ''*''] else commas (map body args)) @ [Punct '')'']"
  have first: "\<exists>t ts. body a = t # ts \<and> starts 0 t" if "printable a" for a
    using body_starts [OF that] by (auto intro: starts_mono)
  have tail: "reads (pbind (expect_punct '')'') (\<lambda>_. ret (Func f args uniq))) [Punct '')''] (Func f args uniq) F"
    by (intro reads_Cons reads_ret)
  let ?p = "pbind (pbind (eat_punct ''*'') (\<lambda>star. if star then ret [Star]
              else look (at_punct '')'') (\<lambda>none. if none then ret [] else comma_list e)))
      (\<lambda>args. pbind (expect_punct '')'') (\<lambda>_. ret (Func f args uniq)))"
  have "reads ?p rest (Func f args uniq) F \<and> hd rest \<noteq> Keyword ''distinct'' \<and> rest \<noteq> []"
  proof (cases "args = [Star]")
    case True
    then show ?thesis using tail by (auto simp: rest_def pbind_assoc intro!: reads_Cons)
  next
    case False
    then have args: "\<And>a. a \<in> set args \<Longrightarrow> printable a" "\<And>a. a \<in> set args \<Longrightarrow> nests e (body a) a" using assms by auto
    have list: "reads (pbind (look (at_punct '')'') (\<lambda>none. if none then ret [] else comma_list e))
      (\<lambda>args. pbind (expect_punct '')'') (\<lambda>_. ret (Func f args uniq)))) (commas (map body args) @ [Punct '')'']) (Func f args uniq) F"
      by (rule reads_optional_list) (use args(2) first [OF args(1)] tail in \<open>fastforce simp: starts_def intro: nests_last\<close>)+
    have "\<exists>t ts. rest = t # ts \<and> (starts 0 t \<or> t = Punct '')'')"
      using first [OF args(1)] False by (cases args) (fastforce simp: rest_def commas_Cons)+
    then obtain t ts where "rest = t # ts" "starts 0 t \<or> t = Punct '')''" by blast
    with list False show ?thesis by (auto simp: rest_def pbind_assoc starts_def intro!: skip_eat)
  qed
  then show ?thesis
    unfolding parse_call_args_def rest_def [symmetric]
    by (cases uniq) (auto intro!: reads_Cons skip_eat)
qed

lemma call_reads:
  assumes "args = [Star] \<or> (\<forall>a \<in> set args. printable a \<and> nests e (body a) a)" "to_ascii_lowercase f \<notin> list_pred_names"
  shows "reads (parse_primary e) (body (Func f args uniq)) (Func f args uniq) F"
proof -
  define ts where "ts = (if uniq then [Keyword ''distinct''] else []) @
     (if args = [Star] then [Punct ''*''] else commas (map body args)) @ [Punct '')'']"
  have args: "reads (parse_call_args e f) (Punct ''('' # ts) (Func f args uniq) F"
    unfolding ts_def by (rule call_args_reads [OF assms(1)])
  have ask: "reads (look (at_punct ''('') (\<lambda>call. if call then parse_call_args e k else ret (Var k))) (Punct ''('' # ts) x F"
    if "reads (parse_call_args e k) (Punct ''('' # ts) x F" for k x
    using that by (intro reads_ask_true) simp
  have "reads (parse_primary e) (call_tok f # Punct ''('' # ts) (Func f args uniq) F"
  proof (rule reads_primary)
    fix pred
    show "reads (primary_arm e pred (call_tok f)) (call_tok f # Punct ''('' # ts) (Func f args uniq) F"
      using assms(2) args
      by (auto simp: primary_arm_def call_tok_def list_pred_names_def intro!: reads_Cons ask named_reads)
  qed
  moreover have "body (Func f args uniq) = call_tok f # Punct ''('' # ts" by (simp add: ts_def)
  ultimately show ?thesis by simp
qed

lemma not_comp_ahead:
  assumes "\<And>rest. rest \<noteq> [] \<Longrightarrow> F rest \<Longrightarrow> \<not> opens_comp (ts @ rest)" "reads (f False) ts x F"
  shows "reads (look binder_ahead f) ts x F"
proof (rule reads_ask [where b = False])
  fix S i rest
  assume S: "well_formed S" "ahead S i = ts @ rest" "rest \<noteq> []" "F rest"
  then obtain t r where tr: "ts @ rest = t # r" by (cases "ts @ rest") auto
  show "binder_ahead S i = False"
  proof (cases r)
    case Nil
    then have "t = Eof" using ahead_last [OF S(1), of i "[]" t] S(2) tr by simp
    then show ?thesis using peek_ahead [of S i t r] S(2) tr by (simp add: binder_ahead_def)
  next
    case (Cons t2 r2)
    then have "peek S i = t" "peek_at 1 S i = t2"
      using peek_ahead [of S i t r] peek_at_ahead [of S i "[t]" t2 r2] S(2) tr by simp_all
    then show ?thesis
      using assms(1) [OF S(3,4)] tr Cons by (auto simp: binder_ahead_def opens_comp_def split: tok.splits)
  qed
qed (rule assms(2))

lemma list_reads:
  assumes xs: "\<forall>x \<in> set xs. printable x \<and> nests e (pr 5 x) x"
  shows "reads (parse_primary e) (body (ListE xs)) (ListE xs) F"
proof -
  have first: "\<exists>t ts. pr 5 x = t # ts \<and> starts 5 t" if "x \<in> set xs" for x
    using xs that pr_starts by blast
  have tail: "reads (pbind (expect_punct '']'') (\<lambda>_. ret (ListE xs))) [Punct '']''] (ListE xs) F"
    by (intro reads_Cons reads_ret)
  have "reads (pbind (look (at_punct '']'') (\<lambda>none. if none then ret [] else comma_list e)) (\<lambda>items.
      pbind (expect_punct '']'') (\<lambda>_. ret (ListE items)))) (commas (map (pr 5) xs) @ [Punct '']'']) (ListE xs) F"
    by (rule reads_optional_list) (use xs first tail in \<open>fastforce simp: starts_def intro: nests_last\<close>)+
  moreover have "\<not> opens_comp ((commas (map (pr 5) xs) @ [Punct '']'']) @ rest)" for rest
  proof (cases xs)
    case (Cons x ys)
    have "\<not> opens_comp (pr 5 x @ concat (map (\<lambda>ts. Punct '','' # ts) (map (pr 5) ys)) @ Punct '']'' # rest)"
      using xs by (intro pr_not_comp) (cases ys; auto simp: Cons)+
    then show ?thesis by (simp add: Cons commas_Cons)
  qed simp
  ultimately have "reads (parse_bracket e) (commas (map (pr 5) xs) @ [Punct '']'']) (ListE xs) F"
    unfolding parse_bracket_def by (intro not_comp_ahead) simp_all
  then have "reads (parse_primary e) (Punct ''['' # commas (map (pr 5) xs) @ [Punct '']'']) (ListE xs) F"
    by (intro reads_primary) (auto simp: primary_arm_def intro!: reads_Cons)
  then show ?thesis by (simp add: pr_def [abs_def])
qed

lemma entry_reads:
  assumes "nests e ts v"
  shows "reads (pbind name (\<lambda>k. pbind (expect_punct '':'') (\<lambda>_. pbind e (\<lambda>v. ret (k, v))))) (name_tok k # Punct '':'' # ts) (k, v)
    (\<lambda>rest. hd rest \<in> closers)"
proof -
  have "reads (pbind e (\<lambda>v. ret (k, v))) (ts @ []) (k, v) (\<lambda>rest. hd rest \<in> closers)"
    using nests_last [OF assms] by (rule reads_more) (simp_all add: reads_ret)
  then show ?thesis by (intro reads_Cons) simp
qed

abbreviation kv_toks :: "string \<times> expr \<Rightarrow> tok list" where
  "kv_toks \<equiv> (\<lambda>(k, v). name_tok k # Punct '':'' # body v)"

lemma prop_map_reads:
  assumes kv: "\<forall>(k, v) \<in> set kv. nests e (body v) v"
  shows "reads (parse_prop_map e) (Punct ''{'' # commas (map kv_toks kv) @ [Punct ''}'']) kv F"
proof (cases "kv = []")
  case True
  then show ?thesis unfolding parse_prop_map_def by (auto intro!: reads_Cons reads_ret)
next
  case False
  let ?p = "pbind name (\<lambda>k. pbind (expect_punct '':'') (\<lambda>_. pbind e (\<lambda>v. ret (k, v))))"
  have "reads (pbind (comma_list ?p) (\<lambda>out. pbind (expect_punct ''}'') (\<lambda>_. ret out))) (commas (map kv_toks kv) @ [Punct ''}'']) kv F"
  proof (rule reads_list)
    show "reads ?p (kv_toks x) x (\<lambda>rest. hd rest \<in> closers)" if "x \<in> set kv" for x
      using kv that by (cases x) (auto simp only: prod.case intro!: entry_reads)
  qed (auto simp: False intro!: reads_Cons reads_ret)
  moreover have "\<exists>k r. commas (map kv_toks kv) = name_tok k # r" using False by (cases kv) (auto simp: commas_Cons)
  ultimately show ?thesis unfolding parse_prop_map_def by (auto intro!: reads_Cons skip_eat)
qed

lemma map_reads:
  assumes "\<forall>(k, v) \<in> set kv. nests e (body v) v"
  shows "reads (parse_primary e) (body (MapE kv)) (MapE kv) F"
proof -
  have "reads (pbind (parse_prop_map e) (\<lambda>kv. ret (MapE kv))) ((Punct ''{'' # commas (map kv_toks kv) @ [Punct ''}'']) @ []) (MapE kv) F"
    by (rule reads_more [OF prop_map_reads [OF assms, of "\<lambda>_. True"]]) (simp_all add: reads_ret)
  then show ?thesis by (auto intro!: reads_primary simp: primary_arm_def)
qed

text \<open>\<open>CASE\<close>, comprehensions, predicates over lists and map projections.\<close>

abbreviation when_toks :: "expr \<times> expr \<Rightarrow> tok list" where
  "when_toks \<equiv> (\<lambda>(c, v). Keyword ''when'' # body c @ Keyword ''then'' # body v)"

lemma when_reads:
  assumes "nests e (body c) c" "nests e (body v) v"
  shows "reads (pbind e (\<lambda>cond. pbind (expect_kw ''then'') (\<lambda>_. pbind e (\<lambda>v. ret (cond, v)))))
    (body c @ Keyword ''then'' # body v) (c, v) (\<lambda>rest. hd rest \<in> closers)"
proof -
  have "reads (pbind e (\<lambda>v. ret (c, v))) (body v @ []) (c, v) (\<lambda>rest. hd rest \<in> closers)"
    using nests_last [OF assms(2)] by (rule reads_more) (simp_all add: reads_ret)
  then show ?thesis by (intro nests_more [OF assms(1)] reads_Cons) simp_all
qed

lemma end_reads:
  assumes "\<And>x. els = Some x \<Longrightarrow> nests e (body x) x"
  shows "reads (pbind (opt (eat_kw ''else'') e) (\<lambda>els. pbind (expect_kw ''end'') (\<lambda>_. ret (g els))))
    ((case els of None \<Rightarrow> [] | Some x \<Rightarrow> Keyword ''else'' # body x) @ [Keyword ''end'']) (g els) F"
proof (cases els)
  case None
  then show ?thesis by (auto intro!: reads_opt_none reads_Cons reads_ret)
next
  case (Some x)
  have "reads (pbind (expect_kw ''end'') (\<lambda>_. ret (g els))) [Keyword ''end''] (g els) F" by (intro reads_Cons reads_ret)
  with reads_opt_some(1) [OF nests_last [OF assms [OF Some]], of "\<lambda>els. pbind (expect_kw ''end'') (\<lambda>_. ret (g els))"] Some
  show ?thesis by simp
qed

lemma case_reads:
  assumes op: "\<And>x. operand = Some x \<Longrightarrow> printable x \<and> nests e (body x) x" "operand = None \<Longrightarrow> whens \<noteq> []"
    and whens: "\<forall>(c, v) \<in> set whens. nests e (body c) c \<and> nests e (body v) v"
    and els: "\<And>x. els = Some x \<Longrightarrow> nests e (body x) x"
  shows "reads (parse_primary e) (body (CaseE operand whens els)) (CaseE operand whens els) F"
proof -
  let ?w = "concat (map when_toks whens)"
  let ?ending = "(case els of None \<Rightarrow> [] | Some x \<Rightarrow> Keyword ''else'' # body x) @ [Keyword ''end'']"
  let ?item = "pbind e (\<lambda>cond. pbind (expect_kw ''then'') (\<lambda>_. pbind e (\<lambda>v. ret (cond, v))))"
  let ?rest = "\<lambda>operand. pbind (fueled (\<lambda>n. while_eat n (eat_kw ''when'') ?item)) (\<lambda>whens.
     pbind (opt (eat_kw ''else'') e) (\<lambda>els. pbind (expect_kw ''end'') (\<lambda>_. ret (CaseE operand whens els))))"
  have end_hd: "hd (?ending @ r) \<in> closers \<and> hd (?ending @ r) \<noteq> Keyword ''when''" for r by (cases els) simp_all
  have w: "?w = concat (map (\<lambda>cv. Keyword ''when'' # (case cv of (c, v) \<Rightarrow> body c @ Keyword ''then'' # body v)) whens)"
    by (rule arg_cong [where f = concat]) auto
  have "reads (fueled (\<lambda>n. while_eat n (eat_kw ''when'') ?item)) ?w whens (\<lambda>rest. hd rest \<in> closers \<and> hd rest \<noteq> Keyword ''when'')"
    unfolding w
  proof (rule reads_fueled, rule reads_while [where G = "\<lambda>rest. hd rest \<in> closers"])
    show "reads ?item (case x of (c, v) \<Rightarrow> body c @ Keyword ''then'' # body v) x (\<lambda>rest. hd rest \<in> closers)"
      if "x \<in> set whens" for x
      using whens that by (cases x) (auto simp only: prod.case intro!: when_reads)
  qed (auto intro: reads_eat)
  then have rest: "reads (?rest operand) (?w @ ?ending) (CaseE operand whens els) F"
    by (rule reads_more) (use end_reads [OF els] end_hd in auto)
  have hd_w: "hd (?w @ ?ending) \<in> closers" "(?w @ ?ending) = hd (?w @ ?ending) # tl (?w @ ?ending)"
    using end_hd [of "[]"] by (cases whens; auto split: option.splits)+
  have "reads (pbind (look (at_kw ''when'') (\<lambda>w. if \<not> w then pbind e (\<lambda>x. ret (Some x)) else ret None)) ?rest)
     ((case operand of None \<Rightarrow> [] | Some x \<Rightarrow> body x) @ ?w @ ?ending) (CaseE operand whens els) F"
  proof (cases operand)
    case None
    then obtain ts where ts: "?w @ ?ending = Keyword ''when'' # ts" using op(2) by (cases whens) auto
    have "reads (look (at_kw ''when'') (\<lambda>w. pbind (if \<not> w then pbind e (\<lambda>x. ret (Some x)) else ret None) ?rest))
       (?w @ ?ending) (CaseE operand whens els) F"
      unfolding ts by (rule reads_ask [where b = True])
        (use rest None ts in \<open>auto simp: at_kw_def dest: peek_ahead\<close>)
    then show ?thesis by (simp add: None look_pbind)
  next
    case (Some x)
    then obtain t ts where ts: "body x = t # ts" "t \<noteq> Keyword ''when''"
      using body_starts [of x] op(1) by (auto simp: starts_def)
    have "reads (pbind e (\<lambda>x. ?rest (Some x))) (body x @ hd (?w @ ?ending) # tl (?w @ ?ending)) (CaseE operand whens els) F"
      by (rule nests_more) (use op(1) [OF Some] rest hd_w Some in auto)
    then have "reads (look (at_kw ''when'') (\<lambda>w. pbind (if \<not> w then pbind e (\<lambda>x. ret (Some x)) else ret None) ?rest))
       (body x @ ?w @ ?ending) (CaseE operand whens els) F"
      unfolding hd_w(2) [symmetric] by (intro reads_ask [where b = False])
        (auto simp: at_kw_def pbind_assoc ts dest: peek_ahead)
    then show ?thesis by (simp add: Some look_pbind)
  qed
  then have "reads (parse_case e) (Keyword ''case'' # (case operand of None \<Rightarrow> [] | Some x \<Rightarrow> body x) @ ?w @ ?ending) (CaseE operand whens els) F"
    unfolding parse_case_def by (intro reads_Cons)
  then have "reads (parse_primary e) (Keyword ''case'' # (case operand of None \<Rightarrow> [] | Some x \<Rightarrow> body x) @ ?w @ ?ending) (CaseE operand whens els) F"
    by (intro reads_primary) (simp add: primary_arm_def)
  then show ?thesis by simp
qed

lemma comp_reads:
  assumes nests: "nests e (body source) source" "\<And>x. cond = Some x \<Longrightarrow> nests e (body x) x" "\<And>x. project = Some x \<Longrightarrow> nests e (body x) x"
  shows "reads (parse_primary e) (body (ListComp x source cond project)) (ListComp x source cond project) F"
proof -
  let ?ending = "(case project of None \<Rightarrow> [] | Some p \<Rightarrow> Punct ''|'' # body p) @ [Punct '']'']"
  let ?where = "(case cond of None \<Rightarrow> [] | Some f \<Rightarrow> Keyword ''where'' # body f) @ ?ending"
  let ?close = "\<lambda>cond project. pbind (expect_punct '']'') (\<lambda>_. ret (ListComp x source cond project))"
  have close: "reads (?close cond project) [Punct '']''] (ListComp x source cond project) F" by (intro reads_Cons reads_ret)
  have ends: "reads (pbind (opt (eat_punct ''|'') e) (?close cond)) ?ending (ListComp x source cond project) F"
  proof (cases project)
    case None
    then show ?thesis using close by (auto intro!: reads_opt_none)
  next
    case (Some p)
    with reads_opt_some(2) [OF nests_last [OF nests(3) [OF Some]], where f = "?close cond"] close show ?thesis by simp
  qed
  have end_hd: "hd (?ending @ r) \<in> closers" "?ending \<noteq> []" "hd ?ending \<noteq> Keyword ''where''" for r by (cases project; simp)+
  have wheres: "reads (pbind (opt (eat_kw ''where'') e) (\<lambda>cond. pbind (opt (eat_punct ''|'') e) (?close cond))) ?where
      (ListComp x source cond project) F"
  proof (cases cond)
    case None
    then show ?thesis using ends end_hd by (auto intro!: reads_opt_none)
  next
    case (Some f)
    with reads_opt_some(1) [OF nests_last [OF nests(2) [OF Some]], where f = "\<lambda>cond. pbind (opt (eat_punct ''|'') e) (?close cond)"]
      ends end_hd(1)
    show ?thesis by simp
  qed
  have where_hd: "hd ?where \<in> closers" "?where = hd ?where # tl ?where" using end_hd(1) [of "[]"] by (cases cond; auto split: option.splits)+
  have "reads (pbind e (\<lambda>source. pbind (opt (eat_kw ''where'') e) (\<lambda>cond. pbind (opt (eat_punct ''|'') e)
      (\<lambda>project. pbind (expect_punct '']'') (\<lambda>_. ret (ListComp x source cond project))))))
    (body source @ hd ?where # tl ?where) (ListComp x source cond project) F"
    by (rule nests_more [OF nests(1)]) (use wheres where_hd in auto)
  then have "reads (parse_bracket e) (Ident x # Keyword ''in'' # body source @ ?where) (ListComp x source cond project) F"
    unfolding parse_bracket_def where_hd(2) [symmetric]
    by (intro reads_ask [where b = True]) (auto simp: binder_ahead_def dest: peek_ahead peek_at_ahead [where ts = "[_]", simplified] intro!: reads_Cons)
  then have "reads (parse_primary e) (Punct ''['' # Ident x # Keyword ''in'' # body source @ ?where) (ListComp x source cond project) F"
    by (intro reads_primary) (auto simp: primary_arm_def intro!: reads_Cons)
  then show ?thesis by simp
qed

lemma pred_reads:
  assumes nests: "nests e (body source) source" "nests e (body cond) cond"
  shows "reads (parse_primary e) (body (ListPred kind x source cond)) (ListPred kind x source cond) F"
proof -
  let ?ts = "Punct ''('' # Ident x # Keyword ''in'' # body source @ Keyword ''where'' # body cond @ [Punct '')'']"
  have "reads (parse_list_pred e kind) ?ts (ListPred kind x source cond) F"
    unfolding parse_list_pred_def
    by (intro reads_Cons nests_more [OF nests(1)] nests_more [OF nests(2)] reads_ret) simp_all
  then have "reads (parse_primary e) (pred_tok kind # ?ts) (ListPred kind x source cond) F"
  proof (intro reads_primary_pred [where b = True])
    fix S i rest
    assume "ahead S i = (pred_tok kind # ?ts) @ rest"
    then show "list_pred_ahead S i = True"
      using peek_at_ahead [of S i "[pred_tok kind]"] peek_at_ahead [of S i "[pred_tok kind, Punct ''('']"]
        peek_at_ahead [of S i "[pred_tok kind, Punct ''('', Ident x]"]
      by (simp add: list_pred_ahead_def numeral_2_eq_2 numeral_3_eq_3)
  qed (cases kind; auto simp: primary_arm_def list_pred_of_def to_ascii_lowercase_def to_lower_b_def is_upper_b_def intro!: reads_Cons)
  then show ?thesis by simp
qed

lemma item_reads:
  assumes "\<And>k v. it = Entry k v \<Longrightarrow> nests e (body v) v"
  shows "reads (map_proj_entry e) (item_toks it) it (\<lambda>rest. hd rest \<in> closers)"
proof (cases it)
  case (Entry k v)
  have "reads (pbind e (\<lambda>v. ret (Entry k v))) (body v @ []) (Entry k v) (\<lambda>rest. hd rest \<in> closers)"
    using nests_last [OF assms [OF Entry]] by (rule reads_more) (simp_all add: reads_ret)
  then show ?thesis by (auto simp: Entry map_proj_entry_def intro!: skip_eat reads_Cons)
qed (auto simp: map_proj_entry_def intro!: reads_Cons skip_eat reads_ret)

lemma map_projection_reads:
  assumes its: "\<forall>it \<in> set its. \<forall>k v. it = Entry k v \<longrightarrow> nests e (body v) v"
  shows "reads (parse_primary e) (body (MapProjection x its)) (MapProjection x its) F"
proof -
  let ?ts = "commas (map item_toks its) @ [Punct ''}'']"
  have item: "reads (map_proj_entry e) (item_toks it) it (\<lambda>rest. hd rest \<in> closers)" if "it \<in> set its" for it
    using its that by (intro item_reads) auto
  have tail: "reads (pbind (expect_punct ''}'') (\<lambda>_. ret (MapProjection x its))) [Punct ''}''] (MapProjection x its) F"
    by (intro reads_Cons reads_ret)
  have first: "\<exists>t ts. item_toks it = t # ts \<and> t \<noteq> Punct ''}''" for it by (cases it) auto
  have "reads (pbind (look (at_punct ''}'') (\<lambda>none. if none then ret [] else comma_list (map_proj_entry e))) (\<lambda>items.
      pbind (expect_punct ''}'') (\<lambda>_. ret (MapProjection x items)))) ?ts (MapProjection x its) F"
    by (rule reads_optional_list) (use item first tail in auto)
  then have args: "reads (parse_map_projection e x) (Punct ''{'' # ?ts) (MapProjection x its) F"
    unfolding parse_map_projection_def by (intro reads_Cons)
  have "reads (parse_primary e) (Ident x # Punct ''{'' # ?ts) (MapProjection x its) F"
  proof (rule reads_primary_pred [where b = False])
    fix S i rest
    assume "ahead S i = (Ident x # Punct ''{'' # ?ts) @ rest"
    then have "peek_at 1 S i = Punct ''{''" using peek_at_ahead [of S i "[Ident x]"] by simp
    then show "list_pred_ahead S i = False" by (simp add: list_pred_ahead_def)
  qed (use args in \<open>auto simp: primary_arm_def intro!: reads_Cons named_reads\<close>)
  then show ?thesis by simp
qed

section \<open>The operators\<close>

text \<open>What is read at a level is read at every looser one.\<close>

lemma looser_level:
  assumes "reads_level l e ts x" "l \<le> 10" "ts = t # ts'" "starts l t" "k \<le> l"
  shows "reads_level k e ts x"
  using \<open>k \<le> l\<close>
proof (induction rule: inc_induct)
  case (step n)
  have "starts (Suc n) t" using assms(4) step.hyps by (auto intro: starts_mono)
  with lift_level [OF step.IH _ assms(3)] step.hyps assms(2) show ?case by simp
qed (rule assms(1))

text \<open>An expression is read at its own level; on a level of left-associative operators it can be
  continued.\<close>

definition own :: "expr cparser \<Rightarrow> expr \<Rightarrow> bool" where
  "own e x \<longleftrightarrow> (if level x \<in> left_levels then chains_level (level x) e (body x) x else reads_level (level x) e (body x) x)"

lemma own_primary: "level x = 10 \<Longrightarrow> reads (parse_primary e) (body x) x (follow 10) \<Longrightarrow> own e x"
  by (simp add: own_def left_levels_def reads_level_def at_level_def)

lemma level_le: "level x \<le> 10"
proof (cases x)
  case (Binary bop a b)
  then show ?thesis by (cases bop) simp_all
qed simp_all

lemma own_reads: "own e x \<Longrightarrow> reads_level (level x) e (body x) x"
  unfolding own_def by (auto intro: chains_level_reads split: if_splits)

text \<open>At every level, with the parentheses the printer sets.\<close>

definition levels :: "expr cparser \<Rightarrow> expr \<Rightarrow> bool" where
  "levels e x \<longleftrightarrow> (\<forall>l \<le> 10. reads_level l e (pr l x) x \<and> (l \<in> left_levels \<longrightarrow> chains_level l e (pr l x) x))"

lemma own_levels:
  assumes "printable x" "own e x" "nests e (body x) x"
  shows "levels e x"
proof -
  have "reads_level l e (pr l x) x \<and> (l \<in> left_levels \<longrightarrow> chains_level l e (pr l x) x)" if l: "l \<le> 10" for l
  proof -
    obtain t ts where ts: "pr l x = t # ts" "starts l t" using pr_starts [OF assms(1)] by blast
    consider "l < level x" | "l = level x" | "level x < l" by linarith
    then show ?thesis
    proof cases
      case 1
      then have pr: "pr l x = body x" "pr (Suc l) x = body x" by (simp_all add: pr_def paren_def)
      obtain t' ts' where ts': "body x = t' # ts'" "starts (level x) t'" using body_starts [OF assms(1)] by blast
      have "reads_level (Suc l) e (body x) x"
        by (rule looser_level [OF own_reads [OF assms(2)] level_le ts']) (use 1 in simp)
      then have "reads_level l e (body x) x \<and> (l \<in> left_levels \<longrightarrow> chains_level l e (body x) x)"
        by (rule lift_level [OF _ _ ts'(1)]) (use 1 ts'(2) level_le [of x] in \<open>auto intro: starts_mono\<close>)
      then show ?thesis by (simp add: pr)
    next
      case 2
      then have "pr l x = body x" by (simp add: pr_def paren_def)
      with 2 assms(2) own_reads [OF assms(2)] show ?thesis by (auto simp: own_def)
    next
      case 3
      then have pr: "pr l x = Punct ''('' # body x @ [Punct '')'']" by (simp add: pr_def paren_def)
      have top: "reads_level 10 e (pr l x) x"
        unfolding pr by (simp add: reads_level_def at_level_def paren_reads [OF assms(3)])
      show ?thesis
      proof (cases "l = 10")
        case True
        with top show ?thesis by (simp add: left_levels_def)
      next
        case False
        have "reads_level (Suc l) e (pr l x) x"
          by (rule looser_level [OF top order_refl pr starts_open]) (use l False in simp)
        then show ?thesis by (rule lift_level [OF _ _ pr starts_open]) (use l False in simp)
      qed
    qed
  qed
  then show ?thesis by (simp add: levels_def)
qed

lemma levels_read: "levels e x \<Longrightarrow> l \<le> 10 \<Longrightarrow> reads (at_level l e) (pr l x) x (follow l)"
  by (simp add: levels_def reads_level_at)

lemma levels_chains: "levels e x \<Longrightarrow> l \<in> left_levels \<Longrightarrow> chains_level l e (pr l x) x"
proof -
  assume a: "levels e x" "l \<in> left_levels"
  then have "l \<le> 10" by (auto simp: left_levels_def)
  with a show "chains_level l e (pr l x) x" unfolding levels_def by blast
qed

lemma levels_nest:
  assumes "levels e x" "printable x" "l \<le> 10"
  shows "reads (parse_or e) (pr l x) x (follow 0)"
proof -
  obtain t ts where ts: "pr l x = t # ts" "starts l t" using pr_starts [OF assms(2)] by blast
  have "reads_level l e (pr l x) x" using assms(1,3) by (simp add: levels_def)
  from looser_level [OF this assms(3) ts, of 0] have "reads_level 0 e (pr l x) x" by simp
  then show ?thesis by (simp add: reads_level_def at_level_def)
qed

lemma some_reads: "reads p us b G \<Longrightarrow> reads (pbind p (\<lambda>rhs. ret (Some (Binary bop a rhs)))) us (Some (Binary bop a b)) G"
  using reads_more [of p us b G "\<lambda>rhs. ret (Some (Binary bop a rhs))" "[]" "Some (Binary bop a b)" G]
  by (simp add: reads_ret)

lemma left_step_reads: "oper t = Some bop \<Longrightarrow> reads p us b G \<Longrightarrow> reads (left_step oper p a) (t # us) (Some (Binary bop a b)) G"
  unfolding left_step_def by (intro reads_look) (simp add: reads_Cons some_reads)

lemma comparison_step_reads:
  assumes "comparison_op t = Some bop" "reads p us b G"
  shows "bop \<notin> {StartsWith, EndsWith} \<Longrightarrow> reads (comparison_step p a) (t # us) (Some (Binary bop a b)) G"
    "bop \<in> {StartsWith, EndsWith} \<Longrightarrow> reads (comparison_step p a) (t # Keyword ''with'' # us) (Some (Binary bop a b)) G"
  unfolding comparison_step_def
  by (intro reads_look; use assms in \<open>auto intro!: reads_Cons some_reads\<close>)+

lemma step_level_reads:
  assumes "bop \<noteq> Pow" "reads (at_level (Suc (op_level bop)) e) us b G"
  shows "reads (step_level (op_level bop) e a) (op_toks bop @ us) (Some (Binary bop a b)) G"
proof (cases "op_level bop = 4")
  case True
  then have "reads (step_level 4 e a) (op_toks bop @ us) (Some (Binary bop a b)) G"
    using assms comparison_step_reads [OF _ assms(2)]
    by (cases bop) (simp_all add: step_level_def comparison_op_def)
  with True show ?thesis by simp
next
  case False
  then show ?thesis
    using assms by (cases bop) (simp_all add: step_level_def op_defs left_step_reads eval_nat_numeral)
qed

lemma own_left:
  assumes "bop \<noteq> Pow" "levels e a" "levels e b"
  shows "own e (Binary bop a b)"
proof -
  let ?l = "op_level bop"
  have l: "?l \<in> left_levels" "Suc ?l \<le> 10" using assms(1) by (cases bop; simp add: left_levels_def)+
  have b: "reads (at_level (Suc ?l) e) (pr (Suc ?l) b) b (follow (Suc ?l))" using levels_read [OF assms(3) l(2)] .
  have "chains_level ?l e (pr ?l a @ op_toks bop @ pr (Suc ?l) b) (Binary bop a b)"
  proof (rule chains_next [OF levels_chains [OF assms(2) l(1)] step_level_reads [OF assms(1) b]])
    show "op_toks bop @ pr (Suc ?l) b \<noteq> []" by (cases bop) simp_all
    show "follow (Suc ?l) ((op_toks bop @ pr (Suc ?l) b) @ rest)" for rest using assms(1) by (simp add: follow_op)
  qed
  with l assms(1) show ?thesis by (simp add: own_def left_level_def right_level_def pr_def)
qed

lemma own_power:
  assumes "levels e a" "levels e b"
  shows "own e (Binary Pow a b)"
proof -
  have a: "reads (fueled (parse_unary e)) (pr 8 a) a (follow 8)"
    using levels_read [OF assms(1), of 8] by (simp add: at_level_def)
  have "reads (parse_power e (Suc k)) (pr 8 a @ Punct ''^'' # pr 7 b) (Binary Pow a b) (follow 7)" if "length (pr 7 b) < k" for k
  proof -
    have "reads (parse_power e k) (pr 7 b) b (follow 7)"
      using assms(2) that by (simp add: levels_def reads_level_def)
    then have "reads (pbind (parse_power e k) (\<lambda>rhs. ret (Binary Pow a rhs))) (pr 7 b @ []) (Binary Pow a b) (follow 7)"
      by (rule reads_more) (simp_all add: reads_ret)
    then show ?thesis
      unfolding parse_power.simps by (intro reads_more [OF a] reads_Cons) (simp_all add: follow_others)
  qed
  then have "reads_level 7 e (pr 8 a @ Punct ''^'' # pr 7 b) (Binary Pow a b)"
    unfolding reads_level_def by (auto dest!: less_imp_Suc_add)
  then show ?thesis by (simp add: own_def left_level_def right_level_def pr_def left_levels_def)
qed

lemma own_not:
  assumes "levels e a"
  shows "own e (NotE a)"
proof -
  have "reads (parse_not e (Suc k)) (Keyword ''not'' # pr 3 a) (NotE a) (follow 3)" if "length (pr 3 a) < k" for k
  proof -
    have "reads (parse_not e k) (pr 3 a) a (follow 3)" using assms that by (simp add: levels_def reads_level_def)
    then have "reads (pbind (parse_not e k) (\<lambda>x. ret (NotE x))) (pr 3 a @ []) (NotE a) (follow 3)"
      by (rule reads_more) (simp_all add: reads_ret)
    then show ?thesis unfolding parse_not.simps by (intro reads_Cons) simp
  qed
  then have "reads_level 3 e (Keyword ''not'' # pr 3 a) (NotE a)"
    unfolding reads_level_def by (auto dest!: less_imp_Suc_add)
  then show ?thesis by (simp add: own_def pr_def left_levels_def)
qed

lemma own_neg:
  assumes "levels e a"
  shows "own e (Neg a)"
proof -
  have "reads (parse_unary e (Suc k)) (Punct ''-'' # pr 8 a) (Neg a) (follow 8)" if "length (pr 8 a) < k" for k
  proof -
    have "reads (parse_unary e k) (pr 8 a) a (follow 8)" using assms that by (simp add: levels_def reads_level_def)
    then have "reads (pbind (parse_unary e k) (\<lambda>x. ret (Neg x))) (pr 8 a @ []) (Neg a) (follow 8)"
      by (rule reads_more) (simp_all add: reads_ret)
    then show ?thesis unfolding parse_unary.simps by (intro reads_Cons) simp
  qed
  then have "reads_level 8 e (Punct ''-'' # pr 8 a) (Neg a)"
    unfolding reads_level_def by (auto dest!: less_imp_Suc_add)
  then show ?thesis by (simp add: own_def pr_def left_levels_def)
qed

lemma own_is_null:
  assumes "levels e a"
  shows "own e (IsNull a want)"
proof -
  let ?ts = "Keyword ''is'' # (if want then [] else [Keyword ''not'']) @ [Keyword ''null'']"
  have "reads (comparison_step (parse_additive e) a) ?ts (Some (IsNull a want)) (follow 5)"
    unfolding comparison_step_def
    by (intro reads_look) (cases want; auto simp: comparison_op_def intro!: reads_Cons skip_eat reads_ret)
  then have step: "reads (step_level 4 e a) ?ts (Some (IsNull a want)) (follow 5)"
    by (simp add: step_level_def at_level_def)
  have "chains_level 4 e (pr 4 a) a" using assms by (rule levels_chains) (simp add: left_levels_def)
  then have "chains_level 4 e (pr 4 a @ ?ts) (IsNull a want)"
    by (rule chains_next [where x = a and G = "follow (Suc 4)"]) (use step in \<open>simp_all add: follow_others\<close>)
  then show ?thesis by (simp add: own_def pr_def left_levels_def)
qed

lemma own_prop:
  assumes "levels e b"
  shows "own e (Prop b p)"
proof -
  have "reads (postfix_step e b) [Punct ''.'', name_tok p] (Some (Prop b p)) (follow 10)"
    unfolding postfix_step_def by (intro reads_Cons) (auto intro!: reads_Cons reads_ret)
  then have step: "reads (step_level 9 e b) [Punct ''.'', name_tok p] (Some (Prop b p)) (follow 10)"
    by (simp add: step_level_def)
  have "chains_level 9 e (pr 9 b) b" using assms by (rule levels_chains) (simp add: left_levels_def)
  then have "chains_level 9 e (pr 9 b @ [Punct ''.'', name_tok p]) (Prop b p)"
    by (rule chains_next [where x = b and G = "follow (Suc 9)"]) (use step in \<open>simp_all add: follow_field\<close>)
  then show ?thesis by (simp add: own_def pr_def left_levels_def)
qed

section \<open>Every printed expression is read back\<close>

definition reads_body :: "expr \<Rightarrow> bool" where
  "reads_body x \<longleftrightarrow> printable x \<and> (\<forall>n \<ge> length (body x). own (parse_expr n) x)"

lemma nested_reads:
  assumes "reads_body x" "length (body x) < n"
  shows "nests (parse_expr n) (body x) x"
proof -
  obtain m where n: "n = Suc m" "length (body x) \<le> m" using assms(2) by (cases n) auto
  with assms(1) have o: "own (parse_expr m) x" and p: "printable x" by (auto simp: reads_body_def)
  obtain t ts where ts: "body x = t # ts" "starts (level x) t" using body_starts [OF p] by blast
  have "reads_level 0 (parse_expr m) (body x) x"
    by (rule looser_level [OF own_reads [OF o] level_le ts]) simp
  then show ?thesis by (simp add: n nests_def reads_level_def at_level_def)
qed

lemma operand_reads: "reads_body x \<Longrightarrow> length (body x) < n \<Longrightarrow> levels (parse_expr n) x"
  by (rule own_levels) (auto simp: reads_body_def intro!: nested_reads)

lemma element_reads:
  assumes "reads_body x" "length (pr l x) + 1 < n" "l \<le> 10"
  shows "nests (parse_expr n) (pr l x) x"
proof -
  obtain m where n: "n = Suc m" using assms(2) by (cases n) auto
  have "length (body x) \<le> length (pr l x)" by (simp add: pr_def paren_def)
  with n assms(2) have "length (body x) < m" by linarith
  with levels_nest [OF operand_reads [OF assms(1) this] _ assms(3)] assms(1) show ?thesis
    by (simp add: n nests_def reads_body_def)
qed

lemma commas_length: "x \<in> set xs \<Longrightarrow> length (f x) \<le> length (commas (map f xs))"
  by (cases xs) (auto simp: commas_Cons comp_def length_concat member_le_sum_list intro: trans_le_add2 dest!: split_list)

lemma concat_length: "x \<in> set xs \<Longrightarrow> length (f x) \<le> length (concat (map f xs))"
  by (induction xs) auto

lemma pr_length: "length (body x) \<le> length (pr l x)" "length (body x) \<le> length (paren l x (body x))"
  by (simp_all add: pr_def paren_def)

lemma all_read:
  "printable x \<Longrightarrow> reads_body x"
  "printable_item it \<Longrightarrow> \<forall>k v. it = Entry k v \<longrightarrow> reads_body v"
proof (induction x and it rule: body_item_toks.induct)
  case (1 l)
  then show ?case by (auto simp: reads_body_def intro!: own_primary lit_reads)
next
  case (2 p)
  then show ?case by (auto simp: reads_body_def intro!: own_primary param_reads)
next
  case (3 v)
  then show ?case by (auto simp: reads_body_def intro!: own_primary var_reads)
next
  case (4 b p)
  then have IH: "reads_body b" by simp
  have "own (parse_expr n) (Prop b p)" if "length (body (Prop b p)) \<le> n" for n
    using that pr_length(2) [of b 9] by (intro own_prop operand_reads [OF IH]) simp
  with 4 show ?case by (simp add: reads_body_def)
next
  case (5 bop a b)
  then have IH: "reads_body a" "reads_body b" by simp_all
  have "own (parse_expr n) (Binary bop a b)" if n: "length (body (Binary bop a b)) \<le> n" for n
  proof -
    obtain t ts where "op_toks bop = t # ts" by (cases bop) simp_all
    then have "length (body a) < n" "length (body b) < n"
      using n pr_length(2) [of a "left_level bop"] pr_length(2) [of b "right_level bop"] by simp_all
    then have "levels (parse_expr n) a" "levels (parse_expr n) b" using IH operand_reads by blast+
    then show ?thesis by (cases "bop = Pow") (auto intro: own_left own_power)
  qed
  with 5 show ?case by (simp add: reads_body_def)
next
  case (6 a)
  then have IH: "reads_body a" by simp
  have "own (parse_expr n) (NotE a)" if "length (body (NotE a)) \<le> n" for n
    using that pr_length(2) [of a 3] by (intro own_not operand_reads [OF IH]) simp
  with 6 show ?case by (simp add: reads_body_def)
next
  case (7 a)
  then have IH: "reads_body a" by simp
  have "own (parse_expr n) (Neg a)" if "length (body (Neg a)) \<le> n" for n
    using that pr_length(2) [of a 8] by (intro own_neg operand_reads [OF IH]) simp
  with 7 show ?case by (simp add: reads_body_def)
next
  case (8 a want)
  then have IH: "reads_body a" by simp
  have "own (parse_expr n) (IsNull a want)" if "length (body (IsNull a want)) \<le> n" for n
    using that pr_length(2) [of a 4] by (intro own_is_null operand_reads [OF IH]) simp
  with 8 show ?case by (simp add: reads_body_def)
next
  case (9 f args d)
  have "own (parse_expr n) (Func f args d)" if n: "length (body (Func f args d)) \<le> n" for n
  proof (rule own_primary [OF _ call_reads])
    show "args = [Star] \<or> (\<forall>a \<in> set args. printable a \<and> nests (parse_expr n) (body a) a)"
    proof (cases "args = [Star]")
      case False
      then have p: "\<forall>a \<in> set args. printable a" using "9.prems" by auto
      have "nests (parse_expr n) (body a) a" if a: "a \<in> set args" for a
      proof (rule nested_reads)
        show "reads_body a" using 9 p a False by auto
        show "length (body a) < n" using n False commas_length [OF a, of body] by simp
      qed
      with p show ?thesis by blast
    qed simp
  qed (use "9.prems" in simp_all)
  with 9 show ?case by (simp add: reads_body_def)
next
  case (10 xs)
  have "own (parse_expr n) (ListE xs)" if n: "length (body (ListE xs)) \<le> n" for n
  proof (rule own_primary [OF _ list_reads])
    show "\<forall>x \<in> set xs. printable x \<and> nests (parse_expr n) (pr 5 x) x"
    proof
      fix x assume x: "x \<in> set xs"
      have "length (pr 5 x) + 1 < n" using n commas_length [OF x, of "pr 5"] by (simp add: pr_def [abs_def])
      with 10 x show "printable x \<and> nests (parse_expr n) (pr 5 x) x" by (auto intro!: element_reads)
    qed
  qed simp
  with 10 show ?case by (simp add: reads_body_def)
next
  case (11 kv)
  have "own (parse_expr n) (MapE kv)" if n: "length (body (MapE kv)) \<le> n" for n
  proof (rule own_primary [OF _ map_reads])
    show "\<forall>(k, v) \<in> set kv. nests (parse_expr n) (body v) v"
    proof clarify
      fix k v assume kv: "(k, v) \<in> set kv"
      have "length (body v) < n" using n commas_length [OF kv, of kv_toks] by simp
      with 11 kv show "nests (parse_expr n) (body v) v" by (fastforce intro!: nested_reads)
    qed
  qed simp
  with 11 show ?case by (simp add: reads_body_def)
next
  case (12 operand whens els)
  have "own (parse_expr n) (CaseE operand whens els)" if n: "length (body (CaseE operand whens els)) \<le> n" for n
  proof (rule own_primary [OF _ case_reads])
    show "printable x \<and> nests (parse_expr n) (body x) x" if "operand = Some x" for x
      using 12 that n by (auto intro!: nested_reads)
    show "operand = None \<Longrightarrow> whens \<noteq> []" using "12.prems" by simp
    show "nests (parse_expr n) (body x) x" if "els = Some x" for x
      using 12 that n by (auto intro!: nested_reads)
    show "\<forall>(c, v) \<in> set whens. nests (parse_expr n) (body c) c \<and> nests (parse_expr n) (body v) v"
    proof clarify
      fix c v assume cv: "(c, v) \<in> set whens"
      have "length (body c) < n" "length (body v) < n" using n concat_length [OF cv, of when_toks] by simp_all
      with 12 cv show "nests (parse_expr n) (body c) c \<and> nests (parse_expr n) (body v) v"
        by (fastforce intro!: nested_reads)
    qed
  qed simp
  with 12 show ?case by (simp add: reads_body_def)
next
  case (13 x source cond project)
  have "own (parse_expr n) (ListComp x source cond project)" if n: "length (body (ListComp x source cond project)) \<le> n" for n
    by (rule own_primary [OF _ comp_reads]) (use 13 n in \<open>auto intro!: nested_reads split: option.splits\<close>)
  with 13 show ?case by (simp add: reads_body_def)
next
  case (14 kind x source cond)
  have "own (parse_expr n) (ListPred kind x source cond)" if n: "length (body (ListPred kind x source cond)) \<le> n" for n
    by (rule own_primary [OF _ pred_reads]) (use 14 n in \<open>auto intro!: nested_reads\<close>)
  with 14 show ?case by (simp add: reads_body_def)
next
  case (15 x its)
  have "own (parse_expr n) (MapProjection x its)" if n: "length (body (MapProjection x its)) \<le> n" for n
  proof (rule own_primary [OF _ map_projection_reads])
    show "\<forall>it \<in> set its. \<forall>k v. it = Entry k v \<longrightarrow> nests (parse_expr n) (body v) v"
    proof (intro ballI allI impI)
      fix it k v assume it: "it \<in> set its" "it = Entry k v"
      have "length (body v) < n" using n commas_length [OF it(1), of item_toks] it(2) by simp
      with 15 it show "nests (parse_expr n) (body v) v" by (fastforce intro!: nested_reads)
    qed
  qed simp
  with 15 show ?case by (simp add: reads_body_def)
qed simp_all

end
