(* ===== verification/Cypher_Queries.thy ===== *)
theory Cypher_Queries
  imports Cypher_Print
begin

text \<open>
  Printing whole Cypher queries and reading them back: patterns, every clause that is not index or
  constraint DDL, and unions of queries, with the text of the tokens.
\<close>

section \<open>The printer\<close>

definition opt_toks :: "('a \<Rightarrow> tok list) \<Rightarrow> 'a option \<Rightarrow> tok list" where
  "opt_toks f x = (case x of None \<Rightarrow> [] | Some y \<Rightarrow> f y)"

definition props_toks :: "(string \<times> expr) list \<Rightarrow> tok list" where
  "props_toks kv = (if kv = [] then [] else Punct ''{'' # commas (map kv_toks kv) @ [Punct ''}''])"

definition label_toks :: "string list \<Rightarrow> tok list" where
  "label_toks ls = concat (map (\<lambda>l. [Punct '':'', name_tok l]) ls)"


definition type_toks :: "string list \<Rightarrow> tok list" where
  "type_toks ts = (case ts of [] \<Rightarrow> []
     | t # ts \<Rightarrow> Punct '':'' # name_tok t # concat (map (\<lambda>t. [Punct ''|'', name_tok t]) ts))"

definition range_toks :: "(u32 \<times> u32) option \<Rightarrow> tok list" where
  "range_toks r = opt_toks (\<lambda>(lo, hi). [Punct ''*'', TInt (ucast lo), Punct ''..'', TInt (ucast hi)]) r"




definition where_toks :: "expr option \<Rightarrow> tok list" where
  "where_toks = opt_toks (\<lambda>x. Keyword ''where'' # body x)"









section \<open>What the parser can give\<close>












section \<open>Reading the parts of a pattern\<close>

text \<open>The first token of an optional part and what comes after it.\<close>

lemma hd_parts [simp]:
  "hd (props_toks kv @ us) = (if kv = [] then hd us else Punct ''{'')"
  "hd (label_toks ls @ us) = (if ls = [] then hd us else Punct '':'')"
  "hd (type_toks ts @ us) = (if ts = [] then hd us else Punct '':'')"
  "hd (range_toks r @ us) = (if r = None then hd us else Punct ''*'')"
  "hd (where_toks x @ us) = (if x = None then hd us else Keyword ''where'')"
  "hd (opt_toks (\<lambda>x. Keyword k # g x) y @ us) = (if y = None then hd us else Keyword k)"
  by (auto simp: props_toks_def label_toks_def type_toks_def range_toks_def where_toks_def opt_toks_def neq_Nil_conv
      split: option.split list.split prod.split)




definition not_name :: "tok \<Rightarrow> bool" where
  "not_name t \<longleftrightarrow> (case t of Ident _ \<Rightarrow> False | QuotedIdent _ \<Rightarrow> False | _ \<Rightarrow> True)"

lemma not_name_simps [simp]: "not_name (Punct p)" "not_name (Keyword k)" "not_name Eof" "\<not> not_name (name_tok n)"
  by (simp_all add: not_name_def name_tok_def)










section \<open>Reading patterns\<close>







section \<open>Reading clauses\<close>

text \<open>What follows a clause: another one, \<open>UNION\<close> or the end.\<close>

definition clause_ends :: "tok set" where
  "clause_ends = insert Eof (Keyword ` set clause_words)"

lemma clause_endsD:
  "t \<in> clause_ends \<Longrightarrow> t \<in> closers" "Punct p \<notin> clause_ends" "Keyword ''where'' \<notin> clause_ends" "Keyword ''as'' \<notin> clause_ends"
  "Keyword ''order'' \<notin> clause_ends" "Keyword ''skip'' \<notin> clause_ends" "Keyword ''limit'' \<notin> clause_ends"
  "Keyword ''on'' \<notin> clause_ends" "Keyword ''yield'' \<notin> clause_ends" "Keyword ''desc'' \<notin> clause_ends"
  "Keyword ''asc'' \<notin> clause_ends" "Keyword ''all'' \<notin> clause_ends" "Ident n \<notin> clause_ends" "QuotedIdent n \<notin> clause_ends"
  "name_tok n \<notin> clause_ends"
  by (auto simp: clause_ends_def clause_words_def closers_def name_tok_def)

abbreviation ends :: "tok list \<Rightarrow> bool" where
  "ends rest \<equiv> hd rest \<in> clause_ends"

lemma ends_not [dest]: "hd rest = t \<Longrightarrow> ends rest \<Longrightarrow> t \<in> clause_ends"
  by simp

lemmas [simp] = clause_endsD(2-)






lemma hd_order: "hd ((if xs = [] then [] else t # ts) @ us) = (if xs = [] then hd us else t)"
  by simp































section \<open>Reading queries\<close>









section \<open>Properties\<close>




end
