(* ===== verification/Float_Ops.thy ===== *)
theory Float_Ops
  imports Float64
begin

text \<open>
  The arithmetic of \<open>f64\<close>: each operation computes on the exact values of its operands and rounds once
  (\<open>f64_of_ratio\<close>), with the cases of IEEE 754 for signed zeros, infinities and NaN; comparisons and the
  saturating cast to \<open>i64\<close>.  The lemmas show that rounding a double gives the double, that integers below
  \<open>2 ^ 53\<close> are exact, and that sums and products of such integers are exact too.
\<close>

definition f64_is_inf :: "f64 \<Rightarrow> bool" where
  "f64_is_inf x \<longleftrightarrow> f64_exp x = 2047 \<and> f64_frac x = 0"

text \<open>The magnitude and the value of a finite double in units of \<open>2 ^ -1074\<close>.\<close>

definition f64_mag :: "f64 \<Rightarrow> nat" where
  "f64_mag x = f64_mantissa x * 2 ^ f64_scale x"

definition f64_units :: "f64 \<Rightarrow> int" where
  "f64_units x = (if f64_neg x then - int (f64_mag x) else int (f64_mag x))"

definition f64_uminus :: "f64 \<Rightarrow> f64" where
  "f64_uminus x = x XOR 0x8000000000000000"

definition f64_add :: "f64 \<Rightarrow> f64 \<Rightarrow> f64" where
  "f64_add x y =
     (if f64_is_nan x \<or> f64_is_nan y then f64_nan
      else if f64_is_inf x then (if f64_is_inf y \<and> f64_neg x \<noteq> f64_neg y then f64_nan else x)
      else if f64_is_inf y then y
      else (let s = f64_units x + f64_units y in
            if s = 0 then f64_signed (f64_neg x \<and> f64_neg y) 0
            else f64_signed (s < 0) (f64_of_ratio (nat (abs s)) (2 ^ 1074))))"

definition f64_sub :: "f64 \<Rightarrow> f64 \<Rightarrow> f64" where
  "f64_sub x y = f64_add x (f64_uminus y)"

definition f64_mul :: "f64 \<Rightarrow> f64 \<Rightarrow> f64" where
  "f64_mul x y =
     (let neg = (f64_neg x \<noteq> f64_neg y) in
      if f64_is_nan x \<or> f64_is_nan y then f64_nan
      else if f64_is_inf x \<or> f64_is_inf y then
        (if f64_abs x = 0 \<or> f64_abs y = 0 then f64_nan else f64_signed neg f64_inf)
      else f64_signed neg (f64_of_ratio (f64_mag x * f64_mag y) (2 ^ 2148)))"

definition f64_div :: "f64 \<Rightarrow> f64 \<Rightarrow> f64" where
  "f64_div x y =
     (let neg = (f64_neg x \<noteq> f64_neg y) in
      if f64_is_nan x \<or> f64_is_nan y then f64_nan
      else if f64_is_inf x then (if f64_is_inf y then f64_nan else f64_signed neg f64_inf)
      else if f64_is_inf y then f64_signed neg 0
      else if f64_abs y = 0 then (if f64_abs x = 0 then f64_nan else f64_signed neg f64_inf)
      else f64_signed neg (f64_of_ratio (f64_mag x) (f64_mag y)))"

text \<open>\<open>%\<close>: the remainder of the division towards zero, which is exact.\<close>

definition f64_rem :: "f64 \<Rightarrow> f64 \<Rightarrow> f64" where
  "f64_rem x y =
     (if f64_is_nan x \<or> f64_is_nan y \<or> f64_is_inf x \<or> f64_abs y = 0 then f64_nan
      else if f64_is_inf y then x
      else f64_signed (f64_neg x) (f64_of_ratio (f64_mag x mod f64_mag y) (2 ^ 1074)))"

text \<open>The bits without the sign are ordered as the magnitudes.\<close>

definition f64_order :: "f64 \<Rightarrow> int" where
  "f64_order x = (if f64_neg x then - uint (f64_abs x) else uint (f64_abs x))"

definition f64_less :: "f64 \<Rightarrow> f64 \<Rightarrow> bool" where
  "f64_less x y \<longleftrightarrow> \<not> f64_is_nan x \<and> \<not> f64_is_nan y \<and> f64_order x < f64_order y"

definition f64_eq :: "f64 \<Rightarrow> f64 \<Rightarrow> bool" where
  "f64_eq x y \<longleftrightarrow> \<not> f64_is_nan x \<and> \<not> f64_is_nan y \<and> f64_order x = f64_order y"

definition f64_le :: "f64 \<Rightarrow> f64 \<Rightarrow> bool" where
  "f64_le x y \<longleftrightarrow> f64_less x y \<or> f64_eq x y"

text \<open>\<open>f as i64\<close>: towards zero, saturating, NaN to 0.\<close>

definition f64_to_i64 :: "f64 \<Rightarrow> i64" where
  "f64_to_i64 x =
     (if f64_is_nan x then 0
      else if f64_is_inf x then (if f64_neg x then 0x8000000000000000 else 0x7FFFFFFFFFFFFFFF)
      else (let m = int (f64_mag x div 2 ^ 1074); v = (if f64_neg x then - m else m) in
            word_of_int (max (- (2 ^ 63)) (min (2 ^ 63 - 1) v))))"

section \<open>Rounding what is representable\<close>

lemma bit_len_unique: "2 ^ j \<le> n \<Longrightarrow> n < 2 ^ Suc j \<Longrightarrow> bit_len n = Suc j"
proof -
  assume n: "2 ^ j \<le> n" "n < 2 ^ Suc j"
  then have "0 < n" by (metis gr0I not_one_le_zero zero_less_numeral zero_less_power not_le)
  note b = bit_len_bounds [OF this]
  then have "0 < bit_len n" using \<open>0 < n\<close> by (cases "bit_len n") auto
  have "bit_len n - 1 < Suc j" using b n(2) by (metis le_less_trans power_less_imp_less_exp one_less_numeral_iff semiring_norm(76))
  moreover have "j < bit_len n" using b n(1) by (metis le_less_trans power_less_imp_less_exp one_less_numeral_iff semiring_norm(76))
  ultimately show ?thesis by simp
qed

lemma bit_len_shift: "0 < n \<Longrightarrow> bit_len (n * 2 ^ s) = bit_len n + s"
proof -
  assume n: "0 < n"
  obtain j where j: "bit_len n = Suc j" using bit_len_bounds [OF n] n by (cases "bit_len n") auto
  have "2 ^ j \<le> n" "n < 2 ^ Suc j" using bit_len_bounds [OF n] j by simp_all
  then have "2 ^ (j + s) \<le> n * 2 ^ s" "n * 2 ^ s < 2 ^ Suc (j + s)" by (simp_all add: power_add)
  from bit_len_unique [OF this] j show ?thesis by simp
qed

lemma bit_len_power: "bit_len (2 ^ p) = Suc p"
  by (rule bit_len_unique) simp_all

text \<open>\<open>m * 2 ^ s\<close> units with at most 53 significant bits.\<close>

lemma ulp_of_units:
  assumes "0 < m" "m < 2 ^ 53" "2 ^ 52 \<le> m \<or> s = 0" "1074 \<le> p"
  shows "ulp_exponent (m * 2 ^ s * 2 ^ (p - 1074)) (2 ^ p) = int s - 1074"
proof -
  obtain j where j: "bit_len m = Suc j" using bit_len_bounds [OF assms(1)] assms(1) by (cases "bit_len m") auto
  have mj: "2 ^ j \<le> m" "m < 2 ^ Suc j" using bit_len_bounds [OF assms(1)] j by simp_all
  have "(2 :: nat) ^ j < 2 ^ 53" using mj(1) assms(2) by linarith
  then have j52: "j \<le> 52" using power_less_imp_less_exp [of "2 :: nat" j 53] by simp
  have j_eq: "j = 52" if "s \<noteq> 0"
  proof -
    have "(2 :: nat) ^ 52 < 2 ^ Suc j" using mj(2) assms(3) that by linarith
    then have "52 < Suc j" by (rule power_less_imp_less_exp [rotated]) simp
    with j52 show ?thesis by simp
  qed
  let ?num = "m * 2 ^ s * 2 ^ (p - 1074)"
  let ?k = "int (j + s) - 1074"
  have bl: "bit_len ?num = Suc j + s + (p - 1074)" using assms(1) by (simp add: bit_len_shift j)
  then have k: "int (bit_len ?num) - int (bit_len (2 ^ p)) = ?k" using assms(4) by (simp add: bit_len_power)
  obtain n d where nd: "scaled ?num (2 ^ p) ?k = (n, d)" by fastforce
  have "d \<le> n"
  proof (cases "0 \<le> ?k")
    case True
    then obtain i where i: "j + s = 1074 + i" by (metis of_nat_0_le_iff le_add_diff_inverse le_diff_eq of_nat_le_iff of_nat_numeral add_0)
    then have "d = 2 ^ p * 2 ^ i" and n: "n = ?num" using nd True by (auto simp: scaled_def)
    then have "d = 2 ^ (j + s) * 2 ^ (p - 1074)" using i assms(4) by (simp flip: power_add)
    also have "\<dots> \<le> n" using mj(1) by (simp add: n power_add)
    finally show ?thesis .
  next
    case False
    then obtain i where i: "1074 = j + s + i" by (metis add.commute le_add_diff_inverse linorder_not_le nat_le_linear of_nat_0_le_iff of_nat_diff of_nat_numeral)
    then have "n = ?num * 2 ^ i" and d: "d = 2 ^ p" using nd False by (auto simp: scaled_def)
    have "2 ^ p = 2 ^ (j + s) * 2 ^ (p - 1074) * (2 :: nat) ^ i" using i assms(4) by (simp flip: power_add)
    also have "\<dots> \<le> ?num * 2 ^ i" using mj(1) by (simp add: power_add)
    finally show ?thesis using \<open>n = ?num * 2 ^ i\<close> d by simp
  qed
  then have "ulp_exponent ?num (2 ^ p) = max (- 1074) (?k - 52)"
    unfolding ulp_exponent_def Let_def k nd by simp
  also have "\<dots> = int s - 1074" using j52 j_eq by (cases "s = 0") auto
  finally show ?thesis .
qed

lemma f64_of_ratio_eq:
  assumes "num \<noteq> 0" "ulp_exponent num den = t" "scaled num den t = (n, d)" "nat (t + 1074) * 2 ^ 52 + div_even n d = b"
    "b < 2047 * 2 ^ 52"
  shows "f64_of_ratio num den = of_nat b"
  using assms(1,5) unfolding f64_of_ratio_def Let_def assms(2) assms(3) prod.case assms(4) by simp

lemma round_units:
  assumes "0 < m" "m < 2 ^ 53" "2 ^ 52 \<le> m \<or> s = 0" "1074 \<le> p" "s * 2 ^ 52 + m < 2047 * 2 ^ 52"
  shows "f64_of_ratio (m * 2 ^ s * 2 ^ (p - 1074)) (2 ^ p) = of_nat (s * 2 ^ 52 + m)"
proof -
  let ?num = "m * 2 ^ s * 2 ^ (p - 1074)" and ?t = "int s - 1074"
  obtain n d where nd: "scaled ?num (2 ^ p) ?t = (n, d)" by fastforce
  have "n = m * d \<and> 0 < d"
  proof (cases "0 \<le> ?t")
    case True
    then obtain i where i: "s = 1074 + i" using nat_le_iff_add [of 1074 s] by auto
    then have "n = ?num" "d = 2 ^ p * 2 ^ i" using nd by (auto simp: scaled_def)
    moreover have "2 ^ s * 2 ^ (p - 1074) = 2 ^ p * (2 :: nat) ^ i" using i assms(4) by (simp flip: power_add)
    ultimately show ?thesis by (simp add: mult.assoc)
  next
    case False
    then obtain i where i: "1074 = s + i" using nat_le_iff_add [of s 1074] by auto
    then have "n = ?num * 2 ^ i" "d = 2 ^ p" using nd False by (auto simp: scaled_def)
    moreover have "2 ^ s * 2 ^ (p - 1074) * 2 ^ i = (2 :: nat) ^ p" using i assms(4) by (simp flip: power_add)
    ultimately show ?thesis by (simp add: mult.assoc)
  qed
  then have "div_even n d = m" by simp
  moreover have "nat (?t + 1074) = s" by simp
  moreover have "?num \<noteq> 0" using assms(1) by simp
  ultimately show ?thesis
    using assms(5) by (intro f64_of_ratio_eq [OF _ ulp_of_units [OF assms(1-4)] nd]) simp_all
qed

text \<open>The parts of the bits.\<close>

lemma f64_abs_unat: "unat (f64_abs x) = unat x mod 2 ^ 63"
proof -
  have "f64_abs x = take_bit 63 x" by (simp add: f64_abs_def take_bit_eq_mask mask_eq_exp_minus_1)
  then have "unat (f64_abs x) = take_bit 63 (unat x)" by (simp only: unsigned_take_bit_eq)
  then show ?thesis by (simp only: take_bit_eq_mod)
qed

lemma f64_parts: "unat (f64_abs x) = f64_exp x * 2 ^ 52 + f64_frac x"
proof -
  have "unat x mod 2 ^ 63 = unat x mod (2 ^ 52 * 2 ^ 11)" by simp
  also have "\<dots> = 2 ^ 52 * (unat x div 2 ^ 52 mod 2 ^ 11) + unat x mod 2 ^ 52" by (rule mod_mult2_eq)
  finally show ?thesis by (simp add: f64_abs_unat f64_exp_def f64_frac_def)
qed

lemma f64_frac_less: "f64_frac x < 2 ^ 52"
  by (simp add: f64_frac_def)

lemma f64_abs_bits: "f64_abs x = of_nat (f64_exp x * 2 ^ 52 + f64_frac x)"
proof -
  have "f64_abs x = of_nat (unat (f64_abs x))" by simp
  then show ?thesis by (simp only: f64_parts)
qed

lemma f64_mag_zero: "f64_mag x = 0 \<longleftrightarrow> f64_abs x = 0"
proof -
  have "f64_abs x = 0 \<longleftrightarrow> unat (f64_abs x) = 0" by (simp add: unat_eq_0)
  then show ?thesis by (auto simp: f64_mag_def f64_mantissa_def f64_parts)
qed

text \<open>Rounding the value of a double gives the double.\<close>

lemma round_mag:
  assumes "f64_is_finite x" "1074 \<le> p"
  shows "f64_of_ratio (f64_mag x * 2 ^ (p - 1074)) (2 ^ p) = f64_abs x"
proof (cases "f64_mag x = 0")
  case True
  then show ?thesis by (simp add: f64_mag_zero f64_of_ratio_def Let_def split: prod.split)
next
  case False
  let ?m = "f64_mantissa x" and ?s = "f64_scale x"
  have m: "0 < ?m" using False by (simp add: f64_mag_def)
  have frac: "f64_frac x < 2 ^ 52" by (rule f64_frac_less)
  have fin: "f64_exp x < 2047" using assms(1) by (simp add: f64_is_finite_def)
  have bits: "?s * 2 ^ 52 + ?m = f64_exp x * 2 ^ 52 + f64_frac x"
    by (cases "f64_exp x") (simp_all add: f64_scale_def f64_mantissa_def)
  have m53: "?m < 2 ^ 53" using frac by (simp add: f64_mantissa_def)
  have top: "2 ^ 52 \<le> ?m \<or> ?s = 0" by (simp add: f64_mantissa_def f64_scale_def)
  have "f64_exp x * 2 ^ 52 \<le> 2046 * 2 ^ 52" using fin by (intro mult_right_mono) simp_all
  then have "f64_exp x * 2 ^ 52 + f64_frac x < 2046 * 2 ^ 52 + 2 ^ 52" using frac by linarith
  then have "?s * 2 ^ 52 + ?m < 2047 * 2 ^ 52" unfolding bits by simp
  from round_units [OF m m53 top assms(2) this] show ?thesis by (simp only: f64_mag_def bits f64_abs_bits)
qed

section \<open>Integers are exact\<close>

lemma small_int_mag:
  assumes "n < 2 ^ 53"
  shows "f64_mag (f64_of_ratio n 1) = n * 2 ^ 1074 \<and> f64_exp (f64_of_ratio n 1) < 2047 \<and> \<not> f64_neg (f64_of_ratio n 1)"
proof (cases "n = 0")
  case True
  then show ?thesis by (simp add: f64_of_ratio_def f64_mag_def f64_mantissa_def f64_exp_def f64_frac_def f64_neg_def Let_def)
next
  case False
  then obtain j where j: "bit_len n = Suc j" using bit_len_bounds [of n] by (cases "bit_len n") auto
  have nj: "2 ^ j \<le> n" "n < 2 ^ Suc j" using bit_len_bounds [of n] False j by simp_all
  have "(2 :: nat) ^ j < 2 ^ 53" using nj(1) assms by linarith
  then have j52: "j \<le> 52" using power_less_imp_less_exp [of "2 :: nat" j 53] by simp
  have one: "bit_len 1 = 1" using bit_len_power [of 0] by simp
  define M where "M = n * 2 ^ (52 - j)"
  have M: "2 ^ 52 \<le> M" "M < 2 ^ 53"
  proof -
    have "(2 :: nat) ^ 52 = 2 ^ j * 2 ^ (52 - j)" using j52 by (simp flip: power_add)
    also have "\<dots> \<le> M" unfolding M_def using nj(1) by simp
    finally show "2 ^ 52 \<le> M" .
    have "M < 2 ^ Suc j * 2 ^ (52 - j)" unfolding M_def using nj(2) by simp
    also have "\<dots> = 2 ^ 53" using j52 by (simp flip: power_add)
    finally show "M < 2 ^ 53" .
  qed
  define b where "b = (j + 1022) * 2 ^ 52 + M"
  have t: "ulp_exponent n 1 = int j - 52"
    using j52 nj(1) by (simp add: ulp_exponent_def Let_def j one scaled_def)
  have sc: "scaled n 1 (int j - 52) = (M, 1)"
    using j52 by (cases "j = 52") (auto simp: scaled_def M_def nat_diff_distrib)
  have bits: "nat (int j - 52 + 1074) * 2 ^ 52 + div_even M 1 = b"
  proof -
    have "nat (int j - 52 + 1074) = j + 1022" by simp
    moreover have "div_even M 1 = M" using div_even_exact [of 1 M] by simp
    ultimately show ?thesis by (simp only: b_def)
  qed
  have small: "b < 2047 * 2 ^ 52"
  proof -
    have "(j + 1022) * 2 ^ 52 \<le> 1074 * 2 ^ 52" using j52 by (intro mult_right_mono) simp_all
    then show ?thesis using M(2) unfolding b_def by simp
  qed
  from f64_of_ratio_eq [OF False t sc bits small] have f: "f64_of_ratio n 1 = of_nat b" .
  have b63: "b < 2 ^ 63" using small by simp
  then have u: "unat (of_nat b :: f64) = b" by (simp add: unsigned_of_nat take_bit_nat_eq_self)
  define r where "r = M - 2 ^ 52"
  have br: "b = (j + 1023) * 2 ^ 52 + r" and r: "r < 2 ^ 52" using M by (simp_all add: b_def r_def)
  have "unat (of_nat b :: f64) = (j + 1023) * 2 ^ 52 + r" using u br by (simp only:)
  moreover have "((j + 1023) * 2 ^ 52 + r) mod 2 ^ 52 = r" using r by (simp only: mod_mult_self3 mod_less)
  moreover have "((j + 1023) * 2 ^ 52 + r) div 2 ^ 52 mod 2 ^ 11 = j + 1023" using r j52 by simp
  ultimately have e: "f64_exp (of_nat b) = j + 1023" and fr: "f64_frac (of_nat b) = r"
    by (simp_all only: f64_exp_def f64_frac_def)
  have "f64_mag (of_nat b) = M * 2 ^ (j + 1022)" using M(1) by (simp add: f64_mag_def f64_mantissa_def f64_scale_def e fr r_def)
  also have "\<dots> = n * (2 ^ (52 - j) * 2 ^ (j + 1022))" by (simp add: M_def)
  also have "2 ^ (52 - j) * 2 ^ (j + 1022) = (2 :: nat) ^ 1074" using j52 by (simp flip: power_add)
  finally have "f64_mag (of_nat b) = n * 2 ^ 1074" .
  moreover have "f64_exp (of_nat b) < 2047" using e j52 by simp
  moreover have "\<not> f64_neg (of_nat b)" using u b63 by (simp only: f64_neg_def not_le)
  ultimately show ?thesis by (simp only: f simp_thms)
qed

lemma signed_simps:
  assumes "\<not> f64_neg x"
  shows "f64_mag (f64_signed neg x) = f64_mag x" "f64_exp (f64_signed neg x) = f64_exp x" "f64_neg (f64_signed neg x) = neg"
    "f64_frac (f64_signed neg x) = f64_frac x"
proof -
  have x: "unat x < 2 ^ 63" using assms by (simp add: f64_neg_def not_le)
  have "x AND 0x8000000000000000 = 0"
  proof -
    have "take_bit 63 (unat x) = unat x" using x by (rule take_bit_nat_eq_self)
    then have "take_bit 63 x = x" by (metis unsigned_take_bit_eq word_unat_eq_iff)
    then have "x AND push_bit 63 1 = take_bit 63 x AND push_bit 63 1" by simp
    also have "\<dots> = 0" by (rule bit_eqI) (auto simp only: bit_simps, simp_all)
    finally show ?thesis by (simp add: push_bit_eq_mult)
  qed
  then have or: "x OR 0x8000000000000000 = x + 0x8000000000000000" by (rule disjunctive_add_eq_or [symmetric])
  have "unat (x + 0x8000000000000000) = unat x + 2 ^ 63"
    using x by (simp add: unat_word_ariths(1))
  then have "unat (x OR 0x8000000000000000) = unat x + 2 ^ 63" by (simp only: or)
  then have u: "unat (f64_signed neg x) = unat x + (if neg then 2 ^ 63 else 0)" by (simp add: f64_signed_def)
  have "(unat x + 2 ^ 63) div 2 ^ 52 = unat x div 2 ^ 52 + 2 ^ 11" by (simp add: div_add1_eq [of "unat x" "2 ^ 63"])
  then show e: "f64_exp (f64_signed neg x) = f64_exp x" by (simp add: f64_exp_def u)
  have "(unat x + 2 ^ 11 * 2 ^ 52) mod 2 ^ 52 = unat x mod 2 ^ 52" by (rule mod_mult_self1)
  then have "(unat x + 2 ^ 63) mod 2 ^ 52 = unat x mod 2 ^ 52" by (simp flip: power_add)
  then show f: "f64_frac (f64_signed neg x) = f64_frac x" by (simp add: f64_frac_def u)
  show "f64_mag (f64_signed neg x) = f64_mag x" by (simp add: f64_mag_def f64_mantissa_def f64_scale_def e f)
  show "f64_neg (f64_signed neg x) = neg" using x by (simp add: f64_neg_def u)
qed

lemma small_int:
  assumes "abs i < 2 ^ 53"
  shows "f64_units (f64_of_int i) = i * 2 ^ 1074" "f64_is_finite (f64_of_int i)" "f64_mag (f64_of_int i) = nat (abs i) * 2 ^ 1074"
    "f64_neg (f64_of_int i) \<longleftrightarrow> i < 0"
proof -
  have n: "nat (abs i) < 2 ^ 53" using assms by (simp add: nat_less_iff)
  note m = small_int_mag [OF n]
  then have pos: "\<not> f64_neg (f64_of_ratio (nat (abs i)) 1)" by simp
  note s = signed_simps [OF pos]
  show mag: "f64_mag (f64_of_int i) = nat (abs i) * 2 ^ 1074" using m by (simp only: f64_of_int_def s)
  show neg: "f64_neg (f64_of_int i) \<longleftrightarrow> i < 0" by (simp only: f64_of_int_def s)
  show "f64_is_finite (f64_of_int i)" using m by (simp only: f64_of_int_def f64_is_finite_def s)
  show "f64_units (f64_of_int i) = i * 2 ^ 1074"
    unfolding f64_units_def mag neg by (cases "i < 0") (simp_all only: if_True if_False of_nat_mult of_nat_power, simp_all)
qed

lemma small_int_parts:
  assumes "abs i < 2 ^ 53"
  shows "\<not> f64_is_nan (f64_of_int i)" "\<not> f64_is_inf (f64_of_int i)"
  using small_int(2) [OF assms] by (simp_all add: f64_is_finite_def f64_is_nan_def f64_is_inf_def)

lemma round_small:
  assumes "abs i < 2 ^ 53" "1074 \<le> p"
  shows "f64_signed (i < 0) (f64_of_ratio (nat (abs i) * 2 ^ p) (2 ^ p)) = f64_of_int i"
proof -
  let ?y = "f64_of_ratio (nat (abs i)) 1"
  have n: "nat (abs i) < 2 ^ 53" using assms(1) by (simp add: nat_less_iff)
  note y = small_int_mag [OF n]
  have fin: "f64_is_finite ?y" using y by (simp only: f64_is_finite_def)
  have "nat (abs i) * 2 ^ p = f64_mag ?y * 2 ^ (p - 1074)"
    using y assms(2) by (simp only: mult.assoc flip: power_add) simp
  moreover have "f64_abs ?y = ?y"
  proof -
    have "unat ?y < 2 ^ 63" using y by (simp only: f64_neg_def not_le)
    then have "unat (f64_abs ?y) = unat ?y" by (simp only: f64_abs_unat mod_less)
    then show ?thesis by (simp only: word_unat_eq_iff)
  qed
  ultimately have "f64_of_ratio (nat (abs i) * 2 ^ p) (2 ^ p) = ?y" using round_mag [OF fin assms(2)] by (simp only:)
  then show ?thesis by (simp only: f64_of_int_def)
qed

text \<open>Sums and products of small integers.\<close>

lemma add_small:
  assumes "abs a < 2 ^ 53" "abs b < 2 ^ 53" "abs (a + b) < 2 ^ 53"
  shows "f64_add (f64_of_int a) (f64_of_int b) = f64_of_int (a + b)"
proof -
  have u: "f64_units (f64_of_int a) + f64_units (f64_of_int b) = (a + b) * 2 ^ 1074"
    by (simp only: small_int(1) [OF assms(1)] small_int(1) [OF assms(2)] distrib_right)
  have nz: "c * 2 ^ 1074 = 0 \<longleftrightarrow> c = 0" "c * 2 ^ 1074 < 0 \<longleftrightarrow> c < 0" for c :: int
    by (simp_all add: mult_less_0_iff)
  have mag: "nat (abs ((a + b) * 2 ^ 1074)) = nat (abs (a + b)) * 2 ^ 1074"
    by (simp add: abs_mult nat_mult_distrib)
  show ?thesis
  proof (cases "a + b = 0")
    case True
    have "\<not> (a < 0 \<and> b < 0)" using True by simp
    moreover have "f64_signed False 0 = f64_of_int 0"
      by (simp add: f64_of_int_def f64_signed_def f64_of_ratio_def Let_def split: prod.split)
    ultimately show ?thesis
      using True small_int_parts assms(1,2)
      by (simp only: f64_add_def u Let_def nz small_int(4) if_False if_True simp_thms)
  next
    case False
    have "f64_signed (a + b < 0) (f64_of_ratio (nat (abs (a + b)) * 2 ^ 1074) (2 ^ 1074)) = f64_of_int (a + b)"
      by (rule round_small [OF assms(3)]) simp
    then show ?thesis
      using False small_int_parts assms(1,2)
      by (simp only: f64_add_def u Let_def nz mag if_False if_True simp_thms)
  qed
qed

lemma mul_small:
  assumes "abs a < 2 ^ 53" "abs b < 2 ^ 53" "abs (a * b) < 2 ^ 53" "a \<noteq> 0" "b \<noteq> 0"
  shows "f64_mul (f64_of_int a) (f64_of_int b) = f64_of_int (a * b)"
proof -
  have "f64_mag (f64_of_int a) * f64_mag (f64_of_int b) = nat (abs a) * nat (abs b) * (2 ^ 1074 * 2 ^ 1074)"
    by (simp only: small_int(3) [OF assms(1)] small_int(3) [OF assms(2)] ac_simps)
  also have "\<dots> = nat (abs (a * b)) * 2 ^ 2148" by (simp only: abs_mult nat_mult_distrib abs_ge_zero flip: power_add) simp
  finally have m: "f64_mag (f64_of_int a) * f64_mag (f64_of_int b) = nat (abs (a * b)) * 2 ^ 2148" .
  have s: "(\<not> (a < 0) = (b < 0)) = (a * b < 0)" using assms(4,5) by (auto simp: mult_less_0_iff)
  have "f64_signed (a * b < 0) (f64_of_ratio (nat (abs (a * b)) * 2 ^ 2148) (2 ^ 2148)) = f64_of_int (a * b)"
    by (rule round_small [OF assms(3)]) simp
  moreover have "f64_mul (f64_of_int a) (f64_of_int b) = f64_signed (f64_neg (f64_of_int a) \<noteq> f64_neg (f64_of_int b))
      (f64_of_ratio (f64_mag (f64_of_int a) * f64_mag (f64_of_int b)) (2 ^ 2148))"
    unfolding f64_mul_def Let_def
    using small_int_parts [OF assms(1)] small_int_parts [OF assms(2)] by (simp only: if_False simp_thms)
  ultimately show ?thesis by (simp only: m small_int(4) [OF assms(1)] small_int(4) [OF assms(2)] s)
qed

end
