(* ===== verification/Cypher_Eval.thy ===== *)
theory Cypher_Eval
  imports Cypher_Ast Json Btree_Map Float_Ops
begin

text \<open>
  The evaluator of the write path (\<open>engine/src/cypher/eval.rs\<close>): an expression over the bindings of a row
  and the parameters of the query.  What the code takes from PostgreSQL, from the platform's \<open>pow\<close>, from
  the Unicode case tables and from the printer of \<open>serde_json\<close> is the record \<open>host\<close>.  An expression
  evaluates to a value, to the source's error, or to the panic of indexing the first of no arguments.
\<close>

section \<open>Values\<close>

record host =
  uppercase :: "string \<Rightarrow> string"
  lowercase :: "string \<Rightarrow> string"
  power :: "f64 \<Rightarrow> f64 \<Rightarrow> f64"
  json_text :: "json \<Rightarrow> string"
  now_iso :: string
  now_epoch :: i64

datatype eval_error = Eval_failed string | No_argument

type_synonym env = "string \<Rightarrow> json option"

text \<open>Equality of \<open>Value\<close>s: numbers of the same representation, objects entry by entry.\<close>

fun jnum_eq :: "jnum \<Rightarrow> jnum \<Rightarrow> bool" where
  "jnum_eq (PosInt a) (PosInt b) \<longleftrightarrow> a = b"
| "jnum_eq (NegInt a) (NegInt b) \<longleftrightarrow> a = b"
| "jnum_eq (JFloat a) (JFloat b) \<longleftrightarrow> f64_eq a b"
| "jnum_eq _ _ \<longleftrightarrow> False"

lemma list_all2_fundef_cong [fundef_cong]:
  "xs = xs' \<Longrightarrow> ys = ys' \<Longrightarrow> (\<And>x y. x \<in> set xs' \<Longrightarrow> y \<in> set ys' \<Longrightarrow> P x y = Q x y) \<Longrightarrow> list_all2 P xs ys = list_all2 Q xs' ys'"
  by (auto simp: list_all2_conv_all_nth)

fun json_eq :: "json \<Rightarrow> json \<Rightarrow> bool" where
  "json_eq JNull JNull \<longleftrightarrow> True"
| "json_eq (JBool a) (JBool b) \<longleftrightarrow> a = b"
| "json_eq (JNum a) (JNum b) \<longleftrightarrow> jnum_eq a b"
| "json_eq (JStr a) (JStr b) \<longleftrightarrow> a = b"
| "json_eq (JArr xs) (JArr ys) \<longleftrightarrow> list_all2 (\<lambda>x y. json_eq x y) xs ys"
| "json_eq (JObj m) (JObj n) \<longleftrightarrow> list_all2 (\<lambda>(k, v) (l, w). k = l \<and> json_eq v w) m n"
| "json_eq _ _ \<longleftrightarrow> False"

text \<open>\<open>json!(n)\<close> for a length, and \<open>Map::insert\<close> one entry after the other.\<close>

definition json_of_len :: "nat \<Rightarrow> json" where
  "json_of_len n = JNum (PosInt (of_nat n))"

definition json_object :: "(string \<times> json) list \<Rightarrow> json" where
  "json_object kv = JObj (foldl (\<lambda>m (k, v). btree_insert k v m) [] kv)"

fun truthy :: "json \<Rightarrow> bool" where
  "truthy (JBool b) \<longleftrightarrow> b"
| "truthy JNull \<longleftrightarrow> False"
| "truthy (JNum n) \<longleftrightarrow> (case num_as_f64 n of Some f \<Rightarrow> \<not> f64_eq f 0 | None \<Rightarrow> False)"
| "truthy (JStr s) \<longleftrightarrow> s \<noteq> []"
| "truthy (JArr xs) \<longleftrightarrow> xs \<noteq> []"
| "truthy (JObj m) \<longleftrightarrow> m \<noteq> []"

text \<open>\<open>str::parse::<f64>\<close>: an optional sign, then a decimal number or one of the three words.\<close>

definition f64_from_str :: "string \<Rightarrow> f64 option" where
  "f64_from_str s =
     (let neg = (take 1 s = ''-''); r = (if take 1 s \<in> {''-'', ''+''} then drop 1 s else s); w = to_ascii_lowercase r
      in case parse_f64 r of
           Inr f \<Rightarrow> Some (f64_signed neg f)
         | Inl _ \<Rightarrow> if w = ''inf'' \<or> w = ''infinity'' then Some (f64_signed neg f64_inf)
             else if w = ''nan'' then Some (f64_signed neg f64_nan) else None)"

fun num :: "json \<Rightarrow> f64 option" where
  "num (JNum n) = num_as_f64 n"
| "num (JStr s) = f64_from_str s"
| "num _ = None"

fun text_of :: "host \<Rightarrow> json \<Rightarrow> string" where
  "text_of h (JStr s) = s"
| "text_of h JNull = []"
| "text_of h v = json_text h v"

section \<open>Operators\<close>

definition arith :: "host \<Rightarrow> bin_op \<Rightarrow> f64 \<Rightarrow> f64 \<Rightarrow> json" where
  "arith h bop x y =
     (if bop = Sub then json_of_f64 (f64_sub x y)
      else if bop = Mul then json_of_f64 (f64_mul x y)
      else if bop = Div then (if f64_eq y 0 then JNull else json_of_f64 (f64_div x y))
      else if bop = Mod then (if f64_eq y 0 then JNull else json_of_f64 (f64_rem x y))
      else json_of_f64 (power h x y))"

definition compare_op :: "bin_op \<Rightarrow> ('a \<Rightarrow> 'a \<Rightarrow> bool) \<Rightarrow> ('a \<Rightarrow> 'a \<Rightarrow> bool) \<Rightarrow> 'a \<Rightarrow> 'a \<Rightarrow> json" where
  "compare_op bop lt leq x y = JBool
     (if bop = Lt then lt x y else if bop = Le then leq x y else if bop = Gt then lt y x else leq y x)"

fun binary :: "host \<Rightarrow> bin_op \<Rightarrow> json \<Rightarrow> json \<Rightarrow> json" where
  "binary h Add a b = (case (num a, num b) of
       (Some x, Some y) \<Rightarrow> json_of_f64 (f64_add x y)
     | _ \<Rightarrow> JStr (text_of h a @ text_of h b))"
| "binary h Eq a b = JBool (json_eq a b)"
| "binary h Ne a b = JBool (\<not> json_eq a b)"
| "binary h And a b = JBool (truthy a \<and> truthy b)"
| "binary h Or a b = JBool (truthy a \<or> truthy b)"
| "binary h Xor a b = JBool (truthy a \<noteq> truthy b)"
| "binary h Concat a b = JStr (text_of h a @ text_of h b)"
| "binary h StartsWith a b = JBool (starts_with (text_of h b) (text_of h a))"
| "binary h EndsWith a b = JBool (starts_with (rev (text_of h b)) (rev (text_of h a)))"
| "binary h Contains a b = JBool (contains (text_of h b) (text_of h a))"
| "binary h Regex a b = JBool False"
| "binary h InOp a b = (case b of JArr xs \<Rightarrow> JBool (list_ex (\<lambda>x. json_eq x a) xs) | _ \<Rightarrow> JBool False)"
| "binary h bop a b =
     (if bop \<in> {Lt, Le, Gt, Ge} then
        (case (num a, num b) of
           (Some x, Some y) \<Rightarrow> compare_op bop f64_less f64_le x y
         | _ \<Rightarrow> compare_op bop (<) (\<le>) (text_of h a) (text_of h b))
      else (case (num a, num b) of (Some x, Some y) \<Rightarrow> arith h bop x y | _ \<Rightarrow> JNull))"

section \<open>Functions\<close>

text \<open>\<open>&a[0]\<close>.\<close>

definition first_arg :: "json list \<Rightarrow> (json \<Rightarrow> json) \<Rightarrow> eval_error + json" where
  "first_arg args f = (case args of [] \<Rightarrow> Inl No_argument | a # _ \<Rightarrow> Inr (f a))"

definition func :: "host \<Rightarrow> string \<Rightarrow> json list \<Rightarrow> eval_error + json" where
  "func h nm args =
     (let f = to_ascii_lowercase nm; num_or_null = (\<lambda>g a. case num a of Some x \<Rightarrow> g x | None \<Rightarrow> JNull) in
      if f \<in> {''toupper'', ''upper''} then first_arg args (\<lambda>a. JStr (uppercase h (text_of h a)))
      else if f \<in> {''tolower'', ''lower''} then first_arg args (\<lambda>a. JStr (lowercase h (text_of h a)))
      else if f = ''trim'' then first_arg args (\<lambda>a. JStr (trim (text_of h a)))
      else if f = ''tostring'' then first_arg args (\<lambda>a. JStr (text_of h a))
      else if f = ''tointeger'' then first_arg args (num_or_null (\<lambda>x. json_of_i64 (f64_to_i64 x)))
      else if f = ''tofloat'' then first_arg args (num_or_null json_of_f64)
      else if f = ''coalesce'' then Inr (case find (\<lambda>v. v \<noteq> JNull) args of Some v \<Rightarrow> v | None \<Rightarrow> JNull)
      else if f \<in> {''size'', ''length''} then first_arg args (\<lambda>a. case a of
          JArr xs \<Rightarrow> json_of_len (length xs)
        | JStr s \<Rightarrow> json_of_len (length (utf8_chars s))
        | _ \<Rightarrow> JNull)
      else if f = ''abs'' then first_arg args (num_or_null (\<lambda>x. json_of_f64 (f64_abs x)))
      else if f = ''id'' then first_arg args (\<lambda>a. case json_get a ''_id'' of Some v \<Rightarrow> v | None \<Rightarrow> JNull)
      else if f = ''elementid'' then
        first_arg args (\<lambda>a. case json_get a ''_id'' of Some v \<Rightarrow> JStr (json_text h v) | None \<Rightarrow> JNull)
      else if f = ''type'' then first_arg args (\<lambda>a. case json_get a ''_type'' of Some v \<Rightarrow> v | None \<Rightarrow> JNull)
      else if f = ''labels'' then first_arg args (\<lambda>a. case json_get a ''_type'' of Some v \<Rightarrow> JArr [v] | None \<Rightarrow> JNull)
      else if f = ''keys'' then first_arg args (\<lambda>a. case a of JObj m \<Rightarrow> JArr (map (\<lambda>(k, v). JStr k) m) | _ \<Rightarrow> JNull)
      else if f = ''timestamp'' then Inr (json_of_i64 (now_epoch h))
      else if f = ''datetime'' then Inr (JStr (now_iso h))
      else Inl (Eval_failed (''function '' @ [CHR 0x27] @ f @ [CHR 0x27] @ '' is not available in a write clause'')))"

section \<open>Expressions\<close>

text \<open>The loops of the source, over any test and any evaluation of their parts.\<close>

fun run_branches :: "('c \<Rightarrow> 'e + bool) \<Rightarrow> ('v \<Rightarrow> 'e + 'r) \<Rightarrow> ('c \<times> 'v) list \<Rightarrow> 'e + 'r \<Rightarrow> 'e + 'r" where
  "run_branches test run [] other = other"
| "run_branches test run ((c, v) # ws) other =
     rbind (test c) (\<lambda>hit. if hit then run v else run_branches test run ws other)"

lemma run_branches_cong [fundef_cong]:
  assumes "ws = ws'" "other = other'" "\<And>c v. (c, v) \<in> set ws' \<Longrightarrow> test c = test' c" "\<And>c v. (c, v) \<in> set ws' \<Longrightarrow> run v = run' v"
  shows "run_branches test run ws other = run_branches test' run' ws' other'"
proof -
  have "run_branches test run ws' other' = run_branches test' run' ws' other'"
    using assms(3,4)
  proof (induction ws')
    case (Cons w ws')
    obtain c v where w: "w = (c, v)" by fastforce
    have "run_branches test run ws' other' = run_branches test' run' ws' other'" by (rule Cons.IH) (use Cons.prems in auto)
    moreover have "test c = test' c" "run v = run' v" using Cons.prems [of c v] by (simp_all add: w)
    ultimately show ?case by (simp add: w cong: if_cong)
  qed simp
  with assms(1,2) show ?thesis by simp
qed

fun comprehend :: "('a \<Rightarrow> 'e + bool) \<Rightarrow> ('a \<Rightarrow> 'e + 'b) \<Rightarrow> 'a list \<Rightarrow> 'e + 'b list" where
  "comprehend keep give [] = Inr []"
| "comprehend keep give (x # xs) =
     rbind (keep x) (\<lambda>b. if b then rbind (give x) (\<lambda>y. rbind (comprehend keep give xs) (\<lambda>ys. Inr (y # ys)))
                         else comprehend keep give xs)"

text \<open>\<open>k.starts_with('_')\<close> marks the fields of the engine, which \<open>.*\<close> leaves out.\<close>

fun project_items :: "(expr \<Rightarrow> 'e + json) \<Rightarrow> json \<Rightarrow> map_proj_item list \<Rightarrow> (string \<times> json) list \<Rightarrow> 'e + (string \<times> json) list" where
  "project_items ev subject [] out = Inr out"
| "project_items ev subject (ItemAll # its) out = project_items ev subject its
     (case subject of JObj m \<Rightarrow> foldl (\<lambda>m (k, v). btree_insert k v m) out (filter (\<lambda>(k, v). \<not> starts_with ''_'' k) m) | _ \<Rightarrow> out)"
| "project_items ev subject (ItemProp p # its) out = project_items ev subject its
     (btree_insert p (case json_get subject p of Some v \<Rightarrow> v | None \<Rightarrow> JNull) out)"
| "project_items ev subject (Entry k e # its) out =
     rbind (ev e) (\<lambda>v. project_items ev subject its (btree_insert k v out))"

lemma project_items_cong [fundef_cong]:
  "its = its' \<Longrightarrow> subject = subject' \<Longrightarrow> out = out' \<Longrightarrow> (\<And>k e. Entry k e \<in> set its' \<Longrightarrow> ev e = ev' e) \<Longrightarrow>
    project_items ev subject its out = project_items ev' subject' its' out'"
proof -
  assume "its = its'" "subject = subject'" "out = out'" "\<And>k e. Entry k e \<in> set its' \<Longrightarrow> ev e = ev' e"
  then have "project_items ev subject' its' out = project_items ev' subject' its' out" for out
  proof (induction its' arbitrary: out its)
    case (Cons it its')
    have IH: "project_items ev subject' its' out = project_items ev' subject' its' out" for out
      by (rule Cons.IH [of its']) (use Cons.prems in auto)
    have "ev e = ev' e" if "it = Entry k e" for k e using Cons.prems(4) [of k e] that by simp
    then show ?case by (cases it) (simp_all add: IH)
  qed simp
  with \<open>its = its'\<close> \<open>subject = subject'\<close> \<open>out = out'\<close> show ?thesis by simp
qed

definition lookup :: "env \<Rightarrow> string \<Rightarrow> json" where
  "lookup env v = (case env v of Some j \<Rightarrow> j | None \<Rightarrow> JNull)"

fun list_pred_holds :: "list_pred_kind \<Rightarrow> nat \<Rightarrow> nat \<Rightarrow> bool" where
  "list_pred_holds Any hits n \<longleftrightarrow> hits > 0"
| "list_pred_holds NoneOf hits n \<longleftrightarrow> hits = 0"
| "list_pred_holds Single hits n \<longleftrightarrow> hits = 1"
| "list_pred_holds AllOf hits n \<longleftrightarrow> hits = n"

fun eval :: "host \<Rightarrow> json \<Rightarrow> expr \<Rightarrow> env \<Rightarrow> eval_error + json" where
  "eval h ps (Lit (IntL i)) env = Inr (json_of_i64 i)"
| "eval h ps (Lit (Float f)) env = Inr (json_of_f64 f)"
| "eval h ps (Lit (Str s)) env = Inr (JStr s)"
| "eval h ps (Lit (Bool b)) env = Inr (JBool b)"
| "eval h ps (Lit Null) env = Inr JNull"
| "eval h ps (Param p) env = Inr (case json_get ps p of Some v \<Rightarrow> v | None \<Rightarrow> JNull)"
| "eval h ps (Var v) env = Inr (lookup env v)"
| "eval h ps (Prop base p) env = rbind (eval h ps base env) (\<lambda>b. Inr (case json_get b p of Some v \<Rightarrow> v | None \<Rightarrow> JNull))"
| "eval h ps (ListE xs) env = rbind (rmap (\<lambda>x. eval h ps x env) xs) (\<lambda>vs. Inr (JArr vs))"
| "eval h ps (MapE kv) env =
     rbind (rmap (\<lambda>(k, e). rbind (eval h ps e env) (\<lambda>v. Inr (k, v))) kv) (\<lambda>kv. Inr (json_object kv))"
| "eval h ps (Neg a) env = rbind (eval h ps a env) (\<lambda>v. Inr (case v of
       JNum n \<Rightarrow> (case num_as_f64 n of Some f \<Rightarrow> json_of_f64 (f64_uminus f) | None \<Rightarrow> JNull)
     | _ \<Rightarrow> JNull))"
| "eval h ps (NotE a) env = rbind (eval h ps a env) (\<lambda>v. Inr (JBool (\<not> truthy v)))"
| "eval h ps (IsNull a want) env = rbind (eval h ps a env) (\<lambda>v. Inr (JBool ((v = JNull) = want)))"
| "eval h ps (Binary bop a b) env = rbind (eval h ps a env) (\<lambda>x. rbind (eval h ps b env) (\<lambda>y. Inr (binary h bop x y)))"
| "eval h ps (CaseE operand whens els) env =
     rbind (case operand of Some e \<Rightarrow> rbind (eval h ps e env) (\<lambda>v. Inr (Some v)) | None \<Rightarrow> Inr None) (\<lambda>subject.
     run_branches
       (\<lambda>c. rbind (eval h ps c env) (\<lambda>v. Inr (case subject of Some s \<Rightarrow> json_eq s v | None \<Rightarrow> truthy v)))
       (\<lambda>v. eval h ps v env) whens
       (case els of Some e \<Rightarrow> eval h ps e env | None \<Rightarrow> Inr JNull))"
| "eval h ps (Func nm args d) env = rbind (rmap (\<lambda>x. eval h ps x env) args) (\<lambda>vs. func h nm vs)"
| "eval h ps (ListComp x source cond project) env =
     rbind (eval h ps source env) (\<lambda>src. case src of
       JArr xs \<Rightarrow> rbind (comprehend
           (\<lambda>it. case cond of Some f \<Rightarrow> rbind (eval h ps f (env(x \<mapsto> it))) (\<lambda>v. Inr (truthy v)) | None \<Rightarrow> Inr True)
           (\<lambda>it. case project of Some p \<Rightarrow> eval h ps p (env(x \<mapsto> it)) | None \<Rightarrow> Inr it) xs) (\<lambda>out. Inr (JArr out))
     | _ \<Rightarrow> Inr (JArr []))"
| "eval h ps (ListPred kind x source cond) env =
     rbind (eval h ps source env) (\<lambda>src.
     let xs = (case src of JArr xs \<Rightarrow> xs | _ \<Rightarrow> []) in
     rbind (rmap (\<lambda>it. rbind (eval h ps cond (env(x \<mapsto> it))) (\<lambda>v. Inr (truthy v))) xs) (\<lambda>bs.
     Inr (JBool (list_pred_holds kind (length (filter id bs)) (length xs)))))"
| "eval h ps (MapProjection x its) env =
     rbind (project_items (\<lambda>e. eval h ps e env) (lookup env x) its []) (\<lambda>out. Inr (JObj out))"
| "eval h ps Star env = Inr JNull"

section \<open>Scope\<close>

text \<open>The variables whose bindings an expression reads; a comprehension and a predicate bind their own.\<close>

fun free_vars :: "expr \<Rightarrow> string set" and free_vars_item :: "map_proj_item \<Rightarrow> string set" where
  "free_vars (Var v) = {v}"
| "free_vars (Prop b p) = free_vars b"
| "free_vars (Binary bop a b) = free_vars a \<union> free_vars b"
| "free_vars (NotE a) = free_vars a"
| "free_vars (Neg a) = free_vars a"
| "free_vars (IsNull a w) = free_vars a"
| "free_vars (Func f args d) = (\<Union>a \<in> set args. free_vars a)"
| "free_vars (ListE xs) = (\<Union>x \<in> set xs. free_vars x)"
| "free_vars (MapE kv) = (\<Union>(k, v) \<in> set kv. free_vars v)"
| "free_vars (CaseE operand whens els) = (case operand of None \<Rightarrow> {} | Some e \<Rightarrow> free_vars e) \<union>
     (\<Union>(c, v) \<in> set whens. free_vars c \<union> free_vars v) \<union> (case els of None \<Rightarrow> {} | Some e \<Rightarrow> free_vars e)"
| "free_vars (ListComp x source cond project) = free_vars source \<union>
     ((case cond of None \<Rightarrow> {} | Some e \<Rightarrow> free_vars e) \<union> (case project of None \<Rightarrow> {} | Some e \<Rightarrow> free_vars e) - {x})"
| "free_vars (ListPred kind x source cond) = free_vars source \<union> (free_vars cond - {x})"
| "free_vars (MapProjection x its) = insert x (\<Union>it \<in> set its. free_vars_item it)"
| "free_vars _ = {}"
| "free_vars_item (Entry k e) = free_vars e"
| "free_vars_item _ = {}"

lemma rmap_eq: "(\<And>x. x \<in> set xs \<Longrightarrow> f x = g x) \<Longrightarrow> rmap f xs = rmap g xs"
  by (rule rmap_cong) auto

lemma comprehend_eq: "(\<And>x. keep x = keep' x) \<Longrightarrow> (\<And>x. give x = give' x) \<Longrightarrow> comprehend keep give xs = comprehend keep' give' xs"
  by (metis ext)

lemma project_items_eq:
  "(\<And>k e. Entry k e \<in> set its \<Longrightarrow> ev e = ev' e) \<Longrightarrow> project_items ev subject its out = project_items ev' subject its out"
  by (rule project_items_cong) auto

lemma run_branches_eq:
  "(\<And>c v. (c, v) \<in> set ws \<Longrightarrow> test c = test' c \<and> run v = run' v) \<Longrightarrow> run_branches test run ws other = run_branches test' run' ws other"
  by (rule run_branches_cong) auto

definition agree :: "string set \<Rightarrow> env \<Rightarrow> env \<Rightarrow> bool" where
  "agree V env env' \<longleftrightarrow> (\<forall>v \<in> V. env v = env' v)"

lemma agree_simps [simp]:
  "agree {} env env'" "agree {v} env env' \<longleftrightarrow> env v = env' v" "agree (A \<union> B) env env' \<longleftrightarrow> agree A env env' \<and> agree B env env'"
  "agree (insert v A) env env' \<longleftrightarrow> env v = env' v \<and> agree A env env'"
  "agree (\<Union>x \<in> S. f x) env env' \<longleftrightarrow> (\<forall>x \<in> S. agree (f x) env env')"
  by (auto simp: agree_def)

lemma scope_all:
  "agree (free_vars e) env env' \<Longrightarrow> eval h ps e env = eval h ps e env'"
  "agree (free_vars_item it) env env' \<Longrightarrow> (\<forall>k e. it = Entry k e \<longrightarrow> eval h ps e env = eval h ps e env')"
proof (induction e and it arbitrary: env env' and env env')
  case (Lit l)
  then show ?case by (cases l) simp_all
next
  case (Prop b p)
  from Prop.IH [of env env'] Prop.prems show ?case by simp
next
  case (Binary bop a b)
  from Binary.IH(1) [of env env'] Binary.IH(2) [of env env'] Binary.prems show ?case by simp
next
  case (NotE a)
  from NotE.IH [of env env'] NotE.prems show ?case by simp
next
  case (Neg a)
  from Neg.IH [of env env'] Neg.prems show ?case by simp
next
  case (IsNull a w)
  from IsNull.IH [of env env'] IsNull.prems show ?case by simp
next
  case (Func f args d)
  then have "rmap (\<lambda>x. eval h ps x env) args = rmap (\<lambda>x. eval h ps x env') args" by (intro rmap_eq) auto
  then show ?case by simp
next
  case (ListE xs)
  then have "rmap (\<lambda>x. eval h ps x env) xs = rmap (\<lambda>x. eval h ps x env') xs" by (intro rmap_eq) auto
  then show ?case by simp
next
  case (MapE kv)
  have "rmap (\<lambda>(k, e). rbind (eval h ps e env) (\<lambda>v. Inr (k, v))) kv = rmap (\<lambda>(k, e). rbind (eval h ps e env') (\<lambda>v. Inr (k, v))) kv"
  proof (rule rmap_eq)
    fix x assume x: "x \<in> set kv"
    obtain k e where ke: "x = (k, e)" by fastforce
    have "eval h ps e env = eval h ps e env'" by (rule MapE.IH [OF x]) (use MapE.prems x ke in \<open>auto simp: split_beta\<close>)
    then show "(case x of (k, e) \<Rightarrow> rbind (eval h ps e env) (\<lambda>v. Inr (k, v))) = (case x of (k, e) \<Rightarrow> rbind (eval h ps e env') (\<lambda>v. Inr (k, v)))"
      by (simp add: ke)
  qed
  then show ?case by simp
next
  case (CaseE operand whens els)
  have op: "eval h ps e env = eval h ps e env'" if "operand = Some e" for e
    by (rule CaseE.IH(1)) (use CaseE.prems that in auto)
  have el: "eval h ps e env = eval h ps e env'" if "els = Some e" for e
    by (rule CaseE.IH(4)) (use CaseE.prems that in auto)
  have ws: "eval h ps c env = eval h ps c env' \<and> eval h ps v env = eval h ps v env'" if "(c, v) \<in> set whens" for c v
    using CaseE.IH(2) [OF that, of c env env'] CaseE.IH(3) [OF that, of v env env'] CaseE.prems that by (auto simp: split_beta)
  have b: "run_branches (\<lambda>c. rbind (eval h ps c env) (\<lambda>v. Inr (f v))) (\<lambda>v. eval h ps v env) whens other =
     run_branches (\<lambda>c. rbind (eval h ps c env') (\<lambda>v. Inr (f v))) (\<lambda>v. eval h ps v env') whens other" for f other
    by (rule run_branches_eq) (use ws in simp)
  show ?case using op el by (cases operand; cases els) (simp_all add: b)
next
  case (ListComp x source cond project)
  have src: "eval h ps source env = eval h ps source env'" by (rule ListComp.IH(1)) (use ListComp.prems in simp)
  have c: "eval h ps e (env(x \<mapsto> it)) = eval h ps e (env'(x \<mapsto> it))" if "cond = Some e" for e it
    by (rule ListComp.IH(2)) (use ListComp.prems that in \<open>auto simp: agree_def\<close>)
  have p: "eval h ps e (env(x \<mapsto> it)) = eval h ps e (env'(x \<mapsto> it))" if "project = Some e" for e it
    by (rule ListComp.IH(3)) (use ListComp.prems that in \<open>auto simp: agree_def\<close>)
  show ?case unfolding eval.simps src using c p by (cases cond; cases project) simp_all
next
  case (ListPred kind x source cond)
  have src: "eval h ps source env = eval h ps source env'" by (rule ListPred.IH(1)) (use ListPred.prems in simp)
  have c: "eval h ps cond (env(x \<mapsto> it)) = eval h ps cond (env'(x \<mapsto> it))" for it
    by (rule ListPred.IH(2)) (use ListPred.prems in \<open>auto simp: agree_def\<close>)
  show ?case unfolding eval.simps src c ..
next
  case (MapProjection x its)
  have "project_items (\<lambda>e. eval h ps e env) (lookup env x) its [] = project_items (\<lambda>e. eval h ps e env') (lookup env x) its []"
    by (rule project_items_eq) (use MapProjection in fastforce)
  moreover have "lookup env x = lookup env' x" using MapProjection.prems by (simp add: lookup_def)
  ultimately show ?case by simp
qed (auto simp: lookup_def)

section \<open>Well-formed values\<close>

fun json_ok :: "json \<Rightarrow> bool" where
  "json_ok (JNum (JFloat f)) = f64_is_finite f"
| "json_ok (JArr xs) \<longleftrightarrow> (\<forall>x \<in> set xs. json_ok x)"
| "json_ok (JObj m) \<longleftrightarrow> btree_ok m \<and> (\<forall>(k, v) \<in> set m. json_ok v)"
| "json_ok _ \<longleftrightarrow> True"

definition env_ok :: "env \<Rightarrow> bool" where
  "env_ok env \<longleftrightarrow> (\<forall>v j. env v = Some j \<longrightarrow> json_ok j)"

lemma json_ok_made [simp]: "json_ok (json_of_f64 f)" "json_ok (json_of_i64 i)" "json_ok (json_of_len n)"
  by (simp_all add: json_of_f64_def json_of_i64_def json_of_len_def)

lemma json_get_ok: "json_ok j \<Longrightarrow> json_get j k = Some v \<Longrightarrow> json_ok v"
  by (cases j) (auto dest: map_of_SomeD)

lemma get_or_null_ok: "json_ok j \<Longrightarrow> json_ok (case json_get j k of Some v \<Rightarrow> v | None \<Rightarrow> JNull)"
  by (auto split: option.split dest: json_get_ok)

lemma env_ok_upd: "env_ok env \<Longrightarrow> json_ok j \<Longrightarrow> env_ok (env(v \<mapsto> j))"
  by (auto simp: env_ok_def)

lemma lookup_ok: "env_ok env \<Longrightarrow> json_ok (lookup env v)"
  by (auto simp: env_ok_def lookup_def split: option.split)

abbreviation entries_ok :: "(string \<times> json) list \<Rightarrow> bool" where
  "entries_ok m \<equiv> btree_ok m \<and> (\<forall>(k, v) \<in> set m. json_ok v)"

lemma btree_insert_set: "set (btree_insert k v m) \<subseteq> insert (k, v) (set m)"
  by (induction k v m rule: btree_insert.induct) auto

lemma insert_entries_ok: "entries_ok m \<Longrightarrow> json_ok v \<Longrightarrow> entries_ok (btree_insert k v m)"
  using btree_insert_set [of k v m] by (auto simp: btree_insert_ok)

lemma fold_entries_ok: "entries_ok m \<Longrightarrow> \<forall>(k, v) \<in> set kv. json_ok v \<Longrightarrow> entries_ok (foldl (\<lambda>m (k, v). btree_insert k v m) m kv)"
proof (induction kv arbitrary: m)
  case (Cons x kv)
  obtain k v where x: "x = (k, v)" by fastforce
  have "entries_ok (btree_insert k v m)" using Cons.prems x by (intro insert_entries_ok) auto
  from Cons.IH [OF this] Cons.prems(2) show ?case by (simp add: x)
qed simp

lemma json_object_ok: "\<forall>(k, v) \<in> set kv. json_ok v \<Longrightarrow> json_ok (json_object kv)"
  using fold_entries_ok [of "[]" kv] by (simp add: json_object_def btree_ok_def)

lemma rmap_all: "rmap f xs = Inr ys \<Longrightarrow> \<forall>x \<in> set xs. \<forall>y. f x = Inr y \<longrightarrow> P y \<Longrightarrow> \<forall>y \<in> set ys. P y"
  by (induction xs arbitrary: ys) (auto simp: rbind_eq_Inr_iff)

lemma comprehend_all:
  "comprehend keep give xs = Inr ys \<Longrightarrow> \<forall>x \<in> set xs. \<forall>y. give x = Inr y \<longrightarrow> P y \<Longrightarrow> \<forall>y \<in> set ys. P y"
proof (induction xs arbitrary: ys)
  case (Cons x xs)
  then show ?case by (auto simp: rbind_eq_Inr_iff split: if_splits)
qed simp

lemma run_branches_all:
  "run_branches test run ws other = Inr r \<Longrightarrow> \<forall>(c, v) \<in> set ws. \<forall>r. run v = Inr r \<longrightarrow> P r \<Longrightarrow> other = Inr r \<longrightarrow> P r \<Longrightarrow> P r"
proof (induction ws)
  case (Cons w ws)
  obtain c v where w: "w = (c, v)" by fastforce
  with Cons.prems(1) obtain hit where "test c = Inr hit" "(if hit then run v else run_branches test run ws other) = Inr r"
    by (auto simp: rbind_eq_Inr_iff)
  with Cons w show ?case by (cases hit) auto
qed simp

lemma project_items_ok:
  "project_items ev subject its out = Inr m \<Longrightarrow> json_ok subject \<Longrightarrow> entries_ok out \<Longrightarrow>
    \<forall>k e. Entry k e \<in> set its \<longrightarrow> (\<forall>v. ev e = Inr v \<longrightarrow> json_ok v) \<Longrightarrow> entries_ok m"
proof (induction ev subject its out rule: project_items.induct)
  case (2 ev subject its out)
  let ?out = "case subject of JObj m \<Rightarrow> foldl (\<lambda>m (k, v). btree_insert k v m) out (filter (\<lambda>(k, v). \<not> starts_with ''_'' k) m) | _ \<Rightarrow> out"
  have "entries_ok ?out"
  proof (cases subject)
    case (JObj n)
    then have "entries_ok (foldl (\<lambda>m (k, v). btree_insert k v m) out (filter (\<lambda>(k, v). \<not> starts_with ''_'' k) n))"
      using "2.prems"(2,3) by (intro fold_entries_ok) auto
    with JObj show ?thesis by simp
  qed (use "2.prems" in simp_all)
  with 2 show ?case by simp
next
  case (3 ev subject p its out)
  have "entries_ok (btree_insert p (case json_get subject p of Some v \<Rightarrow> v | None \<Rightarrow> JNull) out)"
    by (rule insert_entries_ok [OF "3.prems"(3) get_or_null_ok [OF "3.prems"(2)]])
  with 3 show ?case by simp
next
  case (4 ev subject k e its out)
  then obtain v where v: "ev e = Inr v" "project_items ev subject its (btree_insert k v out) = Inr m"
    by (auto simp: rbind_eq_Inr_iff)
  have "json_ok v" using "4.prems"(4) v(1) by simp
  then have "entries_ok (btree_insert k v out)" using "4.prems"(3) by (rule insert_entries_ok [rotated])
  with "4.IH" [OF v] "4.prems" v(2) show ?case by simp
qed simp

lemma binary_ok: "json_ok (binary h bop x y)"
  by (cases bop) (auto simp: arith_def compare_op_def split: option.split json.split)

lemma func_ok: "func h nm args = Inr v \<Longrightarrow> \<forall>a \<in> set args. json_ok a \<Longrightarrow> json_ok v"
proof -
  assume f: "func h nm args = Inr v" and a: "\<forall>a \<in> set args. json_ok a"
  have first: "json_ok v" if "first_arg args g = Inr v" "\<And>a. json_ok a \<Longrightarrow> json_ok (g a)" for g
    using that a by (cases args) (auto simp: first_arg_def)
  have found: "json_ok (case find (\<lambda>v. v \<noteq> JNull) args of Some v \<Rightarrow> v | None \<Rightarrow> JNull)"
    using a by (auto split: option.split simp: find_Some_iff)
  show ?thesis
    using f found unfolding func_def Let_def
    by (auto split: if_splits elim!: first intro: get_or_null_ok split: option.splits json.splits dest: json_get_ok)
qed

lemma eval_ok:
  assumes "json_ok ps"
  shows "env_ok env \<Longrightarrow> eval h ps e env = Inr v \<Longrightarrow> json_ok v"
    "env_ok env \<Longrightarrow> (\<forall>k e. it = Entry k e \<longrightarrow> (\<forall>v. eval h ps e env = Inr v \<longrightarrow> json_ok v))"
proof (induction e and it arbitrary: env v and env)
  case (Lit l)
  then show ?case by (cases l) auto
next
  case (Param p)
  then show ?case using get_or_null_ok [OF assms, of p] by simp
next
  case (Var x)
  then show ?case using lookup_ok by auto
next
  case (Prop b p)
  then show ?case by (auto simp: rbind_eq_Inr_iff intro: get_or_null_ok)
next
  case (Binary bop a b)
  then show ?case by (auto simp: rbind_eq_Inr_iff binary_ok)
next
  case (Neg a)
  then show ?case by (auto simp: rbind_eq_Inr_iff split: json.split option.split)
next
  case (Func f args d)
  from Func.prems obtain vs where vs: "rmap (\<lambda>x. eval h ps x env) args = Inr vs" "func h f vs = Inr v"
    by (auto simp: rbind_eq_Inr_iff)
  have "\<forall>a \<in> set vs. json_ok a" by (rule rmap_all [OF vs(1)]) (use Func in blast)
  with vs(2) show ?case by (rule func_ok)
next
  case (ListE xs)
  from ListE.prems obtain vs where vs: "rmap (\<lambda>x. eval h ps x env) xs = Inr vs" "v = JArr vs"
    by (auto simp: rbind_eq_Inr_iff)
  have "\<forall>a \<in> set vs. json_ok a" by (rule rmap_all [OF vs(1)]) (use ListE in blast)
  with vs(2) show ?case by simp
next
  case (MapE kv)
  from MapE.prems obtain out where out: "rmap (\<lambda>(k, e). rbind (eval h ps e env) (\<lambda>v. Inr (k, v))) kv = Inr out"
    "v = json_object out"
    by (auto simp: rbind_eq_Inr_iff)
  have "\<forall>y \<in> set out. json_ok (snd y)"
  proof (rule rmap_all [OF out(1)], intro ballI allI impI)
    fix x y assume x: "x \<in> set kv" "(case x of (k, e) \<Rightarrow> rbind (eval h ps e env) (\<lambda>v. Inr (k, v))) = Inr y"
    obtain k e where ke: "x = (k, e)" by fastforce
    with x(2) obtain v where "eval h ps e env = Inr v" "y = (k, v)" by (auto simp: rbind_eq_Inr_iff)
    with MapE.IH [OF x(1), of e env v] MapE.prems(1) ke show "json_ok (snd y)" by simp
  qed
  then show ?case unfolding out(2) by (intro json_object_ok) auto
next
  case (CaseE operand whens els)
  from CaseE.prems(2) obtain subject where
    r: "run_branches (\<lambda>c. rbind (eval h ps c env) (\<lambda>v. Inr (case subject of Some s \<Rightarrow> json_eq s v | None \<Rightarrow> truthy v)))
       (\<lambda>v. eval h ps v env) whens (case els of Some e \<Rightarrow> eval h ps e env | None \<Rightarrow> Inr JNull) = Inr v"
    by (auto simp: rbind_eq_Inr_iff)
  show ?case
  proof (rule run_branches_all [OF r])
    show "\<forall>(c, x) \<in> set whens. \<forall>r. eval h ps x env = Inr r \<longrightarrow> json_ok r"
      using CaseE.IH(3) CaseE.prems(1) by fastforce
    show "(case els of Some e \<Rightarrow> eval h ps e env | None \<Rightarrow> Inr JNull) = Inr v \<longrightarrow> json_ok v"
      using CaseE.IH(4) CaseE.prems(1) by (auto split: option.splits)
  qed
next
  case (ListComp x source cond project)
  from ListComp.prems(2) obtain src where src: "eval h ps source env = Inr src"
    and v: "(case src of JArr xs \<Rightarrow> rbind (comprehend
           (\<lambda>it. case cond of Some f \<Rightarrow> rbind (eval h ps f (env(x \<mapsto> it))) (\<lambda>v. Inr (truthy v)) | None \<Rightarrow> Inr True)
           (\<lambda>it. case project of Some p \<Rightarrow> eval h ps p (env(x \<mapsto> it)) | None \<Rightarrow> Inr it) xs) (\<lambda>out. Inr (JArr out))
     | _ \<Rightarrow> Inr (JArr [])) = Inr v"
    by (auto simp: rbind_eq_Inr_iff)
  have ok: "json_ok src" using ListComp.IH(1) [OF ListComp.prems(1) src] .
  show ?case
  proof (cases src)
    case (JArr xs)
    with v obtain out where out: "comprehend
           (\<lambda>it. case cond of Some f \<Rightarrow> rbind (eval h ps f (env(x \<mapsto> it))) (\<lambda>v. Inr (truthy v)) | None \<Rightarrow> Inr True)
           (\<lambda>it. case project of Some p \<Rightarrow> eval h ps p (env(x \<mapsto> it)) | None \<Rightarrow> Inr it) xs = Inr out" "v = JArr out"
      by (auto simp: rbind_eq_Inr_iff)
    have "\<forall>y \<in> set out. json_ok y"
    proof (rule comprehend_all [OF out(1)], intro ballI allI impI)
      fix it y assume it: "it \<in> set xs" "(case project of Some p \<Rightarrow> eval h ps p (env(x \<mapsto> it)) | None \<Rightarrow> Inr it) = Inr y"
      then have "env_ok (env(x \<mapsto> it))" "json_ok it" using ok JArr ListComp.prems(1) by (auto intro: env_ok_upd)
      then show "json_ok y" using it(2) ListComp.IH(3) by (cases project) auto
    qed
    then show ?thesis by (simp add: out(2))
  qed (use v in auto)
next
  case (MapProjection x its)
  from MapProjection.prems(2) obtain out where
    out: "project_items (\<lambda>e. eval h ps e env) (lookup env x) its [] = Inr out" "v = JObj out"
    by (auto simp: rbind_eq_Inr_iff)
  have "entries_ok out"
    by (rule project_items_ok [OF out(1) lookup_ok [OF MapProjection.prems(1)]])
      (use MapProjection in \<open>auto simp: btree_ok_def\<close>)
  with out(2) show ?case by simp
qed (auto simp: rbind_eq_Inr_iff Let_def)

section \<open>Calls\<close>

definition argless :: "string set" where
  "argless = {''coalesce'', ''timestamp'', ''datetime''}"

definition one_argument :: "string set" where
  "one_argument = {''toupper'', ''upper'', ''tolower'', ''lower'', ''trim'', ''tostring'', ''tointeger'', ''tofloat'', ''size'', ''length'',
     ''abs'', ''id'', ''elementid'', ''type'', ''labels'', ''keys''}"

text \<open>Every call is of a known function, with an argument where it needs one.\<close>

fun callable :: "expr \<Rightarrow> bool" and callable_item :: "map_proj_item \<Rightarrow> bool" where
  "callable (Prop b p) = callable b"
| "callable (Binary bop a b) \<longleftrightarrow> callable a \<and> callable b"
| "callable (NotE a) = callable a"
| "callable (Neg a) = callable a"
| "callable (IsNull a w) = callable a"
| "callable (Func f args d) \<longleftrightarrow> (\<forall>a \<in> set args. callable a) \<and>
     (to_ascii_lowercase f \<in> argless \<or> to_ascii_lowercase f \<in> one_argument \<and> args \<noteq> [])"
| "callable (ListE xs) \<longleftrightarrow> (\<forall>x \<in> set xs. callable x)"
| "callable (MapE kv) \<longleftrightarrow> (\<forall>(k, v) \<in> set kv. callable v)"
| "callable (CaseE operand whens els) \<longleftrightarrow> (case operand of None \<Rightarrow> True | Some e \<Rightarrow> callable e) \<and>
     (\<forall>(c, v) \<in> set whens. callable c \<and> callable v) \<and> (case els of None \<Rightarrow> True | Some e \<Rightarrow> callable e)"
| "callable (ListComp x source cond project) \<longleftrightarrow> callable source \<and> (case cond of None \<Rightarrow> True | Some e \<Rightarrow> callable e) \<and>
     (case project of None \<Rightarrow> True | Some e \<Rightarrow> callable e)"
| "callable (ListPred kind x source cond) \<longleftrightarrow> callable source \<and> callable cond"
| "callable (MapProjection x its) \<longleftrightarrow> (\<forall>it \<in> set its. callable_item it)"
| "callable _ \<longleftrightarrow> True"
| "callable_item (Entry k e) = callable e"
| "callable_item _ = True"

lemma func_total: "to_ascii_lowercase f \<in> argless \<or> to_ascii_lowercase f \<in> one_argument \<and> args \<noteq> [] \<Longrightarrow> \<exists>v. func h f args = Inr v"
proof -
  have first: "args \<noteq> [] \<Longrightarrow> \<exists>v. first_arg args g = Inr v" for g by (cases args) (simp_all add: first_arg_def)
  assume "to_ascii_lowercase f \<in> argless \<or> to_ascii_lowercase f \<in> one_argument \<and> args \<noteq> []"
  then show ?thesis
    unfolding argless_def one_argument_def by (elim disjE conjE insertE emptyE) (simp_all add: func_def Let_def first)
qed

lemma rmap_total: "\<forall>x \<in> set xs. \<exists>y. f x = Inr y \<Longrightarrow> \<exists>ys. rmap f xs = Inr ys"
  by (induction xs) auto

lemma comprehend_total: "\<forall>x \<in> set xs. (\<exists>b. keep x = Inr b) \<and> (\<exists>y. give x = Inr y) \<Longrightarrow> \<exists>ys. comprehend keep give xs = Inr ys"
  by (induction xs) auto

lemma run_branches_total:
  "\<forall>(c, v) \<in> set ws. (\<exists>b. test c = Inr b) \<and> (\<exists>r. run v = Inr r) \<Longrightarrow> \<exists>r. other = Inr r \<Longrightarrow> \<exists>r. run_branches test run ws other = Inr r"
  by (induction ws) auto

lemma project_items_total:
  "\<forall>k e. Entry k e \<in> set its \<longrightarrow> (\<exists>v. ev e = Inr v) \<Longrightarrow> \<exists>m. project_items ev subject its out = Inr m"
proof (induction its arbitrary: out)
  case (Cons it its)
  then have "\<exists>v. ev e = Inr v" if "it = Entry k e" for k e using that by auto
  with Cons show ?case by (cases it) auto
qed simp

lemma eval_total:
  "callable e \<Longrightarrow> \<exists>v. eval h ps e env = Inr v"
  "callable_item it \<Longrightarrow> (\<forall>k e. it = Entry k e \<longrightarrow> (\<exists>v. eval h ps e env = Inr v))"
proof (induction e and it arbitrary: env and env)
  case (Lit l)
  then show ?case by (cases l) auto
next
  case (Prop b p)
  then obtain v where "eval h ps b env = Inr v" by fastforce
  then show ?case by simp
next
  case (Binary bop a b)
  then obtain x y where "eval h ps a env = Inr x" "eval h ps b env = Inr y" by fastforce
  then show ?case by simp
next
  case (NotE a)
  then obtain v where "eval h ps a env = Inr v" by fastforce
  then show ?case by simp
next
  case (Neg a)
  then obtain v where "eval h ps a env = Inr v" by fastforce
  then show ?case by simp
next
  case (IsNull a w)
  then obtain v where "eval h ps a env = Inr v" by fastforce
  then show ?case by simp
next
  case (Func f args d)
  have "\<exists>vs. rmap (\<lambda>x. eval h ps x env) args = Inr vs" by (rule rmap_total) (use Func in auto)
  then obtain vs where vs: "rmap (\<lambda>x. eval h ps x env) args = Inr vs" by blast
  then have "vs \<noteq> [] \<longleftrightarrow> args \<noteq> []" using rmap_length by fastforce
  with Func.prems have "\<exists>v. func h f vs = Inr v" by (intro func_total) auto
  with vs show ?case by simp
next
  case (ListE xs)
  have "\<exists>vs. rmap (\<lambda>x. eval h ps x env) xs = Inr vs" by (rule rmap_total) (use ListE in auto)
  then show ?case by auto
next
  case (MapE kv)
  have "\<exists>out. rmap (\<lambda>(k, e). rbind (eval h ps e env) (\<lambda>v. Inr (k, v))) kv = Inr out"
  proof (rule rmap_total, rule ballI)
    fix x assume x: "x \<in> set kv"
    obtain k e where ke: "x = (k, e)" by fastforce
    then have "\<exists>v. eval h ps e env = Inr v" using MapE.IH [OF x, of e env] MapE.prems x by auto
    then show "\<exists>y. (case x of (k, e) \<Rightarrow> rbind (eval h ps e env) (\<lambda>v. Inr (k, v))) = Inr y" by (auto simp: ke)
  qed
  then show ?case by auto
next
  case (CaseE operand whens els)
  have op: "\<exists>v. eval h ps e env = Inr v" if "operand = Some e" for e using CaseE.IH(1) CaseE.prems that by auto
  have el: "\<exists>v. eval h ps e env = Inr v" if "els = Some e" for e using CaseE.IH(4) CaseE.prems that by auto
  have ws: "(\<exists>v. eval h ps c env = Inr v) \<and> (\<exists>r. eval h ps v env = Inr r)" if "(c, v) \<in> set whens" for c v
    using CaseE.IH(2) [OF that, of c env] CaseE.IH(3) [OF that, of v env] CaseE.prems that by auto
  have b: "\<exists>r. run_branches (\<lambda>c. rbind (eval h ps c env) (\<lambda>v. Inr (f v))) (\<lambda>v. eval h ps v env) whens
      (case els of Some e \<Rightarrow> eval h ps e env | None \<Rightarrow> Inr JNull) = Inr r" for f :: "json \<Rightarrow> bool"
  proof (rule run_branches_total)
    show "\<forall>(c, v) \<in> set whens. (\<exists>b. rbind (eval h ps c env) (\<lambda>v. Inr (f v)) = Inr b) \<and> (\<exists>r. eval h ps v env = Inr r)"
      using ws by fastforce
    show "\<exists>r. (case els of Some e \<Rightarrow> eval h ps e env | None \<Rightarrow> Inr JNull) = Inr r" using el by (cases els) auto
  qed
  show ?case
  proof (cases operand)
    case None
    then show ?thesis using b [of "\<lambda>v. truthy v"] by simp
  next
    case (Some e)
    then obtain s where "eval h ps e env = Inr s" using op by blast
    with Some show ?thesis using b [of "\<lambda>v. json_eq s v"] by simp
  qed
next
  case (ListComp x source cond project)
  then obtain src where src: "eval h ps source env = Inr src" by fastforce
  have c: "\<exists>b. (case cond of Some f \<Rightarrow> rbind (eval h ps f (env(x \<mapsto> it))) (\<lambda>v. Inr (truthy v)) | None \<Rightarrow> Inr True) = Inr b" for it
    using ListComp.IH(2) [of _ "env(x \<mapsto> it)"] ListComp.prems by (cases cond) fastforce+
  have p: "\<exists>y. (case project of Some p \<Rightarrow> eval h ps p (env(x \<mapsto> it)) | None \<Rightarrow> Inr it) = Inr y" for it
    using ListComp.IH(3) [of _ "env(x \<mapsto> it)"] ListComp.prems by (cases project) fastforce+
  have "\<exists>out. comprehend
       (\<lambda>it. case cond of Some f \<Rightarrow> rbind (eval h ps f (env(x \<mapsto> it))) (\<lambda>v. Inr (truthy v)) | None \<Rightarrow> Inr True)
       (\<lambda>it. case project of Some p \<Rightarrow> eval h ps p (env(x \<mapsto> it)) | None \<Rightarrow> Inr it) xs = Inr out" for xs
    by (rule comprehend_total) (use c p in blast)
  then have "\<exists>v. (case src of JArr xs \<Rightarrow> rbind (comprehend
       (\<lambda>it. case cond of Some f \<Rightarrow> rbind (eval h ps f (env(x \<mapsto> it))) (\<lambda>v. Inr (truthy v)) | None \<Rightarrow> Inr True)
       (\<lambda>it. case project of Some p \<Rightarrow> eval h ps p (env(x \<mapsto> it)) | None \<Rightarrow> Inr it) xs) (\<lambda>out. Inr (JArr out))
     | _ \<Rightarrow> Inr (JArr [])) = Inr v"
    by (cases src) (auto, metis rbind_Inr)
  then show ?case unfolding eval.simps src rbind_Inr .
next
  case (ListPred kind x source cond)
  then obtain src where src: "eval h ps source env = Inr src" by fastforce
  have c: "\<exists>b. rbind (eval h ps cond (env(x \<mapsto> it))) (\<lambda>v. Inr (truthy v)) = Inr b" for it
    using ListPred.IH(2) [of "env(x \<mapsto> it)"] ListPred.prems by fastforce
  have "\<exists>bs. rmap (\<lambda>it. rbind (eval h ps cond (env(x \<mapsto> it))) (\<lambda>v. Inr (truthy v))) xs = Inr bs" for xs
    by (rule rmap_total) (use c in blast)
  then show ?case unfolding eval.simps src rbind_Inr Let_def by (metis rbind_Inr)
next
  case (MapProjection x its)
  have "\<exists>m. project_items (\<lambda>e. eval h ps e env) (lookup env x) its [] = Inr m"
    by (rule project_items_total) (use MapProjection in fastforce)
  then show ?case by auto
qed auto

section \<open>Properties\<close>

text \<open>An expression depends only on the bindings of its free variables: the variable of a list
  comprehension or of a predicate over a list is visible inside it only, and shadows an outer one.\<close>

theorem eval_scope:
  assumes "\<forall>v \<in> free_vars e. env v = env' v"
  shows "eval h ps e env = eval h ps e env'"
  using assms by (intro scope_all(1)) (simp add: agree_def)

text \<open>An expression whose calls are of known functions, with an argument where the function takes one,
  always evaluates, whatever the bindings; only an unknown function or a missing argument can fail.\<close>

theorem eval_succeeds:
  assumes "callable e"
  shows "\<exists>v. eval h ps e env = Inr v"
  using assms by (rule eval_total(1))

text \<open>C40: Values stay well formed: over well-formed bindings and parameters every result has finite numbers
  only, and objects with sorted keys, each once.\<close>

theorem eval_well_formed:
  assumes "eval h ps e env = Inr v" "json_ok ps" "env_ok env"
  shows "json_ok v"
  using eval_ok(1) [OF assms(2,3,1)] .

lemma num_of_i64: "num (json_of_i64 i) = Some (f64_of_int (sint i))"
proof (cases "0 \<le> sint i")
  case True
  have "nat (sint i) < 2 ^ 63" using True sint_lt [of i] by (simp add: nat_less_iff)
  moreover have "uint (of_nat n :: i64) = int n" if "n < 2 ^ 63" for n
    using that by (simp add: unsigned_of_nat take_bit_nat_eq_self)
  ultimately have "uint (of_nat (nat (sint i)) :: i64) = int (nat (sint i))" by blast
  with arg_cong [OF sint_small_nat [OF True], of uint] True have "uint i = sint i" by (simp only: int_nat_eq if_True)
  with True show ?thesis by (simp only: json_of_i64_def if_True num.simps num_as_f64.simps)
qed (simp add: json_of_i64_def)

text \<open>The sum of integers below 2^53 is exact, but it is a double, and so never equals an integer:
  \<open>1 + 1 = 2\<close> is false.\<close>

theorem integer_sums:
  assumes "abs (sint a) < 2 ^ 53" "abs (sint b) < 2 ^ 53" "abs (sint a + sint b) < 2 ^ 53"
  shows "eval h ps (Binary Add (Lit (IntL a)) (Lit (IntL b))) env = Inr (JNum (JFloat (f64_of_int (sint a + sint b)))) \<and>
    eval h ps (Binary Eq (Binary Add (Lit (IntL a)) (Lit (IntL b))) (Lit (IntL c))) env = Inr (JBool False)"
proof -
  have "f64_is_finite (f64_of_int (sint a + sint b))" by (rule small_int(2) [OF assms(3)])
  then have "binary h Add (json_of_i64 a) (json_of_i64 b) = JNum (JFloat (f64_of_int (sint a + sint b)))"
    by (simp add: num_of_i64 add_small [OF assms] json_of_f64_def)
  moreover have "\<not> json_eq (JNum (JFloat f)) (json_of_i64 c)" for f by (simp add: json_of_i64_def)
  ultimately show ?thesis by (simp del: binary.simps(1))
qed

section \<open>Concrete inputs\<close>

definition demo_host :: host where
  "demo_host = \<lparr>uppercase = to_ascii_uppercase, lowercase = to_ascii_lowercase, power = (\<lambda>x y. x), json_text = (\<lambda>_. ''''),
     now_iso = ''2026-01-01'', now_epoch = 0\<rparr>"

definition demo_comp :: expr where
  "demo_comp = ListComp ''x'' (ListE [Lit (IntL 1), Lit Null, Lit (Str ''a'')]) (Some (IsNull (Var ''x'') False))
     (Some (MapE [(''v'', Var ''x''), (''n'', Var ''y'')]))"

theorem eval_scope_witness:
  "eval demo_host JNull demo_comp [''x'' \<mapsto> JBool True, ''y'' \<mapsto> JStr ''b''] = eval demo_host JNull demo_comp [''y'' \<mapsto> JStr ''b'']"
  by (rule eval_scope) (simp add: demo_comp_def)

theorem eval_succeeds_witness: "\<exists>v. eval demo_host JNull (Func ''toUpper'' [demo_comp] False) Map.empty = Inr v"
proof (rule eval_succeeds)
  have "to_ascii_lowercase ''toUpper'' = ''toupper''" by code_simp
  then show "callable (Func ''toUpper'' [demo_comp] False)" by (simp add: demo_comp_def one_argument_def)
qed

theorem eval_well_formed_witness:
  "json_ok (JArr [JObj [(''n'', JStr ''b''), (''v'', JNum (PosInt 1))], JObj [(''n'', JStr ''b''), (''v'', JStr ''a'')]])"
proof (rule eval_well_formed)
  show "eval demo_host JNull demo_comp [''y'' \<mapsto> JStr ''b''] =
    Inr (JArr [JObj [(''n'', JStr ''b''), (''v'', JNum (PosInt 1))], JObj [(''n'', JStr ''b''), (''v'', JStr ''a'')]])"
    by (simp add: demo_comp_def lookup_def json_object_def json_of_i64_def)
qed (simp_all add: env_ok_def)

theorem integer_sums_witness:
  "eval demo_host JNull (Binary Eq (Binary Add (Lit (IntL 1)) (Lit (IntL 1))) (Lit (IntL 2))) Map.empty = Inr (JBool False)"
  by (rule conjunct2 [OF integer_sums]) simp_all

end
