(* ===== verification/Schema_Tables.thy ===== *)
theory Schema_Tables
  imports Graph_Store Cypher_Lexer
begin

text \<open>
  The state the type catalog works on: the rows of \<open>og_catalog\<close> that \<open>Graph_Store\<close> only reads, and the
  tables, views and privileges PostgreSQL keeps for them.  The statements of \<open>catalog/types.rs\<close>,
  \<open>temporal/mod.rs\<close> and \<open>security/mod.rs\<close> that alter a table are operations on this state; one that raises
  aborts the whole call, so an operation returns the changed state or the error.
\<close>

section \<open>Tables, privileges and the catalog\<close>

text \<open>An index over columns, or over an expression of them; \<open>xd_method\<close> is what \<open>USING\<close> names.\<close>

record index_def =
  xd_name :: string
  xd_unique :: bool
  xd_method :: string
  xd_columns :: "string list"
  xd_expression :: "string option"

record table_def =
  td_columns :: "(string \<times> string) list"
  td_required :: "string list"
  td_indexes :: "index_def list"
  td_checks :: "(string \<times> string \<times> bool) list"
  td_triggers :: "string list"

datatype acl_object =
    On_table string
  | On_column string string
  | On_function string
  | On_schema string
  | On_sequences string

type_synonym acl_entry = "string \<times> string \<times> acl_object"

record grant_row =
  wg_role :: string
  wg_type :: i32
  wg_op :: string
  wg_props :: "string list option"

record rule_row =
  ru_rel :: i32
  ru_characteristic :: string
  ru_target :: "i32 option"

record compat_row =
  ci_name :: string
  ci_graph :: i32
  ci_kind :: string
  ci_entity :: char
  ci_type :: string
  ci_props :: "string list"
  ci_options :: json

record embedding_row =
  em_type :: i32
  em_prop :: string
  em_dims :: i32
  em_metric :: string
  em_source :: "string option"

record change_row =
  ch_id :: i32
  ch_graph :: i32
  ch_kind :: string
  ch_spec :: json
  ch_phase :: string
  ch_report :: json
  ch_from :: nat
  ch_to :: "nat option"

text \<open>\<open>moved_values\<close> lists the statements that moved a payload key into a column (table, key, column, type):
  the rows are PostgreSQL's.  Only PostgreSQL can say whether a value cannot be cast to the column's type,
  whether a column holds duplicates, and whether the session may change the schema.  \<open>pg_roles\<close> and \<open>pg_functions\<close> (names with their signatures) are what PostgreSQL reports.\<close>

record schema = catalog +
  graphs :: "(i32 \<times> string) list"
  type_parents :: "(i32 \<times> i32) list"
  rules :: "rule_row list"
  tables :: "(string \<times> table_def) list"
  alias_views :: "(string \<times> string) list"
  versions :: "(i32 \<times> string) list"
  stamped :: "i32 list"
  temporal :: "i32 list"
  settings :: "(string \<times> string) list"
  write_grants :: "grant_row list"
  compat_index :: "compat_row list"
  embeddings :: "embedding_row list"
  schema_changes :: "change_row list"
  grantees :: "(string \<times> string) list"
  acl :: "acl_entry list"
  pg_roles :: "string list"
  pg_functions :: "(string \<times> string) list"
  temporal_owner :: "string option"
  moved_values :: "(string \<times> string \<times> string \<times> string) list"
  uncastable :: "string \<Rightarrow> string \<Rightarrow> string \<Rightarrow> bool"
  duplicated :: "string \<Rightarrow> string \<Rightarrow> bool"
  may_change_schema :: bool
  next_graph :: nat
  next_type :: nat
  next_role :: nat

datatype schema_error =
    No_graph string
  | No_type string "string list"
  | Type_exists string string
  | Unknown_kind string
  | Bad_parent string string string char
  | Unsupported_type string
  | Has_rows string string nat
  | Duplicate_row string
  | Still_referenced i32
  | No_label
  | Not_one_chain "string list"
  | Out_of_ids
  | Labels_failed label_error
  | No_table string
  | No_column string string
  | Table_exists string
  | Not_a_relation string
  | Not_versioned string
  | Unknown_write_op string
  | System_managed string
  | Unknown_role string
  | Unknown_level string
  | Unknown_characteristic string
  | No_target
  | Has_instances string nat
  | Cast_failed string string
  | Not_unique string string
  | Store_failed store_error

text \<open>The part of the catalog the instance store reads.\<close>

definition cat :: "schema \<Rightarrow> catalog" where
  "cat s = catalog.truncate s"

lemma cat_simps [simp]:
  "types (cat s) = types s" "type_labels (cat s) = type_labels s" "roles (cat s) = roles s"
  "properties (cat s) = properties s" "virtual_source (cat s) = virtual_source s" "privileged (cat s) = privileged s"
  by (simp_all add: cat_def catalog.truncate_def)

type_synonym schema_op = "schema \<Rightarrow> schema_error + schema"

section \<open>Changing tables\<close>

definition table_at :: "schema \<Rightarrow> string \<Rightarrow> table_def option" where
  "table_at s t = map_of (tables s) t"

definition alter_table :: "string \<Rightarrow> (table_def \<Rightarrow> table_def) \<Rightarrow> schema_op" where
  "alter_table t f s = (case table_at s t of
       None \<Rightarrow> Inl (No_table t)
     | Some _ \<Rightarrow> Inr (s\<lparr>tables := map (\<lambda>(n, d). (n, if n = t then f d else d)) (tables s)\<rparr>))"

definition has_column :: "table_def \<Rightarrow> string \<Rightarrow> bool" where
  "has_column d c \<longleftrightarrow> c \<in> fst ` set (td_columns d)"

text \<open>\<open>ADD COLUMN IF NOT EXISTS\<close>.\<close>

definition with_column :: "string \<Rightarrow> string \<Rightarrow> table_def \<Rightarrow> table_def" where
  "with_column c ty d = (if has_column d c then d else d\<lparr>td_columns := td_columns d @ [(c, ty)]\<rparr>)"

definition create_table :: "string \<Rightarrow> table_def \<Rightarrow> schema_op" where
  "create_table t d s = (case table_at s t of
       Some _ \<Rightarrow> Inl (Table_exists t)
     | None \<Rightarrow> Inr (s\<lparr>tables := tables s @ [(t, d)]\<rparr>))"

text \<open>\<open>CREATE INDEX IF NOT EXISTS\<close> looks at the name only; PostgreSQL names an index that has none.\<close>

definition add_index :: "index_def \<Rightarrow> table_def \<Rightarrow> table_def" where
  "add_index ix d = (if xd_name ix \<in> xd_name ` set (td_indexes d) then d else d\<lparr>td_indexes := td_indexes d @ [ix]\<rparr>)"

definition unnamed_index :: "string \<Rightarrow> string \<Rightarrow> index_def" where
  "unnamed_index table c = \<lparr>xd_name = drop 8 table @ ''_'' @ c @ ''_idx'', xd_unique = False,
     xd_method = (if c = ''__valid'' then ''gist'' else ''btree''), xd_columns = [c], xd_expression = None\<rparr>"

definition unique_index :: "string \<Rightarrow> string list \<Rightarrow> index_def" where
  "unique_index name cs = \<lparr>xd_name = name, xd_unique = True, xd_method = ''btree'', xd_columns = cs, xd_expression = None\<rparr>"

text \<open>\<open>DROP TABLE IF EXISTS \<dots> CASCADE\<close> takes the views over the table and its privileges along.\<close>

fun acl_relation :: "acl_object \<Rightarrow> string option" where
  "acl_relation (On_table t) = Some t"
| "acl_relation (On_column t c) = Some t"
| "acl_relation _ = None"

definition drop_relations :: "string set \<Rightarrow> schema \<Rightarrow> schema" where
  "drop_relations R s = s\<lparr>acl := filter (\<lambda>(r, p, obj). case acl_relation obj of Some t \<Rightarrow> t \<notin> R | None \<Rightarrow> True) (acl s)\<rparr>"

definition view_relation :: "string \<Rightarrow> string" where
  "view_relation name = ''og_data.'' @ name"

definition drop_table :: "string \<Rightarrow> schema \<Rightarrow> schema" where
  "drop_table t s = drop_relations (insert t (view_relation ` {v. (v, t) \<in> set (alias_views s)}))
     (s\<lparr>tables := filter (\<lambda>(n, d). n \<noteq> t) (tables s), alias_views := filter (\<lambda>(v, u). u \<noteq> t) (alias_views s)\<rparr>)"

section \<open>Recorded read and write levels\<close>

text \<open>\<open>recorded\<close>, \<open>apply_to_table\<close> and \<open>apply_to_view\<close> of \<open>catalog/privileges.rs\<close>; a failing \<open>GRANT\<close> is only
  logged.\<close>

definition level_rank :: "string \<Rightarrow> schema_error + nat" where
  "level_rank level = (if level = ''read'' then Inr 1 else if level = ''write'' then Inr 2
     else if level = ''admin'' then Inr 3 else Inl (Unknown_level level))"

definition DML :: "string list" where
  "DML = [''INSERT'', ''UPDATE'', ''DELETE'']"

definition add_grants :: "acl_entry list \<Rightarrow> schema \<Rightarrow> schema" where
  "add_grants es s = s\<lparr>acl := fold List.insert es (acl s)\<rparr>"

definition writes :: "string \<Rightarrow> bool" where
  "writes level \<longleftrightarrow> (case level_rank level of Inr n \<Rightarrow> n \<ge> 2 | Inl _ \<Rightarrow> False)"

definition apply_to_table :: "string \<Rightarrow> schema \<Rightarrow> schema" where
  "apply_to_table t s = add_grants (concat (map (\<lambda>(role, level). (role, ''SELECT'', On_table t) #
     (if writes level \<and> \<not> starts_with ''og_data.h_'' t then map (\<lambda>p. (role, p, On_table t)) DML else [])) (grantees s))) s"

definition apply_to_view :: "string \<Rightarrow> schema \<Rightarrow> schema" where
  "apply_to_view v s = add_grants (map (\<lambda>(role, level). (role, ''SELECT'', On_table v)) (grantees s)) s"

section \<open>Alias views and versions\<close>

text \<open>A view named after the type; where a table has that name nothing is created.\<close>

definition drop_alias_view :: "string \<Rightarrow> schema \<Rightarrow> schema" where
  "drop_alias_view name s = drop_relations (view_relation ` ({name} \<inter> fst ` set (alias_views s)))
     (s\<lparr>alias_views := filter (\<lambda>(v, t). v \<noteq> name) (alias_views s)\<rparr>)"

definition ensure_alias_view :: "string \<Rightarrow> string \<Rightarrow> schema \<Rightarrow> schema" where
  "ensure_alias_view name table s =
     (let s = drop_alias_view name s in
      if table_at s (view_relation name) \<noteq> None then s
      else apply_to_view (view_relation name) (s\<lparr>alias_views := alias_views s @ [(name, table)]\<rparr>))"

definition bump_schema_version :: "i32 \<Rightarrow> string \<Rightarrow> schema \<Rightarrow> schema" where
  "bump_schema_version gid description s = s\<lparr>versions := versions s @ [(gid, description)]\<rparr>"

section \<open>Stamps and history\<close>

definition STAMP_COLUMNS :: "(string \<times> string) list" where
  "STAMP_COLUMNS = [(''__created_at'', ''timestamptz''), (''__created_by'', ''text''), (''__updated_at'', ''timestamptz''),
     (''__updated_by'', ''text''), (''__actor'', ''text''), (''__source'', ''text'')]"

definition with_trigger :: "string \<Rightarrow> table_def \<Rightarrow> table_def" where
  "with_trigger tg d = d\<lparr>td_triggers := List.insert tg (td_triggers d)\<rparr>"

definition stamp_table :: "string \<Rightarrow> schema_op" where
  "stamp_table t = alter_table t (\<lambda>d. with_trigger ''og_a_stamp'' (fold (\<lambda>(c, ty). with_column c ty) STAMP_COLUMNS d))"

definition inherits_stamping :: "schema \<Rightarrow> i32 \<Rightarrow> bool" where
  "inherits_stamping s t \<longleftrightarrow> list_ex (\<lambda>u. u \<in> set (og_supertypes (type_labels s) t)) (stamped s)"

definition is_temporal :: "schema \<Rightarrow> i32 \<Rightarrow> bool" where
  "is_temporal s t \<longleftrightarrow> list_ex (\<lambda>u. u \<in> set (og_supertypes (type_labels s) t)) (temporal s)"

text \<open>\<open>n_5\<close> and \<open>e_5\<close> keep their history in \<open>h_5\<close>.\<close>

definition history_table :: "string \<Rightarrow> string option" where
  "history_table table =
     (if starts_with ''og_data.n_'' table \<or> starts_with ''og_data.e_'' table
      then Some (''og_data.h_'' @ drop 10 table) else None)"

definition sync_column :: "string \<times> string \<Rightarrow> table_def \<Rightarrow> table_def" where
  "sync_column = (\<lambda>(c, ty) d. case map_of (td_columns d) c of
       None \<Rightarrow> d\<lparr>td_columns := td_columns d @ [(c, ty)]\<rparr>
     | Some hty \<Rightarrow> if hty \<noteq> ty then d\<lparr>td_columns := map (\<lambda>(n, t). (n, if n = c then ty else t)) (td_columns d)\<rparr> else d)"

definition sync_history :: "i32 \<Rightarrow> schema_op" where
  "sync_history sub s = (case storage_table (cat s) sub of
       None \<Rightarrow> Inr s
     | Some table \<Rightarrow> (case history_table table of
         None \<Rightarrow> Inr s
       | Some hist \<Rightarrow> (case table_at s hist of
           None \<Rightarrow> Inr s
         | Some _ \<Rightarrow> (case table_at s table of
             None \<Rightarrow> Inl (No_table table)
           | Some d \<Rightarrow> alter_table hist (fold sync_column (td_columns d)) s))))"

definition enable_table :: "i32 \<Rightarrow> schema_op" where
  "enable_table sub s = (case storage_table (cat s) sub of
       None \<Rightarrow> Inr s
     | Some table \<Rightarrow> (case history_table table of
         None \<Rightarrow> Inr s
       | Some hist \<Rightarrow>
           rbind (stamp_table table s) (\<lambda>s.
           rbind (alter_table table (\<lambda>d. (\<lambda>d. d\<lparr>td_required := fold List.insert [''__valid'', ''__sys_from''] (td_required d)\<rparr>)
               (with_column ''__sys_from'' ''timestamptz'' (with_column ''__valid'' ''tstzrange'' d))) s) (\<lambda>s.
           rbind (case table_at s hist of
               Some _ \<Rightarrow> sync_history sub s
             | None \<Rightarrow> (case table_at s table of
                 None \<Rightarrow> Inl (No_table table)
               | Some d \<Rightarrow>
                   rbind (create_table hist \<lparr>td_columns = td_columns d @ [(''__sys_to'', ''timestamptz''), (''__op'', ''text'')],
                       td_required = td_required d @ [''__sys_to'', ''__op''], 
                       td_indexes = map (unnamed_index hist) ([''id'', ''__valid''] @ (if starts_with ''og_data.e_'' table then [''src'', ''dst''] else [])),
                       td_checks = [], td_triggers = []\<rparr> s) (\<lambda>s.
                   Inr (apply_to_table hist (case temporal_owner s of None \<Rightarrow> s
                     | Some owner \<Rightarrow> add_grants [(owner, ''SELECT'', On_table hist), (owner, ''INSERT'', On_table hist)] s))))) (\<lambda>s.
           alter_table table (with_trigger ''og_b_temporal'') s)))))"

end
