(* ===== verification/Edit_Distance.thy ===== *)
theory Edit_Distance
  imports Utf8
begin

text \<open>
  The spelling hints of \<open>engine/src/catalog/types.rs\<close>: \<open>edit_distance\<close> fills two rows of the table of
  distances between prefixes, swapping them after each character.  The lemmas show that what it returns
  is the least number of single-character edits between the two texts, whatever the rows held before.
\<close>

section \<open>The two rows\<close>

text \<open>One step of the inner loop writes \<open>cur[j + 1]\<close>; a step of the outer loop swaps the rows.\<close>

definition fill_cell :: "'a \<Rightarrow> nat list \<Rightarrow> nat list \<Rightarrow> nat \<times> 'a \<Rightarrow> nat list" where
  "fill_cell ca prev cur = (\<lambda>(j, cb).
     let cost = (if ca \<noteq> cb then 1 else 0)
     in cur[j + 1 := min (min (prev ! (j + 1) + 1) (cur ! j + 1)) (prev ! j + cost)])"

definition fill_row :: "'a list \<Rightarrow> nat list \<times> nat list \<Rightarrow> nat \<times> 'a \<Rightarrow> nat list \<times> nat list" where
  "fill_row b rows = (\<lambda>(i, ca). case rows of (prev, cur) \<Rightarrow>
     (foldl (fill_cell ca prev) (cur[0 := i + 1]) (enumerate 0 b), prev))"

definition two_rows :: "'a list \<Rightarrow> 'a list \<Rightarrow> nat" where
  "two_rows a b =
     (if a = [] then length b else if b = [] then length a
      else fst (foldl (fill_row b) ([0..<length b + 1], replicate (length b + 1) 0) (enumerate 0 a)) ! length b)"

definition edit_distance :: "string \<Rightarrow> string \<Rightarrow> nat" where
  "edit_distance a b = two_rows (utf8_chars a) (utf8_chars b)"

section \<open>The table of distances\<close>

fun lev :: "'a list \<Rightarrow> 'a list \<Rightarrow> nat" where
  "lev [] ys = length ys"
| "lev (x # xs) [] = Suc (length xs)"
| "lev (x # xs) (y # ys) = min (min (lev xs (y # ys) + 1) (lev (x # xs) ys + 1)) (lev xs ys + (if x \<noteq> y then 1 else 0))"

lemma lev_Nil2 [simp]: "lev xs [] = length xs"
  by (cases xs) auto

text \<open>The rows hold the distances of prefixes, which are read from their ends.\<close>

definition prefix_lev :: "'a list \<Rightarrow> 'a list \<Rightarrow> nat \<Rightarrow> nat \<Rightarrow> nat" where
  "prefix_lev a b i j = lev (rev (take i a)) (rev (take j b))"

lemma prefix_lev_simps:
  "prefix_lev a b 0 j = length (take j b)" "prefix_lev a b i 0 = length (take i a)"
  "i < length a \<Longrightarrow> j < length b \<Longrightarrow> prefix_lev a b (Suc i) (Suc j) =
     min (min (prefix_lev a b i (Suc j) + 1) (prefix_lev a b (Suc i) j + 1))
       (prefix_lev a b i j + (if a ! i \<noteq> b ! j then 1 else 0))"
  by (simp_all add: prefix_lev_def take_Suc_conv_app_nth)

definition is_row :: "'a list \<Rightarrow> 'a list \<Rightarrow> nat \<Rightarrow> nat \<Rightarrow> nat list \<Rightarrow> bool" where
  "is_row a b i n row \<longleftrightarrow> length row = length b + 1 \<and> (\<forall>j \<le> n. row ! j = prefix_lev a b i j)"

lemma fill_cell_row:
  assumes "is_row a b i (length b) prev" "is_row a b (Suc i) n row" "i < length a" "n < length b"
  shows "is_row a b (Suc i) (Suc n) (fill_cell (a ! i) prev row (n, b ! n))"
  using assms by (auto simp: is_row_def fill_cell_def prefix_lev_simps(3) nth_list_update Let_def le_Suc_eq)

lemma enumerate_take_Suc: "n < length xs \<Longrightarrow> enumerate 0 (take (Suc n) xs) = enumerate 0 (take n xs) @ [(n, xs ! n)]"
  by (simp add: take_Suc_conv_app_nth enumerate_append_eq)

lemma fill_cells:
  assumes "is_row a b i (length b) prev" "length cur = length b + 1" "i < length a" "n \<le> length b"
  shows "is_row a b (Suc i) n (foldl (fill_cell (a ! i) prev) (cur[0 := i + 1]) (enumerate 0 (take n b)))"
  using assms(4)
proof (induction n)
  case 0
  then show ?case using assms(2,3) by (simp add: is_row_def prefix_lev_simps(2) nth_list_update)
next
  case (Suc n)
  then show ?case using fill_cell_row [OF assms(1) _ assms(3)] by (simp add: enumerate_take_Suc)
qed

definition rows_after :: "'a list \<Rightarrow> 'a list \<Rightarrow> nat \<Rightarrow> nat list \<times> nat list" where
  "rows_after a b n = foldl (fill_row b) ([0..<length b + 1], replicate (length b + 1) 0) (enumerate 0 (take n a))"

lemma fill_rows:
  "n \<le> length a \<Longrightarrow> is_row a b n (length b) (fst (rows_after a b n)) \<and> length (snd (rows_after a b n)) = length b + 1"
proof (induction n)
  case 0
  then show ?case by (auto simp: rows_after_def is_row_def prefix_lev_simps(1) simp del: upt_Suc)
next
  case (Suc n)
  obtain prev cur where 1: "rows_after a b n = (prev, cur)" by fastforce
  with Suc have 2: "is_row a b n (length b) prev" "length cur = length b + 1" by simp_all
  have "rows_after a b (Suc n) = fill_row b (prev, cur) (n, a ! n)"
    using 1 Suc.prems by (simp only: rows_after_def enumerate_take_Suc foldl_append foldl.simps Suc_le_eq)
  moreover have "length prev = length b + 1" using 2(1) by (simp add: is_row_def)
  ultimately show ?case using fill_cells [OF 2, of "length b"] Suc.prems by (simp add: fill_row_def)
qed

lemma two_rows_lev: "two_rows a b = lev (rev a) (rev b)"
proof (cases "a = [] \<or> b = []")
  case False
  then have "two_rows a b = fst (rows_after a b (length a)) ! length b" by (simp add: two_rows_def rows_after_def)
  with fill_rows [of "length a" a b] show ?thesis by (simp add: is_row_def prefix_lev_def)
qed (auto simp: two_rows_def)

section \<open>Edits\<close>

text \<open>A single edit inserts, deletes or replaces one character.\<close>

inductive edit :: "'a list \<Rightarrow> 'a list \<Rightarrow> bool" where
  insertion: "edit (us @ vs) (us @ x # vs)"
| deletion: "edit (us @ x # vs) (us @ vs)"
| replacement: "edit (us @ x # vs) (us @ y # vs)"

inductive_cases edit_cases: "edit xs ys"

lemma edit_rev: "edit xs ys \<Longrightarrow> edit (rev xs) (rev ys)"
proof (induction rule: edit.induct)
  case (insertion us vs x)
  show ?case using edit.insertion [of "rev vs" "rev us" x] by simp
next
  case (deletion us x vs)
  show ?case using edit.deletion [of "rev vs" x "rev us"] by simp
next
  case (replacement us x vs y)
  show ?case using edit.replacement [of "rev vs" x "rev us" y] by simp
qed

lemma edit_Cons: "edit xs ys \<Longrightarrow> edit (z # xs) (z # ys)"
proof (induction rule: edit.induct)
  case (insertion us vs x)
  show ?case using edit.insertion [of "z # us" vs x] by simp
next
  case (deletion us x vs)
  show ?case using edit.deletion [of "z # us" x vs] by simp
next
  case (replacement us x vs y)
  show ?case using edit.replacement [of "z # us" x vs y] by simp
qed

lemma edits_map:
  assumes "\<And>xs ys. edit xs ys \<Longrightarrow> edit (f xs) (f ys)"
  shows "(edit ^^ n) xs ys \<Longrightarrow> (edit ^^ n) (f xs) (f ys)"
  by (induction n arbitrary: ys) (auto intro: assms)

lemma edits_Cons: "(edit ^^ n) xs ys \<Longrightarrow> (edit ^^ n) (z # xs) (z # ys)"
  by (rule edits_map [where f = "(#) z", OF edit_Cons])

lemma edits_first: "edit xs ys \<Longrightarrow> (edit ^^ n) ys zs \<Longrightarrow> (edit ^^ (n + 1)) xs zs"
  by (simp only: Suc_eq_plus1 [symmetric]) (rule relpowp_Suc_I2)

text \<open>The distance is reached by that many edits, and one edit changes it by one at most.\<close>

lemma lev_edits: "(edit ^^ lev xs ys) xs ys"
proof (induction xs ys rule: lev.induct)
  case (1 ys)
  show ?case
  proof (induction ys)
    case (Cons y ys)
    have "edit [] [y]" using insertion [of "[]" "[]" y] by simp
    with edits_first [OF _ edits_Cons [OF Cons, of y], of "[]"] show ?case by simp
  qed simp
next
  case (2 x xs)
  have "(edit ^^ length xs) xs []" for xs :: "'a list"
  proof (induction xs)
    case (Cons x xs)
    with edits_first [OF deletion [of "[]" x xs, simplified] Cons] show ?case by simp
  qed simp
  from this [of "x # xs"] show ?case by simp
next
  case (3 x xs y ys)
  have a: "(edit ^^ (lev xs (y # ys) + 1)) (x # xs) (y # ys)"
    by (rule edits_first [OF _ 3(1)]) (use deletion [of "[]" x xs] in simp)
  have b: "(edit ^^ (lev (x # xs) ys + 1)) (x # xs) (y # ys)"
    by (rule edits_first [OF _ edits_Cons [OF 3(2)]]) (use insertion [of "[]" "x # xs" y] in simp)
  have c: "(edit ^^ (lev xs ys + (if x \<noteq> y then 1 else 0))) (x # xs) (y # ys)"
  proof (cases "x = y")
    case True
    then show ?thesis using edits_Cons [OF 3(3), of x] by simp
  next
    case False
    have "(edit ^^ (lev xs ys + 1)) (x # xs) (y # ys)"
      by (rule edits_first [OF _ edits_Cons [OF 3(3)]]) (use replacement [of "[]" x xs y] in simp)
    with False show ?thesis by simp
  qed
  show ?case unfolding lev.simps min_def using a b c by (auto split: if_splits)
qed

lemma min3_close:
  "a \<le> a' + 1 \<Longrightarrow> b \<le> b' + 1 \<Longrightarrow> c \<le> c' + (1 :: nat) \<Longrightarrow> min (min (a + 1) (b + 1)) (c + d) \<le> min (min (a' + 1) (b' + 1)) (c' + d) + 1"
  by linarith

lemma lev_drop: "lev xs ys \<le> lev xs (y # ys) + 1 \<and> lev xs (y # ys) \<le> lev xs ys + 1"
proof (induction xs)
  case (Cons x xs)
  have "lev (x # xs) ys \<le> lev xs ys + 1"
  proof (induction ys)
    case (Cons z zs)
    then show ?case by (simp add: min_le_iff_disj)
  qed simp
  with Cons show ?case by (auto simp: min_le_iff_disj)
qed simp

lemma lev_replace: "lev xs (x # ys) \<le> lev xs (y # ys) + 1"
proof (induction xs)
  case (Cons z zs)
  have less: "min (min (a + 1) b) (c + d) \<le> min (min (a' + 1) b) (c + d') + 1" if "a \<le> a' + 1" "d \<le> (1 :: nat)" for a a' b c d d'
    using that by linarith
  show ?case unfolding lev.simps(3) by (rule less [OF Cons]) simp
qed simp

lemma lev_Cons:
  assumes "\<And>xs. lev xs ys \<le> lev xs zs + 1"
  shows "lev xs (u # ys) \<le> lev xs (u # zs) + 1"
proof (induction xs)
  case Nil
  then show ?case using assms [of "[]"] by simp
next
  case (Cons x xs)
  show ?case unfolding lev.simps(3) by (rule min3_close [OF Cons assms assms])
qed

lemma lev_append: "(\<And>xs. lev xs ys \<le> lev xs zs + 1) \<Longrightarrow> lev xs (us @ ys) \<le> lev xs (us @ zs) + 1"
proof (induction us arbitrary: xs)
  case (Cons u us)
  have "lev xs (us @ ys) \<le> lev xs (us @ zs) + 1" for xs by (rule Cons.IH [OF Cons.prems])
  then show ?case by (simp only: append_Cons lev_Cons)
qed simp

lemma lev_edit: "edit ys zs \<Longrightarrow> lev xs zs \<le> lev xs ys + 1"
  by (induction rule: edit.induct) (rule lev_append, simp only: lev_drop lev_replace)+

lemma lev_self [simp]: "lev xs xs = 0"
  by (induction xs) auto

lemma lev_least: "(edit ^^ n) xs ys \<Longrightarrow> lev xs ys \<le> n"
proof (induction n arbitrary: ys)
  case (Suc n)
  then obtain zs where "(edit ^^ n) xs zs" "edit zs ys" by auto
  with Suc.IH [of zs] lev_edit [of zs ys xs] show ?case by simp
qed simp

text \<open>C33: The distance used for spelling hints is the least number of insertions, deletions and
  replacements of single characters that turn one text into the other.\<close>

theorem edit_distance_least:
  "(edit ^^ edit_distance a b) (utf8_chars a) (utf8_chars b) \<and>
    (\<forall>n < edit_distance a b. \<not> (edit ^^ n) (utf8_chars a) (utf8_chars b))"
proof -
  let ?a = "utf8_chars a" and ?b = "utf8_chars b"
  have d: "edit_distance a b = lev (rev ?a) (rev ?b)" by (simp add: edit_distance_def two_rows_lev)
  have "(edit ^^ edit_distance a b) ?a ?b"
    using edits_map [where f = rev, OF edit_rev lev_edits [of "rev ?a" "rev ?b"]] by (simp add: d)
  moreover have "\<not> (edit ^^ n) ?a ?b" if "n < edit_distance a b" for n
    using lev_least [OF edits_map [where f = rev, OF edit_rev, of n ?a ?b]] that by (auto simp: d)
  ultimately show ?thesis by blast
qed

theorem edit_distance_least_witness:
  "(edit ^^ 1) (utf8_chars ''cat'') (utf8_chars ''cut'') \<and> \<not> (edit ^^ 0) (utf8_chars ''cat'') (utf8_chars ''cut'')"
proof -
  have "utf8_chars ''cat'' = [''c'', ''a'', ''t'']" "utf8_chars ''cut'' = [''c'', ''u'', ''t'']" by code_simp+
  then have "edit_distance ''cat'' ''cut'' = 1"
    by (simp add: edit_distance_def two_rows_lev)
  then show ?thesis using edit_distance_least [of "''cat''" "''cut''"] by simp
qed

end
