(* ===== verification/Type_Lookup.thy ===== *)
theory Type_Lookup
  imports Schema_Tables Edit_Distance "HOL-Library.List_Lexorder" "HOL-Library.Char_ord"
begin

text \<open>
  Names to identifiers (\<open>catalog/types.rs\<close>): graphs, types with spelling hints, and the label sets of a
  Cypher pattern, which stand for their most specific member.
\<close>

section \<open>Graphs and types\<close>

definition graph_id :: "schema \<Rightarrow> string \<Rightarrow> schema_error + i32" where
  "graph_id s name = (case find (\<lambda>(g, n). n = name) (graphs s) of
       Some (g, n) \<Rightarrow> Inr g | None \<Rightarrow> Inl (No_graph name))"

definition try_type_id :: "schema \<Rightarrow> i32 \<Rightarrow> string \<Rightarrow> i32 option" where
  "try_type_id s gid name = map_option tr_id (find (\<lambda>r. tr_graph r = gid \<and> tr_name r = name) (types s))"

text \<open>\<open>sort_by\<close> distance, then name; at most three names within half the length, or two edits.\<close>

definition scored_names :: "schema \<Rightarrow> i32 \<Rightarrow> string \<Rightarrow> (nat \<times> string) list" where
  "scored_names s gid target =
     sort_key fst (sort_key snd (map (\<lambda>r. (edit_distance (to_ascii_lowercase (tr_name r)) target, tr_name r))
       (filter (\<lambda>r. tr_graph r = gid) (types s))))"

definition nearest_type_names :: "schema \<Rightarrow> i32 \<Rightarrow> string \<Rightarrow> string list" where
  "nearest_type_names s gid name =
     (let target = to_ascii_lowercase name; cutoff = max (length (utf8_chars target) div 2) 2
      in map snd (take 3 (filter (\<lambda>(d, n). d \<le> cutoff) (scored_names s gid target))))"

definition type_id :: "schema \<Rightarrow> i32 \<Rightarrow> string \<Rightarrow> schema_error + i32" where
  "type_id s gid name = (case try_type_id s gid name of
       Some t \<Rightarrow> Inr t | None \<Rightarrow> Inl (No_type name (nearest_type_names s gid name)))"

section \<open>Label sets\<close>

datatype label_match = Any_label | One_type i32 | Nothing

definition most_specific :: "schema \<Rightarrow> i32 list \<Rightarrow> i32 option" where
  "most_specific s ids = find (\<lambda>c. list_all (\<lambda>u. c = u \<or> og_is_subtype (type_labels s) c u) ids) ids"

definition resolve_label_set :: "schema \<Rightarrow> i32 \<Rightarrow> string list \<Rightarrow> label_match" where
  "resolve_label_set s gid lbls =
     (if lbls = [] then Any_label
      else if list_ex (\<lambda>n. try_type_id s gid n = None) lbls then Nothing
      else case most_specific s (map (\<lambda>n. the (try_type_id s gid n)) lbls) of
             Some t \<Rightarrow> One_type t | None \<Rightarrow> Nothing)"

end
