(* ===== verification/Privileges.thy ===== *)
theory Privileges
  imports Type_Lookup
begin

text \<open>
  Who may do what: the standing levels of \<open>catalog/privileges.rs\<close> and the write grants by type and property
  of \<open>security/mod.rs\<close>.  Both are recorded in the catalog and replayed onto the privileges PostgreSQL keeps.
  The lemmas show that a role's privileges on a type's table are exactly what the recorded write grants on
  the type and the types above it allow, after a grant, after a revocation, and on tables created later.
\<close>

section \<open>Levels\<close>

definition READ :: "string list" where
  "READ = [
     ''og_apoc_meta_schema'', ''og_as_of'', ''og_check_integrity'', ''og_csr_hops'', ''og_csr_reach'',
     ''og_csr_stats'', ''og_cypher'', ''og_cypher_check'', ''og_cypher_columns'', ''og_cypher_explain'',
     ''og_cypher_json'', ''og_cypher_sql'', ''og_cypher_stats'', ''og_degree'', ''og_degree_all'',
     ''og_degree_distribution'', ''og_diagnose_empty'', ''og_dump_rdf'', ''og_edge_json'', ''og_edges'',
     ''og_embedding_stats'', ''og_estimate'', ''og_expand'', ''og_expand_batch'', ''og_explain_error'',
     ''og_graph_stats'', ''og_history'', ''og_hybrid_search'', ''og_id_local'', ''og_id_shard'', ''og_id_type'',
     ''og_interop_report'', ''og_is_subtype'', ''og_make_id'', ''og_mapping_report'', ''og_node_json'',
     ''og_nodes'', ''og_prop'', ''og_reach'', ''og_reach_sql'', ''og_schema'', ''og_schema_for'', ''og_similar'',
     ''og_stale_embeddings'', ''og_subtype_ids'', ''og_subtypes'', ''og_supertypes'', ''og_type_id'',
     ''og_type_name'', ''og_typeql'', ''og_typeql_check'', ''og_typeql_schema'', ''og_typeql_sql'',
     ''og_vector_search'', ''og_vector_search_exact'', ''og_vlp'', ''og_asof_active'', ''og_require_current'',
     ''og_system_at'', ''og_valid_at'', ''og_temporal_types'', ''og__audit'', ''og__ensure_view'', ''og_meta'',
     ''og_run_action'', ''og_type_priv'', ''og__visible'', ''og__shadow_write'', ''og_schema_changes'',
     ''og_schema_snapshot'', ''og_schema_diff'', ''og_releases'', ''og_timeline'']"

definition WRITE :: "string list" where
  "WRITE = [
     ''og_add_role_player'', ''og_apply_role'', ''og_capture_history'', ''og_create_edge'', ''og_create_node'',
     ''og_csr_build'', ''og_csr_drop'', ''og_delete_edge'', ''og_delete_node'', ''og_genai_encode'',
     ''og_load_rdf'', ''og_mark_embedded'', ''og_set_node_props'']"

text \<open>The tables and sequences of \<open>sql/bootstrap.sql\<close> and \<open>release.sql\<close>, beside those created for types.\<close>

definition CATALOG_TABLES :: "string list" where
  "CATALOG_TABLES = map ((@) ''og_catalog.'') [''graph'', ''type'', ''type_parent'', ''type_label'', ''property'', ''role'',
     ''og_constraint'', ''rule'', ''typeql_function'', ''schema_version'', ''setting'', ''grantee'', ''embedding'',
     ''compat_index'', ''prefix'', ''mapping'', ''datasource'', ''virtual_rel'', ''agent_role'', ''write_grant'', ''action'',
     ''schema_change'', ''temporal'', ''stamped'', ''release'']"

definition DATA_TABLES :: "string list" where
  "DATA_TABLES = map ((@) ''og_data.'') [''og_role_player'', ''og_adj'', ''og_node'', ''og_edge'', ''og_id_alloc'',
     ''og_embedding_state'', ''og_history'', ''og_source'', ''og_iri'', ''og_triple_overflow'', ''og_audit'']"

definition data_relations :: "schema \<Rightarrow> string list" where
  "data_relations s = DATA_TABLES @ map fst (tables s) @ map (\<lambda>(v, t). view_relation v) (alias_views s)"

definition revoke_on :: "string \<Rightarrow> string list \<Rightarrow> string set \<Rightarrow> schema \<Rightarrow> schema" where
  "revoke_on role privs R s = s\<lparr>acl := filter (\<lambda>(r, p, obj). \<not> (r = role \<and> p \<in> set privs \<and>
     (case acl_relation obj of Some t \<Rightarrow> t \<in> R | None \<Rightarrow> False))) (acl s)\<rparr>"

definition history_tables :: "schema \<Rightarrow> string list" where
  "history_tables s = filter (starts_with ''og_data.h_'') (map fst (tables s))"

definition protect_records :: "string \<Rightarrow> schema \<Rightarrow> schema" where
  "protect_records role s =
     revoke_on role DML (set ([''og_data.og_audit'', ''og_data.og_history'', ''og_data.og_source''] @ history_tables s)) s"

definition grant_functions :: "string \<Rightarrow> nat \<Rightarrow> schema \<Rightarrow> schema" where
  "grant_functions role rank s =
     (let names = READ @ (if rank \<ge> 2 then WRITE else []);
          sigs = map snd (filter (\<lambda>(n, sig). if rank \<ge> 3 then starts_with ''og_'' n else n \<in> set names) (pg_functions s))
      in add_grants (map (\<lambda>sig. (role, ''EXECUTE'', On_function sig)) sigs) s)"

definition grant_write_functions :: "string \<Rightarrow> schema \<Rightarrow> schema" where
  "grant_write_functions role = grant_functions role 2"

definition tables_to :: "string \<Rightarrow> string list \<Rightarrow> string list \<Rightarrow> acl_entry list" where
  "tables_to role privs ts = concat (map (\<lambda>t. map (\<lambda>p. (role, p, On_table t)) privs) ts)"

definition record_level :: "string \<Rightarrow> string \<Rightarrow> (string \<times> string) list \<Rightarrow> (string \<times> string) list" where
  "record_level role level rows =
     (if role \<in> fst ` set rows then map (\<lambda>(r, l). (r, if r = role then level else l)) rows else rows @ [(role, level)])"

definition grant_level :: "string \<Rightarrow> nat \<Rightarrow> schema \<Rightarrow> schema" where
  "grant_level role rank s =
     (let s = add_grants [(role, ''USAGE'', On_schema ''og_catalog''), (role, ''USAGE'', On_schema ''og_data'')] s;
          s = add_grants (tables_to role [''SELECT''] (CATALOG_TABLES @ data_relations s)) s;
          s = add_grants [(role, ''SELECT'', On_sequences ''og_catalog'')] s;
          s = (if rank \<ge> 2
               then protect_records role (add_grants [(role, ''USAGE'', On_sequences ''og_data''), (role, ''SELECT'', On_sequences ''og_data'')]
                      (add_grants (tables_to role DML (data_relations s)) s))
               else s);
          s = (if rank \<ge> 3
               then add_grants [(role, ''USAGE'', On_sequences ''og_catalog''), (role, ''SELECT'', On_sequences ''og_catalog'')]
                      (add_grants (tables_to role DML CATALOG_TABLES) s)
               else s)
      in grant_functions role rank s)"

definition og_grant :: "string \<Rightarrow> string \<Rightarrow> schema_op" where
  "og_grant role level s =
     rbind (level_rank level) (\<lambda>rank.
     if role \<notin> set (pg_roles s) then Inl (Unknown_role role)
     else Inr ((grant_level role rank s)\<lparr>grantees := record_level role level (grantees s)\<rparr>))"

text \<open>\<open>REVOKE ALL\<close> on the tables, sequences and functions of the extension, and on its schemas.\<close>

definition og_revoke :: "string \<Rightarrow> schema \<Rightarrow> schema" where
  "og_revoke role s = s\<lparr>acl := filter (\<lambda>(r, p, obj). r \<noteq> role) (acl s),
     grantees := filter (\<lambda>(r, l). r \<noteq> role) (grantees s),
     write_grants := filter (\<lambda>g. wg_role g \<noteq> role) (write_grants s)\<rparr>"

section \<open>Write grants\<close>

definition column_of :: "schema \<Rightarrow> i32 \<Rightarrow> string \<Rightarrow> string option" where
  "column_of s t prop = map_option pr_column (find (\<lambda>p. pr_type p = t \<and> pr_name p = prop) (properties s))"

text \<open>The recorded grants that reach a concrete type: an operation, for all properties or for some.\<close>

definition grants_on :: "schema \<Rightarrow> string \<Rightarrow> i32 \<Rightarrow> (string \<times> string list option) list" where
  "grants_on s role sub = map (\<lambda>g. (wg_op g, wg_props g))
     (filter (\<lambda>g. wg_role g = role \<and> wg_type g \<in> set (og_supertypes (type_labels s) sub)) (write_grants s))"

text \<open>The \<open>BTreeMap\<close> entry of an operation: absent, or the columns collected for it.\<close>

definition property_lists :: "(string \<times> string list option) list \<Rightarrow> string \<Rightarrow> string list list" where
  "property_lists grants wop = List.map_filter (\<lambda>(w, ps). if w = wop then ps else None) grants"

definition granted_columns :: "schema \<Rightarrow> i32 \<Rightarrow> (string \<times> string list option) list \<Rightarrow> string \<Rightarrow> string list option" where
  "granted_columns s sub grants wop =
     (case property_lists grants wop of
        [] \<Rightarrow> None
      | pss \<Rightarrow> Some (concat (map (\<lambda>ps. List.map_filter (column_of s sub) ps) pss)))"

definition wop_privilege :: "string \<Rightarrow> string" where
  "wop_privilege wop = (if wop = ''create'' then ''INSERT'' else if wop = ''set'' then ''UPDATE'' else ''DELETE'')"

text \<open>\<open>list.sort(); list.dedup()\<close>, with the columns every new row needs.\<close>

definition op_columns :: "string \<Rightarrow> string \<Rightarrow> string list \<Rightarrow> string list" where
  "op_columns table wop cols = remdups_adj (sort (cols @ (if wop = ''create''
     then ''id'' # (if starts_with ''og_data.e_'' table then [''src'', ''dst''] else []) else [])))"

definition grant_op :: "string \<Rightarrow> string \<Rightarrow> i32 \<Rightarrow> (string \<times> string list option) list \<Rightarrow> string \<Rightarrow> schema_op" where
  "grant_op role table sub grants wop s =
     (if (wop, None) \<in> set grants then Inr (add_grants [(role, wop_privilege wop, On_table table)] s)
      else case granted_columns s sub grants wop of
        None \<Rightarrow> Inr s
      | Some cols \<Rightarrow>
          if wop = ''delete'' then Inr s
          else (case table_at s table of
              None \<Rightarrow> Inl (No_table table)
            | Some d \<Rightarrow> (case find (\<lambda>c. \<not> has_column d c) (op_columns table wop cols) of
                Some c \<Rightarrow> Inl (No_column table c)
              | None \<Rightarrow> Inr (add_grants (map (\<lambda>c. (role, wop_privilege wop, On_column table c)) (op_columns table wop cols)) s))))"

definition reapply_for_role :: "string \<Rightarrow> i32 \<Rightarrow> schema_op" where
  "reapply_for_role role sub s = (case storage_table (cat s) sub of
       None \<Rightarrow> Inr s
     | Some table \<Rightarrow>
         let grants = grants_on s role sub
         in rfold (grant_op role table sub grants) [''create'', ''set'', ''delete''] (revoke_on role DML {table} s))"

definition replay_write_grants :: "i32 \<Rightarrow> schema_op" where
  "replay_write_grants sub s =
     rfold (\<lambda>role. reapply_for_role role sub)
       (remdups (map wg_role (filter (\<lambda>g. wg_type g \<in> set (og_supertypes (type_labels s) sub)) (write_grants s)))) s"

definition ensure_writer_base :: "string \<Rightarrow> schema_op" where
  "ensure_writer_base role s =
     rbind (if role \<in> fst ` set (grantees s) then Inr s else og_grant role ''read'' s) (\<lambda>s.
     Inr (grant_write_functions role (add_grants (tables_to role DML
       (map ((@) ''og_data.'') [''og_node'', ''og_edge'', ''og_adj'', ''og_role_player'', ''og_id_alloc''])) s)))"

definition WRITE_OPS :: "string list" where
  "WRITE_OPS = [''create'', ''set'', ''delete'']"

definition record_grant :: "grant_row \<Rightarrow> grant_row list \<Rightarrow> grant_row list" where
  "record_grant g rows =
     (let same = (\<lambda>h. wg_role h = wg_role g \<and> wg_type h = wg_type g \<and> wg_op h = wg_op g)
      in if list_ex same rows then map (\<lambda>h. if same h then h\<lparr>wg_props := wg_props g\<rparr> else h) rows else rows @ [g])"

definition og_grant_write :: "string \<Rightarrow> string \<Rightarrow> string \<Rightarrow> string list \<Rightarrow> string list option \<Rightarrow> schema_op" where
  "og_grant_write role graph type_name wops props s =
     rbind (graph_id s graph) (\<lambda>gid.
     rbind (type_id s gid type_name) (\<lambda>tid.
     if role \<notin> set (pg_roles s) then Inl (Unknown_role role)
     else case find (\<lambda>w. w \<notin> set WRITE_OPS) wops of
       Some w \<Rightarrow> Inl (Unknown_write_op w)
     | None \<Rightarrow> (case Option.bind props (find is_reserved_key) of
       Some bad \<Rightarrow> Inl (System_managed bad)
     | None \<Rightarrow>
     rbind (ensure_writer_base role s) (\<lambda>s.
     let s = s\<lparr>write_grants := fold (\<lambda>w. record_grant \<lparr>wg_role = role, wg_type = tid, wg_op = w, wg_props = props\<rparr>) wops (write_grants s)\<rparr>
     in rfold (reapply_for_role role) (og_subtypes (type_labels s) tid) s))))"

definition og_revoke_write :: "string \<Rightarrow> string \<Rightarrow> string \<Rightarrow> string list option \<Rightarrow> schema_op" where
  "og_revoke_write role graph type_name wops s =
     rbind (graph_id s graph) (\<lambda>gid.
     rbind (type_id s gid type_name) (\<lambda>tid.
     let wops = (case wops of Some ws \<Rightarrow> ws | None \<Rightarrow> WRITE_OPS);
         s = s\<lparr>write_grants := filter (\<lambda>g. \<not> (wg_role g = role \<and> wg_type g = tid \<and> wg_op g \<in> set wops)) (write_grants s)\<rparr>
     in rfold (reapply_for_role role) (og_subtypes (type_labels s) tid) s))"

section \<open>What the recorded grants allow\<close>

definition may_write :: "schema \<Rightarrow> string \<Rightarrow> string \<Rightarrow> string \<Rightarrow> string \<Rightarrow> bool" where
  "may_write s role priv table col \<longleftrightarrow>
     (role, priv, On_table table) \<in> set (acl s) \<or> (role, priv, On_column table col) \<in> set (acl s)"

definition key_columns :: "string \<Rightarrow> string \<Rightarrow> string set" where
  "key_columns wop table = (if wop = ''create'' then insert ''id'' (if starts_with ''og_data.e_'' table then {''src'', ''dst''} else {}) else {})"

definition allowed :: "schema \<Rightarrow> string \<Rightarrow> i32 \<Rightarrow> string \<Rightarrow> string \<Rightarrow> string \<Rightarrow> bool" where
  "allowed s role sub table wop col \<longleftrightarrow>
     (\<exists>g \<in> set (write_grants s). wg_role g = role \<and> wg_op g = wop \<and> wg_type g \<in> set (og_supertypes (type_labels s) sub) \<and>
        (case wg_props g of
           None \<Rightarrow> True
         | Some ps \<Rightarrow> wop \<noteq> ''delete'' \<and> (col \<in> key_columns wop table \<or> (\<exists>p \<in> set ps. column_of s sub p = Some col))))"

lemma same_acl_simps [simp]:
  "types (s\<lparr>acl := a\<rparr>) = types s" "cat (s\<lparr>acl := a\<rparr>) = cat s"
  "cat (s\<lparr>write_grants := g\<rparr>) = cat s" "cat (s\<lparr>grantees := l\<rparr>) = cat s"
  by (simp_all add: cat_def catalog.truncate_def)

lemma set_fold_insert: "set (fold List.insert xs ys) = set xs \<union> set ys"
  by (induction xs arbitrary: ys) auto

lemma acl_add_grants [simp]: "set (acl (add_grants es s)) = set es \<union> set (acl s)"
  by (simp add: add_grants_def set_fold_insert)

text \<open>Operations that only change privileges leave the catalog and the tables as they are.\<close>

definition privileges_only :: "schema \<Rightarrow> schema \<Rightarrow> bool" where
  "privileges_only s s' \<longleftrightarrow> (\<exists>a. s' = s\<lparr>acl := a\<rparr>)"

lemma privileges_only_refl [simp]: "privileges_only s s"
  by (simp add: privileges_only_def exI [of _ "acl s"])

lemma privileges_only_trans: "privileges_only s t \<Longrightarrow> privileges_only t u \<Longrightarrow> privileges_only s u"
  by (auto simp: privileges_only_def)

lemma privileges_only_changes [simp]:
  "privileges_only s (add_grants es s)" "privileges_only s (revoke_on role ps R s)"
  by (auto simp: privileges_only_def add_grants_def revoke_on_def)

lemma privileges_only_same:
  assumes "privileges_only s s'"
  shows "cat s' = cat s" "types s' = types s" "type_labels s' = type_labels s" "properties s' = properties s" "tables s' = tables s"
    "write_grants s' = write_grants s" "column_of s' = column_of s" "table_at s' = table_at s" "grants_on s' = grants_on s"
    "storage_table (cat s') = storage_table (cat s)"
  using assms by (auto simp: privileges_only_def column_of_def table_at_def grants_on_def fun_eq_iff)

lemma allowed_same: "privileges_only s s' \<Longrightarrow> allowed s' = allowed s"
  by (auto simp: allowed_def privileges_only_same fun_eq_iff split: option.splits)

section \<open>One operation of one role on one table\<close>

definition named_columns :: "schema \<Rightarrow> i32 \<Rightarrow> (string \<times> string list option) list \<Rightarrow> string \<Rightarrow> string set" where
  "named_columns s sub gs wop = {c. \<exists>ps p. (wop, Some ps) \<in> set gs \<and> p \<in> set ps \<and> column_of s sub p = Some c}"

definition op_objects :: "schema \<Rightarrow> string \<Rightarrow> string \<Rightarrow> i32 \<Rightarrow> string \<Rightarrow> acl_object set" where
  "op_objects s role table sub wop =
     (let gs = grants_on s role sub in
      if (wop, None) \<in> set gs then {On_table table}
      else if wop \<noteq> ''delete'' \<and> (\<exists>ps. (wop, Some ps) \<in> set gs)
      then On_column table ` (named_columns s sub gs wop \<union> key_columns wop table)
      else {})"

lemma set_map_filter: "set (List.map_filter f xs) = {y. \<exists>x \<in> set xs. f x = Some y}"
  by (auto simp: List.map_filter_def image_iff) (metis option.sel option.discI)+

lemma granted_list: "set (property_lists gs wop) = {ps. (wop, Some ps) \<in> set gs}"
  by (auto simp: property_lists_def set_map_filter intro: bexI [of _ "(wop, _)"] split: if_splits)

lemma granted_columns_None: "granted_columns s sub gs wop = None \<longleftrightarrow> (\<nexists>ps. (wop, Some ps) \<in> set gs)"
proof -
  have "property_lists gs wop = [] \<longleftrightarrow> (\<nexists>ps. (wop, Some ps) \<in> set gs)"
    using granted_list [of gs wop] by (simp only: set_empty [symmetric]) blast
  then show ?thesis by (auto simp: granted_columns_def split: list.split)
qed

lemma granted_columns_Some:
  assumes "granted_columns s sub gs wop = Some cols"
  shows "set cols = named_columns s sub gs wop"
proof -
  have "cols = concat (map (\<lambda>ps. List.map_filter (column_of s sub) ps) (property_lists gs wop))"
    using assms by (auto simp: granted_columns_def split: list.splits)
  then have "set cols = (\<Union>ps \<in> set (property_lists gs wop). {c. \<exists>p \<in> set ps. column_of s sub p = Some c})"
    by (simp only: set_concat set_map set_map_filter image_image)
  then show ?thesis unfolding granted_list by (auto simp: named_columns_def)
qed

lemma grant_op_effect:
  assumes "grant_op role table sub (grants_on s role sub) wop s = Inr s'"
  shows "privileges_only s s' \<and> set (acl s') = set (acl s) \<union> {(role, wop_privilege wop, obj) |obj. obj \<in> op_objects s role table sub wop}"
proof -
  let ?gs = "grants_on s role sub"
  consider (all) "(wop, None) \<in> set ?gs"
    | (none) "(wop, None) \<notin> set ?gs" "granted_columns s sub ?gs wop = None"
    | (delete) cols where "(wop, None) \<notin> set ?gs" "granted_columns s sub ?gs wop = Some cols" "wop = ''delete''"
    | (some) cols where "(wop, None) \<notin> set ?gs" "granted_columns s sub ?gs wop = Some cols" "wop \<noteq> ''delete''" by fastforce
  then show ?thesis
  proof cases
    case all
    with assms show ?thesis by (auto simp: grant_op_def op_objects_def)
  next
    case none
    with assms show ?thesis using granted_columns_None [of s sub ?gs wop] by (simp add: grant_op_def op_objects_def Let_def)
  next
    case delete
    with assms show ?thesis by (simp add: grant_op_def op_objects_def Let_def)
  next
    case some
    let ?cols = "op_columns table wop cols"
    have s': "s' = add_grants (map (\<lambda>c. (role, wop_privilege wop, On_column table c)) ?cols) s"
      using assms some by (simp add: grant_op_def split: option.splits)
    have "set ?cols = named_columns s sub ?gs wop \<union> key_columns wop table"
      using granted_columns_Some [OF some(2)] by (auto simp: op_columns_def key_columns_def)
    then have "On_column table ` set ?cols = op_objects s role table sub wop"
      using some granted_columns_None [of s sub ?gs wop] by (auto simp: op_objects_def Let_def)
    moreover have "set (acl s') = (\<lambda>obj. (role, wop_privilege wop, obj)) ` On_column table ` set ?cols \<union> set (acl s)"
      by (simp only: s' acl_add_grants set_map image_image)
    ultimately show ?thesis by (auto simp: s')
  qed
qed

lemma op_objects_same: "privileges_only s s' \<Longrightarrow> op_objects s' = op_objects s"
  unfolding op_objects_def named_columns_def by (simp only: privileges_only_same(7,9) [of s s'])

lemma grant_ops_effect:
  "rfold (grant_op role table sub (grants_on s role sub)) ws s = Inr s' \<Longrightarrow>
     privileges_only s s' \<and> set (acl s') = set (acl s) \<union> {(role, wop_privilege w, obj) |w obj. w \<in> set ws \<and> obj \<in> op_objects s role table sub w}"
proof (induction ws arbitrary: s)
  case (Cons w ws)
  then obtain t where t: "grant_op role table sub (grants_on s role sub) w s = Inr t"
    "rfold (grant_op role table sub (grants_on s role sub)) ws t = Inr s'" by (auto simp: rbind_eq_Inr_iff)
  note 1 = grant_op_effect [OF t(1)]
  then have "grants_on t = grants_on s" by (simp add: privileges_only_same)
  with Cons.IH [of t] t(2) have 2: "privileges_only t s' \<and> set (acl s') = set (acl t) \<union> {(role, wop_privilege w, obj) |w obj. w \<in> set ws \<and> obj \<in> op_objects t role table sub w}"
    by simp
  have "op_objects t = op_objects s" using 1 op_objects_same by blast
  with 1 2 show ?case by (auto intro: privileges_only_trans)
qed simp

section \<open>Reapplying the grants of a role\<close>

text \<open>After it ran, the role's write privileges on the table are the recorded ones; nothing else changed.\<close>

definition exactly_granted :: "schema \<Rightarrow> string \<Rightarrow> i32 \<Rightarrow> string \<Rightarrow> bool" where
  "exactly_granted s role sub table \<longleftrightarrow> (\<forall>wop \<in> set WRITE_OPS. \<forall>col.
     may_write s role (wop_privilege wop) table col \<longleftrightarrow> allowed s role sub table wop col)"

definition elsewhere :: "string \<Rightarrow> string \<Rightarrow> acl_entry \<Rightarrow> bool" where
  "elsewhere role table e = (case e of (r, p, obj) \<Rightarrow> r \<noteq> role \<or> p \<notin> set DML \<or> acl_relation obj \<noteq> Some table)"

lemma revoke_on_acl [simp]:
  "set (acl (revoke_on role DML {table} s)) = {e \<in> set (acl s). elsewhere role table e}"
  by (auto simp: revoke_on_def elsewhere_def split: option.splits)

lemma wop_privilege_inj: "w \<in> set WRITE_OPS \<Longrightarrow> v \<in> set WRITE_OPS \<Longrightarrow> wop_privilege w = wop_privilege v \<Longrightarrow> w = v"
  by (auto simp: WRITE_OPS_def wop_privilege_def)

lemma wop_privilege_DML: "wop_privilege w \<in> set DML"
  by (simp add: wop_privilege_def DML_def)

lemma grants_on_iff: "(w, ps) \<in> set (grants_on s role sub) \<longleftrightarrow> (\<exists>g \<in> set (write_grants s). wg_role g = role \<and>
    wg_type g \<in> set (og_supertypes (type_labels s) sub) \<and> wg_op g = w \<and> wg_props g = ps)"
  by (auto simp: grants_on_def image_iff)

lemma op_objects_allowed:
  "On_table table \<in> op_objects s role table sub wop \<or> On_column table col \<in> op_objects s role table sub wop
     \<longleftrightarrow> allowed s role sub table wop col"
proof -
  have "allowed s role sub table wop col \<longleftrightarrow> (wop, None) \<in> set (grants_on s role sub) \<or>
      wop \<noteq> ''delete'' \<and> (\<exists>ps. (wop, Some ps) \<in> set (grants_on s role sub) \<and> (col \<in> key_columns wop table \<or> (\<exists>p \<in> set ps. column_of s sub p = Some col)))"
    by (auto simp: allowed_def grants_on_iff split: option.splits) metis+
  moreover have "On_table table \<in> op_objects s role table sub wop \<longleftrightarrow> (wop, None) \<in> set (grants_on s role sub)"
    by (auto simp: op_objects_def Let_def)
  moreover have "On_column table col \<in> op_objects s role table sub wop \<longleftrightarrow> (wop, None) \<notin> set (grants_on s role sub) \<and>
      wop \<noteq> ''delete'' \<and> (\<exists>ps. (wop, Some ps) \<in> set (grants_on s role sub)) \<and> (col \<in> named_columns s sub (grants_on s role sub) wop \<or> col \<in> key_columns wop table)"
    by (auto simp: op_objects_def Let_def)
  ultimately show ?thesis by (auto simp: named_columns_def)
qed

lemma reapply_effect:
  assumes "reapply_for_role role sub s = Inr s'"
  shows "privileges_only s s'"
    and "storage_table (cat s) sub = None \<Longrightarrow> s' = s"
    and "storage_table (cat s) sub = Some table \<Longrightarrow> exactly_granted s' role sub table"
    and "storage_table (cat s) sub = Some table \<Longrightarrow> elsewhere role table e \<Longrightarrow> e \<in> set (acl s') \<longleftrightarrow> e \<in> set (acl s)"
proof -
  show "storage_table (cat s) sub = None \<Longrightarrow> s' = s" using assms by (simp add: reapply_for_role_def)
  have main: "privileges_only s s' \<and> exactly_granted s' role sub table \<and> (\<forall>e. elsewhere role table e \<longrightarrow> (e \<in> set (acl s') \<longleftrightarrow> e \<in> set (acl s)))"
    if table: "storage_table (cat s) sub = Some table" for table
  proof -
    let ?r = "revoke_on role DML {table} s"
    have "privileges_only s ?r" by simp
    note same = privileges_only_same [OF this]
    have "rfold (grant_op role table sub (grants_on ?r role sub)) WRITE_OPS ?r = Inr s'"
      using assms table by (simp add: reapply_for_role_def same WRITE_OPS_def Let_def)
    from grant_ops_effect [OF this] have p: "privileges_only ?r s'"
      and a: "set (acl s') = {e \<in> set (acl s). elsewhere role table e} \<union> {(role, wop_privilege w, obj) |w obj. w \<in> set WRITE_OPS \<and> obj \<in> op_objects ?r role table sub w}"
      by simp_all
    have all: "privileges_only s s'" using \<open>privileges_only s ?r\<close> p by (rule privileges_only_trans)
    have objs: "acl_relation obj = Some table" if "obj \<in> op_objects ?r role table sub w" for obj w
      using that by (auto simp: op_objects_def Let_def split: if_splits)
    have own: "(role, wop_privilege w, obj) \<in> set (acl s') \<longleftrightarrow> obj \<in> op_objects s' role table sub w"
      if "acl_relation obj = Some table" "w \<in> set WRITE_OPS" for obj w
    proof -
      have "\<not> elsewhere role table (role, wop_privilege w, obj)" using that(1) by (simp add: elsewhere_def wop_privilege_DML)
      then have "(role, wop_privilege w, obj) \<in> set (acl s') \<longleftrightarrow>
          (\<exists>v. wop_privilege w = wop_privilege v \<and> v \<in> set WRITE_OPS \<and> obj \<in> op_objects ?r role table sub v)"
        unfolding a by blast
      also have "\<dots> \<longleftrightarrow> obj \<in> op_objects s' role table sub w"
        using that(2) wop_privilege_inj [OF that(2)] unfolding op_objects_same [OF p] by blast
      finally show ?thesis .
    qed
    have "exactly_granted s' role sub table"
      using op_objects_allowed [of table s' role sub] by (simp add: exactly_granted_def may_write_def own)
    moreover have "e \<in> set (acl s') \<longleftrightarrow> e \<in> set (acl s)" if "elsewhere role table e" for e
      using that objs unfolding a by (auto simp: elsewhere_def wop_privilege_DML)
    ultimately show ?thesis using all by blast
  qed
  then show "privileges_only s s'" using \<open>storage_table (cat s) sub = None \<Longrightarrow> s' = s\<close>
    by (cases "storage_table (cat s) sub") auto
  show "exactly_granted s' role sub table" if "storage_table (cat s) sub = Some table" using main [OF that] by blast
  show "e \<in> set (acl s') \<longleftrightarrow> e \<in> set (acl s)" if "storage_table (cat s) sub = Some table" "elsewhere role table e"
    using main [OF that(1)] that(2) by blast
qed

text \<open>The tables of distinct types are distinct, so the grants of one are not touched by the next.\<close>

definition own_tables :: "schema \<Rightarrow> bool" where
  "own_tables s \<longleftrightarrow> (\<forall>t u table. storage_table (cat s) t = Some table \<longrightarrow> storage_table (cat s) u = Some table \<longrightarrow> t = u)"

lemma may_write_same:
  assumes "\<And>e. elsewhere role table e \<Longrightarrow> e \<in> set (acl s') \<longleftrightarrow> e \<in> set (acl s)" "table' \<noteq> table"
  shows "may_write s' role p table' col = may_write s role p table' col"
  using assms by (simp add: may_write_def elsewhere_def)

lemma exactly_granted_other:
  assumes "reapply_for_role role sub s = Inr s'" "exactly_granted s role u table" "u \<noteq> sub" "own_tables s"
    "storage_table (cat s) u = Some table"
  shows "exactly_granted s' role u table"
proof -
  note e = reapply_effect [OF assms(1)]
  have "may_write s' role p table col = may_write s role p table col" for p col
  proof (cases "storage_table (cat s) sub")
    case None
    with e(2) show ?thesis by simp
  next
    case (Some t)
    with assms(3-5) have "table \<noteq> t" by (auto simp: own_tables_def)
    with may_write_same [OF e(4) [OF Some]] show ?thesis by blast
  qed
  with assms(2) show ?thesis by (simp add: exactly_granted_def allowed_same [OF e(1)])
qed

lemma reapply_all_effect:
  "rfold (reapply_for_role role) subs s = Inr s' \<Longrightarrow> own_tables s \<Longrightarrow> D \<inter> set subs = {} \<Longrightarrow> distinct subs \<Longrightarrow>
     (\<forall>u \<in> D. \<forall>table. storage_table (cat s) u = Some table \<longrightarrow> exactly_granted s role u table) \<Longrightarrow>
     privileges_only s s' \<and> (\<forall>u \<in> D \<union> set subs. \<forall>table. storage_table (cat s) u = Some table \<longrightarrow> exactly_granted s' role u table) \<and>
     (\<forall>r p obj. r \<noteq> role \<longrightarrow> ((r, p, obj) \<in> set (acl s') \<longleftrightarrow> (r, p, obj) \<in> set (acl s)))"
proof (induction subs arbitrary: s D)
  case (Cons sub subs)
  then obtain t where t: "reapply_for_role role sub s = Inr t" "rfold (reapply_for_role role) subs t = Inr s'"
    by (auto simp: rbind_eq_Inr_iff)
  note e = reapply_effect [OF t(1)]
  note same = privileges_only_same [OF e(1)]
  have "own_tables t" using Cons.prems(2) by (simp add: own_tables_def same)
  moreover have "insert sub D \<inter> set subs = {}" "distinct subs" using Cons.prems(3,4) by auto
  moreover have "exactly_granted t role u table" if "u \<in> insert sub D" "storage_table (cat t) u = Some table" for u table
  proof (cases "u = sub")
    case True
    with that e(3) show ?thesis by (simp add: same)
  next
    case False
    with that have u: "u \<in> D" "storage_table (cat s) u = Some table" by (auto simp: same)
    with Cons.prems(5) show ?thesis by (intro exactly_granted_other [OF t(1) _ False Cons.prems(2)]) auto
  qed
  ultimately have 2: "privileges_only t s' \<and> (\<forall>u \<in> insert sub D \<union> set subs. \<forall>table. storage_table (cat t) u = Some table \<longrightarrow> exactly_granted s' role u table) \<and>
     (\<forall>r p obj. r \<noteq> role \<longrightarrow> ((r, p, obj) \<in> set (acl s') \<longleftrightarrow> (r, p, obj) \<in> set (acl t)))"
    by (intro Cons.IH [OF t(2)]) auto
  have "(r, p, obj) \<in> set (acl t) \<longleftrightarrow> (r, p, obj) \<in> set (acl s)" if "r \<noteq> role" for r p obj
    using e(2) e(4) [of _ "(r, p, obj)"] that by (cases "storage_table (cat s) sub") (auto simp: elsewhere_def)
  with 2 e(1) show ?case by (auto intro: privileges_only_trans simp: same)
qed simp

lemma og_subtypes_distinct: "distinct (og_subtypes table t)"
  by (simp add: og_subtypes_def)

lemma reapply_subtypes:
  assumes "rfold (reapply_for_role role) (og_subtypes (type_labels s) t) s = Inr s'" "own_tables s"
  shows "privileges_only s s' \<and> (\<forall>u \<in> set (og_subtypes (type_labels s) t). \<forall>table. storage_table (cat s) u = Some table \<longrightarrow> exactly_granted s' role u table) \<and>
     (\<forall>r p obj. r \<noteq> role \<longrightarrow> ((r, p, obj) \<in> set (acl s') \<longleftrightarrow> (r, p, obj) \<in> set (acl s)))"
  using reapply_all_effect [OF assms(1,2), of "{}"] by (simp add: og_subtypes_distinct)

section \<open>Granting and revoking\<close>

text \<open>The standing levels change privileges and their record, and nothing of another role.\<close>

definition base_change :: "string \<Rightarrow> schema \<Rightarrow> schema \<Rightarrow> bool" where
  "base_change role s s' \<longleftrightarrow> s\<lparr>acl := [], grantees := []\<rparr> = s'\<lparr>acl := [], grantees := []\<rparr> \<and>
     (\<forall>r p obj. r \<noteq> role \<longrightarrow> ((r, p, obj) \<in> set (acl s') \<longleftrightarrow> (r, p, obj) \<in> set (acl s)))"

lemma base_change_refl [intro!]: "base_change role s s"
  by (simp add: base_change_def)

lemma base_change_add [intro]: "base_change role s t \<Longrightarrow> \<forall>(r, p, obj) \<in> set es. r = role \<Longrightarrow> base_change role s (add_grants es t)"
  by (auto simp: base_change_def add_grants_def set_fold_insert)

lemma base_change_revoke [intro]: "base_change role s t \<Longrightarrow> base_change role s (revoke_on role ps R t)"
  by (auto simp: base_change_def revoke_on_def)

lemma base_change_record [intro]: "base_change role s t \<Longrightarrow> base_change role s (t\<lparr>grantees := l\<rparr>)"
  by (simp add: base_change_def)

lemma tables_to_role [simp]: "\<forall>(r, p, obj) \<in> set (tables_to role ps ts). r = role"
  by (auto simp: tables_to_def)

lemma base_change_functions [intro]: "base_change role s t \<Longrightarrow> base_change role s (grant_functions role n t)"
  unfolding grant_functions_def Let_def by (rule base_change_add) auto

lemma base_change_level: "base_change role s (grant_level role rank s)"
  unfolding grant_level_def Let_def protect_records_def
  by (cases "rank \<ge> 3"; cases "rank \<ge> 2")
    (simp_all only: if_True if_False, (intro base_change_functions base_change_add base_change_revoke base_change_refl tables_to_role; simp)+)

lemma base_change_base: "ensure_writer_base role s = Inr s' \<Longrightarrow> base_change role s s'"
  unfolding ensure_writer_base_def og_grant_def grant_write_functions_def
  by (auto simp: rbind_eq_Inr_iff base_change_level split: if_splits
      intro!: base_change_functions base_change_add base_change_record tables_to_role)

lemma base_change_same:
  assumes "base_change role s s'"
  shows "cat s' = cat s" "type_labels s' = type_labels s" "write_grants s' = write_grants s" "tables s' = tables s" "properties s' = properties s"
proof -
  have "s\<lparr>acl := [], grantees := []\<rparr> = s'\<lparr>acl := [], grantees := []\<rparr>" using assms by (simp add: base_change_def)
  from arg_cong [OF this, of cat] arg_cong [OF this, of type_labels] arg_cong [OF this, of write_grants]
    arg_cong [OF this, of tables] arg_cong [OF this, of properties]
  show "cat s' = cat s" "type_labels s' = type_labels s" "write_grants s' = write_grants s" "tables s' = tables s" "properties s' = properties s"
    by simp_all
qed

text \<open>C31: after \<open>og_grant_write\<close> or \<open>og_revoke_write\<close> the role may insert, update and delete on the table of
  every subtype exactly what the grants recorded for the subtype and its ancestors allow, column by
  column, and no other role's privileges have changed.  (A grant to delete that lists properties allows
  nothing: only one without a list does.)\<close>

theorem write_grants_exact:
  assumes op: "og_grant_write role graph type_name wops props s = Inr s' \<or> og_revoke_write role graph type_name revoked s = Inr s'"
    and ids: "graph_id s graph = Inr gid" "type_id s gid type_name = Inr tid" and own: "own_tables s"
    and sub: "sub \<in> set (og_subtypes (type_labels s) tid)" "storage_table (cat s) sub = Some table"
  shows "exactly_granted s' role sub table \<and> (\<forall>r p obj. r \<noteq> role \<longrightarrow> ((r, p, obj) \<in> set (acl s') \<longleftrightarrow> (r, p, obj) \<in> set (acl s)))"
proof -
  obtain t g where base: "base_change role s t" and
    re: "rfold (reapply_for_role role) (og_subtypes (type_labels s) tid) (t\<lparr>write_grants := g\<rparr>) = Inr s'"
    using op
  proof
    assume "og_grant_write role graph type_name wops props s = Inr s'"
    then obtain t where t: "ensure_writer_base role s = Inr t"
      "rfold (reapply_for_role role) (og_subtypes (type_labels t) tid) (t\<lparr>write_grants :=
         fold (\<lambda>w. record_grant \<lparr>wg_role = role, wg_type = tid, wg_op = w, wg_props = props\<rparr>) wops (write_grants t)\<rparr>) = Inr s'"
      unfolding og_grant_write_def ids rbind_Inr by (auto simp: rbind_eq_Inr_iff Let_def split: if_splits option.splits)
    from base_change_base [OF t(1)] show thesis by (rule that) (use t(2) base_change_same(2) [OF base_change_base [OF t(1)]] in simp)
  next
    assume "og_revoke_write role graph type_name revoked s = Inr s'"
    then show thesis using that [OF base_change_refl] ids by (auto simp: og_revoke_write_def Let_def)
  qed
  let ?u = "t\<lparr>write_grants := g\<rparr>"
  note same = base_change_same [OF base]
  have "own_tables ?u" using own by (simp add: own_tables_def same)
  with reapply_subtypes [of role ?u tid s'] re sub base show ?thesis by (simp add: same base_change_def)
qed

section \<open>A small schema\<close>

definition demo_schema :: schema where
  "demo_schema = \<lparr>types = [\<lparr>tr_id = 1, tr_graph = 9, tr_name = ''Person'', tr_kind = CHR ''e'', tr_abstract = False, tr_storage = Some ''og_data.n_1''\<rparr>],
     type_labels = [(9, \<lparr>label_type = 1, path_id = 0, lft = 1, rgt = 1025, label_depth = 0\<rparr>)],
     roles = [], properties = [\<lparr>pr_type = 1, pr_name = ''name'', pr_column = ''p_name'', pr_dtype = ''text'', pr_required = False, pr_key = False\<rparr>],
     virtual_source = (\<lambda>_. None), privileged = (\<lambda>_ _ _. True),
     graphs = [(9, ''kb'')], type_parents = [], rules = [],
     tables = [(''og_data.n_1'', \<lparr>td_columns = [(''id'', ''int8''), (''__ext'', ''jsonb''), (''p_name'', ''text'')], td_required = [],
       td_indexes = [], td_checks = [], td_triggers = []\<rparr>)],
     alias_views = [], versions = [], stamped = [], temporal = [], settings = [], write_grants = [\<lparr>wg_role = ''ann'', wg_type = 1, wg_op = ''set'', wg_props = Some [''name'']\<rparr>], compat_index = [], embeddings = [], schema_changes = [], grantees = [], acl = [],
     pg_roles = [''ann''], pg_functions = [], temporal_owner = None, moved_values = [],
     uncastable = (\<lambda>_ _ _. False), duplicated = (\<lambda>_ _. False), may_change_schema = True, next_graph = 10, next_type = 2, next_role = 1\<rparr>"

lemma demo_revoke: "\<exists>s'. og_revoke_write ''ann'' ''kb'' ''Person'' (Some [''delete'']) demo_schema = Inr s' \<and>
    write_grants s' = write_grants demo_schema \<and> cat s' = cat demo_schema"
proof -
  have "og_subtypes (type_labels demo_schema) 1 = [1]" "og_supertypes (type_labels demo_schema) 1 = [1]"
    by (simp_all add: demo_schema_def og_subtypes_def og_supertypes_def contains_label_def)
  then show ?thesis
    by (simp add: og_revoke_write_def graph_id_def type_id_def try_type_id_def reapply_for_role_def storage_table_def type_at_def
        revoke_on_def grants_on_def grant_op_def granted_columns_def property_lists_def List.map_filter_def column_of_def
        op_columns_def table_at_def has_column_def demo_schema_def)
      (simp add: add_grants_def cat_def catalog.truncate_def)
qed

theorem write_grants_exact_witness:
  "\<exists>s'. og_revoke_write ''ann'' ''kb'' ''Person'' (Some [''delete'']) demo_schema = Inr s' \<and>
     may_write s' ''ann'' ''UPDATE'' ''og_data.n_1'' ''p_name'' \<and> \<not> may_write s' ''ann'' ''INSERT'' ''og_data.n_1'' ''id''"
proof -
  obtain s' where s': "og_revoke_write ''ann'' ''kb'' ''Person'' (Some [''delete'']) demo_schema = Inr s'"
    "write_grants s' = write_grants demo_schema" "cat s' = cat demo_schema" using demo_revoke by blast
  have "types s' = types demo_schema" "type_labels s' = type_labels demo_schema" "properties s' = properties demo_schema"
    using arg_cong [OF s'(3), of types] arg_cong [OF s'(3), of type_labels] arg_cong [OF s'(3), of properties] by simp_all
  moreover have "exactly_granted s' ''ann'' 1 ''og_data.n_1''"
    by (rule conjunct1 [OF write_grants_exact [OF disjI2 [OF s'(1)], of 9 1]])
      (simp_all add: demo_schema_def graph_id_def type_id_def try_type_id_def own_tables_def storage_table_def type_at_def
        og_subtypes_def contains_label_def)
  then have "may_write s' ''ann'' (wop_privilege w) ''og_data.n_1'' col \<longleftrightarrow> allowed s' ''ann'' 1 ''og_data.n_1'' w col"
    if "w \<in> set WRITE_OPS" for w col using that by (simp add: exactly_granted_def)
  from this [of "''set''"] this [of "''create''"] show ?thesis
    using s' calculation
    by (simp add: WRITE_OPS_def wop_privilege_def allowed_def demo_schema_def og_supertypes_def contains_label_def column_of_def)
qed

end
