(* ===== verification/Schema_Catalog.thy ===== *)
theory Schema_Catalog
  imports Privileges
begin

text \<open>
  Declaring types, properties, roles and rules (\<open>catalog/types.rs\<close>), with the settings a type inherits from
  the types above it (\<open>security/mod.rs\<close>, \<open>temporal/mod.rs\<close>).  Each operation either returns the changed
  schema or the error that aborts the call.
\<close>

section \<open>Names\<close>

text \<open>The Unicode tables: the classes of characters and the lower-case form of one character.\<close>

record letters = unicode +
  char_lower :: "string \<Rightarrow> string"

definition column_char :: "letters \<Rightarrow> string \<Rightarrow> string" where
  "column_char u c = (case utf8_first c of
       None \<Rightarrow> ''_''
     | Some (cp, n) \<Rightarrow>
         if cp < 128 \<and> is_alphanumeric (unicode.truncate u) cp \<or> c = ''_'' then to_ascii_lowercase c
         else if is_alphanumeric (unicode.truncate u) cp then char_lower u c
         else ''_'')"

definition column_name :: "letters \<Rightarrow> string \<Rightarrow> string" where
  "column_name u prop = ''p_'' @ concat (map (column_char u) (utf8_chars prop))"

definition node_table :: "i32 \<Rightarrow> string" where
  "node_table t = ''og_data.n_'' @ show_int (sint t)"

definition edge_table :: "i32 \<Rightarrow> string" where
  "edge_table t = ''og_data.e_'' @ show_int (sint t)"

definition vector_dims :: "string \<Rightarrow> string option" where
  "vector_dims d =
     (let rest = drop 7 d; dims = take (length rest - 1) rest
      in if starts_with ''vector('' d \<and> ends_with '')'' rest \<and> list_all is_digit_b dims \<and> dims \<noteq> [] then Some dims else None)"

definition map_data_type :: "string \<Rightarrow> schema_error + string" where
  "map_data_type decl =
     (let d = to_ascii_lowercase (trim decl) in
      if d \<in> {''string'', ''text'', ''str''} then Inr ''text''
      else if d \<in> {''int'', ''integer'', ''int4''} then Inr ''int4''
      else if d \<in> {''long'', ''bigint'', ''int8''} then Inr ''int8''
      else if d \<in> {''float'', ''double'', ''float8''} then Inr ''float8''
      else if d \<in> {''real'', ''float4''} then Inr ''float4''
      else if d \<in> {''bool'', ''boolean''} then Inr ''bool''
      else if d \<in> {''datetime'', ''timestamptz'', ''timestamp''} then Inr ''timestamptz''
      else if d = ''date'' then Inr ''date''
      else if d = ''uuid'' then Inr ''uuid''
      else if d \<in> {''numeric'', ''decimal''} then Inr ''numeric''
      else if d \<in> {''json'', ''jsonb''} then Inr ''jsonb''
      else if d \<in> {''text[]'', ''string[]''} then Inr ''text[]''
      else if d \<in> {''int[]'', ''bigint[]''} then Inr ''int8[]''
      else case vector_dims d of
        Some dims \<Rightarrow> Inr (''vector('' @ dims @ '')'')
      | None \<Rightarrow> Inl (Unsupported_type decl))"

definition kind_letter :: "string \<Rightarrow> schema_error + char" where
  "kind_letter kind =
     (let k = to_ascii_lowercase kind in
      if k \<in> {''entity'', ''e'', ''node''} then Inr CHR ''e''
      else if k \<in> {''relation'', ''r'', ''rel'', ''edge''} then Inr CHR ''r''
      else if k \<in> {''attribute'', ''a'', ''attr''} then Inr CHR ''a''
      else Inl (Unknown_kind k))"

section \<open>Graphs\<close>

definition og_create_graph :: "string \<Rightarrow> schema \<Rightarrow> schema_error + i32 \<times> schema" where
  "og_create_graph name s = (case graph_id s name of
       Inr g \<Rightarrow> Inr (g, s)
     | Inl _ \<Rightarrow>
         if next_graph s \<ge> 2 ^ 31 then Inl Out_of_ids
         else let g = of_nat (next_graph s)
              in Inr (g, bump_schema_version g ''create graph'' (s\<lparr>graphs := graphs s @ [(g, name)], next_graph := next_graph s + 1\<rparr>)))"

section \<open>Inheriting from the types above\<close>

definition link_rows :: "schema \<Rightarrow> (i32 \<times> i32) list" where
  "link_rows s = map (\<lambda>r. (tr_id r, tr_graph r)) (types s)"

definition relabel :: "i32 \<Rightarrow> schema_op" where
  "relabel gid s =
     (if load_dag (link_rows s) (type_parents s) gid = [] then Inr s
      else case relabel_graph (link_rows s) (type_parents s) gid (type_labels s) of
        Inl e \<Rightarrow> Inl (Labels_failed e) | Inr ls \<Rightarrow> Inr (bump_schema_version gid ''relabel'' (s\<lparr>type_labels := ls\<rparr>)))"

text \<open>\<open>WITH RECURSIVE anc\<close>: each round adds the parents of what was found; one round per row is enough.\<close>

fun climb :: "(i32 \<times> i32) list \<Rightarrow> nat \<Rightarrow> i32 list \<Rightarrow> i32 list" where
  "climb links 0 found = found"
| "climb links (Suc n) found =
     (let up = remdups (map snd (filter (\<lambda>(c, p). c \<in> set found \<and> p \<notin> set found) links))
      in if up = [] then found else climb links n (found @ up))"

definition ancestry :: "schema \<Rightarrow> i32 \<Rightarrow> i32 list" where
  "ancestry s t = climb (type_parents s) (length (type_parents s)) [t]"

definition insert_property :: "prop_row \<Rightarrow> schema \<Rightarrow> schema" where
  "insert_property p s =
     (if list_ex (\<lambda>q. pr_type q = pr_type p \<and> pr_name q = pr_name p) (properties s) then s
      else s\<lparr>properties := properties s @ [p]\<rparr>)"

definition required_column :: "prop_row \<Rightarrow> table_def \<Rightarrow> table_def" where
  "required_column p d = d\<lparr>td_required := (if pr_required p then List.insert (pr_column p) (td_required d) else td_required d)\<rparr>"

definition key_index :: "string \<Rightarrow> prop_row \<Rightarrow> table_def \<Rightarrow> table_def" where
  "key_index name p d = (if pr_key p then add_index (unique_index name [pr_column p]) d else d)"

definition copy_property :: "i32 \<Rightarrow> string \<Rightarrow> prop_row \<Rightarrow> schema_op" where
  "copy_property child table p s =
     rbind (alter_table table (\<lambda>d. key_index (xd_name (unnamed_index table (pr_column p))) p
       (required_column p (with_column (pr_column p) (pr_dtype p) d))) s) (\<lambda>s.
     Inr (insert_property (p\<lparr>pr_type := child\<rparr>) s))"

definition copy_inherited_properties :: "i32 \<Rightarrow> i32 \<Rightarrow> string \<Rightarrow> schema_op" where
  "copy_inherited_properties parent child table s =
     rfold (copy_property child table) (filter (\<lambda>p. pr_type p \<in> set (ancestry s parent)) (properties s)) s"

section \<open>Types\<close>

definition parent_id :: "schema \<Rightarrow> i32 \<Rightarrow> string \<Rightarrow> string \<Rightarrow> char \<Rightarrow> string \<Rightarrow> schema_error + i32" where
  "parent_id s gid name kind k p =
     rbind (type_id s gid p) (\<lambda>pid.
     case type_kind (cat s) pid of
       Inl e \<Rightarrow> Inl (Store_failed e)
     | Inr pk \<Rightarrow> if pk \<noteq> k then Inl (Bad_parent name kind p pk) else Inr pid)"

definition MAX_SEQUENCE :: nat where
  "MAX_SEQUENCE = 262143"

definition insert_type :: "i32 \<Rightarrow> string \<Rightarrow> char \<Rightarrow> bool \<Rightarrow> i32 list \<Rightarrow> schema \<Rightarrow> schema_error + i32 \<times> schema" where
  "insert_type gid name k abstract pids s =
     (if next_type s > MAX_SEQUENCE then Inl Out_of_ids
      else let t = of_nat (next_type s) in
        if \<not> distinct pids then Inl (Duplicate_row name)
        else Inr (t, s\<lparr>types := types s @ [\<lparr>tr_id = t, tr_graph = gid, tr_name = name, tr_kind = k, tr_abstract = abstract, tr_storage = None\<rparr>],
                       type_parents := type_parents s @ map (Pair t) pids, next_type := next_type s + 1\<rparr>))"

definition base_table :: "string \<Rightarrow> char \<Rightarrow> table_def" where
  "base_table table k =
     \<lparr>td_columns = (if k = CHR ''e'' then [(''id'', ''int8''), (''__ext'', ''jsonb'')]
        else [(''id'', ''int8''), (''src'', ''int8''), (''dst'', ''int8''), (''__ext'', ''jsonb'')]),
      td_required = (if k = CHR ''e'' then [''id''] else [''id'', ''src'', ''dst'']),
      td_indexes = [unique_index (drop 8 table @ ''_pkey'') [''id'']], td_checks = [], td_triggers = []\<rparr>"

definition set_storage :: "i32 \<Rightarrow> string \<Rightarrow> schema \<Rightarrow> schema" where
  "set_storage t table s = s\<lparr>types := map (\<lambda>r. if tr_id r = t then r\<lparr>tr_storage := Some table\<rparr> else r) (types s)\<rparr>"

definition create_storage :: "i32 \<Rightarrow> string \<Rightarrow> char \<Rightarrow> i32 list \<Rightarrow> schema_op" where
  "create_storage t name k pids s =
     (let table = (if k = CHR ''e'' then node_table t else edge_table t) in
      rbind (create_table table (base_table table k) s) (\<lambda>s.
      let s = ensure_alias_view name table (apply_to_table table s) in
      rbind (if k = CHR ''r'' then alter_table table (add_index (unnamed_index table ''dst'') \<circ> add_index (unnamed_index table ''src'')) s else Inr s) (\<lambda>s.
      rfold (\<lambda>pid. copy_inherited_properties pid t table) pids (set_storage t table s))))"

text \<open>\<open>og_enable_history\<close> on an ancestor covers a subtype created afterwards.\<close>

definition history_key :: "string \<Rightarrow> string \<Rightarrow> string" where
  "history_key graph type_name = ''history.'' @ graph @ ''.'' @ type_name"

definition inherit_history_capture :: "string \<Rightarrow> i32 \<Rightarrow> schema_op" where
  "inherit_history_capture graph t s =
     (if list_ex (\<lambda>r. tr_id r \<in> set (og_supertypes (type_labels s) t) \<and> (history_key graph (tr_name r), ''on'') \<in> set (settings s)) (types s)
      then (case storage_table (cat s) t of
              Some table \<Rightarrow> alter_table table (with_trigger (''og_hist_'' @ show_int (sint t))) s
            | None \<Rightarrow> Inr s)
      else Inr s)"

definition inherit_settings :: "string \<Rightarrow> i32 \<Rightarrow> schema_op" where
  "inherit_settings graph t s =
     rbind (if inherits_stamping s t then (case storage_table (cat s) t of Some table \<Rightarrow> stamp_table table s | None \<Rightarrow> Inr s) else Inr s) (\<lambda>s.
     rbind (if is_temporal s t then enable_table t s else Inr s) (\<lambda>s.
     rbind (inherit_history_capture graph t s) (\<lambda>s.
     replay_write_grants t s)))"

definition create_type_inner :: "string \<Rightarrow> string \<Rightarrow> string \<Rightarrow> string list \<Rightarrow> bool \<Rightarrow> schema \<Rightarrow> schema_error + i32 \<times> schema" where
  "create_type_inner graph name kind supers abstract s =
     rbind (graph_id s graph) (\<lambda>gid.
     if try_type_id s gid name \<noteq> None then Inl (Type_exists name graph) else
     rbind (kind_letter kind) (\<lambda>k.
     rbind (rmap (parent_id s gid name kind k) supers) (\<lambda>pids.
     rbind (insert_type gid name k abstract pids s) (\<lambda>(t, s).
     let stored = (\<not> abstract \<and> k \<noteq> CHR ''a'') in
     rbind (if stored then create_storage t name k pids s else Inr s) (\<lambda>s.
     rbind (relabel gid s) (\<lambda>s.
     rbind (if stored then inherit_settings graph t s else Inr s) (\<lambda>s.
     Inr (t, s))))))))"

definition og_create_type :: "string \<Rightarrow> string \<Rightarrow> string \<Rightarrow> string option list \<Rightarrow> bool \<Rightarrow> schema \<Rightarrow> schema_error + i32 \<times> schema" where
  "og_create_type graph name kind supers = create_type_inner graph name kind (List.map_filter (\<lambda>p. p) supers)"

section \<open>Label sets on the write path\<close>

fun declare_labels :: "i32 \<Rightarrow> string \<Rightarrow> string \<Rightarrow> string list \<Rightarrow> string list \<Rightarrow> schema_op" where
  "declare_labels gid graph kind wider [] s = Inr s"
| "declare_labels gid graph kind wider (n # ns) s =
     rbind (if try_type_id s gid n = None
            then rbind (create_type_inner graph n kind wider False s) (\<lambda>(t, s). Inr s) else Inr s) (\<lambda>s.
     declare_labels gid graph kind (wider @ [n]) ns s)"

definition resolve_or_create_label_set :: "i32 \<Rightarrow> string \<Rightarrow> string list \<Rightarrow> string \<Rightarrow> schema \<Rightarrow> schema_error + i32 \<times> schema" where
  "resolve_or_create_label_set gid graph names kind s =
     (if names = [] then Inl No_label
      else rbind (declare_labels gid graph kind [] names s) (\<lambda>s.
        case resolve_label_set s gid names of
          One_type t \<Rightarrow> Inr (t, s)
        | Any_label \<Rightarrow> Inl No_label
        | Nothing \<Rightarrow> Inl (Not_one_chain names)))"

section \<open>Properties\<close>

definition instances :: "db \<Rightarrow> i32 list \<Rightarrow> nat" where
  "instances d ts = length (filter (\<lambda>(n, t). t \<in> set ts) (og_node d)) + length (filter (\<lambda>e. er_type e \<in> set ts) (og_edge d))"

definition unique_name :: "i32 \<Rightarrow> string \<Rightarrow> string" where
  "unique_name sub col = ''uq_'' @ show_int (sint sub) @ ''_'' @ col"

text \<open>What declaring a property does to the table of one subtype, and to its record.\<close>

definition add_to_subtype :: "i32 \<Rightarrow> prop_row \<Rightarrow> i32 \<Rightarrow> schema_op" where
  "add_to_subtype tid p sub s = (case storage_table (cat s) sub of
       None \<Rightarrow> Inr s
     | Some table \<Rightarrow>
         rbind (alter_table table (\<lambda>d. required_column p (with_column (pr_column p) (pr_dtype p) d)) s) (\<lambda>s.
         if uncastable s table (pr_name p) (pr_dtype p) then Inl (Cast_failed table (pr_name p)) else
         let s = s\<lparr>moved_values := moved_values s @ [(table, pr_name p, pr_column p, pr_dtype p)]\<rparr> in
         rbind (if pr_key p
                then if duplicated s table (pr_column p) then Inl (Not_unique table (pr_column p))
                     else alter_table table (key_index (unique_name sub (pr_column p)) p) s
                else Inr s) (\<lambda>s.
         rbind (sync_history sub s) (\<lambda>s.
         Inr (if sub \<noteq> tid then insert_property (p\<lparr>pr_type := sub\<rparr>) s else s)))))"

definition refresh_subtype :: "i32 \<Rightarrow> schema_op" where
  "refresh_subtype sub s = replay_write_grants sub
     (case (storage_table (cat s) sub, try_type_name (cat s) sub) of
        (Some table, Some n) \<Rightarrow> ensure_alias_view n table s | _ \<Rightarrow> s)"

definition og_add_property :: "letters \<Rightarrow> db \<Rightarrow> string \<Rightarrow> string \<Rightarrow> string \<Rightarrow> string \<Rightarrow> bool \<Rightarrow> bool \<Rightarrow> schema_op" where
  "og_add_property u d graph type_name prop data_type required is_key s =
     rbind (graph_id s graph) (\<lambda>gid.
     rbind (type_id s gid type_name) (\<lambda>tid.
     rbind (map_data_type data_type) (\<lambda>dtype.
     let p = \<lparr>pr_type = tid, pr_name = prop, pr_column = column_name u prop, pr_dtype = dtype, pr_required = required, pr_key = is_key\<rparr>;
         subs = og_subtypes (type_labels s) tid in
     if required \<and> instances d subs > 0 then Inl (Has_rows prop type_name (instances d subs))
     else if list_ex (\<lambda>q. pr_type q = tid \<and> pr_name q = prop) (properties s) then Inl (Duplicate_row prop)
     else
     rbind (rfold (add_to_subtype tid p) subs (insert_property p s)) (\<lambda>s.
     rbind (rfold refresh_subtype subs s) (\<lambda>s.
     Inr (bump_schema_version gid (''add property '' @ type_name @ ''.'' @ prop) s))))))"

text \<open>PostgreSQL folds and cuts the name of an index, then resolves its columns, then looks for the name, then
  builds it.\<close>

definition pg_name :: "string \<Rightarrow> string" where
  "pg_name n = take 63 (to_ascii_lowercase n)"

definition build_index :: "index_def \<Rightarrow> string list \<Rightarrow> string \<Rightarrow> schema_op" where
  "build_index ix cols table s = (case table_at s table of
       None \<Rightarrow> Inl (No_table table)
     | Some d \<Rightarrow>
         if cols = [] then Inl (No_column table [])
         else (case find (\<lambda>c. \<not> has_column d c) cols of
           Some c \<Rightarrow> Inl (No_column table c)
         | None \<Rightarrow>
             if xd_unique ix \<and> pg_name (xd_name ix) \<notin> xd_name ` set (td_indexes d) \<and> duplicated s table (join '', '' cols)
             then Inl (Not_unique table (join '', '' cols))
             else alter_table table (add_index (ix\<lparr>xd_name := pg_name (xd_name ix)\<rparr>)) s))"

definition index_subtypes :: "(i32 \<Rightarrow> index_def) \<Rightarrow> string list \<Rightarrow> i32 \<Rightarrow> schema_op" where
  "index_subtypes ix cols tid s =
     rfold (\<lambda>sub s. case storage_table (cat s) sub of None \<Rightarrow> Inr s | Some table \<Rightarrow> build_index (ix sub) cols table s)
       (og_subtypes (type_labels s) tid) s"

definition og_create_index :: "letters \<Rightarrow> string \<Rightarrow> string \<Rightarrow> string \<Rightarrow> schema_op" where
  "og_create_index u graph type_name prop s =
     rbind (graph_id s graph) (\<lambda>gid.
     rbind (type_id s gid type_name) (\<lambda>tid.
     let col = column_name u prop in
     rbind (index_subtypes (\<lambda>sub. \<lparr>xd_name = ''ix_'' @ show_int (sint sub) @ ''_'' @ col, xd_unique = False,
              xd_method = ''btree'', xd_columns = [col], xd_expression = None\<rparr>) [col] tid s) (\<lambda>s.
     Inr (bump_schema_version gid (''create index '' @ type_name @ ''.'' @ prop) s))))"

section \<open>Roles and rules\<close>

definition og_add_role :: "string \<Rightarrow> string \<Rightarrow> string \<Rightarrow> string option \<Rightarrow> i32 \<Rightarrow> i32 \<Rightarrow> i32 option \<Rightarrow> schema_op" where
  "og_add_role graph rel_type role player_type ordinal card_min card_max s =
     rbind (graph_id s graph) (\<lambda>gid.
     rbind (type_id s gid rel_type) (\<lambda>rid.
     if type_kind (cat s) rid \<noteq> Inr CHR ''r'' then Inl (Not_a_relation rel_type) else
     rbind (case player_type of None \<Rightarrow> Inr None | Some p \<Rightarrow> rbind (type_id s gid p) (\<lambda>t. Inr (Some t))) (\<lambda>player.
     let same = (\<lambda>r. ro_rel r = rid \<and> ro_name r = role);
         set_role = (\<lambda>r. r\<lparr>ro_player := player, ro_ordinal := ordinal, ro_card_min := card_min, ro_card_max := card_max\<rparr>);
         s = (if list_ex same (roles s) then s\<lparr>roles := map (\<lambda>r. if same r then set_role r else r) (roles s)\<rparr>
              else s\<lparr>roles := roles s @ [\<lparr>ro_id = of_nat (next_role s), ro_rel = rid, ro_name = role, ro_player = player,
                      ro_ordinal = ordinal, ro_card_min = card_min, ro_card_max = card_max\<rparr>]\<rparr>)
     in Inr (bump_schema_version gid (''add role '' @ rel_type @ ''.'' @ role) (s\<lparr>next_role := next_role s + 1\<rparr>)))))"

definition og_add_rule :: "string \<Rightarrow> string \<Rightarrow> string \<Rightarrow> string option \<Rightarrow> schema_op" where
  "og_add_rule graph rel_type characteristic target_type s =
     rbind (graph_id s graph) (\<lambda>gid.
     rbind (type_id s gid rel_type) (\<lambda>rid.
     let c = to_ascii_lowercase characteristic in
     if c \<notin> {''transitive'', ''symmetric'', ''reflexive'', ''inverse''} then Inl (Unknown_characteristic characteristic)
     else if c = ''inverse'' \<and> target_type = None then Inl No_target
     else
     rbind (case target_type of None \<Rightarrow> Inr None | Some t \<Rightarrow> rbind (type_id s gid t) (\<lambda>t. Inr (Some t))) (\<lambda>tgt.
     let r = \<lparr>ru_rel = rid, ru_characteristic = c, ru_target = tgt\<rparr>;
         s = (if tgt \<noteq> None \<and> r \<in> set (rules s) then s else s\<lparr>rules := rules s @ [r]\<rparr>)
     in Inr (bump_schema_version gid (''add rule on '' @ rel_type) s))))"

section \<open>Dropping\<close>

text \<open>Deleting the rows of types: the rows that reference them go along, but a role or a rule that stays
  must not name one.\<close>

definition remove_types :: "i32 set \<Rightarrow> schema_op" where
  "remove_types T s =
     (case find (\<lambda>r. ro_rel r \<notin> T \<and> (case ro_player r of Some p \<Rightarrow> p \<in> T | None \<Rightarrow> False)) (roles s) of
        Some r \<Rightarrow> Inl (Still_referenced (ro_rel r))
      | None \<Rightarrow> (case find (\<lambda>r. ru_rel r \<notin> T \<and> (case ru_target r of Some p \<Rightarrow> p \<in> T | None \<Rightarrow> False)) (rules s) of
        Some r \<Rightarrow> Inl (Still_referenced (ru_rel r))
      | None \<Rightarrow> Inr (s\<lparr>types := filter (\<lambda>r. tr_id r \<notin> T) (types s),
                      type_parents := filter (\<lambda>(c, p). c \<notin> T \<and> p \<notin> T) (type_parents s),
                      type_labels := filter (\<lambda>(g, l). label_type l \<notin> T) (type_labels s),
                      properties := filter (\<lambda>p. pr_type p \<notin> T) (properties s),
                      roles := filter (\<lambda>r. ro_rel r \<notin> T) (roles s),
                      rules := filter (\<lambda>r. ru_rel r \<notin> T) (rules s),
                      embeddings := filter (\<lambda>e. em_type e \<notin> T) (embeddings s),
                      stamped := filter (\<lambda>t. t \<notin> T) (stamped s),
                      temporal := filter (\<lambda>t. t \<notin> T) (temporal s),
                      write_grants := filter (\<lambda>g. wg_type g \<notin> T) (write_grants s)\<rparr>)))"

definition drop_instances :: "i32 \<Rightarrow> db \<Rightarrow> db" where
  "drop_instances t d = d\<lparr>og_node := filter (\<lambda>(n, u). u \<noteq> t) (og_node d), og_edge := filter (\<lambda>e. er_type e \<noteq> t) (og_edge d),
     og_adj := filter (\<lambda>r. seg_etype r \<noteq> t) (og_adj d)\<rparr>"

fun drop_subtypes :: "i32 list \<Rightarrow> schema \<times> db \<Rightarrow> schema_error + schema \<times> db" where
  "drop_subtypes [] w = Inr w"
| "drop_subtypes (t # ts) (s, d) =
     (let dropped = storage_table (cat s) t;
          s' = (case dropped of Some table \<Rightarrow> drop_table table s | None \<Rightarrow> s);
          d' = (case dropped of Some table \<Rightarrow> d\<lparr>stored := filter (\<lambda>r. st_table r \<noteq> table) (stored d)\<rparr> | None \<Rightarrow> d)
      in rbind (remove_types {t} s') (\<lambda>s. drop_subtypes ts (s, drop_instances t d')))"

definition og_drop_type :: "string \<Rightarrow> string \<Rightarrow> bool \<Rightarrow> schema \<times> db \<Rightarrow> schema_error + schema \<times> db" where
  "og_drop_type graph name cascade w = (case w of (s, d) \<Rightarrow>
     rbind (graph_id s graph) (\<lambda>gid.
     rbind (type_id s gid name) (\<lambda>tid.
     let subs = og_subtypes (type_labels s) tid; n = instances d subs in
     if n > 0 \<and> \<not> cascade then Inl (Has_instances name n)
     else rbind (drop_subtypes subs (s, d)) (\<lambda>(s, d).
       rbind (relabel gid s) (\<lambda>s. Inr (s, d))))))"

text \<open>Only the tables of the types and the catalog rows go; the registries of instances are not touched.\<close>

definition og_drop_graph :: "string \<Rightarrow> schema \<times> db \<Rightarrow> schema_error + schema \<times> db" where
  "og_drop_graph name w = (case w of (s, d) \<Rightarrow>
     rbind (graph_id s name) (\<lambda>gid.
     let ts = filter (\<lambda>r. tr_graph r = gid) (types s); gone = List.map_filter tr_storage ts;
         s = fold drop_table gone s in
     rbind (remove_types (tr_id ` set ts) s) (\<lambda>s.
     Inr (s\<lparr>graphs := filter (\<lambda>(g, n). g \<noteq> gid) (graphs s), compat_index := filter (\<lambda>i. ci_graph i \<noteq> gid) (compat_index s),
            schema_changes := filter (\<lambda>c. ch_graph c \<noteq> gid) (schema_changes s)\<rparr>, d\<lparr>stored := filter (\<lambda>r. st_table r \<notin> set gone) (stored d)\<rparr>))))"

section \<open>Stamps and versions for a type and its subtypes\<close>

definition og_enable_stamping :: "string \<Rightarrow> string \<Rightarrow> schema_op" where
  "og_enable_stamping graph type_name s =
     rbind (graph_id s graph) (\<lambda>gid.
     rbind (type_id s gid type_name) (\<lambda>tid.
     rbind (rfold (\<lambda>sub s. case storage_table (cat s) sub of Some table \<Rightarrow> stamp_table table s | None \<Rightarrow> Inr s)
       (og_subtypes (type_labels s) tid) (s\<lparr>stamped := List.insert tid (stamped s)\<rparr>)) (\<lambda>s.
     Inr (bump_schema_version gid (''enable stamping on '' @ type_name) s))))"

definition og_enable_temporal :: "string \<Rightarrow> string \<Rightarrow> schema_op" where
  "og_enable_temporal graph type_name s =
     rbind (graph_id s graph) (\<lambda>gid.
     rbind (type_id s gid type_name) (\<lambda>tid.
     if type_kind (cat s) tid \<notin> {Inr CHR ''e'', Inr CHR ''r''} then Inl (Not_versioned type_name) else
     rbind (rfold enable_table (og_subtypes (type_labels s) tid)
       (s\<lparr>temporal := List.insert tid (temporal s), stamped := List.insert tid (stamped s)\<rparr>)) (\<lambda>s.
     Inr (bump_schema_version gid (''enable temporal on '' @ type_name) s))))"

section \<open>Declaring properties on the first write\<close>

definition widen_subtype :: "string \<Rightarrow> i32 \<Rightarrow> schema_op" where
  "widen_subtype col sub s = (case storage_table (cat s) sub of
       None \<Rightarrow> Inr s
     | Some table \<Rightarrow>
         let named = try_type_name (cat s) sub;
             s = (case named of Some n \<Rightarrow> drop_alias_view n s | None \<Rightarrow> s) in
         rbind (alter_table table (\<lambda>d. d\<lparr>td_columns := map (\<lambda>(c, ty). (c, if c = col then ''text'' else ty)) (td_columns d)\<rparr>) s) (\<lambda>s.
         rbind (sync_history sub s) (\<lambda>s.
         Inr (case named of Some n \<Rightarrow> ensure_alias_view n table s | None \<Rightarrow> s))))"

definition declare_key :: "letters \<Rightarrow> db \<Rightarrow> string \<Rightarrow> string \<Rightarrow> i32 \<Rightarrow> prop_row list \<Rightarrow> string \<times> json \<Rightarrow> schema_op" where
  "declare_key u d graph type_name t existing kv s = (case kv of (key, v) \<Rightarrow>
     (case infer_column_type v of
        None \<Rightarrow> Inr s
      | Some want \<Rightarrow> (case find (\<lambda>p. pr_name p = key) existing of
          None \<Rightarrow> og_add_property u d graph type_name key want False False s
        | Some p \<Rightarrow>
            if pr_dtype p \<in> set WIDENABLE \<and> \<not> type_accepts (pr_dtype p) want
            then let subs = og_subtypes (type_labels s) t in
              rbind (rfold (widen_subtype (pr_column p)) subs s) (\<lambda>s.
              Inr (s\<lparr>properties := map (\<lambda>q. if pr_type q \<in> set subs \<and> pr_name q = key then q\<lparr>pr_dtype := ''text''\<rparr> else q) (properties s)\<rparr>))
            else Inr s)))"

definition declare_new_props :: "letters \<Rightarrow> db \<Rightarrow> i32 \<Rightarrow> json \<Rightarrow> schema_op" where
  "declare_new_props u d t props s =
     (let existing = filter (\<lambda>p. pr_type p = t) (properties s) in
      if \<not> needs_declaring existing props \<or> \<not> may_change_schema s then Inr s
      else case type_at (cat s) t of
        None \<Rightarrow> Inr s
      | Some r \<Rightarrow> (case find (\<lambda>(g, n). g = tr_graph r) (graphs s) of
          None \<Rightarrow> Inr s
        | Some (g, graph) \<Rightarrow> (case props of
            JObj m \<Rightarrow> rfold (declare_key u d graph (tr_name r) t existing) m s
          | _ \<Rightarrow> Inr s)))"

end
