(* ===== verification/Schema_Invariant.thy ===== *)
theory Schema_Invariant
  imports Schema_Catalog
begin

text \<open>
  What every operation on the type catalog keeps: the identifiers are distinct, parents stay inside their
  graph, the interval labels decide the hierarchy, and every concrete type has a row and a column for each
  property of the types above it, however the operations were interleaved.
\<close>

section \<open>The hierarchy and its labels\<close>

definition is_parent :: "schema \<Rightarrow> i32 \<Rightarrow> i32 \<Rightarrow> bool" where
  "is_parent s c p \<longleftrightarrow> (c, p) \<in> set (type_parents s)"

abbreviation inherits :: "schema \<Rightarrow> i32 \<Rightarrow> i32 \<Rightarrow> bool" where
  "inherits s \<equiv> (is_parent s)\<^sup>*\<^sup>*"

definition labels_ok :: "schema \<Rightarrow> i32 \<Rightarrow> bool" where
  "labels_ok s g \<longleftrightarrow> (\<exists>ls lo hi tops. (\<forall>l. (g, l) \<in> set (type_labels s) \<longleftrightarrow> l \<in> set ls) \<and>
     block (load_dag (link_rows s) (type_parents s) g) tops lo hi (set ls) \<and>
     label_type ` set ls = set (graph_types (link_rows s) g))"

definition parents_ok :: "schema \<Rightarrow> bool" where
  "parents_ok s \<longleftrightarrow> (\<forall>(c, p) \<in> set (type_parents s). \<exists>g. (c, g) \<in> set (link_rows s) \<and> (p, g) \<in> set (link_rows s))"

definition ids_ok :: "schema \<Rightarrow> bool" where
  "ids_ok s \<longleftrightarrow> distinct (map tr_id (types s)) \<and> next_type s \<le> MAX_SEQUENCE + 1 \<and>
     (\<forall>r \<in> set (types s). \<exists>n < next_type s. tr_id r = of_nat n)"

definition labels_typed :: "schema \<Rightarrow> bool" where
  "labels_typed s \<longleftrightarrow> (\<forall>(h, l) \<in> set (type_labels s). (label_type l, h) \<in> set (link_rows s))"

lemma link_rows_unique:
  assumes "distinct (map tr_id (types s))" "(t, g) \<in> set (link_rows s)" "(t, h) \<in> set (link_rows s)"
  shows "g = h"
  using assms by (auto simp: link_rows_def distinct_map inj_on_def)

lemma graph_types_distinct: "distinct (map tr_id (types s)) \<Longrightarrow> distinct (graph_types (link_rows s) g)"
proof -
  have "graph_types (map (\<lambda>r. (tr_id r, tr_graph r)) rs) g = map tr_id (filter (\<lambda>r. tr_graph r = g) rs)" for rs
    by (induction rs) (auto simp: graph_types_def)
  then have "graph_types (link_rows s) g = map tr_id (filter (\<lambda>r. tr_graph r = g) (types s))" by (simp add: link_rows_def)
  then show "distinct (map tr_id (types s)) \<Longrightarrow> ?thesis" by (simp add: distinct_map_filter)
qed

lemma is_a_inherits:
  assumes "parents_ok s" "distinct (map tr_id (types s))" "(a, g) \<in> set (link_rows s)"
  shows "(is_a (link_rows s) (type_parents s) g)\<^sup>*\<^sup>* c a \<longleftrightarrow> inherits s c a"
proof
  show "(is_a (link_rows s) (type_parents s) g)\<^sup>*\<^sup>* c a \<Longrightarrow> inherits s c a"
    by (rule rtranclp_mono [THEN predicate2D, rotated]) (auto simp: is_a_def is_parent_def)
  assume "inherits s c a"
  then have "(is_a (link_rows s) (type_parents s) g)\<^sup>*\<^sup>* c a \<and> (c, g) \<in> set (link_rows s)"
  proof (induction rule: converse_rtranclp_induct)
    case base
    then show ?case using assms(3) by simp
  next
    case (step c p)
    then obtain h where "(c, h) \<in> set (link_rows s)" "(p, h) \<in> set (link_rows s)"
      using assms(1) by (auto simp: parents_ok_def is_parent_def)
    with step assms(2) have "is_a (link_rows s) (type_parents s) g c p" "(c, g) \<in> set (link_rows s)"
      using link_rows_unique [OF assms(2)] by (auto simp: is_a_def is_parent_def)
    with step show ?case by (auto intro: converse_rtranclp_into_rtranclp)
  qed
  then show "(is_a (link_rows s) (type_parents s) g)\<^sup>*\<^sup>* c a" by simp
qed

lemma is_a_inherits_up:
  assumes "parents_ok s" "distinct (map tr_id (types s))" "(c, g) \<in> set (link_rows s)"
  shows "(is_a (link_rows s) (type_parents s) g)\<^sup>*\<^sup>* c a \<longleftrightarrow> inherits s c a"
proof
  show "(is_a (link_rows s) (type_parents s) g)\<^sup>*\<^sup>* c a \<Longrightarrow> inherits s c a"
    by (rule rtranclp_mono [THEN predicate2D, rotated]) (auto simp: is_a_def is_parent_def)
  assume "inherits s c a"
  then have "(is_a (link_rows s) (type_parents s) g)\<^sup>*\<^sup>* c a \<and> (a, g) \<in> set (link_rows s)"
  proof (induction rule: rtranclp_induct)
    case base
    then show ?case using assms(3) by simp
  next
    case (step b p)
    then obtain h where "(b, h) \<in> set (link_rows s)" "(p, h) \<in> set (link_rows s)"
      using assms(1) by (auto simp: parents_ok_def is_parent_def)
    with step assms(2) have "is_a (link_rows s) (type_parents s) g b p" "(p, g) \<in> set (link_rows s)"
      using link_rows_unique [OF assms(2)] by (auto simp: is_a_def is_parent_def)
    with step show ?case by (auto intro: rtranclp.rtrancl_into_rtrancl)
  qed
  then show "(is_a (link_rows s) (type_parents s) g)\<^sup>*\<^sup>* c a" by simp
qed

lemma labels_decide:
  assumes "labels_ok s g" "labels_typed s" "parents_ok s" "distinct (map tr_id (types s))" "(t, g) \<in> set (link_rows s)"
  shows "og_is_subtype (type_labels s) c t \<longleftrightarrow> inherits s c t"
    and "set (og_subtypes (type_labels s) t) = {c. inherits s c t}"
    and "set (og_supertypes (type_labels s) t) = {a. inherits s t a}"
proof -
  obtain ls lo hi tops where l: "\<And>l. (g, l) \<in> set (type_labels s) \<longleftrightarrow> l \<in> set ls"
    "block (load_dag (link_rows s) (type_parents s) g) tops lo hi (set ls)" "label_type ` set ls = set (graph_types (link_rows s) g)"
    using assms(1) unfolding labels_ok_def by blast
  have own: "h = g" if "(h, l) \<in> set (type_labels s)" "label_type l = t" for h l
    using that assms(2) link_rows_unique [OF assms(4) _ assms(5)] by (auto simp: labels_typed_def)
  note r = rows_decide [OF l(2,3) _ _ assms(5), of "type_labels s"]
  show "og_is_subtype (type_labels s) c t \<longleftrightarrow> inherits s c t"
    using r(1) [of c] l(1) own by (simp add: is_a_inherits [OF assms(3-5)])
  show "set (og_subtypes (type_labels s) t) = {c. inherits s c t}"
    using r(2) l(1) own by (simp add: is_a_inherits [OF assms(3-5)])
  show "set (og_supertypes (type_labels s) t) = {a. inherits s t a}"
    using r(3) l(1) own by (simp add: is_a_inherits_up [OF assms(3-5)])
qed

section \<open>Relabelling\<close>

lemma no_types_dag: "\<nexists>t. (t, g) \<in> set rows \<Longrightarrow> load_dag rows links g = []"
  using load_dag_keys [of rows links g] by (metis graph_types_iff list.map_disc_iff list.set_intros(1) neq_Nil_conv)

lemma labels_ok_empty:
  assumes "labels_typed s" "\<nexists>t. (t, g) \<in> set (link_rows s)"
  shows "labels_ok s g"
  unfolding labels_ok_def
proof (intro exI [of _ "[]"] exI conjI)
  show "\<forall>l. (g, l) \<in> set (type_labels s) \<longleftrightarrow> l \<in> set []" using assms by (auto simp: labels_typed_def)
  show "block (load_dag (link_rows s) (type_parents s) g) {} 1 1 (set [])" by (simp add: block_empty)
  show "label_type ` set [] = set (graph_types (link_rows s) g)"
    using assms(2) graph_types_iff [of _ "link_rows s" g] by (simp add: set_eq_iff)
qed

lemma relabel_effect:
  assumes "relabel g s = Inr s'" "distinct (map tr_id (types s))" "labels_typed s" "\<forall>h. h \<noteq> g \<longrightarrow> labels_ok s h"
  shows "\<forall>h. labels_ok s' h" "labels_typed s'" "\<exists>ls vs. s' = s\<lparr>type_labels := ls, versions := vs\<rparr>"
proof -
  obtain ls' vs where r: "relabel_graph (link_rows s) (type_parents s) g (type_labels s) = Inr ls'"
    and s': "s' = s\<lparr>type_labels := ls', versions := vs\<rparr>"
  proof (cases "load_dag (link_rows s) (type_parents s) g = []")
    case True
    with assms(1) show thesis by (intro that [of "type_labels s" "versions s"]) (simp_all add: relabel_def relabel_graph_def)
  next
    case False
    with assms(1) show thesis using that by (auto simp: relabel_def bump_schema_version_def split: sum.splits)
  qed
  have rows: "link_rows s' = link_rows s" "type_parents s' = type_parents s" "type_labels s' = ls'"
    by (simp_all add: s' link_rows_def)
  show "\<exists>ls vs. s' = s\<lparr>type_labels := ls, versions := vs\<rparr>" using s' by blast
  have both: "(\<forall>h. labels_ok s' h) \<and> labels_typed s'"
  proof (cases "\<exists>t. (t, g) \<in> set (link_rows s)")
    case True
    then obtain t where "(t, g) \<in> set (link_rows s)" by blast
    from relabel_rows [OF r graph_types_distinct [OF assms(2)] this] obtain ls hi where
      ls': "ls' = filter (\<lambda>(h, l). h \<noteq> g) (type_labels s) @ map (Pair g) ls"
      and b: "block (load_dag (link_rows s) (type_parents s) g) (set (roots_of (load_dag (link_rows s) (type_parents s) g))) 1 hi (set ls)"
      and ty: "label_type ` set ls = set (graph_types (link_rows s) g)" .
    have "labels_ok s' g"
      unfolding labels_ok_def rows using b ty by (intro exI [of _ ls] exI conjI) (auto simp: ls')
    moreover have "labels_ok s' h" if h: "h \<noteq> g" for h
    proof -
      have "(h, l) \<in> set ls' \<longleftrightarrow> (h, l) \<in> set (type_labels s)" for l using h by (auto simp: ls')
      then show ?thesis using assms(4) h by (simp add: labels_ok_def rows)
    qed
    moreover have "labels_typed s'"
      using assms(3) ty by (auto simp: labels_typed_def rows ls' graph_types_iff [symmetric])
    ultimately show ?thesis by metis
  next
    case False
    then have "load_dag (link_rows s) (type_parents s) g = []" by (rule no_types_dag)
    then have same: "ls' = type_labels s" using r by (simp add: relabel_graph_def)
    have "labels_ok s g" using False assms(3) by (intro labels_ok_empty) auto
    then have "labels_ok s' g" by (simp add: labels_ok_def rows same)
    moreover have "labels_ok s' h" if "h \<noteq> g" for h using assms(4) that by (simp add: labels_ok_def rows same)
    moreover have "labels_typed s'" using assms(3) by (simp add: labels_typed_def rows same)
    ultimately show ?thesis by metis
  qed
  then show "\<forall>h. labels_ok s' h" "labels_typed s'" by simp_all
qed

section \<open>Operations that keep the catalog and only add to tables\<close>

definition columns_of :: "schema \<Rightarrow> string \<Rightarrow> string set option" where
  "columns_of s t = map_option (\<lambda>d. fst ` set (td_columns d)) (table_at s t)"

definition grows :: "schema \<Rightarrow> schema \<Rightarrow> bool" where
  "grows s s' \<longleftrightarrow> (\<forall>t cs. columns_of s t = Some cs \<longrightarrow> (\<exists>cs'. columns_of s' t = Some cs' \<and> cs \<subseteq> cs'))"

text \<open>What the invariant reads of a property row: its type, name and column.\<close>

definition prop_keys :: "schema \<Rightarrow> (i32 \<times> string \<times> string) set" where
  "prop_keys s = (\<lambda>p. (pr_type p, pr_name p, pr_column p)) ` set (properties s)"

definition same_catalog :: "schema \<Rightarrow> schema \<Rightarrow> bool" where
  "same_catalog s s' \<longleftrightarrow> types s' = types s \<and> type_parents s' = type_parents s \<and> type_labels s' = type_labels s \<and>
     prop_keys s' = prop_keys s \<and> next_type s' = next_type s"

definition quiet :: "schema \<Rightarrow> schema \<Rightarrow> bool" where
  "quiet s s' \<longleftrightarrow> same_catalog s s' \<and> grows s s'"

lemma grows_refl [simp, intro]: "grows s s"
  by (auto simp: grows_def)

lemma grows_trans [trans]: 
  assumes "grows s t" "grows t u"
  shows "grows s u"
proof (unfold grows_def, intro allI impI)
  fix n cs assume "columns_of s n = Some cs"
  with assms(1) obtain ds where "columns_of t n = Some ds" "cs \<subseteq> ds" unfolding grows_def by blast
  moreover from this(1) assms(2) obtain es where "columns_of u n = Some es" "ds \<subseteq> es" unfolding grows_def by blast
  ultimately show "\<exists>es. columns_of u n = Some es \<and> cs \<subseteq> es" by blast
qed

lemma quiet_refl [simp, intro]: "quiet s s"
  by (simp add: quiet_def same_catalog_def)

lemma quiet_trans [trans]: "quiet s t \<Longrightarrow> quiet t u \<Longrightarrow> quiet s u"
proof -
  assume a: "quiet s t" "quiet t u"
  then have "grows s u" unfolding quiet_def using grows_trans by blast
  moreover have "same_catalog s u" using a unfolding quiet_def same_catalog_def by presburger
  ultimately show ?thesis by (simp add: quiet_def)
qed

lemma columns_of_same: "tables s' = tables s \<Longrightarrow> columns_of s' = columns_of s"
  by (simp add: columns_of_def table_at_def fun_eq_iff)

lemma quiet_same_tables: "same_catalog s s' \<Longrightarrow> tables s' = tables s \<Longrightarrow> quiet s s'"
  using columns_of_same [of s' s] by (simp add: quiet_def grows_def)

lemma table_at_alter:
  assumes "alter_table t f s = Inr s'"
  shows "table_at s' u = (if u = t then map_option f (table_at s u) else table_at s u)"
proof -
  have "map_of (map (\<lambda>(n, d). (n, if n = t then f d else d)) xs) u = (if u = t then map_option f (map_of xs u) else map_of xs u)" for xs
    by (induction xs) auto
  then show ?thesis using assms by (auto simp: alter_table_def table_at_def split: option.splits)
qed

lemma alter_columns:
  assumes "alter_table t f s = Inr s'"
  shows "columns_of s' u = (if u = t then map_option (\<lambda>d. fst ` set (td_columns (f d))) (table_at s u) else columns_of s u)"
  using table_at_alter [OF assms, of u] by (simp add: columns_of_def option.map_comp o_def)

lemma same_catalog_alter: "alter_table t f s = Inr s' \<Longrightarrow> same_catalog s s'"
  by (auto simp: alter_table_def same_catalog_def prop_keys_def split: option.splits)

lemma quiet_alter:
  assumes "alter_table t f s = Inr s'" "\<And>d. fst ` set (td_columns d) \<subseteq> fst ` set (td_columns (f d))"
  shows "quiet s s'"
proof -
  have "\<exists>es. columns_of s' n = Some es \<and> cs \<subseteq> es" if "columns_of s n = Some cs" for n cs
    using that assms(2) by (auto simp: alter_columns [OF assms(1)]) (auto simp: columns_of_def)
  then show ?thesis using same_catalog_alter [OF assms(1)] by (simp add: quiet_def grows_def)
qed

lemma with_column_columns [simp]: "fst ` set (td_columns (with_column c ty d)) = insert c (fst ` set (td_columns d))"
  by (auto simp: with_column_def has_column_def)

lemma keeps_columns [simp]:
  "td_columns (with_trigger tg d) = td_columns d" "td_columns (add_index ix d) = td_columns d"
  "td_columns (required_column p d) = td_columns d" "td_columns (key_index name p d) = td_columns d"
  by (simp_all add: with_trigger_def add_index_def required_column_def key_index_def)

lemma quiet_create: "create_table t d s = Inr s' \<Longrightarrow> quiet s s'"
  by (auto simp: create_table_def quiet_def same_catalog_def prop_keys_def grows_def columns_of_def table_at_def map_add_def
      split: option.splits if_splits)

lemma quiet_view_ops [simp]:
  "quiet s (add_grants es s)" "quiet s (apply_to_table t s)" "quiet s (apply_to_view v s)" "quiet s (drop_alias_view n s)"
  "quiet s (bump_schema_version g d s)"
  by (auto intro!: quiet_same_tables simp: same_catalog_def prop_keys_def add_grants_def apply_to_table_def apply_to_view_def drop_alias_view_def
      drop_relations_def bump_schema_version_def)

lemma quiet_alias [simp]: "quiet s (ensure_alias_view n t s)"
  by (auto intro!: quiet_same_tables simp: same_catalog_def prop_keys_def ensure_alias_view_def Let_def add_grants_def apply_to_view_def drop_alias_view_def
      drop_relations_def)


lemma fold_columns:
  assumes "\<And>c d. fst ` set (td_columns d) \<subseteq> fst ` set (td_columns (f c d))"
  shows "fst ` set (td_columns d) \<subseteq> fst ` set (td_columns (fold f cs d))"
proof (induction cs arbitrary: d)
  case (Cons c cs)
  show ?case using order_trans [OF assms [of d c] Cons [of "f c d"]] by (simp only: fold_simps)
qed simp

lemma stamp_columns: "fst ` set (td_columns d) \<subseteq> fst ` set (td_columns (with_trigger tg (fold (\<lambda>(c, ty). with_column c ty) cs d)))"
  unfolding keeps_columns by (rule fold_columns) (auto split: prod.split)

lemma quiet_stamp_table: "stamp_table t s = Inr s' \<Longrightarrow> quiet s s'"
  unfolding stamp_table_def by (erule quiet_alter) (rule stamp_columns)

lemma sync_columns: "fst ` set (td_columns d) \<subseteq> fst ` set (td_columns (fold sync_column cs d))"
  by (rule fold_columns) (force simp: sync_column_def split: option.splits)

lemma quiet_sync_history: "sync_history t s = Inr s' \<Longrightarrow> quiet s s'"
  unfolding sync_history_def by (auto split: option.splits intro: quiet_alter [OF _ sync_columns])

lemma quiet_privileges: "privileges_only s s' \<Longrightarrow> quiet s s'"
  by (rule quiet_same_tables) (auto simp: privileges_only_def same_catalog_def prop_keys_def)

lemma quiet_base: "base_change role s s' \<Longrightarrow> quiet s s'"
proof -
  assume "base_change role s s'"
  then have e: "s\<lparr>acl := [], grantees := []\<rparr> = s'\<lparr>acl := [], grantees := []\<rparr>" by (simp add: base_change_def)
  show "quiet s s'"
    using arg_cong [OF e, of types] arg_cong [OF e, of type_parents] arg_cong [OF e, of type_labels] arg_cong [OF e, of properties]
      arg_cong [OF e, of next_type] arg_cong [OF e, of tables]
    by (intro quiet_same_tables) (simp_all add: same_catalog_def prop_keys_def)
qed

text \<open>A loop of quiet operations is quiet.\<close>

lemma quiet_rfold:
  assumes "\<And>x s s'. f x s = Inr s' \<Longrightarrow> quiet s s'"
  shows "rfold f xs s = Inr s' \<Longrightarrow> quiet s s'"
  by (induction xs arbitrary: s) (auto simp: rbind_eq_Inr_iff dest!: assms intro: quiet_trans)

lemma quiet_reapply: "reapply_for_role role sub s = Inr s' \<Longrightarrow> quiet s s'"
  using quiet_privileges reapply_effect(1) by blast

lemma quiet_replay: "replay_write_grants sub s = Inr s' \<Longrightarrow> quiet s s'"
  unfolding replay_write_grants_def using quiet_rfold [of "\<lambda>role. reapply_for_role role sub"] quiet_reapply by blast

lemma quiet_enable_table:
  assumes "enable_table sub s = Inr s'"
  shows "quiet s s'"
proof (cases "storage_table (cat s) sub")
  case None
  with assms show ?thesis by (simp add: enable_table_def)
next
  case (Some table)
  show ?thesis
  proof (cases "history_table table")
    case None
    with Some assms show ?thesis by (simp add: enable_table_def)
  next
    case (Some hist)
    let ?cols = "\<lambda>d. (\<lambda>d. d\<lparr>td_required := fold List.insert [''__valid'', ''__sys_from''] (td_required d)\<rparr>)
               (with_column ''__sys_from'' ''timestamptz'' (with_column ''__valid'' ''tstzrange'' d))"
    obtain t u v where t: "stamp_table table s = Inr t" and u: "alter_table table ?cols t = Inr u"
      and v: "(case table_at u hist of
               Some _ \<Rightarrow> sync_history sub u
             | None \<Rightarrow> (case table_at u table of
                 None \<Rightarrow> Inl (No_table table)
               | Some d \<Rightarrow>
                   rbind (create_table hist \<lparr>td_columns = td_columns d @ [(''__sys_to'', ''timestamptz''), (''__op'', ''text'')],
                       td_required = td_required d @ [''__sys_to'', ''__op''], 
                       td_indexes = map (unnamed_index hist) ([''id'', ''__valid''] @ (if starts_with ''og_data.e_'' table then [''src'', ''dst''] else [])),
                       td_checks = [], td_triggers = []\<rparr> u) (\<lambda>s.
                   Inr (apply_to_table hist (case temporal_owner s of None \<Rightarrow> s
                     | Some owner \<Rightarrow> add_grants [(owner, ''SELECT'', On_table hist), (owner, ''INSERT'', On_table hist)] s))))) = Inr v"
      and w: "alter_table table (with_trigger ''og_b_temporal'') v = Inr s'"
      using assms Some \<open>storage_table (cat s) sub = Some table\<close> by (auto simp: enable_table_def rbind_eq_Inr_iff)
    have "quiet s t" by (rule quiet_stamp_table [OF t])
    also have "quiet t u" by (rule quiet_alter [OF u]) auto
    also have "quiet u v"
      using v by (auto split: option.splits simp: rbind_eq_Inr_iff intro: quiet_sync_history quiet_trans [OF quiet_create]
          quiet_trans [OF quiet_create quiet_trans [OF quiet_view_ops(1)]] quiet_view_ops)
    also have "quiet v s'" by (rule quiet_alter [OF w]) simp
    finally show ?thesis .
  qed
qed

end
