(* ===== verification/Schema_Reachable.thy ===== *)
theory Schema_Reachable
  imports Schema_Invariant
begin

text \<open>
  The invariant of the type catalog, that every operation keeps it, and so that every catalog reachable
  from an empty one satisfies it: the identifiers are distinct, the labels decide subtyping in every graph,
  and every stored type has a row for each property of the types above it and a column for each of its rows.
\<close>

section \<open>The invariant\<close>

definition stored_as :: "type_row \<Rightarrow> string option" where
  "stored_as r = (if tr_abstract r \<or> tr_kind r = CHR ''a'' then None
     else Some (if tr_kind r = CHR ''e'' then node_table (tr_id r) else edge_table (tr_id r)))"

definition has_col :: "schema \<Rightarrow> string \<Rightarrow> string \<Rightarrow> bool" where
  "has_col s table c \<longleftrightarrow> (\<exists>cs. columns_of s table = Some cs \<and> c \<in> cs)"

definition row_ok :: "schema \<Rightarrow> type_row \<Rightarrow> bool" where
  "row_ok s r \<longleftrightarrow> tr_storage r = stored_as r \<and>
     (\<forall>table. tr_storage r = Some table \<longrightarrow>
        columns_of s table \<noteq> None \<and>
        (\<forall>n c. (tr_id r, n, c) \<in> prop_keys s \<longrightarrow> has_col s table c) \<and>
        (\<forall>a n c. inherits s (tr_id r) a \<longrightarrow> (a, n, c) \<in> prop_keys s \<longrightarrow> (\<exists>d. (tr_id r, n, d) \<in> prop_keys s)))"

definition rows_typed :: "schema \<Rightarrow> bool" where
  "rows_typed s \<longleftrightarrow> fst ` prop_keys s \<subseteq> tr_id ` set (types s)"

definition catalog_core :: "schema \<Rightarrow> bool" where
  "catalog_core s \<longleftrightarrow> ids_ok s \<and> parents_ok s \<and> labels_typed s \<and> rows_typed s \<and> (\<forall>r \<in> set (types s). row_ok s r)"

definition catalog_ok :: "schema \<Rightarrow> bool" where
  "catalog_ok s \<longleftrightarrow> catalog_core s \<and> (\<forall>g. labels_ok s g)"

section \<open>Operations that add columns and rows\<close>

definition adds :: "i32 set \<Rightarrow> schema \<Rightarrow> schema \<Rightarrow> bool" where
  "adds T s s' \<longleftrightarrow> types s' = types s \<and> type_parents s' = type_parents s \<and> type_labels s' = type_labels s \<and>
     next_type s' = next_type s \<and> grows s s' \<and> prop_keys s \<subseteq> prop_keys s' \<and>
     (\<forall>t n c. (t, n, c) \<in> prop_keys s' \<longrightarrow> (t, n, c) \<in> prop_keys s \<or>
        t \<in> T \<and> (\<forall>table. storage_table (cat s) t = Some table \<longrightarrow> has_col s' table c))"

lemma has_col_grows: "grows s s' \<Longrightarrow> has_col s table c \<Longrightarrow> has_col s' table c"
  unfolding grows_def has_col_def by blast

lemma quiet_adds: "quiet s s' \<Longrightarrow> adds T s s'"
  by (simp add: quiet_def adds_def same_catalog_def)

lemma storage_same: "types s' = types s \<Longrightarrow> storage_table (cat s') = storage_table (cat s)"
  by (simp add: storage_table_def type_at_def fun_eq_iff)

lemma adds_trans [trans]:
  assumes "adds T s t" "adds T t u"
  shows "adds T s u"
proof -
  have st: "storage_table (cat t) = storage_table (cat s)" using assms(1) by (intro storage_same) (simp add: adds_def)
  have g: "grows s u" using assms grows_trans unfolding adds_def by blast
  have "(i, n, c) \<in> prop_keys s \<or> i \<in> T \<and> (\<forall>table. storage_table (cat s) i = Some table \<longrightarrow> has_col u table c)"
    if k: "(i, n, c) \<in> prop_keys u" for i n c
  proof (cases "(i, n, c) \<in> prop_keys t")
    case True
    with assms(1) show ?thesis using has_col_grows [of t u] assms(2) unfolding adds_def by blast
  next
    case False
    with k assms(2) show ?thesis unfolding adds_def st by blast
  qed
  moreover have "prop_keys s \<subseteq> prop_keys u" using assms unfolding adds_def by blast
  ultimately show ?thesis using assms g by (simp add: adds_def)
qed

lemma rfold_keeps:
  assumes "rfold f xs s = Inr s'" "P s" "\<And>x v v'. P v \<Longrightarrow> f x v = Inr v' \<Longrightarrow> P v'"
  shows "P s'"
  using assms by (induction xs arbitrary: s) (auto simp: rbind_eq_Inr_iff)

lemma adds_rfold:
  assumes step: "\<And>x s s'. x \<in> set xs \<Longrightarrow> f x s = Inr s' \<Longrightarrow> Q s \<Longrightarrow> adds T s s' \<and> R x s'"
    and keep: "\<And>s s'. adds T s s' \<Longrightarrow> Q s \<Longrightarrow> Q s'" "\<And>x s s'. adds T s s' \<Longrightarrow> R x s \<Longrightarrow> R x s'"
  shows "rfold f xs s = Inr s' \<Longrightarrow> Q s \<Longrightarrow> adds T s s' \<and> (\<forall>x \<in> set xs. R x s')"
  using step
proof (induction xs arbitrary: s)
  case Nil
  then show ?case by (simp add: quiet_adds)
next
  case (Cons x xs)
  then obtain t where t: "f x s = Inr t" "rfold f xs t = Inr s'" by (auto simp: rbind_eq_Inr_iff)
  have 1: "adds T s t \<and> R x t" using t(1) Cons.prems(2) by (intro Cons.prems(3)) auto
  then have "Q t" using keep(1) Cons.prems(2) by blast
  then have 2: "adds T t s' \<and> (\<forall>x \<in> set xs. R x s')" using t(2) Cons.prems(3) by (intro Cons.IH) auto
  with 1 have "adds T s s'" using adds_trans by blast
  with 1 2 show ?case using keep(2) by auto
qed

lemma type_at_row: "distinct (map tr_id (types s)) \<Longrightarrow> r \<in> set (types s) \<Longrightarrow> type_at (cat s) (tr_id r) = Some r"
proof -
  have "distinct (map tr_id rs) \<Longrightarrow> r \<in> set rs \<Longrightarrow> find (\<lambda>q. tr_id q = tr_id r) rs = Some r" for rs
    by (induction rs) force+
  then show "distinct (map tr_id (types s)) \<Longrightarrow> r \<in> set (types s) \<Longrightarrow> ?thesis" by (simp add: type_at_def)
qed

lemma storage_row: "distinct (map tr_id (types s)) \<Longrightarrow> r \<in> set (types s) \<Longrightarrow> storage_table (cat s) (tr_id r) = tr_storage r"
  by (simp add: storage_table_def type_at_row)

lemma storage_type: "storage_table (cat s) t = Some table \<Longrightarrow> \<exists>r \<in> set (types s). tr_id r = t \<and> tr_storage r = Some table"
  by (auto simp: storage_table_def type_at_def bind_eq_Some_conv find_Some_iff)

text \<open>What only adds keeps the structure, and the rows of a type that inherits nothing new.\<close>

lemma adds_structure:
  assumes "adds T s s'"
  shows "link_rows s' = link_rows s" "inherits s' = inherits s" "ids_ok s' = ids_ok s" "parents_ok s' = parents_ok s"
    "labels_typed s' = labels_typed s" "labels_ok s' = labels_ok s"
proof -
  have "is_parent s' = is_parent s" using assms by (simp add: adds_def is_parent_def fun_eq_iff)
  then show "inherits s' = inherits s" by simp
qed (use assms in \<open>simp_all add: adds_def link_rows_def ids_ok_def parents_ok_def labels_typed_def labels_ok_def fun_eq_iff\<close>)

lemma adds_row_ok:
  assumes "adds T s s'" "row_ok s r" "r \<in> set (types s)" "distinct (map tr_id (types s))"
    and new: "\<And>table a n c. tr_storage r = Some table \<Longrightarrow> inherits s (tr_id r) a \<Longrightarrow> (a, n, c) \<in> prop_keys s' \<Longrightarrow>
       (a, n, c) \<notin> prop_keys s \<Longrightarrow> \<exists>d. (tr_id r, n, d) \<in> prop_keys s'"
  shows "row_ok s' r"
proof -
  have g: "grows s s'" and k: "prop_keys s \<subseteq> prop_keys s'" using assms(1) by (simp_all add: adds_def)
  have "columns_of s' table \<noteq> None" if "tr_storage r = Some table" for table
    using that assms(2) g unfolding row_ok_def grows_def by blast
  moreover have "has_col s' table c" if "tr_storage r = Some table" "(tr_id r, n, c) \<in> prop_keys s'" for table n c
  proof (cases "(tr_id r, n, c) \<in> prop_keys s")
    case True
    with that assms(2) have "has_col s table c" unfolding row_ok_def by blast
    then show ?thesis by (rule has_col_grows [OF g])
  next
    case False
    then show ?thesis using that assms(1) storage_row [OF assms(4,3)] unfolding adds_def by metis
  qed
  moreover have "\<exists>d. (tr_id r, n, d) \<in> prop_keys s'"
    if "tr_storage r = Some table" "inherits s (tr_id r) a" "(a, n, c) \<in> prop_keys s'" for table a n c
  proof (cases "(a, n, c) \<in> prop_keys s")
    case True
    with that assms(2) have "\<exists>d. (tr_id r, n, d) \<in> prop_keys s" unfolding row_ok_def by blast
    with k show ?thesis by blast
  qed (use new that in blast)
  ultimately show ?thesis using assms(2) unfolding row_ok_def adds_structure(2) [OF assms(1)] by blast
qed

lemma quiet_catalog_ok:
  assumes "quiet s s'"
  shows "catalog_core s \<Longrightarrow> catalog_core s'" "catalog_ok s \<Longrightarrow> catalog_ok s'"
proof -
  note a = quiet_adds [OF assms, of "{}"]
  have ty: "types s' = types s" and k: "prop_keys s' = prop_keys s" using assms by (simp_all add: quiet_def same_catalog_def)
  show core: "catalog_core s'" if c: "catalog_core s"
  proof -
    have d: "distinct (map tr_id (types s))" using c by (simp add: catalog_core_def ids_ok_def)
    have "row_ok s' r" if "r \<in> set (types s)" for r
      using that c by (intro adds_row_ok [OF a _ that d]) (auto simp: catalog_core_def k)
    with c show ?thesis by (simp add: catalog_core_def adds_structure [OF a] rows_typed_def ty k)
  qed
  show "catalog_ok s \<Longrightarrow> catalog_ok s'" using core by (simp add: catalog_ok_def adds_structure [OF a])
qed

section \<open>Ancestors by climbing\<close>

lemma climb_sound:
  assumes "\<And>c p. (c, p) \<in> set links \<Longrightarrow> c \<in> S \<Longrightarrow> p \<in> S"
  shows "set found \<subseteq> S \<Longrightarrow> set (climb links n found) \<subseteq> S"
  using assms
proof (induction links n found rule: climb.induct)
  case (2 links n found)
  have "snd ` {x \<in> set links. case x of (c, p) \<Rightarrow> c \<in> set found \<and> p \<notin> set found} \<subseteq> S"
    using 2(2,3) by (auto; blast)
  with 2 show ?case by (simp add: Let_def)
qed simp

lemma climb_complete:
  "card (snd ` set links - set found) \<le> n \<Longrightarrow> set found \<subseteq> set (climb links n found) \<and>
     (\<forall>(c, p) \<in> set links. c \<in> set (climb links n found) \<longrightarrow> p \<in> set (climb links n found))"
proof (induction links n found rule: climb.induct)
  case (1 links found)
  then show ?case by (auto simp: image_subset_iff card_eq_0_iff)
next
  case (2 links n found)
  let ?up = "remdups (map snd (filter (\<lambda>(c, p). c \<in> set found \<and> p \<notin> set found) links))"
  show ?case
  proof (cases "?up = []")
    case True
    then show ?thesis by (auto simp: filter_empty_conv)
  next
    case False
    then obtain c p where "(c, p) \<in> set links" "c \<in> set found" "p \<notin> set found" by (auto simp: filter_empty_conv)
    then have "p \<in> snd ` set links - set found" "p \<in> set ?up" by force+
    then have less: "snd ` set links - set (found @ ?up) \<subset> snd ` set links - set found" unfolding set_append by blast
    have "card (snd ` set links - set (found @ ?up)) < card (snd ` set links - set found)"
      by (rule psubset_card_mono [OF _ less]) simp
    with 2(2) have "card (snd ` set links - set (found @ ?up)) \<le> n" by linarith
    with 2(1) [OF refl False] show ?thesis using False by auto
  qed
qed

lemma ancestry_inherits: "set (ancestry s t) = {a. inherits s t a}"
proof
  show "set (ancestry s t) \<subseteq> {a. inherits s t a}"
    unfolding ancestry_def by (rule climb_sound) (auto simp: is_parent_def intro: rtranclp.rtrancl_into_rtrancl)
  have "card (snd ` set (type_parents s) - set [t]) \<le> length (type_parents s)"
    by (rule order_trans [OF card_mono [of "snd ` set (type_parents s)"]]) (auto intro: order_trans [OF card_image_le card_length])
  from climb_complete [OF this] have c: "t \<in> set (ancestry s t)"
    "\<And>c p. (c, p) \<in> set (type_parents s) \<Longrightarrow> c \<in> set (ancestry s t) \<Longrightarrow> p \<in> set (ancestry s t)"
    by (auto simp: ancestry_def)
  have "a \<in> set (ancestry s t)" if "inherits s t a" for a
    using that by (induction rule: rtranclp_induct) (auto simp: is_parent_def c)
  then show "{a. inherits s t a} \<subseteq> set (ancestry s t)" by blast
qed

section \<open>Creating a type\<close>

lemma insert_property_adds:
  assumes "\<And>table. storage_table (cat s) (pr_type p) = Some table \<Longrightarrow> has_col s table (pr_column p)"
  shows "adds {pr_type p} s (insert_property p s)" "\<exists>d. (pr_type p, pr_name p, d) \<in> prop_keys (insert_property p s)"
proof -
  have "columns_of (insert_property p s) = columns_of s" by (intro columns_of_same) (simp add: insert_property_def)
  then have "grows s (insert_property p s)" "\<And>table c. has_col (insert_property p s) table c = has_col s table c"
    by (auto simp: grows_def has_col_def)
  then show "adds {pr_type p} s (insert_property p s)" using assms by (auto simp: adds_def insert_property_def prop_keys_def)
  show "\<exists>d. (pr_type p, pr_name p, d) \<in> prop_keys (insert_property p s)"
  proof (cases "\<exists>q \<in> set (properties s). pr_type q = pr_type p \<and> pr_name q = pr_name p")
    case True
    then obtain q where "q \<in> set (properties s)" "pr_type q = pr_type p" "pr_name q = pr_name p" by blast
    with True have "(pr_type p, pr_name p, pr_column q) \<in> prop_keys (insert_property p s)"
      unfolding prop_keys_def by (intro image_eqI [of _ _ q]) (simp_all add: insert_property_def list_ex_iff)
    then show ?thesis ..
  qed (auto simp: insert_property_def list_ex_iff prop_keys_def)
qed

lemma alter_has_col:
  assumes "alter_table table f s = Inr s'" "\<And>d. c \<in> fst ` set (td_columns (f d))"
  shows "has_col s' table c"
proof -
  obtain d where "table_at s table = Some d" using assms(1) by (auto simp: alter_table_def split: option.splits)
  with alter_columns [OF assms(1), of table] assms(2) [of d] show ?thesis by (simp add: has_col_def)
qed

lemma copy_property_effect:
  assumes "copy_property child table p s = Inr s'" "storage_table (cat s) child = Some table"
  shows "adds {child} s s'" "\<exists>d. (child, pr_name p, d) \<in> prop_keys s'"
proof -
  obtain u where u: "alter_table table (\<lambda>d. key_index (xd_name (unnamed_index table (pr_column p))) p
       (required_column p (with_column (pr_column p) (pr_dtype p) d))) s = Inr u"
    and s': "s' = insert_property (p\<lparr>pr_type := child\<rparr>) u"
    using assms(1) by (auto simp: copy_property_def rbind_eq_Inr_iff)
  have q: "quiet s u" by (rule quiet_alter [OF u]) auto
  then have "storage_table (cat u) = storage_table (cat s)" by (intro storage_same) (simp add: quiet_def same_catalog_def)
  moreover have "has_col u table (pr_column p)" by (rule alter_has_col [OF u]) simp
  ultimately have "has_col u t (pr_column p)" if "storage_table (cat u) child = Some t" for t
    using that assms(2) by simp
  with insert_property_adds [of u "p\<lparr>pr_type := child\<rparr>"] have "adds {child} u s'" "\<exists>d. (child, pr_name p, d) \<in> prop_keys s'"
    by (auto simp: s')
  then show "adds {child} s s'" "\<exists>d. (child, pr_name p, d) \<in> prop_keys s'"
    using adds_trans [OF quiet_adds [OF q]] by auto
qed

lemma has_row_adds: "adds T s s' \<Longrightarrow> \<exists>d. (t, n, d) \<in> prop_keys s \<Longrightarrow> \<exists>d. (t, n, d) \<in> prop_keys s'"
  unfolding adds_def by blast

lemma storage_adds: "adds T s s' \<Longrightarrow> storage_table (cat s') = storage_table (cat s)"
  by (rule storage_same) (simp add: adds_def)

lemma copy_inherited_effect:
  assumes "copy_inherited_properties parent child table s = Inr s'" "storage_table (cat s) child = Some table"
  shows "adds {child} s s' \<and> (\<forall>a n c. inherits s parent a \<longrightarrow> (a, n, c) \<in> prop_keys s \<longrightarrow> (\<exists>d. (child, n, d) \<in> prop_keys s'))"
proof -
  let ?ps = "filter (\<lambda>p. pr_type p \<in> set (ancestry s parent)) (properties s)"
  have "adds {child} s s' \<and> (\<forall>p \<in> set ?ps. \<exists>d. (child, pr_name p, d) \<in> prop_keys s')"
    by (rule adds_rfold [where Q = "\<lambda>s. storage_table (cat s) child = Some table", OF _ _ _ assms(1) [unfolded copy_inherited_properties_def] assms(2)])
      (auto simp: copy_property_effect has_row_adds storage_adds)
  then show ?thesis by (fastforce simp: ancestry_inherits prop_keys_def)
qed

text \<open>A new type is added below existing ones: nothing about the other types changes.\<close>

definition fresh_type :: "schema \<Rightarrow> i32 \<Rightarrow> bool" where
  "fresh_type s t \<longleftrightarrow> t \<notin> tr_id ` set (types s)"

lemma next_type_fresh: "ids_ok s \<Longrightarrow> next_type s \<le> MAX_SEQUENCE \<Longrightarrow> fresh_type s (of_nat (next_type s))"
proof -
  assume ids: "ids_ok s" and le: "next_type s \<le> MAX_SEQUENCE"
  have "(of_nat (next_type s) :: i32) \<noteq> of_nat n" if "n < next_type s" for n
  proof
    assume e: "(of_nat (next_type s) :: i32) = of_nat n"
    have "unat (of_nat (next_type s) :: i32) = next_type s" "unat (of_nat n :: i32) = n"
      using that le by (simp_all add: unat_of_nat MAX_SEQUENCE_def)
    with e that show False by simp
  qed
  with ids show ?thesis by (fastforce simp: fresh_type_def ids_ok_def)
qed

lemma links_typed:
  assumes "parents_ok s" "(c, p) \<in> set (type_parents s)"
  shows "c \<in> tr_id ` set (types s)" "p \<in> tr_id ` set (types s)"
  using assms by (fastforce simp: parents_ok_def link_rows_def)+

lemma inherits_new_link:
  assumes "parents_ok s" "fresh_type s t" "type_parents s' = type_parents s @ map (Pair t) pids" "c \<noteq> t"
  shows "inherits s' c a \<longleftrightarrow> inherits s c a"
proof
  have up: "is_parent s' x y \<longleftrightarrow> is_parent s x y \<or> (x = t \<and> y \<in> set pids)" for x y
    by (auto simp: is_parent_def assms(3))
  show "inherits s c a \<Longrightarrow> inherits s' c a"
    by (rule rtranclp_mono [THEN predicate2D, rotated]) (auto simp: up)
  assume "inherits s' c a"
  then have "inherits s c a \<and> a \<noteq> t"
  proof (induction rule: rtranclp_induct)
    case (step b d)
    then have "is_parent s b d" by (simp add: up)
    moreover from this have "d \<noteq> t" using links_typed(2) [OF assms(1)] assms(2) by (auto simp: is_parent_def fresh_type_def)
    ultimately show ?case using step by (auto intro: rtranclp.rtrancl_into_rtrancl)
  qed (use assms(4) in simp)
  then show "inherits s c a" ..
qed

lemma load_dag_cong:
  assumes "graph_types rows' g = graph_types rows g"
    "filter (\<lambda>(c, p). c \<in> set (graph_types rows g)) links' = filter (\<lambda>(c, p). c \<in> set (graph_types rows g)) links"
  shows "load_dag rows' links' g = load_dag rows links g"
proof -
  have "[(c, p). (c, p) \<leftarrow> ls, c \<in> A] = filter (\<lambda>(c, p). c \<in> A) ls" for ls :: "(i32 \<times> i32) list" and A
    by (induction ls) auto
  with assms show ?thesis by (simp add: load_dag_alt)
qed

text \<open>The catalog while a type is created: every graph but its own is labelled, every row but its own is in order.\<close>

lemma insert_type_effect:
  assumes "insert_type gid name k abstract pids s = Inr (t, s')" "catalog_ok s"
    and par: "\<forall>p \<in> set pids. (p, gid) \<in> set (link_rows s)"
  shows "fresh_type s t" "ids_ok s'" "parents_ok s'" "labels_typed s'" "rows_typed s'" "prop_keys s' = prop_keys s" "columns_of s' = columns_of s"
    "\<And>h. h \<noteq> gid \<Longrightarrow> labels_ok s' h" "\<And>r. r \<in> set (types s) \<Longrightarrow> row_ok s' r"
    "types s' = types s @ [\<lparr>tr_id = t, tr_graph = gid, tr_name = name, tr_kind = k, tr_abstract = abstract, tr_storage = None\<rparr>]"
    "type_parents s' = type_parents s @ map (Pair t) pids"
proof -
  let ?row = "\<lparr>tr_id = t, tr_graph = gid, tr_name = name, tr_kind = k, tr_abstract = abstract, tr_storage = None\<rparr>"
  have t: "t = of_nat (next_type s)" "next_type s \<le> MAX_SEQUENCE" and
    s': "s' = s\<lparr>types := types s @ [?row], type_parents := type_parents s @ map (Pair t) pids, next_type := next_type s + 1\<rparr>"
    using assms(1) by (auto simp: insert_type_def Let_def split: if_splits)
  have ids: "ids_ok s" and par': "parents_ok s" and ty: "labels_typed s" "rows_typed s" and rows: "\<And>r. r \<in> set (types s) \<Longrightarrow> row_ok s r"
    and labels: "\<And>h. labels_ok s h"
    using assms(2) by (simp_all add: catalog_ok_def catalog_core_def)
  show fresh: "fresh_type s t" using next_type_fresh ids t by simp
  show tys: "types s' = types s @ [?row]" and ps: "type_parents s' = type_parents s @ map (Pair t) pids" by (simp_all add: s')
  show keys: "prop_keys s' = prop_keys s" and cols: "columns_of s' = columns_of s"
    by (simp_all add: s' prop_keys_def columns_of_def table_at_def fun_eq_iff)
  have links: "link_rows s' = link_rows s @ [(t, gid)]" by (simp add: link_rows_def s')
  have "\<exists>n < next_type s'. tr_id r = of_nat n" if "r \<in> set (types s')" for r
  proof (cases "r \<in> set (types s)")
    case True
    then obtain n where "n < next_type s" "tr_id r = of_nat n" using ids by (auto simp: ids_ok_def)
    then show ?thesis by (intro exI [of _ n]) (simp add: s')
  next
    case False
    with that show ?thesis by (intro exI [of _ "next_type s"]) (simp add: s' t(1))
  qed
  then show "ids_ok s'" using ids fresh t unfolding ids_ok_def tys by (auto simp: s' fresh_type_def)
  show "parents_ok s'" using par' par by (fastforce simp: parents_ok_def links ps)
  have "type_labels s' = type_labels s" by (simp add: s')
  with ty show "labels_typed s'" unfolding labels_typed_def links by auto
  show "rows_typed s'" using ty by (auto simp: rows_typed_def keys tys)
  show "labels_ok s' h" if "h \<noteq> gid" for h
  proof -
    have gt: "graph_types (link_rows s') h = graph_types (link_rows s) h" using that by (simp add: graph_types_def links)
    have "t \<notin> set (graph_types (link_rows s) h)" using fresh by (auto simp: graph_types_iff link_rows_def fresh_type_def)
    then have "load_dag (link_rows s') (type_parents s') h = load_dag (link_rows s) (type_parents s) h"
      by (intro load_dag_cong gt) (auto simp: ps filter_empty_conv)
    with labels [of h] gt show ?thesis by (simp add: labels_ok_def s')
  qed
  show "row_ok s' r" if "r \<in> set (types s)" for r
  proof -
    have "tr_id r \<noteq> t" using that fresh by (auto simp: fresh_type_def)
    then have "inherits s' (tr_id r) a = inherits s (tr_id r) a" for a by (rule inherits_new_link [OF par' fresh ps])
    with rows [OF that] show ?thesis by (simp add: row_ok_def keys has_col_def cols)
  qed
qed

lemma set_storage_other: "r \<in> set (types s) \<Longrightarrow> tr_id r \<noteq> t \<Longrightarrow> r \<in> set (types (set_storage t table s))"
  by (force simp: set_storage_def)

lemma set_storage_same:
  "link_rows (set_storage t table s) = link_rows s" "type_parents (set_storage t table s) = type_parents s"
  "type_labels (set_storage t table s) = type_labels s" "prop_keys (set_storage t table s) = prop_keys s"
  "columns_of (set_storage t table s) = columns_of s" "next_type (set_storage t table s) = next_type s"
  "map tr_id (types (set_storage t table s)) = map tr_id (types s)"
  by (auto simp: set_storage_def link_rows_def prop_keys_def columns_of_def table_at_def fun_eq_iff)

lemma set_storage_at:
  assumes "t \<in> tr_id ` set (types s)"
  shows "storage_table (cat (set_storage t table s)) t = Some table"
proof -
  have "t \<in> tr_id ` set rs \<Longrightarrow>
      Option.bind (find (\<lambda>r. tr_id r = t) (map (\<lambda>r. if tr_id r = t then r\<lparr>tr_storage := Some table\<rparr> else r) rs)) tr_storage = Some table" for rs
    by (induction rs) auto
  from this [OF assms] show ?thesis by (simp add: storage_table_def type_at_def set_storage_def)
qed

lemma create_storage_effect:
  assumes "create_storage t name k pids s = Inr s'" "t \<in> tr_id ` set (types s)"
  obtains u where "quiet s u" "columns_of u (if k = CHR ''e'' then node_table t else edge_table t) \<noteq> None"
    "adds {t} (set_storage t (if k = CHR ''e'' then node_table t else edge_table t) u) s'"
    "\<And>pid a n c. pid \<in> set pids \<Longrightarrow> inherits s pid a \<Longrightarrow> (a, n, c) \<in> prop_keys s \<Longrightarrow> \<exists>d. (t, n, d) \<in> prop_keys s'"
proof -
  let ?table = "if k = CHR ''e'' then node_table t else edge_table t"
  obtain v u where v: "create_table ?table (base_table ?table k) s = Inr v"
    and u: "(if k = CHR ''r'' then alter_table ?table (add_index (unnamed_index ?table ''dst'') \<circ> add_index (unnamed_index ?table ''src'')) (ensure_alias_view name ?table (apply_to_table ?table v))
        else Inr (ensure_alias_view name ?table (apply_to_table ?table v))) = Inr u"
    and s': "rfold (\<lambda>pid. copy_inherited_properties pid t ?table) pids (set_storage t ?table u) = Inr s'"
    using assms(1) by (auto simp: create_storage_def Let_def rbind_eq_Inr_iff)
  let ?w = "ensure_alias_view name ?table (apply_to_table ?table v)"
  have "quiet s v" by (rule quiet_create [OF v])
  moreover have vw: "quiet v ?w" using quiet_trans [OF quiet_view_ops(2) quiet_alias] .
  moreover have wu: "quiet ?w u" using u by (auto split: if_splits intro!: quiet_alter)
  ultimately have q: "quiet s u" using quiet_trans by blast
  have "columns_of v ?table \<noteq> None"
    using v by (auto simp: create_table_def columns_of_def table_at_def map_add_def split: option.splits)
  with quiet_trans [OF vw wu] have c: "columns_of u ?table \<noteq> None" by (auto simp only: quiet_def grows_def) blast+
  let ?u = "set_storage t ?table u"
  have "types u = types s" using q by (simp add: quiet_def same_catalog_def)
  with assms(2) have st: "storage_table (cat ?u) t = Some ?table" by (intro set_storage_at) simp
  have inh: "is_parent ?u = is_parent s" and keys: "prop_keys ?u = prop_keys s"
    using q by (simp_all add: set_storage_same is_parent_def fun_eq_iff quiet_def same_catalog_def)
  have "adds {t} ?u s' \<and> (\<forall>pid \<in> set pids. \<forall>a n c. inherits s pid a \<longrightarrow> (a, n, c) \<in> prop_keys s \<longrightarrow> (\<exists>d. (t, n, d) \<in> prop_keys s'))"
  proof (rule adds_rfold [where Q = "\<lambda>v. storage_table (cat v) t = Some ?table \<and> is_parent v = is_parent s \<and> prop_keys s \<subseteq> prop_keys v", OF _ _ _ s'])
    show "storage_table (cat ?u) t = Some ?table \<and> is_parent ?u = is_parent s \<and> prop_keys s \<subseteq> prop_keys ?u" using st inh keys by simp
  next
    fix pid v v' assume "copy_inherited_properties pid t ?table v = Inr v'"
      "storage_table (cat v) t = Some ?table \<and> is_parent v = is_parent s \<and> prop_keys s \<subseteq> prop_keys v"
    with copy_inherited_effect [of pid t ?table v v']
    show "adds {t} v v' \<and> (\<forall>a n c. inherits s pid a \<longrightarrow> (a, n, c) \<in> prop_keys s \<longrightarrow> (\<exists>d. (t, n, d) \<in> prop_keys v'))"
      by (simp add: subset_iff) blast
  next
    fix v v' assume a: "adds {t} v v'" "storage_table (cat v) t = Some ?table \<and> is_parent v = is_parent s \<and> prop_keys s \<subseteq> prop_keys v"
    then show "storage_table (cat v') t = Some ?table \<and> is_parent v' = is_parent s \<and> prop_keys s \<subseteq> prop_keys v'"
      using storage_adds [OF a(1)] by (auto simp: adds_def is_parent_def fun_eq_iff)
  next
    fix pid v v' assume "adds {t} v v'" "\<forall>a n c. inherits s pid a \<longrightarrow> (a, n, c) \<in> prop_keys s \<longrightarrow> (\<exists>d. (t, n, d) \<in> prop_keys v)"
    then show "\<forall>a n c. inherits s pid a \<longrightarrow> (a, n, c) \<in> prop_keys s \<longrightarrow> (\<exists>d. (t, n, d) \<in> prop_keys v')"
      using has_row_adds by blast
  qed
  then show thesis using that [OF q c] by blast
qed

lemma relabel_catalog:
  assumes "relabel g s = Inr s'" "catalog_core s" "\<forall>h. h \<noteq> g \<longrightarrow> labels_ok s h"
  shows "catalog_ok s'"
proof -
  have d: "distinct (map tr_id (types s))" "labels_typed s" using assms(2) by (simp_all add: catalog_core_def ids_ok_def)
  from relabel_effect [OF assms(1) d assms(3)] obtain ls vs where
    l: "\<forall>h. labels_ok s' h" "labels_typed s'" and s': "s' = s\<lparr>type_labels := ls, versions := vs\<rparr>" by blast
  have "is_parent s' = is_parent s" "columns_of s' = columns_of s" "prop_keys s' = prop_keys s" "link_rows s' = link_rows s"
    by (simp_all add: s' is_parent_def columns_of_def table_at_def prop_keys_def link_rows_def fun_eq_iff)
  then have "catalog_core s'"
    using assms(2) l by (simp add: catalog_core_def ids_ok_def parents_ok_def rows_typed_def row_ok_def has_col_def) (simp add: s')
  with l show ?thesis by (simp add: catalog_ok_def)
qed

lemma quiet_trigger: "alter_table t (with_trigger tg) s = Inr s' \<Longrightarrow> quiet s s'"
  by (erule quiet_alter) simp

lemma quiet_inherit_settings: "inherit_settings graph t s = Inr s' \<Longrightarrow> quiet s s'"
proof -
  have h: "inherit_history_capture graph t s = Inr s' \<Longrightarrow> quiet s s'" for s s'
    by (auto simp: inherit_history_capture_def split: if_splits option.splits dest: quiet_trigger)
  show "inherit_settings graph t s = Inr s' \<Longrightarrow> quiet s s'"
    by (auto simp: inherit_settings_def rbind_eq_Inr_iff split: if_splits option.splits
        dest!: quiet_stamp_table quiet_enable_table h quiet_replay intro: quiet_trans)
qed

lemma type_id_row:
  assumes "type_id s gid n = Inr t"
  obtains r where "r \<in> set (types s)" "tr_id r = t" "tr_graph r = gid" "(t, gid) \<in> set (link_rows s)"
proof -
  from assms obtain r where "find (\<lambda>r. tr_graph r = gid \<and> tr_name r = n) (types s) = Some r" "tr_id r = t"
    by (auto simp: type_id_def try_type_id_def split: option.splits)
  then have "r \<in> set (types s)" "tr_id r = t" "tr_graph r = gid" by (auto simp: find_Some_iff)
  then show thesis using that by (force simp: link_rows_def)
qed

lemma parent_ids:
  "rmap (parent_id s gid name kind k) supers = Inr pids \<Longrightarrow> \<forall>p \<in> set pids. (p, gid) \<in> set (link_rows s)"
proof (induction supers arbitrary: pids)
  case (Cons n ns)
  have "(p, gid) \<in> set (link_rows s)" if q: "parent_id s gid name kind k n = Inr p" for p
  proof -
    obtain a where a: "type_id s gid n = Inr a" using q by (auto simp: parent_id_def rbind_eq_Inr_iff)
    with q have "p = a" by (auto simp: parent_id_def split: sum.splits if_splits)
    with a show ?thesis by (auto elim: type_id_row)
  qed
  with Cons show ?case by (auto simp: rbind_eq_Inr_iff)
qed simp

lemma kind_letters: "kind_letter kind = Inr k \<Longrightarrow> k \<in> {CHR ''e'', CHR ''r'', CHR ''a''}"
  by (auto simp: kind_letter_def Let_def split: if_splits)

lemma adds_row_outside:
  assumes "adds T s s'" "row_ok s r" "r \<in> set (types s)" "distinct (map tr_id (types s))" "\<And>t. t \<in> T \<Longrightarrow> \<not> inherits s (tr_id r) t"
  shows "row_ok s' r"
proof (rule adds_row_ok [OF assms(1-4)])
  fix a n c assume a: "inherits s (tr_id r) a" "(a, n, c) \<in> prop_keys s'" "(a, n, c) \<notin> prop_keys s"
  then have "a \<in> T" using assms(1) unfolding adds_def by blast
  with a assms(5) show "\<exists>d. (tr_id r, n, d) \<in> prop_keys s'" by blast
qed

lemma create_storage_ok:
  assumes op: "create_storage t name k pids s = Inr s'" and k: "k \<noteq> CHR ''a''"
    and tys: "types s = rs @ [\<lparr>tr_id = t, tr_graph = gid, tr_name = name, tr_kind = k, tr_abstract = False, tr_storage = None\<rparr>]"
    and ok: "ids_ok s" "parents_ok s" "labels_typed s" "rows_typed s" and rows: "\<And>r. r \<in> set rs \<Longrightarrow> row_ok s r"
    and fresh: "t \<notin> tr_id ` set rs" "\<And>n c. (t, n, c) \<notin> prop_keys s"
    and links: "\<And>c. \<not> is_parent s c t" "\<And>p. is_parent s t p \<Longrightarrow> p \<in> set pids"
  shows "catalog_core s' \<and> labels_ok s' = labels_ok s"
proof -
  let ?row = "\<lparr>tr_id = t, tr_graph = gid, tr_name = name, tr_kind = k, tr_abstract = False, tr_storage = None\<rparr>"
  define table where "table = (if k = CHR ''e'' then node_table t else edge_table t)"
  have d: "distinct (map tr_id (types s))" using ok(1) by (simp add: ids_ok_def)
  have "t \<in> tr_id ` set (types s)" by (simp add: tys)
  from create_storage_effect [OF op this, folded table_def] obtain u where u: "quiet s u" "columns_of u table \<noteq> None"
    "adds {t} (set_storage t table u) s'"
    "\<And>pid a n c. pid \<in> set pids \<Longrightarrow> inherits s pid a \<Longrightarrow> (a, n, c) \<in> prop_keys s \<Longrightarrow> \<exists>d. (t, n, d) \<in> prop_keys s'"
    by metis
  define v where "v = set_storage t table u"
  note uv = set_storage_same [of t table u, folded v_def]
  have q: "types u = types s" "type_parents u = type_parents s" "type_labels u = type_labels s" "prop_keys u = prop_keys s" "next_type u = next_type s"
    using u(1) by (simp_all add: quiet_def same_catalog_def)
  have par: "is_parent v = is_parent s" by (simp add: is_parent_def uv q fun_eq_iff)
  have "link_rows u = link_rows s" using q(1) by (simp add: link_rows_def)
  then have lr: "link_rows v = link_rows s" by (simp only: uv)
  have dv: "distinct (map tr_id (types v))" using d by (simp add: uv q)
  have av: "adds {t} v s'" using u(3) by (simp add: v_def)
  note s' = adds_structure [OF av]
  have tys': "types s' = types v" using av by (simp add: adds_def)
  have up: "c = t" if "inherits s c t" for c
    using that by (cases rule: rtranclp.cases) (use links(1) in auto)
  have old: "row_ok s' r" if r: "r \<in> set rs" for r
  proof -
    have rt: "tr_id r \<noteq> t" using r fresh(1) by auto
    have "row_ok u r" by (rule adds_row_outside [OF quiet_adds [OF u(1), of "{}"] rows [OF r] _ d]) (simp_all add: tys r)
    moreover have "is_parent u = is_parent s" by (simp add: is_parent_def q fun_eq_iff)
    ultimately have "row_ok v r" by (simp add: row_ok_def uv has_col_def par)
    moreover have "r \<in> set (types v)" unfolding v_def using r rt by (intro set_storage_other) (simp_all add: q tys)
    ultimately show ?thesis using up rt by (intro adds_row_outside [OF av _ _ dv]) (auto simp: par)
  qed
  let ?new = "?row\<lparr>tr_storage := Some table\<rparr>"
  have new: "row_ok s' ?new"
  proof -
    have st: "storage_table (cat v) t = Some table" unfolding v_def by (intro set_storage_at) (simp add: q tys)
    have "columns_of v table \<noteq> None" using u(2) by (simp add: uv)
    then have "columns_of s' table \<noteq> None" using av unfolding adds_def grows_def by blast
    moreover have "has_col s' table c" if "(t, n, c) \<in> prop_keys s'" for n c
      using that av fresh(2) [of n c] st unfolding adds_def uv q by blast
    moreover have "\<exists>d. (t, n, d) \<in> prop_keys s'" if "inherits s t a" "(a, n, c) \<in> prop_keys s'" for a n c
      using that(1)
    proof (cases rule: converse_rtranclpE)
      case base
      with that(2) show ?thesis by auto
    next
      case (step p)
      show ?thesis
      proof (cases "(a, n, c) \<in> prop_keys s")
        case True
        with u(4) [OF links(2) [OF step(1)] step(2)] show ?thesis by blast
      next
        case False
        with that(2) av have "a = t" unfolding adds_def uv q by blast
        with that(2) show ?thesis by auto
      qed
    qed
    moreover have "tr_storage ?new = stored_as ?new" using k by (simp add: stored_as_def table_def)
    ultimately show ?thesis by (simp add: row_ok_def s' par)
  qed
  have "r \<in> set rs \<or> r = ?new" if "r \<in> set (types s')" for r
    using that fresh(1) by (auto simp: tys' v_def set_storage_def q tys)
  with old new have "\<forall>r \<in> set (types s'). row_ok s' r" by blast
  moreover have ids: "tr_id ` set (types v) = tr_id ` set (types s)" using uv(7) unfolding q by (metis list.set_map)
  moreover have "ids_ok s'"
  proof -
    have "(\<forall>r \<in> set qs. \<exists>n < next_type s. tr_id r = of_nat n) \<longleftrightarrow> (\<forall>i \<in> tr_id ` set qs. \<exists>n < next_type s. i = of_nat n)" for qs
      by simp
    note via = this
    have "(\<forall>r \<in> set (types v). \<exists>n < next_type s. tr_id r = of_nat n) \<longleftrightarrow> (\<forall>r \<in> set (types s). \<exists>n < next_type s. tr_id r = of_nat n)"
      unfolding via ids ..
    with ok(1) dv have "ids_ok v" by (simp add: ids_ok_def uv q)
    then show ?thesis by (simp add: s')
  qed
  moreover have "parents_ok s'" "labels_typed s'" "labels_ok s' = labels_ok s"
    using ok(2,3) unfolding s' by (simp_all add: parents_ok_def labels_typed_def labels_ok_def lr uv q fun_eq_iff)
  moreover have "rows_typed s'"
  proof -
    have "i = t \<or> (i, n, c) \<in> prop_keys s" if "(i, n, c) \<in> prop_keys s'" for i n c
      using that av unfolding adds_def uv q by blast
    then have "fst ` prop_keys s' \<subseteq> insert t (fst ` prop_keys s)" by force
    also have "\<dots> \<subseteq> tr_id ` set (types s)" using ok(4) \<open>t \<in> tr_id ` set (types s)\<close> by (simp add: rows_typed_def)
    finally show ?thesis by (simp add: rows_typed_def tys' ids)
  qed
  ultimately show ?thesis by (simp add: catalog_core_def)
qed

lemma create_type_ok:
  assumes "create_type_inner graph name kind supers abstract s = Inr (t, s')" "catalog_ok s"
  shows "catalog_ok s'"
proof -
  obtain gid where gid: "graph_id s graph = Inr gid" "try_type_id s gid name = None"
    using assms(1) by (auto simp: create_type_inner_def rbind_eq_Inr_iff [of "graph_id s graph"] split: if_splits)
  obtain k pids s1 s2 s3 where k: "kind_letter kind = Inr k" and pids: "rmap (parent_id s gid name kind k) supers = Inr pids"
    and s1: "insert_type gid name k abstract pids s = Inr (t, s1)"
    and s2: "(if \<not> abstract \<and> k \<noteq> CHR ''a'' then create_storage t name k pids s1 else Inr s1) = Inr s2"
    and s3: "relabel gid s2 = Inr s3"
    and s4: "(if \<not> abstract \<and> k \<noteq> CHR ''a'' then inherit_settings graph t s3 else Inr s3) = Inr s'"
    using assms(1) by (auto simp: create_type_inner_def gid Let_def rbind_eq_Inr_iff split del: if_split)
  note e = insert_type_effect [OF s1 assms(2) parent_ids [OF pids]]
  have fresh: "t \<notin> tr_id ` set (types s)" using e(1) by (simp add: fresh_type_def)
  have "catalog_core s2 \<and> (\<forall>h. h \<noteq> gid \<longrightarrow> labels_ok s2 h)"
  proof (cases "\<not> abstract \<and> k \<noteq> CHR ''a''")
    case False
    then have "row_ok s1 \<lparr>tr_id = t, tr_graph = gid, tr_name = name, tr_kind = k, tr_abstract = abstract, tr_storage = None\<rparr>"
      by (simp add: row_ok_def stored_as_def)
    with e False s2 show ?thesis by (auto simp: catalog_core_def)
  next
    case True
    have par: "parents_ok s" "rows_typed s" using assms(2) by (simp_all add: catalog_ok_def catalog_core_def)
    have "catalog_core s2 \<and> labels_ok s2 = labels_ok s1"
    proof (rule create_storage_ok [of t name k pids s1 s2 "types s" gid])
      show "create_storage t name k pids s1 = Inr s2" using s2 True by simp
      show "(t, n, c) \<notin> prop_keys s1" for n c using par(2) fresh by (force simp: e(6) rows_typed_def)
      show "\<not> is_parent s1 c t" for c
        using links_typed(2) [OF par(1)] fresh parent_ids [OF pids] by (force simp: is_parent_def e(11) link_rows_def)
      show "p \<in> set pids" if "is_parent s1 t p" for p
        using that links_typed(1) [OF par(1)] fresh by (auto simp: is_parent_def e(11))
    qed (use True e fresh in auto)
    with e(8) show ?thesis by simp
  qed
  then have "catalog_ok s3" using relabel_catalog [OF s3] by blast
  with s4 show ?thesis using quiet_catalog_ok(2) [OF quiet_inherit_settings] by (auto split: if_splits)
qed

lemma declare_labels_ok: "declare_labels gid graph kind wider ns s = Inr s' \<Longrightarrow> catalog_ok s \<Longrightarrow> catalog_ok s'"
proof (induction ns arbitrary: wider s)
  case (Cons n ns)
  then obtain u where u: "(if try_type_id s gid n = None then rbind (create_type_inner graph n kind wider False s) (\<lambda>(t, s). Inr s) else Inr s) = Inr u"
    "declare_labels gid graph kind (wider @ [n]) ns u = Inr s'" by (auto simp: rbind_eq_Inr_iff split del: if_split)
  then have "catalog_ok u" using Cons.prems(2) by (auto simp: rbind_eq_Inr_iff split: if_splits dest: create_type_ok)
  with Cons.IH [OF u(2)] show ?case by blast
qed simp

section \<open>Adding a property\<close>

lemma catalog_ok_simps:
  assumes "catalog_ok s"
  shows "distinct (map tr_id (types s))" "parents_ok s" "labels_typed s" "labels_ok s g" "rows_typed s" "ids_ok s"
    "r \<in> set (types s) \<Longrightarrow> row_ok s r"
  using assms by (auto simp: catalog_ok_def catalog_core_def ids_ok_def)

lemma subtypes_below:
  assumes "catalog_ok s" "(t, g) \<in> set (link_rows s)"
  shows "set (og_subtypes (type_labels s) t) = {c. inherits s c t}"
  using catalog_ok_simps(1-4) [OF assms(1)] assms(2) by (intro labels_decide(2)) auto

lemma add_to_subtype_effect:
  assumes op: "add_to_subtype tid p sub s = Inr s'" and p: "pr_type p = tid" "\<exists>d. (tid, pr_name p, d) \<in> prop_keys s"
  shows "adds {sub} s s'"
    "storage_table (cat s) sub = Some table \<Longrightarrow> has_col s' table (pr_column p) \<and> (\<exists>d. (sub, pr_name p, d) \<in> prop_keys s')"
    "prop_keys s' \<subseteq> insert (sub, pr_name p, pr_column p) (prop_keys s)"
proof -
  have all: "adds {sub} s s' \<and> prop_keys s' \<subseteq> insert (sub, pr_name p, pr_column p) (prop_keys s) \<and> (\<forall>table. storage_table (cat s) sub = Some table \<longrightarrow> has_col s' table (pr_column p) \<and> (\<exists>d. (sub, pr_name p, d) \<in> prop_keys s'))"
  proof (cases "storage_table (cat s) sub")
    case None
    with op have "s' = s" by (simp add: add_to_subtype_def)
    with None show ?thesis by (auto simp: quiet_adds)
  next
    case (Some table)
    obtain u v w where u: "alter_table table (\<lambda>d. required_column p (with_column (pr_column p) (pr_dtype p) d)) s = Inr u"
      and v: "(if pr_key p
                then if duplicated u table (pr_column p) then Inl (Not_unique table (pr_column p))
                     else alter_table table (key_index (unique_name sub (pr_column p)) p) (u\<lparr>moved_values := moved_values u @ [(table, pr_name p, pr_column p, pr_dtype p)]\<rparr>)
                else Inr (u\<lparr>moved_values := moved_values u @ [(table, pr_name p, pr_column p, pr_dtype p)]\<rparr>)) = Inr v"
      and w: "sync_history sub v = Inr w" and s': "s' = (if sub \<noteq> tid then insert_property (p\<lparr>pr_type := sub\<rparr>) w else w)"
      using op Some by (auto simp: add_to_subtype_def Let_def rbind_eq_Inr_iff split: if_splits)
    have su: "quiet s u" by (rule quiet_alter [OF u]) auto
    have "quiet u (u\<lparr>moved_values := moved_values u @ [(table, pr_name p, pr_column p, pr_dtype p)]\<rparr>)"
      by (rule quiet_same_tables) (simp_all add: same_catalog_def prop_keys_def)
    also have "quiet \<dots> v" using v by (auto split: if_splits elim!: quiet_alter)
    also have "quiet v w" by (rule quiet_sync_history [OF w])
    finally have uw: "quiet u w" .
    with su have q: "quiet s w" using quiet_trans by blast
    then have same: "storage_table (cat w) = storage_table (cat s)" "prop_keys w = prop_keys s"
      by (auto simp: quiet_def same_catalog_def intro: storage_same)
    have "has_col u table (pr_column p)" by (rule alter_has_col [OF u]) simp
    with uw have c: "has_col w table (pr_column p)" using has_col_grows by (auto simp: quiet_def)
    show ?thesis
    proof (cases "sub = tid")
      case True
      with s' q c p Some same show ?thesis by (auto simp: quiet_adds)
    next
      case False
      let ?p = "p\<lparr>pr_type := sub\<rparr>"
      have "adds {sub} w (insert_property ?p w)" "\<exists>d. (sub, pr_name p, d) \<in> prop_keys (insert_property ?p w)"
        using insert_property_adds [of w ?p] c Some same(1) by auto
      then have a: "adds {sub} w s'" "\<exists>d. (sub, pr_name p, d) \<in> prop_keys s'" using s' False by auto
      then have "has_col s' table (pr_column p)" using c has_col_grows by (auto simp: adds_def)
      moreover have "prop_keys s' \<subseteq> insert (sub, pr_name p, pr_column p) (prop_keys s)"
        using s' False by (auto simp: same(2) [symmetric] insert_property_def) (auto simp: prop_keys_def)
      ultimately show ?thesis using a Some adds_trans [OF quiet_adds [OF q] a(1)] by auto
    qed
  qed
  then show "adds {sub} s s'"
    "storage_table (cat s) sub = Some table \<Longrightarrow> has_col s' table (pr_column p) \<and> (\<exists>d. (sub, pr_name p, d) \<in> prop_keys s')"
    "prop_keys s' \<subseteq> insert (sub, pr_name p, pr_column p) (prop_keys s)" by blast+
qed

lemma quiet_refresh: "refresh_subtype sub s = Inr s' \<Longrightarrow> quiet s s'"
proof -
  have "quiet s (case (storage_table (cat s) sub, try_type_name (cat s) sub) of
        (Some table, Some n) \<Rightarrow> ensure_alias_view n table s | _ \<Rightarrow> s)" by (auto split: option.split)
  then show "refresh_subtype sub s = Inr s' \<Longrightarrow> quiet s s'"
    unfolding refresh_subtype_def using quiet_replay quiet_trans by blast
qed

lemma adds_mono: "adds T s s' \<Longrightarrow> T \<subseteq> U \<Longrightarrow> adds U s s'"
  unfolding adds_def by blast

text \<open>Declared on a type and copied to every subtype: all rows stay in order.\<close>

lemma add_property_core:
  assumes "rfold (add_to_subtype tid p) (og_subtypes (type_labels s) tid) (insert_property p s) = Inr s'" "catalog_ok s"
    and tid: "pr_type p = tid" "(tid, g) \<in> set (link_rows s)"
  shows "catalog_ok s'"
proof -
  let ?s = "insert_property p s" and ?subs = "og_subtypes (type_labels s) tid"
  have same: "types ?s = types s" "type_parents ?s = type_parents s" "type_labels ?s = type_labels s" "next_type ?s = next_type s" "columns_of ?s = columns_of s"
    by (auto simp: insert_property_def columns_of_def table_at_def fun_eq_iff)
  have par: "is_parent ?s = is_parent s" by (simp add: is_parent_def same fun_eq_iff)
  have lr: "link_rows ?s = link_rows s" by (simp add: link_rows_def same)
  have keys: "prop_keys ?s \<subseteq> insert (tid, pr_name p, pr_column p) (prop_keys s)" "prop_keys s \<subseteq> prop_keys ?s"
    using tid(1) by (auto simp: insert_property_def prop_keys_def)
  have row: "\<exists>d. (tid, pr_name p, d) \<in> prop_keys ?s"
    by (auto simp: insert_property_def prop_keys_def list_ex_iff tid(1)) (metis (mono_tags, lifting) image_eqI tid(1))
  note ok = catalog_ok_simps [OF assms(2)]
  have subs: "set ?subs = {c. inherits s c tid}" by (rule subtypes_below [OF assms(2) tid(2)])
  have loop: "adds (set ?subs) ?s s' \<and> (\<forall>sub \<in> set ?subs. \<forall>table. storage_table (cat s) sub = Some table \<longrightarrow>
      has_col s' table (pr_column p) \<and> (\<exists>d. (sub, pr_name p, d) \<in> prop_keys s'))"
  proof (rule adds_rfold [where Q = "\<lambda>v. types v = types s \<and> (\<exists>d. (tid, pr_name p, d) \<in> prop_keys v)", OF _ _ _ assms(1)])
    show "types ?s = types s \<and> (\<exists>d. (tid, pr_name p, d) \<in> prop_keys ?s)" using same row by simp
  next
    fix sub v v' assume a: "sub \<in> set ?subs" "add_to_subtype tid p sub v = Inr v'" "types v = types s \<and> (\<exists>d. (tid, pr_name p, d) \<in> prop_keys v)"
    then have "storage_table (cat v) = storage_table (cat s)" by (intro storage_same) simp
    with add_to_subtype_effect [OF a(2) tid(1)] a adds_mono [of "{sub}" v v' "set ?subs"]
    show "adds (set ?subs) v v' \<and> (\<forall>table. storage_table (cat s) sub = Some table \<longrightarrow> has_col v' table (pr_column p) \<and> (\<exists>d. (sub, pr_name p, d) \<in> prop_keys v'))"
      by auto
  next
    fix v v' assume "adds (set ?subs) v v'" "types v = types s \<and> (\<exists>d. (tid, pr_name p, d) \<in> prop_keys v)"
    then show "types v' = types s \<and> (\<exists>d. (tid, pr_name p, d) \<in> prop_keys v')" using has_row_adds by (auto simp: adds_def)
  next
    fix sub v v' assume "adds (set ?subs) v v'" "\<forall>table. storage_table (cat s) sub = Some table \<longrightarrow> has_col v table (pr_column p) \<and> (\<exists>d. (sub, pr_name p, d) \<in> prop_keys v)"
    then show "\<forall>table. storage_table (cat s) sub = Some table \<longrightarrow> has_col v' table (pr_column p) \<and> (\<exists>d. (sub, pr_name p, d) \<in> prop_keys v')"
      unfolding adds_def using has_col_grows by blast
  qed
  note a = conjunct1 [OF loop]
  note st = adds_structure [OF a]
  have named: "n = pr_name p" if "(i, n, c) \<in> prop_keys s'" "(i, n, c) \<notin> prop_keys s" for i n c
  proof -
    have "prop_keys s' \<subseteq> prop_keys s \<union> {(i, n, c). n = pr_name p} \<and> (\<exists>d. (tid, pr_name p, d) \<in> prop_keys s')"
    proof (rule rfold_keeps [OF assms(1)])
      show "prop_keys ?s \<subseteq> prop_keys s \<union> {(i, n, c). n = pr_name p} \<and> (\<exists>d. (tid, pr_name p, d) \<in> prop_keys ?s)" using keys row by auto
      show "prop_keys v' \<subseteq> prop_keys s \<union> {(i, n, c). n = pr_name p} \<and> (\<exists>d. (tid, pr_name p, d) \<in> prop_keys v')"
        if "prop_keys v \<subseteq> prop_keys s \<union> {(i, n, c). n = pr_name p} \<and> (\<exists>d. (tid, pr_name p, d) \<in> prop_keys v)"
          "add_to_subtype tid p sub v = Inr v'" for sub v v'
        using add_to_subtype_effect(1,3) [OF that(2) tid(1)] that(1) has_row_adds by blast
    qed
    with that show ?thesis by blast
  qed
  have new: "i \<in> set ?subs" if "(i, n, c) \<in> prop_keys s'" "(i, n, c) \<notin> prop_keys s" for i n c
  proof (cases "(i, n, c) \<in> prop_keys ?s")
    case True
    with that keys(1) show ?thesis by (auto simp: subs)
  next
    case False
    with that a show ?thesis unfolding adds_def by blast
  qed
  have g: "grows s s'" using a unfolding adds_def grows_def same by blast
  have "row_ok s' r" if r: "r \<in> set (types s)" for r
    unfolding row_ok_def
  proof (intro conjI allI impI)
    show "tr_storage r = stored_as r" using ok(7) [OF r] by (simp add: row_ok_def)
    fix table assume table: "tr_storage r = Some table"
    have old: "columns_of s table \<noteq> None" "\<And>n c. (tr_id r, n, c) \<in> prop_keys s \<Longrightarrow> has_col s table c"
      "\<And>a n c. inherits s (tr_id r) a \<Longrightarrow> (a, n, c) \<in> prop_keys s \<Longrightarrow> \<exists>d. (tr_id r, n, d) \<in> prop_keys s"
      using ok(7) [OF r] table unfolding row_ok_def by blast+
    have sto: "storage_table (cat s) (tr_id r) = Some table" using storage_row [OF ok(1) r] table by simp
    have "storage_table (cat ?s) = storage_table (cat s)" by (intro storage_same same)
    note st' = sto [folded this]
    show "columns_of s' table \<noteq> None" using old(1) g unfolding grows_def by blast
    have own: "has_col s' table (pr_column p) \<and> (\<exists>d. (tr_id r, pr_name p, d) \<in> prop_keys s')" if "inherits s (tr_id r) tid"
      using loop sto that subs by blast
    show "has_col s' table c" if k: "(tr_id r, n, c) \<in> prop_keys s'" for n c
    proof (cases "(tr_id r, n, c) \<in> prop_keys ?s")
      case False
      with k a st' show ?thesis unfolding adds_def by blast
    next
      case True
      show ?thesis
      proof (cases "(tr_id r, n, c) \<in> prop_keys s")
        case True
        then show ?thesis by (rule has_col_grows [OF g old(2)])
      next
        case False
        with True keys(1) have "tr_id r = tid" "c = pr_column p" by auto
        with own show ?thesis by auto
      qed
    qed
    show "\<exists>d. (tr_id r, n, d) \<in> prop_keys s'" if "inherits s' (tr_id r) a" "(a, n, c) \<in> prop_keys s'" for a n c
    proof (cases "(a, n, c) \<in> prop_keys s")
      case True
      with old(3) that(1) have "\<exists>d. (tr_id r, n, d) \<in> prop_keys s" by (auto simp: st par)
      with keys(2) a show ?thesis unfolding adds_def by blast
    next
      case False
      with that new named have "a \<in> set ?subs" "n = pr_name p" by blast+
      then have "inherits s (tr_id r) tid" using that(1) by (simp add: subs st par)
      with own \<open>n = pr_name p\<close> show ?thesis by simp
    qed
  qed
  moreover have "rows_typed s'"
  proof -
    have "i \<in> tr_id ` set (types s)" if "(i, n, c) \<in> prop_keys s'" for i n c
    proof (cases "(i, n, c) \<in> prop_keys s")
      case True
      with ok(5) show ?thesis by (force simp: rows_typed_def)
    next
      case False
      with new [OF that] have "inherits s i tid" by (simp add: subs)
      then show ?thesis
        by (cases rule: converse_rtranclpE) (use tid(2) links_typed(1) [OF ok(2)] in \<open>auto simp: is_parent_def link_rows_def\<close>)
    qed
    moreover have "types s' = types s" using a same by (simp add: adds_def)
    ultimately show ?thesis by (auto simp: rows_typed_def)
  qed
  moreover have "labels_ok ?s = labels_ok s" "ids_ok ?s = ids_ok s" "parents_ok ?s = parents_ok s" "labels_typed ?s = labels_typed s"
    by (simp_all add: labels_ok_def ids_ok_def parents_ok_def labels_typed_def lr same fun_eq_iff)
  moreover have "types s' = types s" using a same by (simp add: adds_def)
  ultimately show ?thesis using assms(2) by (simp add: catalog_ok_def catalog_core_def st)
qed

lemma og_add_property_ok:
  assumes "og_add_property u d graph type_name prop data_type required is_key s = Inr s'" "catalog_ok s"
  shows "catalog_ok s'"
proof -
  obtain gid tid dtype v w where gid: "graph_id s graph = Inr gid" and tid: "type_id s gid type_name = Inr tid"
    and v: "rfold (add_to_subtype tid \<lparr>pr_type = tid, pr_name = prop, pr_column = column_name u prop, pr_dtype = dtype, pr_required = required, pr_key = is_key\<rparr>)
      (og_subtypes (type_labels s) tid)
      (insert_property \<lparr>pr_type = tid, pr_name = prop, pr_column = column_name u prop, pr_dtype = dtype, pr_required = required, pr_key = is_key\<rparr> s) = Inr v"
    and w: "rfold refresh_subtype (og_subtypes (type_labels s) tid) v = Inr w"
    and s': "s' = bump_schema_version gid (''add property '' @ type_name @ ''.'' @ prop) w"
    using assms(1) by (auto simp: og_add_property_def Let_def rbind_eq_Inr_iff split: if_splits)
  have "(tid, gid) \<in> set (link_rows s)" using tid by (rule type_id_row)
  then have "catalog_ok v" by (rule add_property_core [OF v assms(2), rotated]) simp
  moreover have "quiet v w" using w by (rule quiet_rfold [rotated]) (rule quiet_refresh)
  ultimately show ?thesis unfolding s' using quiet_catalog_ok(2) quiet_view_ops(5) by blast
qed

section \<open>Dropping types\<close>

lemma show_int_inj: "show_int i = show_int j \<longleftrightarrow> i = j"
proof
  assume e: "show_int i = show_int j"
  have minus: "show_nat n \<noteq> ''-'' @ s" for n s
    using show_nat_digits [of n] by (auto simp: is_digit_b_def)
  have nat: "show_nat n = show_nat m \<Longrightarrow> n = m" for n m by (metis nat_of_show_nat)
  from e show "i = j"
    using minus [of "nat i" "show_nat (nat (- j))"] minus [of "nat j" "show_nat (nat (- i))"] nat [of "nat i" "nat j"] nat [of "nat (- i)" "nat (- j)"]
    by (auto simp: show_int_def split: if_splits)
qed simp

lemma table_names:
  "node_table t = node_table u \<longleftrightarrow> t = u" "edge_table t = edge_table u \<longleftrightarrow> t = u" "node_table t \<noteq> edge_table u"
  by (auto simp: node_table_def edge_table_def show_int_inj intro: signed_word_eqI)

lemma stored_as_inj: "stored_as r = Some table \<Longrightarrow> stored_as q = Some table \<Longrightarrow> tr_id r = tr_id q"
  by (auto simp: stored_as_def table_names split: if_splits) (metis table_names)+

lemma map_of_filter_key: "map_of (filter (\<lambda>(n, d). P n) xs) t = (if P t then map_of xs t else None)"
  by (induction xs) auto

lemma drop_table_effect:
  "types (drop_table table s) = types s" "type_parents (drop_table table s) = type_parents s" "type_labels (drop_table table s) = type_labels s"
  "properties (drop_table table s) = properties s" "next_type (drop_table table s) = next_type s"
  "columns_of (drop_table table s) u = (if u = table then None else columns_of s u)"
  by (auto simp: drop_table_def drop_relations_def columns_of_def table_at_def map_of_filter_key)

definition same_rows :: "schema \<Rightarrow> schema \<Rightarrow> bool" where
  "same_rows s s' \<longleftrightarrow> types s' = types s \<and> type_parents s' = type_parents s \<and> type_labels s' = type_labels s \<and>
     properties s' = properties s \<and> next_type s' = next_type s"

lemma remove_types_ok:
  assumes op: "remove_types T s0 = Inr s'" and same: "same_rows s s0"
    and cols: "\<And>r table. r \<in> set (types s) \<Longrightarrow> tr_id r \<notin> T \<Longrightarrow> tr_storage r = Some table \<Longrightarrow> columns_of s0 table = columns_of s table"
    and core: "catalog_core s" and labels: "\<And>h. h \<noteq> g \<Longrightarrow> labels_ok s h"
    and graph: "\<And>r. r \<in> set (types s) \<Longrightarrow> tr_id r \<in> T \<Longrightarrow> tr_graph r = g"
  shows "catalog_core s' \<and> (\<forall>h. h \<noteq> g \<longrightarrow> labels_ok s' h) \<and> types s' = filter (\<lambda>r. tr_id r \<notin> T) (types s)"
proof -
  have new: "types s' = filter (\<lambda>r. tr_id r \<notin> T) (types s)" "type_parents s' = filter (\<lambda>(c, p). c \<notin> T \<and> p \<notin> T) (type_parents s)"
    "type_labels s' = filter (\<lambda>(g, l). label_type l \<notin> T) (type_labels s)" "properties s' = filter (\<lambda>p. pr_type p \<notin> T) (properties s)"
    "next_type s' = next_type s" "tables s' = tables s0"
    using op same by (auto simp: remove_types_def same_rows_def split: option.splits)
  have old: "ids_ok s" "parents_ok s" "labels_typed s" "rows_typed s" "\<And>r. r \<in> set (types s) \<Longrightarrow> row_ok s r"
    using core by (simp_all add: catalog_core_def)
  have keys: "prop_keys s' = {(i, n, c) \<in> prop_keys s. i \<notin> T}" by (auto simp: prop_keys_def new)
  have links: "set (link_rows s') = {(t, g) \<in> set (link_rows s). t \<notin> T}" by (auto simp: link_rows_def new)
  have up: "inherits s' c a \<Longrightarrow> inherits s c a" for c a
    by (rule rtranclp_mono [THEN predicate2D, rotated]) (auto simp: is_parent_def new)
  have "ids_ok s'" using old(1) by (auto simp: ids_ok_def new distinct_map_filter)
  moreover have "parents_ok s'" using old(2) by (fastforce simp: parents_ok_def new links)
  moreover have "labels_typed s'" using old(3) by (fastforce simp: labels_typed_def new links)
  moreover have "rows_typed s'" using old(4) by (fastforce simp: rows_typed_def new keys)
  moreover have "row_ok s' r" if "r \<in> set (types s')" for r
  proof -
    have r: "r \<in> set (types s)" "tr_id r \<notin> T" using that by (auto simp: new)
    have "columns_of s' = columns_of s0" by (rule columns_of_same) (simp add: new)
    then have c: "columns_of s' table = columns_of s table" if "tr_storage r = Some table" for table
      using cols [OF r that] by simp
    have "tr_storage r = stored_as r" using old(5) [OF r(1)] by (simp add: row_ok_def)
    moreover have "columns_of s' table \<noteq> None \<and> (\<forall>n c. (tr_id r, n, c) \<in> prop_keys s' \<longrightarrow> has_col s' table c)" if "tr_storage r = Some table" for table
      using old(5) [OF r(1)] that unfolding row_ok_def has_col_def c [OF that] keys by blast
    moreover have "\<exists>d. (tr_id r, n, d) \<in> prop_keys s'" if "tr_storage r = Some table" "inherits s' (tr_id r) a" "(a, n, c) \<in> prop_keys s'" for table a n c
      using old(5) [OF r(1)] that up [OF that(2)] r(2) unfolding row_ok_def keys by blast
    ultimately show ?thesis unfolding row_ok_def by blast
  qed
  moreover have "labels_ok s' h" if h: "h \<noteq> g" for h
  proof -
    have gt: "graph_types (link_rows s') h = graph_types (link_rows s) h"
    proof -
      have "graph_types (map (\<lambda>r. (tr_id r, tr_graph r)) (filter (\<lambda>r. tr_id r \<notin> T) rs)) h = graph_types (map (\<lambda>r. (tr_id r, tr_graph r)) rs) h"
        if "set rs \<subseteq> set (types s)" for rs
        using that graph h by (induction rs) (auto simp: graph_types_def)
      from this [OF order_refl] show ?thesis by (simp add: link_rows_def new)
    qed
    have out: "t \<notin> T" if "(t, h) \<in> set (link_rows s)" for t using that graph h by (auto simp: link_rows_def)
    have "filter (\<lambda>(c, p). c \<in> set (graph_types (link_rows s) h)) (type_parents s') = filter (\<lambda>(c, p). c \<in> set (graph_types (link_rows s) h)) (type_parents s)"
    proof -
      have "c \<notin> T \<and> p \<notin> T" if l: "(c, p) \<in> set (type_parents s)" "(c, h) \<in> set (link_rows s)" for c p
      proof -
        obtain h' where "(c, h') \<in> set (link_rows s)" "(p, h') \<in> set (link_rows s)" using old(2) l(1) by (auto simp: parents_ok_def)
        then have "(p, h) \<in> set (link_rows s)" using link_rows_unique [of s c h h'] old(1) l(2) by (simp add: ids_ok_def)
        with l out show ?thesis by blast
      qed
      then show ?thesis unfolding new filter_filter by (intro filter_cong refl) (auto simp: graph_types_iff)
    qed
    then have "load_dag (link_rows s') (type_parents s') h = load_dag (link_rows s) (type_parents s) h" by (rule load_dag_cong [OF gt])
    moreover have "(h, l) \<in> set (type_labels s') \<longleftrightarrow> (h, l) \<in> set (type_labels s)" for l
      using old(3) out by (auto simp: new labels_typed_def)
    ultimately show ?thesis using labels [OF h] by (simp add: labels_ok_def gt)
  qed
  ultimately show ?thesis by (simp add: catalog_core_def new(1))
qed

lemma drop_tables_effect:
  "same_rows s (fold drop_table ts s)"
  "columns_of (fold drop_table ts s) u = (if u \<in> set ts then None else columns_of s u)"
proof -
  show "same_rows s (fold drop_table ts s)"
    by (induction ts arbitrary: s) (simp_all add: same_rows_def drop_table_effect)
  show "columns_of (fold drop_table ts s) u = (if u \<in> set ts then None else columns_of s u)"
    by (induction ts arbitrary: s) (simp_all add: drop_table_effect)
qed

lemma core_storage:
  assumes "catalog_core s" "r \<in> set (types s)" "q \<in> set (types s)" "tr_storage r = Some table" "tr_storage q = Some table"
  shows "tr_id r = tr_id q"
  using assms stored_as_inj [of r table q] by (simp add: catalog_core_def row_ok_def)

lemma drop_subtypes_ok:
  "drop_subtypes ts (s, d) = Inr (s', d') \<Longrightarrow> catalog_core s \<Longrightarrow> \<forall>h. h \<noteq> g \<longrightarrow> labels_ok s h \<Longrightarrow>
     \<forall>r \<in> set (types s). tr_id r \<in> set ts \<longrightarrow> tr_graph r = g \<Longrightarrow>
     catalog_core s' \<and> (\<forall>h. h \<noteq> g \<longrightarrow> labels_ok s' h)"
proof (induction ts arbitrary: s d)
  case (Cons t ts)
  let ?s = "case storage_table (cat s) t of Some table \<Rightarrow> drop_table table s | None \<Rightarrow> s"
  obtain u d1 where u: "remove_types {t} ?s = Inr u" "drop_subtypes ts (u, d1) = Inr (s', d')"
    using Cons.prems(1) by (auto simp: Let_def rbind_eq_Inr_iff)
  have "catalog_core u \<and> (\<forall>h. h \<noteq> g \<longrightarrow> labels_ok u h) \<and> types u = filter (\<lambda>r. tr_id r \<notin> {t}) (types s)"
  proof (rule remove_types_ok [OF u(1) _ _ Cons.prems(2)])
    show "same_rows s ?s" by (auto simp: same_rows_def drop_table_effect split: option.split)
    show "columns_of ?s table = columns_of s table" if r: "r \<in> set (types s)" "tr_id r \<notin> {t}" "tr_storage r = Some table" for r table
    proof (cases "storage_table (cat s) t")
      case (Some b)
      then obtain q where q: "q \<in> set (types s)" "tr_id q = t" "tr_storage q = Some b" using storage_type by blast
      with core_storage [OF Cons.prems(2) r(1) q(1)] r have "table \<noteq> b" by auto
      then show ?thesis by (simp add: Some drop_table_effect)
    qed simp
  qed (use Cons.prems in auto)
  with Cons.IH [OF u(2)] Cons.prems(4) show ?case by auto
qed simp

lemma og_drop_type_ok:
  assumes "og_drop_type graph name cascade (s, d) = Inr (s', d')" "catalog_ok s"
  shows "catalog_ok s'"
proof -
  obtain gid tid u where tid: "type_id s gid name = Inr tid"
    and u: "drop_subtypes (og_subtypes (type_labels s) tid) (s, d) = Inr (u, d')" and s': "relabel gid u = Inr s'"
    using assms(1) by (auto simp: og_drop_type_def Let_def rbind_eq_Inr_iff split: if_splits)
  note ok = catalog_ok_simps [OF assms(2)]
  have tg: "(tid, gid) \<in> set (link_rows s)" using tid by (rule type_id_row)
  have below: "(c, gid) \<in> set (link_rows s)" if "inherits s c tid" for c
    using that
  proof (induction rule: converse_rtranclp_induct)
    case (step c p)
    then obtain h where "(c, h) \<in> set (link_rows s)" "(p, h) \<in> set (link_rows s)" using ok(2) by (auto simp: parents_ok_def is_parent_def)
    with step link_rows_unique [OF ok(1)] show ?case by blast
  qed (rule tg)
  have "tr_graph r = gid" if "r \<in> set (types s)" "tr_id r \<in> set (og_subtypes (type_labels s) tid)" for r
  proof -
    have "(tr_id r, tr_graph r) \<in> set (link_rows s)" using that(1) by (simp add: link_rows_def)
    moreover have "(tr_id r, gid) \<in> set (link_rows s)" using that(2) below by (simp add: subtypes_below [OF assms(2) tg])
    ultimately show ?thesis using link_rows_unique [OF ok(1)] by blast
  qed
  with drop_subtypes_ok [OF u, of gid] assms(2) have "catalog_core u \<and> (\<forall>h. h \<noteq> gid \<longrightarrow> labels_ok u h)"
    by (simp add: catalog_ok_def)
  with relabel_catalog [OF s'] show ?thesis by blast
qed

lemma og_drop_graph_ok:
  assumes "og_drop_graph name (s, d) = Inr (s', d')" "catalog_ok s"
  shows "catalog_ok s'"
proof -
  obtain gid where gid: "graph_id s name = Inr gid" using assms(1) by (auto simp: og_drop_graph_def rbind_eq_Inr_iff)
  let ?ts = "filter (\<lambda>r. tr_graph r = gid) (types s)"
  let ?gone = "List.map_filter tr_storage ?ts"
  obtain u where u: "remove_types (tr_id ` set ?ts) (fold drop_table ?gone s) = Inr u"
    and s': "s' = u\<lparr>graphs := filter (\<lambda>(g, n). g \<noteq> gid) (graphs u), compat_index := filter (\<lambda>i. ci_graph i \<noteq> gid) (compat_index u),
            schema_changes := filter (\<lambda>c. ch_graph c \<noteq> gid) (schema_changes u)\<rparr>"
    using assms(1) gid by (auto simp: og_drop_graph_def Let_def rbind_eq_Inr_iff)
  have core: "catalog_core s" using assms(2) by (simp add: catalog_ok_def)
  have d: "distinct (map tr_id (types s))" by (rule catalog_ok_simps [OF assms(2)])
  have own: "tr_graph r = gid" if "r \<in> set (types s)" "tr_id r \<in> tr_id ` set ?ts" for r
    using that d by (auto simp: distinct_map inj_on_def)
  have "catalog_core u \<and> (\<forall>h. h \<noteq> gid \<longrightarrow> labels_ok u h) \<and> types u = filter (\<lambda>r. tr_id r \<notin> tr_id ` set ?ts) (types s)"
  proof (rule remove_types_ok [OF u drop_tables_effect(1) _ core])
    show "columns_of (fold drop_table ?gone s) table = columns_of s table"
      if r: "r \<in> set (types s)" "tr_id r \<notin> tr_id ` set ?ts" "tr_storage r = Some table" for r table
    proof -
      have "table \<notin> set ?gone"
      proof
        assume "table \<in> set ?gone"
        then obtain q where q: "q \<in> set ?ts" "tr_storage q = Some table" unfolding set_map_filter by blast
        then have "tr_id r = tr_id q" using r by (intro core_storage [OF core]) auto
        with r(2) q(1) show False by blast
      qed
      then show ?thesis by (simp add: drop_tables_effect(2))
    qed
    show "labels_ok s h" for h using assms(2) by (simp add: catalog_ok_def)
    show "tr_graph r = gid" if "r \<in> set (types s)" "tr_id r \<in> tr_id ` set ?ts" for r by (rule own [OF that])
  qed
  moreover from this have "labels_ok u gid"
    by (intro labels_ok_empty) (auto simp: catalog_core_def link_rows_def)
  ultimately have "catalog_ok u" unfolding catalog_ok_def by metis
  moreover have "quiet u s'" by (rule quiet_same_tables) (simp_all add: s' same_catalog_def prop_keys_def)
  ultimately show ?thesis using quiet_catalog_ok(2) by blast
qed

section \<open>Operations that change nothing the invariant reads\<close>

lemma quiet_create_graph: "og_create_graph name s = Inr (g, s') \<Longrightarrow> quiet s s'"
  by (auto simp: og_create_graph_def Let_def bump_schema_version_def same_catalog_def prop_keys_def
      split: sum.splits if_splits intro!: quiet_same_tables)

lemma quiet_bump: "quiet s t \<Longrightarrow> quiet s (bump_schema_version g d t)"
  by (rule quiet_trans [OF _ quiet_view_ops(5)])

lemma quiet_build_index: "build_index ix cols table s = Inr s' \<Longrightarrow> quiet s s'"
  by (auto simp: build_index_def split: option.splits if_splits elim!: quiet_alter)

lemma quiet_index_subtypes: "index_subtypes ix cols tid s = Inr s' \<Longrightarrow> quiet s s'"
  unfolding index_subtypes_def
  by (erule quiet_rfold [rotated]) (auto split: option.splits intro: quiet_build_index)

lemma quiet_create_index: "og_create_index u graph type_name prop s = Inr s' \<Longrightarrow> quiet s s'"
  by (auto simp: og_create_index_def Let_def rbind_eq_Inr_iff dest!: quiet_index_subtypes intro: quiet_bump)

lemma quiet_roles:
  assumes "og_add_role graph rel_type role player_type ordinal card_min card_max s = Inr s'"
  shows "quiet s s'"
proof -
  obtain gid rs n d where s': "s' = bump_schema_version gid d (s\<lparr>roles := rs, next_role := n\<rparr>)"
    using assms by (auto simp: og_add_role_def Let_def rbind_eq_Inr_iff split: if_splits)
  have "quiet s (s\<lparr>roles := rs, next_role := n\<rparr>)" by (rule quiet_same_tables) (simp_all add: same_catalog_def prop_keys_def)
  then show ?thesis unfolding s' by (rule quiet_bump)
qed

lemma quiet_rules:
  assumes "og_add_rule graph rel_type characteristic target_type s = Inr s'"
  shows "quiet s s'"
proof -
  obtain gid rid where g: "graph_id s graph = Inr gid" "type_id s gid rel_type = Inr rid"
    using assms by (auto simp: og_add_rule_def rbind_eq_Inr_iff [of "graph_id s graph"] rbind_eq_Inr_iff [of "type_id s _ rel_type"])
  define add where "add = (\<lambda>tgt. let r = \<lparr>ru_rel = rid, ru_characteristic = to_ascii_lowercase characteristic, ru_target = tgt\<rparr>;
         s = (if tgt \<noteq> None \<and> r \<in> set (rules s) then s else s\<lparr>rules := rules s @ [r]\<rparr>)
     in (Inr (bump_schema_version gid (''add rule on '' @ rel_type) s) :: schema_error + schema))"
  have "rbind (case target_type of None \<Rightarrow> Inr None | Some t \<Rightarrow> rbind (type_id s gid t) (\<lambda>t. Inr (Some t))) add = Inr s'"
    using assms unfolding og_add_rule_def g rbind_Inr Let_def [of "to_ascii_lowercase characteristic"] add_def
    by (simp only: sum.simps split: if_split_asm)
  then obtain tgt where s': "add tgt = Inr s'" unfolding rbind_eq_Inr_iff by blast
  have "quiet s (s\<lparr>rules := rs\<rparr>)" for rs by (rule quiet_same_tables) (simp_all add: same_catalog_def prop_keys_def)
  with s' show ?thesis by (auto simp: add_def Let_def intro!: quiet_bump split: if_splits)
qed

lemma quiet_stamping:
  assumes "og_enable_stamping graph type_name s = Inr s'"
  shows "quiet s s'"
proof -
  obtain gid tid v where v: "rfold (\<lambda>sub s. case storage_table (cat s) sub of Some table \<Rightarrow> stamp_table table s | None \<Rightarrow> Inr s)
       (og_subtypes (type_labels s) tid) (s\<lparr>stamped := List.insert tid (stamped s)\<rparr>) = Inr v"
    and s': "s' = bump_schema_version gid (''enable stamping on '' @ type_name) v"
    using assms by (auto simp: og_enable_stamping_def rbind_eq_Inr_iff)
  have "quiet s (s\<lparr>stamped := List.insert tid (stamped s)\<rparr>)" by (rule quiet_same_tables) (simp_all add: same_catalog_def prop_keys_def)
  also have "quiet \<dots> v" by (rule quiet_rfold [OF _ v]) (auto split: option.splits dest: quiet_stamp_table)
  finally show ?thesis unfolding s' by (rule quiet_bump)
qed

lemma quiet_temporal:
  assumes "og_enable_temporal graph type_name s = Inr s'"
  shows "quiet s s'"
proof -
  obtain gid tid v where v: "rfold enable_table (og_subtypes (type_labels s) tid)
       (s\<lparr>temporal := List.insert tid (temporal s), stamped := List.insert tid (stamped s)\<rparr>) = Inr v"
    and s': "s' = bump_schema_version gid (''enable temporal on '' @ type_name) v"
    using assms by (auto simp: og_enable_temporal_def rbind_eq_Inr_iff split: if_splits)
  have "quiet s (s\<lparr>temporal := List.insert tid (temporal s), stamped := List.insert tid (stamped s)\<rparr>)"
    by (rule quiet_same_tables) (simp_all add: same_catalog_def prop_keys_def)
  also have "quiet \<dots> v" by (rule quiet_rfold [OF _ v]) (rule quiet_enable_table)
  finally show ?thesis unfolding s' by (rule quiet_bump)
qed

lemma quiet_grant: "og_grant role level s = Inr s' \<Longrightarrow> quiet s s'"
proof -
  assume "og_grant role level s = Inr s'"
  then obtain rank where s': "s' = (grant_level role rank s)\<lparr>grantees := record_level role level (grantees s)\<rparr>"
    by (auto simp: og_grant_def rbind_eq_Inr_iff split: if_splits)
  show ?thesis unfolding s' by (intro quiet_base [of role] base_change_record base_change_level)
qed

lemma quiet_revoke: "quiet s (og_revoke role s)"
  by (rule quiet_same_tables) (simp_all add: og_revoke_def same_catalog_def prop_keys_def)

lemma quiet_rows: "quiet s (s\<lparr>write_grants := g\<rparr>)"
  by (rule quiet_same_tables) (simp_all add: same_catalog_def prop_keys_def)

lemma quiet_grant_write:
  assumes "og_grant_write role graph type_name wops props s = Inr s'"
  shows "quiet s s'"
proof -
  obtain t g ts where t: "ensure_writer_base role s = Inr t" and r: "rfold (reapply_for_role role) ts (t\<lparr>write_grants := g\<rparr>) = Inr s'"
    using assms by (auto simp: og_grant_write_def rbind_eq_Inr_iff Let_def split: if_splits option.splits)
  have "quiet s t" by (rule quiet_base [OF base_change_base [OF t]])
  also have "quiet t (t\<lparr>write_grants := g\<rparr>)" by (rule quiet_rows)
  also have "quiet \<dots> s'" by (rule quiet_rfold [OF quiet_reapply r])
  finally show ?thesis .
qed

lemma quiet_revoke_write:
  assumes "og_revoke_write role graph type_name wops s = Inr s'"
  shows "quiet s s'"
proof -
  obtain g ts where r: "rfold (reapply_for_role role) ts (s\<lparr>write_grants := g\<rparr>) = Inr s'"
    using assms by (auto simp: og_revoke_write_def rbind_eq_Inr_iff Let_def)
  have "quiet s (s\<lparr>write_grants := g\<rparr>)" by (rule quiet_rows)
  also have "quiet \<dots> s'" by (rule quiet_rfold [OF quiet_reapply r])
  finally show ?thesis .
qed

section \<open>Declaring properties on the first write\<close>

lemma quiet_widen:
  assumes "widen_subtype col sub s = Inr s'"
  shows "quiet s s'"
proof (cases "storage_table (cat s) sub")
  case None
  with assms show ?thesis by (simp add: widen_subtype_def)
next
  case (Some table)
  let ?n = "try_type_name (cat s) sub"
  let ?s = "case ?n of Some n \<Rightarrow> drop_alias_view n s | None \<Rightarrow> s"
  obtain v w where v: "alter_table table (\<lambda>d. d\<lparr>td_columns := map (\<lambda>(c, ty). (c, if c = col then ''text'' else ty)) (td_columns d)\<rparr>) ?s = Inr v"
    and w: "sync_history sub v = Inr w" and s': "s' = (case ?n of Some n \<Rightarrow> ensure_alias_view n table w | None \<Rightarrow> w)"
    using assms Some by (auto simp: widen_subtype_def Let_def rbind_eq_Inr_iff)
  have "quiet s ?s" by (auto split: option.split)
  also have "quiet ?s v" by (rule quiet_alter [OF v]) (force simp: image_iff)
  also have "quiet v w" by (rule quiet_sync_history [OF w])
  also have "quiet w s'" by (auto simp: s' split: option.split)
  finally show ?thesis .
qed

lemma declare_key_ok:
  assumes "declare_key u d graph type_name t existing (key, v) s = Inr s'" "catalog_ok s"
  shows "catalog_ok s'"
proof -
  consider (none) "s' = s" | (add) want where "og_add_property u d graph type_name key want False False s = Inr s'"
    | (widen) p :: prop_row and subs w where "rfold (widen_subtype (pr_column p)) subs s = Inr w"
        "s' = w\<lparr>properties := map (\<lambda>q. if pr_type q \<in> set subs \<and> pr_name q = key then q\<lparr>pr_dtype := ''text''\<rparr> else q) (properties w)\<rparr>"
  proof (cases "infer_column_type v")
    case None
    with assms(1) show thesis by (intro none) (simp add: declare_key_def)
  next
    case want: (Some want)
    show thesis
    proof (cases "find (\<lambda>p. pr_name p = key) existing")
      case None
      with assms(1) want show thesis by (intro add) (simp add: declare_key_def)
    next
      case (Some p)
      show thesis
      proof (cases "pr_dtype p \<in> set WIDENABLE \<and> \<not> type_accepts (pr_dtype p) want")
        case False
        with assms(1) want Some show thesis by (intro none) (simp add: declare_key_def)
      next
        case True
        let ?subs = "og_subtypes (type_labels s) t"
        have "rbind (rfold (widen_subtype (pr_column p)) ?subs s) (\<lambda>w.
            Inr (w\<lparr>properties := map (\<lambda>q. if pr_type q \<in> set ?subs \<and> pr_name q = key then q\<lparr>pr_dtype := ''text''\<rparr> else q) (properties w)\<rparr>)) = Inr s'"
          using True assms(1) by (simp add: declare_key_def want Some Let_def)
        then show thesis unfolding rbind_eq_Inr_iff sum.inject using widen [of p ?subs] by blast
      qed
    qed
  qed
  then show ?thesis
  proof cases
    case add
    then show ?thesis using assms(2) by (rule og_add_property_ok)
  next
    case widen
    define f where "f = (\<lambda>q :: prop_row. if pr_type q \<in> set subs \<and> pr_name q = key then q\<lparr>pr_dtype := ''text''\<rparr> else q)"
    have "properties s' = map f (properties w)" by (simp add: widen(2) f_def)
    then have "prop_keys s' = (\<lambda>q. (pr_type (f q), pr_name (f q), pr_column (f q))) ` set (properties w)"
      by (simp only: prop_keys_def set_map image_image)
    also have "\<dots> = prop_keys w" unfolding prop_keys_def by (rule image_cong) (auto simp: f_def)
    finally have "quiet w s'" by (intro quiet_same_tables) (simp_all add: same_catalog_def, simp_all add: widen(2))
    moreover have "quiet s w" by (rule quiet_rfold [OF _ widen(1)]) (rule quiet_widen)
    ultimately have "quiet s s'" using quiet_trans by blast
    then show ?thesis using assms(2) by (rule quiet_catalog_ok(2))
  qed (use assms in simp)
qed

lemma declare_new_props_ok:
  assumes "declare_new_props u d t props s = Inr s'" "catalog_ok s"
  shows "catalog_ok s'"
proof -
  have loop: "rfold (declare_key u d graph n t existing) m s = Inr s' \<Longrightarrow> catalog_ok s'" for graph n existing m
    using assms(2) by (elim rfold_keeps [where P = catalog_ok]) (auto intro: declare_key_ok)
  show ?thesis using assms
    by (auto simp: declare_new_props_def Let_def split: if_splits option.splits json.splits prod.splits intro: loop)
qed

section \<open>Every reachable catalog\<close>

text \<open>One call of the extension's schema functions; a failing call leaves the schema as it was.\<close>

inductive schema_step :: "letters \<Rightarrow> schema \<Rightarrow> schema \<Rightarrow> bool" for u where
  Create_graph: "og_create_graph name s = Inr (g, s') \<Longrightarrow> schema_step u s s'"
| Create_type: "og_create_type graph name kind supers abstract s = Inr (t, s') \<Longrightarrow> schema_step u s s'"
| Label_set: "resolve_or_create_label_set gid graph names kind s = Inr (t, s') \<Longrightarrow> schema_step u s s'"
| Add_property: "og_add_property u d graph type_name prop data_type required is_key s = Inr s' \<Longrightarrow> schema_step u s s'"
| New_props: "declare_new_props u d t props s = Inr s' \<Longrightarrow> schema_step u s s'"
| Create_index: "og_create_index u graph type_name prop s = Inr s' \<Longrightarrow> schema_step u s s'"
| Add_role: "og_add_role graph rel_type role player_type ordinal card_min card_max s = Inr s' \<Longrightarrow> schema_step u s s'"
| Add_rule: "og_add_rule graph rel_type characteristic target_type s = Inr s' \<Longrightarrow> schema_step u s s'"
| Stamping: "og_enable_stamping graph type_name s = Inr s' \<Longrightarrow> schema_step u s s'"
| Temporal: "og_enable_temporal graph type_name s = Inr s' \<Longrightarrow> schema_step u s s'"
| Grant: "og_grant role level s = Inr s' \<Longrightarrow> schema_step u s s'"
| Revoke: "schema_step u s (og_revoke role s)"
| Grant_write: "og_grant_write role graph type_name wops props s = Inr s' \<Longrightarrow> schema_step u s s'"
| Revoke_write: "og_revoke_write role graph type_name rwops s = Inr s' \<Longrightarrow> schema_step u s s'"
| Drop_type: "og_drop_type graph name cascade (s, d) = Inr (s', d') \<Longrightarrow> schema_step u s s'"
| Drop_graph: "og_drop_graph name (s, d) = Inr (s', d') \<Longrightarrow> schema_step u s s'"

definition empty_catalog :: "schema \<Rightarrow> bool" where
  "empty_catalog s \<longleftrightarrow> types s = [] \<and> type_parents s = [] \<and> type_labels s = [] \<and> properties s = [] \<and> next_type s \<le> MAX_SEQUENCE + 1"

lemma label_set_result:
  assumes "resolve_or_create_label_set gid graph names kind s = Inr (t, s')"
  shows "declare_labels gid graph kind [] names s = Inr s'" "resolve_label_set s' gid names = One_type t"
proof -
  obtain a where a: "declare_labels gid graph kind [] names s = Inr a"
    "(case resolve_label_set a gid names of One_type t \<Rightarrow> Inr (t, a) | Any_label \<Rightarrow> Inl No_label | Nothing \<Rightarrow> Inl (Not_one_chain names)) = Inr (t, s')"
    using assms by (cases "names = []") (auto simp: resolve_or_create_label_set_def rbind_eq_Inr_iff)
  then show "declare_labels gid graph kind [] names s = Inr s'" "resolve_label_set s' gid names = One_type t"
    by (cases "resolve_label_set a gid names"; simp)+
qed

lemma label_set_ok: "resolve_or_create_label_set gid graph names kind s = Inr (t, s') \<Longrightarrow> catalog_ok s \<Longrightarrow> catalog_ok s'"
  using label_set_result(1) declare_labels_ok by blast

lemma schema_step_ok: "schema_step u s s' \<Longrightarrow> catalog_ok s \<Longrightarrow> catalog_ok s'"
proof (induction rule: schema_step.induct)
  case (Create_type graph name kind supers abstract s t s')
  then show ?case unfolding og_create_type_def by (rule create_type_ok)
qed (auto intro: label_set_ok og_add_property_ok declare_new_props_ok og_drop_type_ok og_drop_graph_ok
    quiet_catalog_ok(2) [OF quiet_create_graph] quiet_catalog_ok(2) [OF quiet_create_index] quiet_catalog_ok(2) [OF quiet_roles]
    quiet_catalog_ok(2) [OF quiet_rules] quiet_catalog_ok(2) [OF quiet_stamping] quiet_catalog_ok(2) [OF quiet_temporal]
    quiet_catalog_ok(2) [OF quiet_grant] quiet_catalog_ok(2) [OF quiet_revoke] quiet_catalog_ok(2) [OF quiet_grant_write]
    quiet_catalog_ok(2) [OF quiet_revoke_write])

lemma empty_catalog_ok: "empty_catalog s \<Longrightarrow> catalog_ok s"
proof -
  assume e: "empty_catalog s"
  then have t: "labels_typed s" by (simp add: empty_catalog_def labels_typed_def)
  have "labels_ok s g" for g using e by (intro labels_ok_empty [OF t]) (simp add: empty_catalog_def link_rows_def)
  with e t show ?thesis
    by (simp add: catalog_ok_def catalog_core_def ids_ok_def parents_ok_def rows_typed_def prop_keys_def empty_catalog_def)
qed

lemma reachable_ok: "(schema_step u)\<^sup>*\<^sup>* s0 s \<Longrightarrow> empty_catalog s0 \<Longrightarrow> catalog_ok s"
  by (induction rule: rtranclp_induct) (auto intro: empty_catalog_ok schema_step_ok)

section \<open>A small catalog\<close>

definition demo_empty :: schema where
  "demo_empty = demo_schema\<lparr>types := [], type_labels := [], properties := [], tables := [], write_grants := [], graphs := [],
     next_graph := 1, next_type := 1\<rparr>"

definition ascii_letters :: letters where
  "ascii_letters = \<lparr>alphabetic = (\<lambda>_. False), numeric = (\<lambda>_. False), char_lower = (\<lambda>c. c)\<rparr>"

definition demo_graph :: schema where
  "demo_graph = demo_empty\<lparr>graphs := [(1, ''kb'')], next_graph := 2, versions := [(1, ''create graph'')]\<rparr>"

definition demo_person :: type_row where
  "demo_person = \<lparr>tr_id = 1, tr_graph = 1, tr_name = ''Person'', tr_kind = CHR ''e'', tr_abstract = False, tr_storage = None\<rparr>"

definition demo_stored :: schema where
  "demo_stored = demo_graph\<lparr>types := [demo_person\<lparr>tr_storage := Some ''og_data.n_1''\<rparr>], next_type := 2,
     tables := [(''og_data.n_1'', base_table ''og_data.n_1'' CHR ''e'')], alias_views := [(''Person'', ''og_data.n_1'')],
     type_labels := [(1, \<lparr>label_type = 1, path_id = 0, lft = 1, rgt = 1025, label_depth = 0\<rparr>)],
     versions := [(1, ''create graph''), (1, ''relabel'')]\<rparr>"

lemmas demo_defs = demo_stored_def demo_graph_def demo_empty_def demo_schema_def demo_person_def

lemma demo_create_graph: "og_create_graph ''kb'' demo_empty = Inr (1, demo_graph)"
  by (simp add: og_create_graph_def graph_id_def demo_defs bump_schema_version_def)

lemma demo_reachable: "empty_catalog demo_empty" "(schema_step ascii_letters)\<^sup>*\<^sup>* demo_empty demo_graph"
  by (simp_all add: schema_step.Create_graph [OF demo_create_graph] r_into_rtranclp)
    (simp add: empty_catalog_def demo_defs)

lemma demo_insert: "insert_type 1 ''Person'' CHR ''e'' False [] demo_graph = Inr (1, demo_graph\<lparr>types := [demo_person], next_type := 2\<rparr>)"
  by (simp add: insert_type_def demo_defs MAX_SEQUENCE_def)

lemma demo_table: "node_table 1 = ''og_data.n_1''"
  by code_simp

lemma demo_storage: "create_storage 1 ''Person'' CHR ''e'' [] (demo_graph\<lparr>types := [demo_person], next_type := 2\<rparr>) =
    Inr (demo_stored\<lparr>type_labels := [], versions := [(1, ''create graph'')]\<rparr>)"
  by (simp add: create_storage_def Let_def demo_table create_table_def table_at_def demo_defs ensure_alias_view_def apply_to_table_def
      apply_to_view_def add_grants_def drop_alias_view_def drop_relations_def view_relation_def set_storage_def)

lemma demo_relabelled: "relabel 1 (demo_stored\<lparr>type_labels := [], versions := [(1, ''create graph'')]\<rparr>) = Inr demo_stored"
proof -
  have "relabel_graph [(1, 1)] [] 1 [] = Inr [(1, \<lparr>label_type = 1, path_id = 0, lft = 1, rgt = 1025, label_depth = 0\<rparr>)]" by code_simp
  moreover have "load_dag [(1, 1)] [] 1 \<noteq> []" by code_simp
  ultimately show ?thesis by (simp add: relabel_def link_rows_def bump_schema_version_def demo_defs)
qed

lemma demo_settings: "inherit_settings graph t demo_stored = Inr demo_stored"
  by (simp add: inherit_settings_def inherits_stamping_def is_temporal_def inherit_history_capture_def replay_write_grants_def demo_defs)

lemma demo_create_type: "create_type_inner ''kb'' ''Person'' ''entity'' [] False demo_graph = Inr (1, demo_stored)"
proof -
  have "kind_letter ''entity'' = Inr CHR ''e''" by code_simp
  moreover have "graph_id demo_graph ''kb'' = Inr 1" "try_type_id demo_graph 1 ''Person'' = None"
    by (simp_all add: graph_id_def try_type_id_def demo_defs)
  ultimately show ?thesis
    by (simp add: create_type_inner_def demo_insert demo_storage demo_relabelled demo_settings Let_def)
qed

lemma demo_label_set: "resolve_or_create_label_set 1 ''kb'' [''Person''] ''entity'' demo_graph = Inr (1, demo_stored)"
proof -
  have "try_type_id demo_graph 1 ''Person'' = None" "try_type_id demo_stored 1 ''Person'' = Some 1"
    by (simp_all add: try_type_id_def demo_defs)
  then show ?thesis
    by (simp add: resolve_or_create_label_set_def demo_create_type resolve_label_set_def most_specific_def)
qed



text \<open>C32: on a reachable catalog, a label set written in a pattern is resolved, its missing labels declared,
  to a type that is at or below the type of every label in the set.\<close>

theorem label_set_below_all:
  assumes "empty_catalog s0" "(schema_step u)\<^sup>*\<^sup>* s0 s" "resolve_or_create_label_set gid graph names kind s = Inr (t, s')"
    "n \<in> set names"
  shows "\<exists>i. try_type_id s' gid n = Some i \<and> inherits s' t i"
proof -
  note r = label_set_result [OF assms(3)]
  have ok: "catalog_ok s'" using reachable_ok [OF assms(2,1)] by (rule label_set_ok [OF assms(3)])
  from r(2) assms(4) have all: "list_all (\<lambda>n. try_type_id s' gid n \<noteq> None) names"
    "most_specific s' (map (\<lambda>n. the (try_type_id s' gid n)) names) = Some t"
    by (auto simp: resolve_label_set_def list_ex_iff list_all_iff split: if_splits option.splits)
  then obtain i where i: "try_type_id s' gid n = Some i" using assms(4) by (auto simp: list_all_iff)
  from all(2) have "list_all (\<lambda>i. t = i \<or> og_is_subtype (type_labels s') t i) (map (\<lambda>n. the (try_type_id s' gid n)) names)"
    by (auto simp: most_specific_def find_Some_iff)
  with i assms(4) have "t = i \<or> og_is_subtype (type_labels s') t i" by (force simp: list_all_iff)
  moreover have "(i, gid) \<in> set (link_rows s')" by (rule type_id_row [of s' gid n i]) (simp_all add: type_id_def i)
  ultimately have "inherits s' t i"
    using labels_decide(1) [OF catalog_ok_simps(4) [OF ok] catalog_ok_simps(3) [OF ok] catalog_ok_simps(2) [OF ok] catalog_ok_simps(1) [OF ok]] by auto
  with i show ?thesis by blast
qed

theorem label_set_below_all_witness:
  "\<exists>s i. try_type_id s 1 ''Person'' = Some i \<and> inherits s 1 i \<and> type_parents s = []"
  using label_set_below_all [OF demo_reachable demo_label_set, of "''Person''"]
  by (intro exI [of _ demo_stored]) (simp add: demo_defs)

end
