(* ===== verification/Write_World.thy ===== *)
theory Write_World
  imports Schema_Reachable Cypher_Eval
begin

text \<open>
  What a write statement runs over: the schema and the instances together, the errors that abort it, and what
  it takes from its surroundings.  PostgreSQL answers the compiled read part of a statement; the compiler's
  verdict on a clause, the rows and the JSON views of instances are functions of the record \<open>engine\<close>.
\<close>

section \<open>The world and the engine\<close>

type_synonym world = "schema \<times> db"

text \<open>\<open>compile_error\<close> judges a clause after those already compiled; \<open>merge_rows\<close> is nothing when the statement
  cannot be built, and its variables carry whether an identifier can pin them.\<close>

record engine =
  classes :: letters
  evaluator :: host
  sum_start :: f64
  compile_error :: "clause list \<Rightarrow> clause \<Rightarrow> world \<Rightarrow> string option"
  bound_vars :: "clause list \<Rightarrow> world \<Rightarrow> string list"
  read_rows :: "clause list \<Rightarrow> projection \<Rightarrow> json \<Rightarrow> world \<Rightarrow> string + json list"
  merge_vars :: "pattern \<Rightarrow> world \<Rightarrow> (string \<times> bool) list option"
  merge_rows :: "pattern \<Rightarrow> (string \<times> i64) list \<Rightarrow> json \<Rightarrow> world \<Rightarrow> (string + json list) option"
  node_view :: "i64 \<Rightarrow> world \<Rightarrow> json option"
  edge_view :: "i64 \<Rightarrow> world \<Rightarrow> json option"

datatype write_error =
    Schema_refused schema_error
  | Store_refused store_error
  | Panicked
  | Name_taken string string
  | No_such_name string string
  | No_dimensions
  | No_property
  | Dimensions_out_of_range i32
  | Unknown_metric string
  | Ddl_not_alone
  | Union_write
  | Cypher_failed string
  | Second_with
  | With_computes
  | With_not_last
  | Not_one_type
  | Unbound string
  | Still_connected i64 nat
  | Label_fixed string

type_synonym 'a run = "world \<Rightarrow> write_error + 'a \<times> world"

section \<open>Schema and store operations as steps of a statement\<close>

definition schema_change :: "schema_op \<Rightarrow> unit run" where
  "schema_change f w = (case w of (s, d) \<Rightarrow> (case f s of Inl e \<Rightarrow> Inl (Schema_refused e) | Inr s \<Rightarrow> Inr ((), (s, d))))"

definition schema_value :: "(schema \<Rightarrow> schema_error + 'a \<times> schema) \<Rightarrow> 'a run" where
  "schema_value f w = (case w of (s, d) \<Rightarrow> (case f s of Inl e \<Rightarrow> Inl (Schema_refused e) | Inr (x, s) \<Rightarrow> Inr (x, (s, d))))"

definition store_change :: "(catalog \<Rightarrow> 'a stmt) \<Rightarrow> 'a run" where
  "store_change f w = (case w of (s, d) \<Rightarrow> (case f (cat s) d of Inl e \<Rightarrow> Inl (Store_refused e) | Inr (x, d) \<Rightarrow> Inr (x, (s, d))))"

definition store_guard :: "store_error + 'a \<Rightarrow> write_error + 'a" where
  "store_guard r = (case r of Inl e \<Rightarrow> Inl (Store_refused e) | Inr x \<Rightarrow> Inr x)"

definition schema_guard :: "schema_error + 'a \<Rightarrow> write_error + 'a" where
  "schema_guard r = (case r of Inl e \<Rightarrow> Inl (Schema_refused e) | Inr x \<Rightarrow> Inr x)"

lemma schema_change_Inr: "schema_change f (s, d) = Inr (x, (s', d')) \<longleftrightarrow> f s = Inr s' \<and> d' = d"
  by (auto simp: schema_change_def split: sum.splits)

lemma schema_value_Inr: "schema_value f (s, d) = Inr (x, (s', d')) \<longleftrightarrow> f s = Inr (x, s') \<and> d' = d"
  by (auto simp: schema_value_def split: sum.splits)

lemma store_change_Inr: "store_change f (s, d) = Inr (x, (s', d')) \<longleftrightarrow> f (cat s) d = Inr (x, d') \<and> s' = s"
  by (auto simp: store_change_def split: sum.splits)

lemma guard_Inr [simp]: "store_guard r = Inr x \<longleftrightarrow> r = Inr x" "schema_guard q = Inr y \<longleftrightarrow> q = Inr y"
  by (auto simp: store_guard_def schema_guard_def split: sum.splits)

text \<open>\<open>eval(\<dots>).unwrap_or(Null)\<close>: an error is null, a panic ends the statement.\<close>

definition value_of :: "engine \<Rightarrow> json \<Rightarrow> expr \<Rightarrow> env \<Rightarrow> write_error + json" where
  "value_of e ps x env = (case eval (evaluator e) ps x env of
       Inr v \<Rightarrow> Inr v | Inl (Eval_failed m) \<Rightarrow> Inr JNull | Inl No_argument \<Rightarrow> Inl Panicked)"

section \<open>The invariant of a world\<close>

text \<open>The catalog is consistent and the adjacency index mirrors the registry of edges.\<close>

definition world_ok :: "world \<Rightarrow> bool" where
  "world_ok w \<longleftrightarrow> catalog_ok (fst w) \<and> store_ok (snd w)"

definition keeps_world :: "'a run \<Rightarrow> bool" where
  "keeps_world f \<longleftrightarrow> (\<forall>w x w'. f w = Inr (x, w') \<longrightarrow> world_ok w \<longrightarrow> world_ok w')"

lemma keeps_worldI: "(\<And>s d x s' d'. f (s, d) = Inr (x, (s', d')) \<Longrightarrow> catalog_ok s \<Longrightarrow> store_ok d \<Longrightarrow> catalog_ok s' \<and> store_ok d') \<Longrightarrow> keeps_world f"
  by (force simp: keeps_world_def world_ok_def)

lemma keeps_worldD: "keeps_world f \<Longrightarrow> f w = Inr (x, w') \<Longrightarrow> world_ok w \<Longrightarrow> world_ok w'"
  unfolding keeps_world_def by blast

named_theorems keeps

lemma keeps_return [keeps]: "keeps_world (\<lambda>w. Inr (f w, w))"
  by (simp add: keeps_world_def)

lemma keeps_fail [keeps]: "keeps_world (\<lambda>w. Inl (err w))"
  by (simp add: keeps_world_def)

lemma keeps_bind [keeps]: "keeps_world f \<Longrightarrow> (\<And>x. keeps_world (g x)) \<Longrightarrow> keeps_world (\<lambda>w. rbind (f w) (\<lambda>(x, w). g x w))"
  unfolding keeps_world_def rbind_eq_Inr_iff by (auto split: prod.splits)

lemma keeps_guard [keeps]: "(\<And>x. keeps_world (g x)) \<Longrightarrow> keeps_world (\<lambda>w. rbind (r w) (\<lambda>x. g x w))"
  by (auto simp: keeps_world_def rbind_eq_Inr_iff)

lemma keeps_if [keeps]: "keeps_world f \<Longrightarrow> keeps_world g \<Longrightarrow> keeps_world (\<lambda>w. if b w then f w else g w)"
  by (simp add: keeps_world_def)

lemma keeps_choice [keeps]: "keeps_world f \<Longrightarrow> (\<And>x. keeps_world (g x)) \<Longrightarrow> keeps_world (\<lambda>w. case r w of None \<Rightarrow> f w | Some x \<Rightarrow> g x w)"
  by (auto simp: keeps_world_def split: option.split)

lemma keeps_prod [keeps]: "(\<And>a b. keeps_world (g a b)) \<Longrightarrow> keeps_world (case p of (a, b) \<Rightarrow> g a b)"
  by (simp split: prod.split)

lemma keeps_prod_at [keeps]: "(\<And>a b. keeps_world (g a b)) \<Longrightarrow> keeps_world (\<lambda>w. case p w of (a, b) \<Rightarrow> g a b w)"
  by (simp add: keeps_world_def split: prod.split)

lemma keeps_let [keeps]: "(\<And>x. keeps_world (g x)) \<Longrightarrow> keeps_world (\<lambda>w. let x = r w in g x w)"
  by (simp add: keeps_world_def Let_def)

lemma keeps_cong: "(\<And>w. f w = g w) \<Longrightarrow> keeps_world g \<Longrightarrow> keeps_world f"
  by (simp add: keeps_world_def)

lemma keeps_schema_change: "(\<And>s s'. f s = Inr s' \<Longrightarrow> catalog_ok s \<Longrightarrow> catalog_ok s') \<Longrightarrow> keeps_world (schema_change f)"
  by (rule keeps_worldI) (auto simp: schema_change_Inr)

lemma keeps_schema_change_at: "(\<And>w s s'. f w s = Inr s' \<Longrightarrow> catalog_ok s \<Longrightarrow> catalog_ok s') \<Longrightarrow> keeps_world (\<lambda>w. schema_change (f w) w)"
  by (rule keeps_worldI) (auto simp: schema_change_Inr)

lemma keeps_schema_value: "(\<And>s x s'. f s = Inr (x, s') \<Longrightarrow> catalog_ok s \<Longrightarrow> catalog_ok s') \<Longrightarrow> keeps_world (schema_value f)"
  by (rule keeps_worldI) (auto simp: schema_value_Inr)

lemma keeps_store_change: "(\<And>c d x d'. f c d = Inr (x, d') \<Longrightarrow> store_ok d \<Longrightarrow> store_ok d') \<Longrightarrow> keeps_world (store_change f)"
  by (rule keeps_worldI) (auto simp: store_change_Inr)

end
