(* ===== verification/Neo4j_Ddl.thy ===== *)
theory Neo4j_Ddl
  imports Write_World
begin

text \<open>
  \<open>CREATE INDEX\<close>, \<open>CREATE CONSTRAINT\<close> and \<open>DROP\<close> as a Cypher client sends them (\<open>compat/ddl.rs\<close>, with
  \<open>og_add_embedding\<close> of \<open>vector/mod.rs\<close>): the names are rows of \<open>og_catalog.compat_index\<close>, what they stand
  for are indexes of the typed tables.  A statement declares the labels and the properties it names.
\<close>

section \<open>Embeddings\<close>

definition metric_op :: "string \<Rightarrow> string option" where
  "metric_op metric =
     (let m = to_ascii_lowercase metric in
      if m = ''cosine'' then Some ''vector_cosine_ops''
      else if m \<in> {''l2'', ''euclidean''} then Some ''vector_l2_ops''
      else if m \<in> {''ip'', ''inner_product'', ''dot''} then Some ''vector_ip_ops''
      else None)"

definition record_embedding :: "embedding_row \<Rightarrow> schema \<Rightarrow> schema" where
  "record_embedding r s =
     (let same = (\<lambda>q. em_type q = em_type r \<and> em_prop q = em_prop r) in
      s\<lparr>embeddings := (if list_ex same (embeddings s) then map (\<lambda>q. if same q then r else q) (embeddings s)
                        else embeddings s @ [r])\<rparr>)"

definition og_add_embedding :: "engine \<Rightarrow> string \<Rightarrow> string \<Rightarrow> string \<Rightarrow> i32 \<Rightarrow> string \<Rightarrow> string option \<Rightarrow> unit run" where
  "og_add_embedding e graph type_name prop dims metric source w =
     (if \<not> (1 \<le> sint dims \<and> sint dims \<le> 16000) then Inl (Dimensions_out_of_range dims) else
      rbind (schema_guard (graph_id (fst w) graph)) (\<lambda>gid.
      rbind (schema_guard (type_id (fst w) gid type_name)) (\<lambda>tid.
      (case metric_op metric of
         None \<Rightarrow> Inl (Unknown_metric (to_ascii_lowercase metric))
       | Some opclass \<Rightarrow>
           schema_change (\<lambda>s.
             rbind (og_add_property (classes e) (snd w) graph type_name prop (''vector('' @ show_int (sint dims) @ '')'') False False s) (\<lambda>s.
             let col = column_name (classes e) prop in
             rbind (index_subtypes (\<lambda>sub. \<lparr>xd_name = ''hnsw_'' @ show_int (sint sub) @ ''_'' @ col, xd_unique = False,
                      xd_method = ''hnsw '' @ opclass, xd_columns = [col], xd_expression = None\<rparr>) [col] tid s) (\<lambda>s.
             Inr (record_embedding \<lparr>em_type = tid, em_prop = prop, em_dims = dims, em_metric = metric, em_source = source\<rparr> s)))) w))))"

section \<open>The names\<close>

definition lookup_index :: "schema \<Rightarrow> i32 \<Rightarrow> string \<Rightarrow> compat_row option" where
  "lookup_index s gid name = find (\<lambda>r. ci_graph r = gid \<and> ci_name r = name) (compat_index s)"

definition name_exists :: "schema \<Rightarrow> i32 \<Rightarrow> string \<Rightarrow> bool" where
  "name_exists s gid name \<longleftrightarrow> lookup_index s gid name \<noteq> None"

text \<open>\<open>ON CONFLICT\<close> does not update whether the index is over a relation.\<close>

definition register :: "compat_row \<Rightarrow> schema \<Rightarrow> schema" where
  "register r s =
     (let same = (\<lambda>q. ci_graph q = ci_graph r \<and> ci_name q = ci_name r) in
      s\<lparr>compat_index := (if list_ex same (compat_index s)
          then map (\<lambda>q. if same q then r\<lparr>ci_entity := ci_entity q\<rparr> else q) (compat_index s)
          else compat_index s @ [r])\<rparr>)"

definition default_name :: "string \<Rightarrow> string \<Rightarrow> string list \<Rightarrow> string" where
  "default_name kind label props = kind @ ''_'' @ label @ ''_'' @ join ''_'' props"

definition sanitize :: "string \<Rightarrow> string" where
  "sanitize s = map (\<lambda>c. case c of [b] \<Rightarrow> if is_digit_b b \<or> is_upper_b b \<or> is_lower_b b then b else CHR ''_'' | _ \<Rightarrow> CHR ''_'') (utf8_chars s)"

section \<open>What the indexes cover\<close>

definition ensure_property :: "engine \<Rightarrow> db \<Rightarrow> string \<Rightarrow> i32 \<Rightarrow> string \<Rightarrow> string \<Rightarrow> schema_op" where
  "ensure_property e d graph tid label prop s =
     (if list_ex (\<lambda>p. pr_type p = tid \<and> pr_name p = prop) (properties s) then Inr s
      else og_add_property (classes e) d graph label prop ''string'' False False s)"

definition constraint_index :: "letters \<Rightarrow> string list \<Rightarrow> string \<Rightarrow> i32 \<Rightarrow> index_def" where
  "constraint_index u props name sub =
     unique_index (''uq_'' @ show_int (sint sub) @ ''_'' @ sanitize name) (map (column_name u) props)"

definition enforce_unique :: "engine \<Rightarrow> i32 \<Rightarrow> string list \<Rightarrow> string \<Rightarrow> schema_op" where
  "enforce_unique e tid props name =
     index_subtypes (constraint_index (classes e) props name) (map (column_name (classes e)) props) tid"

definition fulltext_expr :: "letters \<Rightarrow> string list \<Rightarrow> string" where
  "fulltext_expr u props = ''to_tsvector('' @ quote_json_key ''simple'' @ '', '' @
     join ('' || '' @ quote_json_key '' '' @ '' || '')
       (map (\<lambda>p. ''coalesce('' @ column_name u p @ ''::text, '' @ quote_json_key '''' @ '')'') props) @ '')''"

definition build_fulltext :: "engine \<Rightarrow> i32 \<Rightarrow> string list \<Rightarrow> string \<Rightarrow> schema_op" where
  "build_fulltext e tid props name =
     index_subtypes (\<lambda>sub. \<lparr>xd_name = ''ftx_'' @ show_int (sint sub) @ ''_'' @ sanitize name, xd_unique = False,
         xd_method = ''gin'', xd_columns = [], xd_expression = Some (fulltext_expr (classes e) props)\<rparr>)
       (map (column_name (classes e)) props) tid"

section \<open>The statements\<close>

fun kind_name :: "index_kind \<Rightarrow> string" where
  "kind_name Btree = ''btree''"
| "kind_name Vector = ''vector''"
| "kind_name Fulltext = ''fulltext''"

text \<open>\<open>OPTIONS\<close> are evaluated over no bindings, entry by entry.\<close>

definition option_values :: "engine \<Rightarrow> json \<Rightarrow> (string \<times> expr) list \<Rightarrow> write_error + json" where
  "option_values e ps opts =
     rbind (rmap (\<lambda>(k, x). rbind (value_of e ps x (\<lambda>_. None)) (\<lambda>v. Inr (k, v))) opts) (\<lambda>kv. Inr (json_object kv))"

definition build_index_kind :: "engine \<Rightarrow> string \<Rightarrow> i32 \<Rightarrow> string \<Rightarrow> string list \<Rightarrow> string \<Rightarrow> json \<Rightarrow> index_kind \<Rightarrow> unit run" where
  "build_index_kind e graph tid label props name opts kind w = (case kind of
       Vector \<Rightarrow> (case Option.bind (json_get opts ''vector.dimensions'') json_as_i64 of
           None \<Rightarrow> Inl No_dimensions
         | Some dims \<Rightarrow>
             let metric = (case Option.bind (json_get opts ''vector.similarity_function'') json_as_str of
                             Some m \<Rightarrow> m | None \<Rightarrow> ''cosine'') in
             (case props of
                [] \<Rightarrow> Inl No_property
              | p # _ \<Rightarrow> og_add_embedding e graph label p (ucast dims) (to_ascii_lowercase metric) None w))
     | Fulltext \<Rightarrow> schema_change (\<lambda>s. rbind (rfold (ensure_property e (snd w) graph tid label) props s)
                                      (build_fulltext e tid props name)) w
     | Btree \<Rightarrow> schema_change (rfold (og_create_index (classes e) graph label) props) w)"

definition create_index :: "engine \<Rightarrow> string \<Rightarrow> json \<Rightarrow> string option \<Rightarrow> index_kind \<Rightarrow> bool \<Rightarrow> string \<Rightarrow> string list \<Rightarrow> (string \<times> expr) list \<Rightarrow> bool \<Rightarrow> unit run" where
  "create_index e graph ps given kind on_rel label props options if_not_exists w =
     rbind (schema_guard (graph_id (fst w) graph)) (\<lambda>gid.
     let name = (case given of Some n \<Rightarrow> n | None \<Rightarrow> default_name (kind_name kind) label props) in
     if name_exists (fst w) gid name then (if if_not_exists then Inr ((), w) else Inl (Name_taken name graph))
     else
     rbind (schema_value (resolve_or_create_label_set gid graph [label] (if on_rel then ''relation'' else ''entity'')) w) (\<lambda>(tid, w).
     rbind (option_values e ps options) (\<lambda>opts.
     rbind (build_index_kind e graph tid label props name opts kind w) (\<lambda>(_, w).
     schema_change (\<lambda>s. Inr (register \<lparr>ci_name = name, ci_graph = gid, ci_kind = kind_name kind,
       ci_entity = (if on_rel then CHR ''r'' else CHR ''e''), ci_type = label, ci_props = props, ci_options = opts\<rparr> s)) w))))"

definition create_constraint :: "engine \<Rightarrow> string \<Rightarrow> string option \<Rightarrow> string \<Rightarrow> string list \<Rightarrow> constraint_kind \<Rightarrow> bool \<Rightarrow> unit run" where
  "create_constraint e graph given label props kind if_not_exists w =
     rbind (schema_guard (graph_id (fst w) graph)) (\<lambda>gid.
     let name = (case given of Some n \<Rightarrow> n | None \<Rightarrow> default_name ''constraint'' label props) in
     if name_exists (fst w) gid name then (if if_not_exists then Inr ((), w) else Inl (Name_taken name graph))
     else
     rbind (schema_value (resolve_or_create_label_set gid graph [label] ''entity'') w) (\<lambda>(tid, w).
     schema_change (\<lambda>s.
       rbind (rfold (ensure_property e (snd w) graph tid label) props s) (\<lambda>s.
       rbind (if kind \<in> {Unique, NodeKey} then enforce_unique e tid props name s else Inr s) (\<lambda>s.
       Inr (register \<lparr>ci_name = name, ci_graph = gid, ci_kind = ''constraint'', ci_entity = CHR ''e'', ci_type = label,
         ci_props = props, ci_options = JObj []\<rparr> s)))) w))"

definition drop_named :: "string \<Rightarrow> string \<Rightarrow> bool \<Rightarrow> bool \<Rightarrow> unit run" where
  "drop_named graph name if_exists is_constraint w =
     rbind (schema_guard (graph_id (fst w) graph)) (\<lambda>gid.
     if \<not> name_exists (fst w) gid name
     then (if if_exists then Inr ((), w) else Inl (No_such_name (if is_constraint then ''constraint'' else ''index'') name))
     else schema_change (\<lambda>s. Inr (s\<lparr>compat_index := filter (\<lambda>r. \<not> (ci_graph r = gid \<and> ci_name r = name)) (compat_index s)\<rparr>)) w)"

fun run_statement :: "engine \<Rightarrow> string \<Rightarrow> json \<Rightarrow> ddl \<Rightarrow> unit run" where
  "run_statement e graph ps (CreateIndex name kind on_rel label props options ine) w =
     create_index e graph ps name kind on_rel label props options ine w"
| "run_statement e graph ps (CreateConstraint name label props kind ine) w = create_constraint e graph name label props kind ine w"
| "run_statement e graph ps (Drop name if_exists is_constraint) w = drop_named graph name if_exists is_constraint w"

text \<open>The counter moves whenever the statement returned, also when it returned having done nothing.\<close>

fun counted :: "ddl \<Rightarrow> counters \<Rightarrow> counters" where
  "counted (CreateIndex _ _ _ _ _ _ _) = index_added"
| "counted (CreateConstraint _ _ _ _ _) = constraint_added"
| "counted (Drop _ _ True) = constraint_removed"
| "counted (Drop _ _ False) = index_removed"

definition run_ddl :: "engine \<Rightarrow> string \<Rightarrow> json \<Rightarrow> ddl \<Rightarrow> unit run" where
  "run_ddl e graph ps stmt w =
     rbind (run_statement e graph ps stmt w) (\<lambda>(_, (s, d)). Inr ((), (s, d\<lparr>stats := counted stmt (stats d)\<rparr>)))"

section \<open>The catalog stays consistent\<close>

lemma record_embedding_ok [simp]: "catalog_ok s \<Longrightarrow> catalog_ok (record_embedding r s)"
  by (rule quiet_catalog_ok(2), rule quiet_same_tables)
    (simp_all add: record_embedding_def same_catalog_def prop_keys_def Let_def)

lemma register_ok [simp]: "catalog_ok s \<Longrightarrow> catalog_ok (register r s)"
  by (rule quiet_catalog_ok(2), rule quiet_same_tables) (simp_all add: register_def same_catalog_def prop_keys_def Let_def)

lemma index_subtypes_ok: "index_subtypes ix cols tid s = Inr s' \<Longrightarrow> catalog_ok s \<Longrightarrow> catalog_ok s'"
  by (rule quiet_catalog_ok(2) [OF quiet_index_subtypes])

lemma keeps_embedding: "keeps_world (og_add_embedding e graph type_name prop dims metric source)"
  by (rule keeps_worldI)
    (auto simp: og_add_embedding_def schema_change_Inr rbind_eq_Inr_iff Let_def split: if_splits option.splits
      dest!: og_add_property_ok index_subtypes_ok)

lemma ensure_property_ok: "ensure_property e d graph tid label prop s = Inr s' \<Longrightarrow> catalog_ok s \<Longrightarrow> catalog_ok s'"
  by (auto simp: ensure_property_def split: if_splits intro: og_add_property_ok)

lemma ensure_properties_ok: "rfold (ensure_property e d graph tid label) props s = Inr s' \<Longrightarrow> catalog_ok s \<Longrightarrow> catalog_ok s'"
  by (erule rfold_keeps [where P = catalog_ok]) (auto intro: ensure_property_ok)

lemma create_indexes_ok: "rfold (og_create_index u graph label) props s = Inr s' \<Longrightarrow> catalog_ok s \<Longrightarrow> catalog_ok s'"
  by (erule rfold_keeps [where P = catalog_ok]) (auto intro: quiet_catalog_ok(2) [OF quiet_create_index])

lemma keeps_build: "keeps_world (build_index_kind e graph tid label props name opts kind)"
proof (cases kind)
  case Btree
  then show ?thesis
    by (intro keeps_worldI) (auto simp: build_index_kind_def schema_change_Inr intro: create_indexes_ok)
next
  case Vector
  have "build_index_kind e graph tid label props name opts kind (s, d) = Inr (x, (s', d')) \<Longrightarrow>
      \<exists>p dims metric. og_add_embedding e graph label p dims metric None (s, d) = Inr (x, (s', d'))" for s d x s' d'
    by (auto simp: build_index_kind_def Vector Let_def split: option.splits list.splits)
  then show ?thesis using keeps_worldD [OF keeps_embedding]
    by (intro keeps_worldI) (fastforce simp: world_ok_def)
next
  case Fulltext
  then show ?thesis
    by (intro keeps_worldI)
      (auto simp: build_index_kind_def build_fulltext_def schema_change_Inr rbind_eq_Inr_iff
        dest!: index_subtypes_ok ensure_properties_ok)
qed

lemma keeps_label_set: "keeps_world (schema_value (resolve_or_create_label_set gid graph names kind))"
  by (rule keeps_schema_value) (rule label_set_ok)

lemma keeps_create_index: "keeps_world (create_index e graph ps given kind on_rel label props options ine)"
  unfolding create_index_def Let_def by (intro keeps keeps_label_set keeps_build keeps_schema_change) auto

lemma keeps_create_constraint: "keeps_world (create_constraint e graph given label props kind ine)"
  unfolding create_constraint_def Let_def
  by (intro keeps keeps_label_set keeps_schema_change_at)
    (auto simp: rbind_eq_Inr_iff enforce_unique_def split: if_splits dest!: ensure_properties_ok index_subtypes_ok)

lemma drop_name_ok: "catalog_ok s \<Longrightarrow> catalog_ok (s\<lparr>compat_index := rows\<rparr>)"
  by (rule quiet_catalog_ok(2), rule quiet_same_tables) (simp_all add: same_catalog_def prop_keys_def)

lemma keeps_drop_named: "keeps_world (drop_named graph name if_exists is_constraint)"
  unfolding drop_named_def by (intro keeps keeps_schema_change) (auto intro: drop_name_ok)

lemma keeps_statement: "keeps_world (run_statement e graph ps stmt)"
proof (cases stmt)
  case (CreateIndex name kind on_rel label props options ine)
  then show ?thesis using keeps_create_index by (simp add: keeps_world_def)
next
  case (CreateConstraint name label props kind ine)
  then show ?thesis using keeps_create_constraint by (simp add: keeps_world_def)
next
  case (Drop name if_exists is_constraint)
  then show ?thesis using keeps_drop_named by (simp add: keeps_world_def)
qed

lemma stats_ok [simp]: "store_ok (d\<lparr>stats := c\<rparr>) = store_ok d"
  by (simp add: store_ok_def)

lemma keeps_ddl: "keeps_world (run_ddl e graph ps stmt)"
proof (rule keeps_worldI)
  fix s d x s' d'
  assume "run_ddl e graph ps stmt (s, d) = Inr (x, (s', d'))" "catalog_ok s" "store_ok d"
  then show "catalog_ok s' \<and> store_ok d'" using keeps_worldD [OF keeps_statement, of e graph ps stmt "(s, d)"]
    by (auto simp: run_ddl_def rbind_eq_Inr_iff world_ok_def)
qed

end
