(* ===== verification/Cypher_Write.thy ===== *)
theory Cypher_Write
  imports Neo4j_Ddl
begin

text \<open>
  The write path of the Cypher engine (\<open>cypher/mod.rs\<close>): a statement binds its variables by one read, then
  runs its write clauses once per binding.  A write declares the labels and properties it meets and goes
  through the operations of the instance store.
\<close>

section \<open>Values of bindings\<close>

definition id_of :: "json \<Rightarrow> i64 option" where
  "id_of v = Option.bind (json_get v ''_id'') json_as_i64"

definition is_edge :: "json \<Rightarrow> bool" where
  "is_edge v \<longleftrightarrow> json_get v ''_src'' \<noteq> None"

definition env_of :: "json \<Rightarrow> env" where
  "env_of row = (case row of JObj m \<Rightarrow> map_of m | _ \<Rightarrow> (\<lambda>_. None))"

definition props_json :: "engine \<Rightarrow> json \<Rightarrow> (string \<times> expr) list \<Rightarrow> env \<Rightarrow> write_error + json" where
  "props_json e ps props env =
     rbind (rmap (\<lambda>(k, x). rbind (value_of e ps x env) (\<lambda>v. Inr (k, v))) props) (\<lambda>kv. Inr (json_object kv))"

definition node_json :: "engine \<Rightarrow> i64 \<Rightarrow> world \<Rightarrow> json" where
  "node_json e i w = (case node_view e i w of Some v \<Rightarrow> v | None \<Rightarrow> JObj [(''_id'', json_of_i64 i)])"

definition edge_json :: "engine \<Rightarrow> i64 \<Rightarrow> world \<Rightarrow> json" where
  "edge_json e i w = (case edge_view e i w of Some v \<Rightarrow> v | None \<Rightarrow> JObj [(''_id'', json_of_i64 i)])"

section \<open>Writing one instance\<close>

text \<open>The operations of the instance store with the step that declares what is new: the checks that come
  before the properties are planned come before a column is added, too.\<close>

definition declare_props :: "engine \<Rightarrow> i32 \<Rightarrow> json \<Rightarrow> unit run" where
  "declare_props e t props w =
     rbind (store_guard (check_reserved_keys props)) (\<lambda>_.
     schema_change (declare_new_props (classes e) (snd w) t props) w)"

definition typed_table :: "catalog \<Rightarrow> char \<Rightarrow> i32 \<Rightarrow> string \<Rightarrow> store_error + string" where
  "typed_table c kind t type_name =
     rbind (type_kind c t) (\<lambda>k.
     if k \<noteq> kind then Inl (if kind = CHR ''e'' then Not_entity type_name else Not_relation type_name) else
     (case storage_table c t of None \<Rightarrow> Inl (Abstract_type type_name) | Some table \<Rightarrow> Inr table))"

definition create_node :: "engine \<Rightarrow> i32 \<Rightarrow> string \<Rightarrow> json \<Rightarrow> i64 run" where
  "create_node e t type_name props w =
     rbind (store_guard (typed_table (cat (fst w)) CHR ''e'' t type_name)) (\<lambda>_.
     rbind (store_guard (refuse_virtual_write (cat (fst w)) t)) (\<lambda>_.
     rbind (declare_props e t props w) (\<lambda>(_, w).
     store_change (\<lambda>c. create_node_inner c t type_name props) w)))"

definition create_edge :: "engine \<Rightarrow> i32 \<Rightarrow> string \<Rightarrow> i64 \<Rightarrow> i64 \<Rightarrow> json \<Rightarrow> i64 run" where
  "create_edge e t rel_type src dst props w =
     rbind (store_guard (typed_table (cat (fst w)) CHR ''r'' t rel_type)) (\<lambda>_.
     rbind (store_guard (validate_roles (cat (fst w)) t rel_type src dst)) (\<lambda>_.
     rbind (declare_props e t props w) (\<lambda>(_, w).
     store_change (\<lambda>c. create_edge_inner c t rel_type src dst props) w)))"

definition set_node_props :: "engine \<Rightarrow> i64 \<Rightarrow> json \<Rightarrow> unit run" where
  "set_node_props e i props w =
     rbind (store_guard (refuse_virtual_write (cat (fst w)) (id_type i))) (\<lambda>_.
     if storage_table (cat (fst w)) (id_type i) = None then Inl (Store_refused (No_storage i)) else
     rbind (declare_props e (id_type i) props w) (\<lambda>(_, w).
     store_change (\<lambda>c. set_node_props_inner c i props) w))"

definition set_edge_props :: "engine \<Rightarrow> i64 \<Rightarrow> json \<Rightarrow> unit run" where
  "set_edge_props e i props w =
     (if storage_table (cat (fst w)) (id_type i) = None then Inl (Store_refused (No_storage i)) else
     rbind (declare_props e (id_type i) props w) (\<lambda>(_, w).
     store_change (\<lambda>c. set_edge_props_inner c i props) w))"

definition write_props :: "engine \<Rightarrow> i64 \<Rightarrow> bool \<Rightarrow> json \<Rightarrow> unit run" where
  "write_props e i on_edge props = (if on_edge then set_edge_props e i props else set_node_props e i props)"

section \<open>SET and REMOVE\<close>

definition label_carried :: "schema \<Rightarrow> i64 \<Rightarrow> string \<Rightarrow> bool" where
  "label_carried s i l =
     (let gid = (case type_at (cat s) (id_type i) of Some r \<Rightarrow> tr_graph r | None \<Rightarrow> 0) in
      case try_type_id s gid l of Some want \<Rightarrow> og_is_subtype (type_labels s) (id_type i) want | None \<Rightarrow> False)"

fun apply_op :: "engine \<Rightarrow> json \<Rightarrow> set_op \<Rightarrow> env \<Rightarrow> env run" where
  "apply_op e ps (SetProp var prop x) env w = (case env var of
       None \<Rightarrow> Inl (Unbound var)
     | Some entity \<Rightarrow> (case id_of entity of
         None \<Rightarrow> Inr (env, w)
       | Some i \<Rightarrow>
           rbind (value_of e ps x env) (\<lambda>v.
           rbind (write_props e i (is_edge entity) (JObj [(prop, v)]) w) (\<lambda>(_, w).
           Inr (case entity of JObj m \<Rightarrow> env(var \<mapsto> JObj (btree_insert prop v m)) | _ \<Rightarrow> env, w)))))"
| "apply_op e ps (SetMap var x merge) env w = (case env var of
       None \<Rightarrow> Inl (Unbound var)
     | Some entity \<Rightarrow> (case id_of entity of
         None \<Rightarrow> Inr (env, w)
       | Some i \<Rightarrow>
           rbind (value_of e ps x env) (\<lambda>v.
           rbind (if merge then Inr ((), w) else write_props e i (is_edge entity) (JObj []) w) (\<lambda>(_, w).
           rbind (write_props e i (is_edge entity) v w) (\<lambda>(_, w).
           Inr (env, w))))))"
| "apply_op e ps (SetLabel var ls) env w = (case env var of
       None \<Rightarrow> Inl (Unbound var)
     | Some entity \<Rightarrow> (case id_of entity of
         None \<Rightarrow> Inr (env, w)
       | Some i \<Rightarrow> (case find (\<lambda>l. \<not> label_carried (fst w) i l) ls of
           Some l \<Rightarrow> Inl (Label_fixed l)
         | None \<Rightarrow> Inr (env, w))))"

fun apply_set :: "engine \<Rightarrow> json \<Rightarrow> set_op list \<Rightarrow> env \<Rightarrow> env run" where
  "apply_set e ps [] env w = Inr (env, w)"
| "apply_set e ps (op # ops) env w = rbind (apply_op e ps op env w) (\<lambda>(env, w). apply_set e ps ops env w)"

section \<open>CREATE and MERGE\<close>

definition create_rel :: "engine \<Rightarrow> string \<Rightarrow> i32 \<Rightarrow> json \<Rightarrow> rel_pat \<Rightarrow> i64 \<Rightarrow> i64 \<Rightarrow> env \<Rightarrow> env run" where
  "create_rel e graph gid ps rel a b env w = (case rel_types rel of
       [t] \<Rightarrow>
         let (src, dst) = (if rel_dir rel = In then (b, a) else (a, b)) in
         rbind (schema_value (resolve_or_create_label_set gid graph [t] ''relation'') w) (\<lambda>(tid, w).
         rbind (props_json e ps (rel_props rel) env) (\<lambda>props.
         rbind (create_edge e tid t src dst props w) (\<lambda>(eid, w).
         Inr (case rel_var rel of Some v \<Rightarrow> env(v \<mapsto> edge_json e eid w) | None \<Rightarrow> env, w))))
     | _ \<Rightarrow> Inl Not_one_type)"

definition bound_node :: "node_pat \<Rightarrow> env \<Rightarrow> json option" where
  "bound_node np env = (case Option.bind (node_var np) env of
       Some v \<Rightarrow> json_get v ''_id'' | None \<Rightarrow> None)"

definition node_of_pattern :: "engine \<Rightarrow> string \<Rightarrow> i32 \<Rightarrow> json \<Rightarrow> node_pat \<Rightarrow> env \<Rightarrow> (i64 \<times> env) run" where
  "node_of_pattern e graph gid ps np env w = (case bound_node np env of
       Some v \<Rightarrow> (case json_as_i64 v of Some i \<Rightarrow> Inr ((i, env), w) | None \<Rightarrow> Inl Panicked)
     | None \<Rightarrow>
         rbind (schema_value (resolve_or_create_label_set gid graph (labels np) ''entity'') w) (\<lambda>(tid, w).
         rbind (props_json e ps (node_props np) env) (\<lambda>props.
         rbind (create_node e tid (if labels np = [] then [] else last (labels np)) props w) (\<lambda>(i, w).
         Inr ((i, case node_var np of Some v \<Rightarrow> env(v \<mapsto> node_json e i w) | None \<Rightarrow> env), w)))))"

fun create_elems :: "engine \<Rightarrow> string \<Rightarrow> i32 \<Rightarrow> json \<Rightarrow> i64 option \<Rightarrow> rel_pat option \<Rightarrow> pat_elem list \<Rightarrow> env \<Rightarrow> env run" where
  "create_elems e graph gid ps prev pending [] env w = Inr (env, w)"
| "create_elems e graph gid ps prev pending (Rel rp # els) env w = create_elems e graph gid ps prev (Some rp) els env w"
| "create_elems e graph gid ps prev pending (Node np # els) env w =
     rbind (node_of_pattern e graph gid ps np env w) (\<lambda>((i, env), w).
     rbind (case (prev, pending) of (Some src, Some rel) \<Rightarrow> create_rel e graph gid ps rel src i env w | _ \<Rightarrow> Inr (env, w)) (\<lambda>(env, w).
     create_elems e graph gid ps (Some i) None els env w))"

definition create_pattern :: "engine \<Rightarrow> string \<Rightarrow> i32 \<Rightarrow> json \<Rightarrow> pattern \<Rightarrow> env \<Rightarrow> env run" where
  "create_pattern e graph gid ps p env = create_elems e graph gid ps None None (elems p) env"

text \<open>The variables an earlier clause bound to an instance pin the pattern to it.\<close>

definition pins :: "(string \<times> bool) list \<Rightarrow> env \<Rightarrow> (string \<times> i64) list" where
  "pins vars env = List.map_filter (\<lambda>(v, pinnable). case Option.bind (env v) id_of of
       Some i \<Rightarrow> if pinnable then Some (v, i) else None | None \<Rightarrow> None) vars"

definition merge_found :: "engine \<Rightarrow> json \<Rightarrow> pattern \<Rightarrow> env \<Rightarrow> world \<Rightarrow> write_error + (string \<times> json) list option" where
  "merge_found e ps p env w = (case merge_vars e p w of
       None \<Rightarrow> Inr None
     | Some [] \<Rightarrow> Inr None
     | Some vars \<Rightarrow> (case merge_rows e p (pins vars env) ps w of
         None \<Rightarrow> Inr None
       | Some (Inl err) \<Rightarrow> Inl (Cypher_failed err)
       | Some (Inr (JObj m # _)) \<Rightarrow> Inr (Some m)
       | Some (Inr _) \<Rightarrow> Inr None))"

definition merge_pattern :: "engine \<Rightarrow> string \<Rightarrow> i32 \<Rightarrow> json \<Rightarrow> pattern \<Rightarrow> set_op list \<Rightarrow> set_op list \<Rightarrow> env \<Rightarrow> env run" where
  "merge_pattern e graph gid ps p on_create on_match env w =
     rbind (merge_found e ps p env w) (\<lambda>found. case found of
       Some m \<Rightarrow> apply_set e ps on_match (env ++ map_of m) w
     | None \<Rightarrow> rbind (create_pattern e graph gid ps p env w) (\<lambda>(env, w). apply_set e ps on_create env w))"

section \<open>DELETE\<close>

definition relationships_of :: "db \<Rightarrow> i64 \<Rightarrow> nat" where
  "relationships_of d i = sum_list (map seg_n (filter (\<lambda>r. seg_src r = i) (og_adj d)))"

definition delete_value :: "engine \<Rightarrow> json \<Rightarrow> bool \<Rightarrow> unit run" where
  "delete_value e v detach w = (case id_of v of
       None \<Rightarrow> Inr ((), w)
     | Some i \<Rightarrow>
         if is_edge v then rbind (store_change (\<lambda>c. delete_edge_inner c i) w) (\<lambda>(_, w). Inr ((), w))
         else if \<not> detach \<and> relationships_of (snd w) i > 0 then Inl (Still_connected i (relationships_of (snd w) i))
         else rbind (store_change (\<lambda>c. delete_node_inner c i) w) (\<lambda>(_, w). Inr ((), w)))"

fun delete_all :: "engine \<Rightarrow> json \<Rightarrow> expr list \<Rightarrow> bool \<Rightarrow> env \<Rightarrow> unit run" where
  "delete_all e ps [] detach env w = Inr ((), w)"
| "delete_all e ps (x # xs) detach env w =
     rbind (value_of e ps x env) (\<lambda>v.
     rbind (delete_value e v detach w) (\<lambda>(_, w). delete_all e ps xs detach env w))"

section \<open>Renaming a class\<close>

text \<open>\<open>REMOVE n:Old SET n:New\<close>: each clause adds to what is removed or added, once.\<close>

type_synonym slots = "(string \<times> string) option \<times> (string \<times> string) option"

fun label_ops :: "bool \<Rightarrow> set_op list \<Rightarrow> slots \<Rightarrow> slots option" where
  "label_ops is_remove [] sl = Some sl"
| "label_ops is_remove (SetLabel var ls # ops) (removed, added) =
     (case ls of
        [l] \<Rightarrow> if (if is_remove then removed else added) \<noteq> None then None
               else label_ops is_remove ops (if is_remove then (Some (var, l), added) else (removed, Some (var, l)))
      | _ \<Rightarrow> None)"
| "label_ops is_remove (_ # ops) sl = label_ops is_remove ops sl"

fun rename_slots :: "clause list \<Rightarrow> slots \<Rightarrow> slots option" where
  "rename_slots [] sl = Some sl"
| "rename_slots (Remove ops # cs) sl = Option.bind (label_ops True ops sl) (rename_slots cs)"
| "rename_slots (SetC ops # cs) sl = Option.bind (label_ops False ops sl) (rename_slots cs)"
| "rename_slots (_ # cs) sl = rename_slots cs sl"

definition rename_type :: "i32 \<Rightarrow> i32 \<Rightarrow> string \<Rightarrow> string \<Rightarrow> schema \<Rightarrow> schema" where
  "rename_type gid t old new s =
     (let s = s\<lparr>types := map (\<lambda>r. if tr_id r = t then r\<lparr>tr_name := new\<rparr> else r) (types s)\<rparr>;
          s = drop_alias_view old s;
          s = (case storage_table (cat s) t of Some table \<Rightarrow> ensure_alias_view new table s | None \<Rightarrow> s);
          s = s\<lparr>compat_index := map (\<lambda>r. if ci_graph r = gid \<and> ci_type r = old then r\<lparr>ci_type := new\<rparr> else r) (compat_index s)\<rparr>
      in bump_schema_version gid (''rename '' @ old @ '' -> '' @ new) s)"

definition rename_label :: "i32 \<Rightarrow> clause list \<Rightarrow> schema \<Rightarrow> bool \<times> schema" where
  "rename_label gid cs s = (case rename_slots cs (None, None) of
       Some (Some (rv, old), Some (av, new)) \<Rightarrow>
         if rv \<noteq> av then (False, s)
         else (case try_type_id s gid old of
           None \<Rightarrow> (try_type_id s gid new \<noteq> None, s)
         | Some t \<Rightarrow> if try_type_id s gid new \<noteq> None then (False, s) else (True, rename_type gid t old new s))
     | _ \<Rightarrow> (False, s))"

section \<open>RETURN\<close>

definition item_name :: "return_item \<Rightarrow> string" where
  "item_name it = (case item_alias it of Some a \<Rightarrow> a | None \<Rightarrow> default_alias (item_expr it))"

text \<open>An aggregate keeps its argument per row.\<close>

definition item_value :: "engine \<Rightarrow> json \<Rightarrow> env \<Rightarrow> return_item \<Rightarrow> write_error + json" where
  "item_value e ps env it =
     (let per_row = value_of e ps (item_expr it) env in
      case item_expr it of
        Func nm args d \<Rightarrow> if is_aggregate (item_expr it)
          then (case args of [] \<Rightarrow> Inr (JBool True) | Star # _ \<Rightarrow> Inr (JBool True) | a # _ \<Rightarrow> value_of e ps a env)
          else per_row
      | _ \<Rightarrow> per_row)"

definition return_row :: "engine \<Rightarrow> json \<Rightarrow> projection \<Rightarrow> env \<Rightarrow> write_error + json" where
  "return_row e ps proj env =
     rbind (rmap (\<lambda>it. rbind (item_value e ps env it) (\<lambda>v. Inr (item_name it, v))) (items proj)) (\<lambda>kv. Inr (json_object kv))"

text \<open>\<open>cmp_json\<close>: -1, 0 and 1 are Less, Equal and Greater.\<close>

fun json_as_f64 :: "json \<Rightarrow> f64 option" where
  "json_as_f64 (JNum n) = num_as_f64 n"
| "json_as_f64 _ = None"

definition cmp_json :: "engine \<Rightarrow> json \<Rightarrow> json \<Rightarrow> int" where
  "cmp_json e a b = (case (json_as_f64 a, json_as_f64 b) of
       (Some x, Some y) \<Rightarrow> if f64_less x y then -1 else if f64_less y x then 1 else 0
     | _ \<Rightarrow> (let x = json_text (evaluator e) a; y = json_text (evaluator e) b in if x < y then -1 else if y < x then 1 else 0))"

text \<open>Of equal elements \<open>min_by\<close> keeps the first and \<open>max_by\<close> the last.\<close>

definition min_by :: "('a \<Rightarrow> 'a \<Rightarrow> int) \<Rightarrow> 'a list \<Rightarrow> 'a option" where
  "min_by cmp xs = (case xs of [] \<Rightarrow> None | x # xs \<Rightarrow> Some (foldl (\<lambda>m y. if cmp m y = 1 then y else m) x xs))"

definition max_by :: "('a \<Rightarrow> 'a \<Rightarrow> int) \<Rightarrow> 'a list \<Rightarrow> 'a option" where
  "max_by cmp xs = (case xs of [] \<Rightarrow> None | x # xs \<Rightarrow> Some (foldl (\<lambda>m y. if cmp m y = 1 then m else y) x xs))"

text \<open>The first of the values with the same text.\<close>

fun distinct_by :: "('a \<Rightarrow> 'b) \<Rightarrow> 'a list \<Rightarrow> 'b set \<Rightarrow> 'a list" where
  "distinct_by f [] seen = []"
| "distinct_by f (x # xs) seen = (if f x \<in> seen then distinct_by f xs seen else x # distinct_by f xs (insert (f x) seen))"

definition sum_f64 :: "engine \<Rightarrow> f64 list \<Rightarrow> f64" where
  "sum_f64 e xs = foldl f64_add (sum_start e) xs"

definition fold_values :: "engine \<Rightarrow> string \<Rightarrow> expr list \<Rightarrow> json list \<Rightarrow> json list \<Rightarrow> json" where
  "fold_values e f args rows values =
     (let nums = List.map_filter json_as_f64 values in
      if f = ''count'' then json_of_len (case args of Star # _ \<Rightarrow> length rows | _ \<Rightarrow> length values)
      else if f = ''collect'' then JArr values
      else if f = ''sum'' then json_of_f64 (sum_f64 e nums)
      else if f = ''avg'' then
        (if nums = [] then JNull
         else json_of_f64 (f64_div (sum_f64 e nums) (the (num_as_f64 (PosInt (of_nat (length nums)))))))
      else if f = ''min'' then (case min_by (cmp_json e) values of Some v \<Rightarrow> v | None \<Rightarrow> JNull)
      else if f = ''max'' then (case max_by (cmp_json e) values of Some v \<Rightarrow> v | None \<Rightarrow> JNull)
      else JNull)"

definition folded_item :: "engine \<Rightarrow> json list \<Rightarrow> return_item \<Rightarrow> json" where
  "folded_item e rows it = (case item_expr it of
       Func nm args d \<Rightarrow>
         (let vs = filter (\<lambda>v. v \<noteq> JNull) (List.map_filter (\<lambda>r. json_get r (item_name it)) rows)
          in fold_values e (to_ascii_lowercase nm) args rows (if d then distinct_by (json_text (evaluator e)) vs {} else vs))
     | _ \<Rightarrow> (case rows of [] \<Rightarrow> JNull | r # _ \<Rightarrow> (case json_get r (item_name it) of Some v \<Rightarrow> v | None \<Rightarrow> JNull)))"

definition fold_aggregates :: "engine \<Rightarrow> projection \<Rightarrow> json list \<Rightarrow> json" where
  "fold_aggregates e proj rows = json_object (map (\<lambda>it. (item_name it, folded_item e rows it)) (items proj))"

section \<open>The statement\<close>

definition only_labels :: "set_op list \<Rightarrow> bool" where
  "only_labels ops = list_all (\<lambda>op. case op of SetLabel _ _ \<Rightarrow> True | _ \<Rightarrow> False) ops"

fun create_patterns :: "engine \<Rightarrow> string \<Rightarrow> i32 \<Rightarrow> json \<Rightarrow> pattern list \<Rightarrow> env \<Rightarrow> env run" where
  "create_patterns e graph gid ps [] env w = Inr (env, w)"
| "create_patterns e graph gid ps (p # pats) env w =
     rbind (create_pattern e graph gid ps p env w) (\<lambda>(env, w). create_patterns e graph gid ps pats env w)"

text \<open>A clause changes the bindings and adds to the rows; what is not a write clause is passed over.\<close>

fun run_clause :: "engine \<Rightarrow> string \<Rightarrow> i32 \<Rightarrow> json \<Rightarrow> bool \<Rightarrow> clause \<Rightarrow> env \<Rightarrow> (env \<times> json list) run" where
  "run_clause e graph gid ps renamed (Create pats) env w =
     rbind (create_patterns e graph gid ps pats env w) (\<lambda>(env, w). Inr ((env, []), w))"
| "run_clause e graph gid ps renamed (Merge p on_create on_match) env w =
     rbind (merge_pattern e graph gid ps p on_create on_match env w) (\<lambda>(env, w). Inr ((env, []), w))"
| "run_clause e graph gid ps renamed (SetC ops) env w =
     (if renamed \<and> only_labels ops then Inr ((env, []), w)
      else rbind (apply_set e ps ops env w) (\<lambda>(env, w). Inr ((env, []), w)))"
| "run_clause e graph gid ps renamed (Remove ops) env w =
     (if renamed \<and> only_labels ops then Inr ((env, []), w)
      else rbind (apply_set e ps ops env w) (\<lambda>(env, w). Inr ((env, []), w)))"
| "run_clause e graph gid ps renamed (Delete xs detach) env w =
     rbind (delete_all e ps xs detach env w) (\<lambda>(_, w). Inr ((env, []), w))"
| "run_clause e graph gid ps renamed (Return proj) env w = rbind (return_row e ps proj env) (\<lambda>r. Inr ((env, [r]), w))"
| "run_clause e graph gid ps renamed c env w = Inr ((env, []), w)"

fun run_clauses :: "engine \<Rightarrow> string \<Rightarrow> i32 \<Rightarrow> json \<Rightarrow> bool \<Rightarrow> clause list \<Rightarrow> env \<Rightarrow> json list run" where
  "run_clauses e graph gid ps renamed [] env w = Inr ([], w)"
| "run_clauses e graph gid ps renamed (c # cs) env w =
     rbind (run_clause e graph gid ps renamed c env w) (\<lambda>((env, out), w).
     rbind (run_clauses e graph gid ps renamed cs env w) (\<lambda>(more_rows, w). Inr (out @ more_rows, w)))"

fun run_bindings :: "engine \<Rightarrow> string \<Rightarrow> i32 \<Rightarrow> json \<Rightarrow> bool \<Rightarrow> clause list \<Rightarrow> env list \<Rightarrow> json list run" where
  "run_bindings e graph gid ps renamed cs [] w = Inr ([], w)"
| "run_bindings e graph gid ps renamed cs (env # envs) w =
     rbind (run_clauses e graph gid ps renamed cs env w) (\<lambda>(out, w).
     rbind (run_bindings e graph gid ps renamed cs envs w) (\<lambda>(more_rows, w). Inr (out @ more_rows, w)))"

fun is_read_clause :: "clause \<Rightarrow> bool" where
  "is_read_clause (Match _ _ _) \<longleftrightarrow> True"
| "is_read_clause (Unwind _ _) \<longleftrightarrow> True"
| "is_read_clause (With _ _) \<longleftrightarrow> True"
| "is_read_clause _ \<longleftrightarrow> False"

definition plain_variable :: "return_item \<Rightarrow> bool" where
  "plain_variable it = (case item_expr it of
       Var v \<Rightarrow> (case item_alias it of Some a \<Rightarrow> a = v | None \<Rightarrow> True) | _ \<Rightarrow> False)"

text \<open>What the read part is refused for, clause after clause, and the projection of its \<open>WITH\<close>.\<close>

fun read_part :: "engine \<Rightarrow> world \<Rightarrow> clause list \<Rightarrow> projection option \<Rightarrow> clause list \<Rightarrow> write_error + projection option" where
  "read_part e w seen carried [] = Inr carried"
| "read_part e w seen carried (c # cs) =
     (case c of
        With proj cond \<Rightarrow>
          if carried \<noteq> None then Inl Second_with
          else if \<not> list_all plain_variable (items proj) then Inl With_computes
          else (case compile_error e seen c w of
            Some m \<Rightarrow> Inl (Cypher_failed m) | None \<Rightarrow> read_part e w (seen @ [c]) (Some proj) cs)
      | _ \<Rightarrow> (case compile_error e seen c w of
            Some m \<Rightarrow> Inl (Cypher_failed m) | None \<Rightarrow> read_part e w (seen @ [c]) carried cs))"

definition carry_all :: "string list \<Rightarrow> projection" where
  "carry_all vs = \<lparr>items = map (\<lambda>v. \<lparr>item_expr = Var v, item_alias = Some v\<rparr>) vs, dedup = False, order = [],
     skip = None, limit = None\<rparr>"

definition bindings :: "engine \<Rightarrow> json \<Rightarrow> clause list \<Rightarrow> world \<Rightarrow> write_error + env list" where
  "bindings e ps reads w =
     (if reads = [] then Inr [\<lambda>_. None] else
      rbind (read_part e w [] None reads) (\<lambda>carried.
      if carried \<noteq> None \<and> (case last reads of With _ _ \<Rightarrow> False | _ \<Rightarrow> True) then Inl With_not_last else
      let proj = (case carried of Some p \<Rightarrow> p | None \<Rightarrow> carry_all (bound_vars e reads w)) in
      if items proj = [] then Inr [\<lambda>_. None] else
      (case read_rows e reads proj ps w of
         Inl m \<Rightarrow> Inl (Cypher_failed m)
       | Inr rows \<Rightarrow> Inr (map env_of rows))))"

definition result_rows :: "engine \<Rightarrow> clause list \<Rightarrow> json list \<Rightarrow> json list" where
  "result_rows e cs rows =
     (case List.map_filter (\<lambda>c. case c of Return proj \<Rightarrow> Some proj | _ \<Rightarrow> None) cs of
        [] \<Rightarrow> rows
      | proj # _ \<Rightarrow> if list_ex (\<lambda>it. is_aggregate (item_expr it)) (items proj) then [fold_aggregates e proj rows] else rows)"

definition run_clause_list :: "engine \<Rightarrow> string \<Rightarrow> json \<Rightarrow> clause list \<Rightarrow> json list run" where
  "run_clause_list e graph ps cs w =
     rbind (schema_guard (graph_id (fst w) graph)) (\<lambda>gid.
     let reads = takeWhile is_read_clause cs; writes = dropWhile is_read_clause cs in
     rbind (bindings e ps reads w) (\<lambda>envs.
     let (renamed, s) = rename_label gid writes (fst w) in
     rbind (run_bindings e graph gid ps renamed writes envs (s, snd w)) (\<lambda>(rows, w).
     Inr (result_rows e writes rows, w))))"

fun run_write :: "engine \<Rightarrow> string \<Rightarrow> json \<Rightarrow> query \<Rightarrow> json list run" where
  "run_write e graph ps (Query cs tl_query) w = (case cs of
       Ddl stmt # rest \<Rightarrow>
         if rest \<noteq> [] then Inl Ddl_not_alone else rbind (run_ddl e graph ps stmt w) (\<lambda>(_, w). Inr ([], w))
     | _ \<Rightarrow> if tl_query \<noteq> None then Inl Union_write else run_clause_list e graph ps cs w)"

section \<open>What a caller asks of a query\<close>

fun is_write_clause :: "clause \<Rightarrow> bool" where
  "is_write_clause (Create _) \<longleftrightarrow> True"
| "is_write_clause (Merge _ _ _) \<longleftrightarrow> True"
| "is_write_clause (SetC _) \<longleftrightarrow> True"
| "is_write_clause (Remove _) \<longleftrightarrow> True"
| "is_write_clause (Delete _ _) \<longleftrightarrow> True"
| "is_write_clause (Ddl _) \<longleftrightarrow> True"
| "is_write_clause _ \<longleftrightarrow> False"

fun is_write :: "query \<Rightarrow> bool" where
  "is_write (Query cs tl_query) \<longleftrightarrow>
     (case tl_query of Some (all, tail) \<Rightarrow> is_write tail | None \<Rightarrow> False) \<or> list_ex is_write_clause cs"

definition cypher_columns :: "clause list \<Rightarrow> string list" where
  "cypher_columns cs =
     (case List.map_filter (\<lambda>c. case c of Return proj \<Rightarrow> Some proj | _ \<Rightarrow> None) (rev cs) of
        [] \<Rightarrow> []
      | proj # _ \<Rightarrow> if list_ex (\<lambda>it. item_expr it = Star) (items proj) then [] else map item_name (items proj))"

fun describe_elem :: "pat_elem \<Rightarrow> string" where
  "describe_elem (Node n) = ''('' @ (case node_var n of Some v \<Rightarrow> v | None \<Rightarrow> []) @
     (if labels n = [] then [] else '':'' @ join '':'' (labels n)) @ '')''"
| "describe_elem (Rel r) =
     (let t = (if rel_types r = [] then [] else '':'' @ join ''|'' (rel_types r)) in
      case rel_dir r of
        Out \<Rightarrow> ''-['' @ t @ '']->'' | In \<Rightarrow> ''<-['' @ t @ '']-'' | Both \<Rightarrow> ''-['' @ t @ '']-'')"

definition describe :: "pat_elem list \<Rightarrow> string" where
  "describe els = concat (map describe_elem els)"

end
