(* ===== verification/Write_Invariant.thy ===== *)
theory Write_Invariant
  imports Cypher_Write
begin

text \<open>
  Every write statement of the Cypher engine keeps the catalog consistent and the adjacency index the mirror
  of the edge registry, whatever the read part answers and whichever clauses the statement has.
\<close>

section \<open>The operations of the store\<close>

lemma create_node_effect:
  assumes "create_node_inner c t n props d = Inr (i, d')"
  obtains d1 where "alloc_id t d = Inr (i, d1)" "next_id d' = next_id d1" "og_edge d' = og_edge d" "og_adj d' = og_adj d"
    "og_node d' = og_node d @ [(i, t)]"
proof -
  from assms obtain d1 where a: "alloc_id t d = Inr (i, d1)"
    and d': "next_id d' = next_id d1" "og_edge d' = og_edge d1" "og_adj d' = og_adj d1" "og_node d' = og_node d1 @ [(i, t)]"
    by (auto simp: create_node_inner_def rbind_eq_Inr_iff Let_def split: if_splits option.splits)
  from a have "og_edge d1 = og_edge d" "og_adj d1 = og_adj d" "og_node d1 = og_node d"
    by (auto simp: alloc_id_def split: sum.splits)
  with d' show ?thesis by (intro that [OF a]) simp_all
qed

lemma create_node_ok:
  assumes "create_node_inner c t n props d = Inr (i, d')" "store_ok d"
  shows "store_ok d'"
proof -
  from create_node_effect [OF assms(1)] obtain d1 where a: "alloc_id t d = Inr (i, d1)" "next_id d' = next_id d1"
    and e: "og_edge d' = og_edge d" "og_adj d' = og_adj d" .
  note al = alloc_ok [OF a(1) assms(2)]
  have n: "next_id d' = (next_id d)(t := next_id d t + 1)" by (simp add: a(2) al(1))
  have "\<exists>l < next_id d' (er_type x). make_id 0 (er_type x) (of_nat l) = Inr (er_id x)" if h: "x \<in> set (og_edge d)" for x
  proof -
    obtain l where "l < next_id d (er_type x)" "make_id 0 (er_type x) (of_nat l) = Inr (er_id x)"
      using h assms(2) by (auto simp: store_ok_def)
    then show ?thesis by (intro exI [of _ l]) (auto simp: n)
  qed
  moreover have "next_id d' s \<le> 2 ^ 36" for s using assms(2) al(3) by (simp add: n store_ok_def)
  ultimately show ?thesis using assms(2) by (simp add: store_ok_def e)
qed

lemma set_props_ok:
  "set_node_props_inner c i props d = Inr (x, d') \<Longrightarrow> store_ok d \<Longrightarrow> store_ok d'"
  "set_edge_props_inner c i props d = Inr (y, d') \<Longrightarrow> store_ok d \<Longrightarrow> store_ok d'"
  by (auto simp: set_node_props_inner_def set_edge_props_inner_def rbind_eq_Inr_iff Let_def store_ok_def split: option.splits if_splits)

lemma keeps_store_ops [keeps]:
  "keeps_world (store_change (\<lambda>c. create_node_inner c t n props))"
  "keeps_world (store_change (\<lambda>c. create_edge_inner c t n src dst props))"
  "keeps_world (store_change (\<lambda>c. set_node_props_inner c i props))"
  "keeps_world (store_change (\<lambda>c. set_edge_props_inner c i props))"
  "keeps_world (store_change (\<lambda>c. delete_edge_inner c i))"
  "keeps_world (store_change (\<lambda>c. delete_node_inner c i))"
  by (rule keeps_store_change, blast intro: create_node_ok create_edge_ok set_props_ok delete_edge_ok dest: delete_node_effect)+

section \<open>Writing one instance\<close>

lemma keeps_declare [keeps]: "keeps_world (declare_props e t props)"
  unfolding declare_props_def by (intro keeps keeps_schema_change_at) (rule declare_new_props_ok)

lemma keeps_instances [keeps]:
  "keeps_world (create_node e t n props)" "keeps_world (create_edge e t n src dst props)"
  "keeps_world (set_node_props e i props)" "keeps_world (set_edge_props e i props)"
  unfolding create_node_def create_edge_def set_node_props_def set_edge_props_def by (intro keeps)+

lemma keeps_write_props [keeps]: "keeps_world (write_props e i on_edge props)"
  by (simp add: write_props_def keeps)

section \<open>The clauses\<close>

lemma keeps_op [keeps]: "keeps_world (apply_op e ps opn env)"
proof (cases opn)
  case (SetProp var k x)
  show ?thesis unfolding SetProp by (rule keeps_cong, rule apply_op.simps) (intro keeps)
next
  case (SetMap var x merge)
  show ?thesis unfolding SetMap by (rule keeps_cong, rule apply_op.simps) (intro keeps)
next
  case (SetLabel var ls)
  show ?thesis unfolding SetLabel by (rule keeps_cong, rule apply_op.simps) (intro keeps)
qed

lemma keeps_set [keeps]: "keeps_world (apply_set e ps ops env)"
proof (induction ops arbitrary: env)
  case (Cons opn ops)
  show ?case by (rule keeps_cong, rule apply_set.simps) (intro keeps Cons)
qed (simp add: keeps_world_def)

lemma keeps_labels [keeps]: "keeps_world (schema_value (resolve_or_create_label_set gid graph names kind))"
  by (rule keeps_label_set)

lemma keeps_rel [keeps]: "keeps_world (create_rel e graph gid ps rel a b env)"
proof (cases "\<exists>t. rel_types rel = [t]")
  case True
  then obtain t where "rel_types rel = [t]" ..
  then show ?thesis
    by (intro keeps_cong [OF create_rel_def]) (simp only: list.case, intro keeps)
next
  case False
  then have "create_rel e graph gid ps rel a b env = (\<lambda>w. Inl Not_one_type)"
    by (auto simp: create_rel_def fun_eq_iff split: list.splits)
  then show ?thesis by (simp add: keeps)
qed

lemma keeps_node [keeps]: "keeps_world (node_of_pattern e graph gid ps np env)"
  by (rule keeps_cong, rule node_of_pattern_def) (intro keeps)

lemma keeps_elems [keeps]: "keeps_world (create_elems e graph gid ps prev pending els env)"
proof (induction els arbitrary: prev pending env)
  case (Cons el els)
  show ?case
  proof (cases el)
    case (Node np)
    show ?thesis unfolding Node by (rule keeps_cong, rule create_elems.simps) (intro keeps Cons.IH)
  next
    case (Rel rp)
    show ?thesis unfolding Rel by (rule keeps_cong, rule create_elems.simps) (rule Cons.IH)
  qed
qed (simp add: keeps_world_def)

lemma keeps_create [keeps]: "keeps_world (create_pattern e graph gid ps p env)"
  by (simp add: create_pattern_def keeps)

lemma keeps_patterns [keeps]: "keeps_world (create_patterns e graph gid ps pats env)"
proof (induction pats arbitrary: env)
  case (Cons p pats)
  show ?case by (rule keeps_cong, rule create_patterns.simps) (intro keeps Cons.IH)
qed (simp add: keeps_world_def)

lemma keeps_merge [keeps]: "keeps_world (merge_pattern e graph gid ps p on_create on_match env)"
  by (rule keeps_cong, rule merge_pattern_def) (intro keeps)

lemma keeps_delete_value [keeps]: "keeps_world (delete_value e v detach)"
  by (rule keeps_cong, rule delete_value_def) (intro keeps)

lemma keeps_delete [keeps]: "keeps_world (delete_all e ps xs detach env)"
proof (induction xs)
  case (Cons x xs)
  show ?case by (rule keeps_cong, rule delete_all.simps) (intro keeps Cons.IH)
qed (simp add: keeps_world_def)

lemma keeps_clause [keeps]: "keeps_world (run_clause e graph gid ps renamed c env)"
  by (cases c; rule keeps_cong; (simp only: run_clause.simps)?; (rule refl)?; intro keeps)

lemma keeps_clauses [keeps]: "keeps_world (run_clauses e graph gid ps renamed cs env)"
proof (induction cs arbitrary: env)
  case (Cons c cs)
  show ?case by (rule keeps_cong, rule run_clauses.simps) (intro keeps Cons.IH)
qed (simp add: keeps_world_def)

lemma keeps_bindings [keeps]: "keeps_world (run_bindings e graph gid ps renamed cs envs)"
proof (induction envs)
  case (Cons env envs)
  show ?case by (rule keeps_cong, rule run_bindings.simps) (intro keeps Cons.IH)
qed (simp add: keeps_world_def)

section \<open>Renaming a class\<close>

lemma renamed_rows_ok:
  assumes "catalog_ok s" "s' = s\<lparr>types := map f (types s)\<rparr>"
    and f: "\<And>r. tr_id (f r) = tr_id r \<and> tr_graph (f r) = tr_graph r \<and> tr_storage (f r) = tr_storage r \<and>
      tr_abstract (f r) = tr_abstract r \<and> tr_kind (f r) = tr_kind r"
  shows "catalog_ok s'"
proof -
  have l: "link_rows s' = link_rows s" by (simp add: assms(2) link_rows_def f o_def)
  have "is_parent s' = is_parent s" by (simp add: assms(2) is_parent_def fun_eq_iff)
  then have i: "inherits s' = inherits s" by simp
  have k: "prop_keys s' = prop_keys s" "type_labels s' = type_labels s" "type_parents s' = type_parents s"
    "columns_of s' = columns_of s" "next_type s' = next_type s"
    by (simp_all add: assms(2) prop_keys_def columns_of_def table_at_def fun_eq_iff)
  have h: "has_col s' = has_col s" by (simp add: has_col_def k fun_eq_iff)
  have "row_ok s' (f r) = row_ok s r" for r by (simp add: row_ok_def f i k h stored_as_def)
  then have "\<forall>r \<in> set (types s'). row_ok s' r" using assms(1) by (auto simp: catalog_ok_def catalog_core_def assms(2))
  moreover have "ids_ok s'" using assms(1) by (simp add: catalog_ok_def catalog_core_def ids_ok_def assms(2) o_def f)
  ultimately show ?thesis using assms(1)
    by (simp add: catalog_ok_def catalog_core_def parents_ok_def labels_typed_def labels_ok_def rows_typed_def l k)
      (simp add: assms(2) image_image f)
qed

lemma rename_type_ok: "catalog_ok s \<Longrightarrow> catalog_ok (rename_type gid t old new s)"
proof -
  assume ok: "catalog_ok s"
  define s1 where "s1 = s\<lparr>types := map (\<lambda>r. if tr_id r = t then r\<lparr>tr_name := new\<rparr> else r) (types s)\<rparr>"
  define s2 where "s2 = (case storage_table (cat (drop_alias_view old s1)) t of
      Some table \<Rightarrow> ensure_alias_view new table (drop_alias_view old s1) | None \<Rightarrow> drop_alias_view old s1)"
  define s3 where "s3 = s2\<lparr>compat_index := map (\<lambda>r. if ci_graph r = gid \<and> ci_type r = old then r\<lparr>ci_type := new\<rparr> else r) (compat_index s2)\<rparr>"
  have "catalog_ok s1" by (rule renamed_rows_ok [OF ok s1_def]) simp
  moreover have "quiet s1 s2" unfolding s2_def
    by (auto split: option.split intro: quiet_trans [OF quiet_view_ops(4) quiet_alias])
  ultimately have "catalog_ok s2" by (rule quiet_catalog_ok(2) [rotated])
  then have "catalog_ok s3" unfolding s3_def by (rule drop_name_ok)
  then show ?thesis unfolding rename_type_def Let_def s1_def [symmetric] s2_def [symmetric] s3_def [symmetric]
    by (rule quiet_catalog_ok(2) [OF quiet_view_ops(5)])
qed

lemma rename_label_ok: "rename_label gid cs s = (b, s') \<Longrightarrow> catalog_ok s \<Longrightarrow> catalog_ok s'"
  by (auto simp: rename_label_def rename_type_ok split: option.splits if_splits prod.splits)

section \<open>The statement\<close>

lemma keeps_clause_list: "keeps_world (run_clause_list e graph ps cs)"
proof (rule keeps_worldI)
  fix s d x s' d'
  assume run: "run_clause_list e graph ps cs (s, d) = Inr (x, (s', d'))" and ok: "catalog_ok s" "store_ok d"
  let ?reads = "takeWhile is_read_clause cs" and ?writes = "dropWhile is_read_clause cs"
  obtain gid where gid: "graph_id s graph = Inr gid" using run by (auto simp: run_clause_list_def rbind_eq_Inr_iff)
  obtain renamed t where rn: "rename_label gid ?writes s = (renamed, t)" by fastforce
  obtain envs rows where b: "run_bindings e graph gid ps renamed ?writes envs (t, d) = Inr (rows, (s', d'))"
    using run by (auto simp: run_clause_list_def rbind_eq_Inr_iff Let_def gid rn)
  from rename_label_ok [OF rn ok(1)] ok(2) have "world_ok (t, d)" by (simp add: world_ok_def)
  with keeps_worldD [OF keeps_bindings b] show "catalog_ok s' \<and> store_ok d'" by (simp add: world_ok_def)
qed

lemma keeps_write: "keeps_world (run_write e graph ps q)"
proof (cases q)
  case (Query cs tl_query)
  have ddl: "keeps_world (\<lambda>w. rbind (run_ddl e graph ps stmt w) (\<lambda>(u, w). Inr ([], w)))" for stmt
    by (intro keeps keeps_ddl)
  show ?thesis unfolding Query using keeps_worldD [OF ddl] keeps_worldD [OF keeps_clause_list]
    by (auto simp: keeps_world_def split: list.splits clause.splits if_splits) blast+
qed

end
