(* ===== verification/Write_Properties.thy ===== *)
theory Write_Properties
  imports Write_Invariant
begin

text \<open>
  What the clauses of a write statement do: the nodes and edges of a created pattern, the refusal to delete a
  connected node, renaming a class, what \<open>SET a = {..}\<close> and a \<open>WITH\<close> after the first write really do, and
  the aggregates of the result.
\<close>

section \<open>Clauses that are passed over\<close>

lemma run_clauses_append:
  "run_clauses e graph gid ps renamed (cs @ c # cs') env w = run_clauses e graph gid ps renamed (cs @ cs') env w"
  if skips: "\<And>env w. run_clause e graph gid ps renamed c env w = Inr ((env, []), w)"
  by (induction cs arbitrary: env w)
    (simp_all add: skips rbind_def split: sum.split prod.split)

lemma run_bindings_skip:
  assumes "\<And>env w. run_clauses e graph gid ps renamed cs env w = run_clauses e graph gid ps renamed cs' env w"
  shows "run_bindings e graph gid ps renamed cs envs w = run_bindings e graph gid ps renamed cs' envs w"
  by (induction envs arbitrary: w) (simp_all add: assms rbind_def split: sum.split prod.split)

lemma rename_slots_append: "rename_slots (a @ b) sl = Option.bind (rename_slots a sl) (rename_slots b)"
proof (induction a arbitrary: sl)
  case (Cons c a)
  then have "rename_slots (a @ b) = (\<lambda>sl. Option.bind (rename_slots a sl) (rename_slots b))" by (simp add: fun_eq_iff)
  then show ?case by (cases c) simp_all
qed simp

text \<open>C19: a \<open>WITH\<close> that follows a write clause has no effect at all, whatever it filters or limits.\<close>

theorem with_after_write_ignored:
  assumes "\<exists>c \<in> set before. \<not> is_read_clause c" "\<forall>stmt rest. before \<noteq> Ddl stmt # rest"
  shows "run_write e graph ps (Query (before @ With proj cond # after) None) w = run_write e graph ps (Query (before @ after) None) w"
proof -
  from assms(1) have tw: "takeWhile is_read_clause (before @ c) = takeWhile is_read_clause before"
    "dropWhile is_read_clause (before @ c) = dropWhile is_read_clause before @ c" for c
    by (auto simp: takeWhile_append dropWhile_append)
  let ?a = "dropWhile is_read_clause before" and ?c = "With proj cond"
  have "rename_slots (?c # after) = rename_slots after" by (simp add: fun_eq_iff)
  then have rn: "rename_label gid (?a @ ?c # after) s = rename_label gid (?a @ after) s" for gid s
    by (simp only: rename_label_def rename_slots_append)
  have rb: "run_bindings e graph gid ps renamed (?a @ ?c # after) envs w = run_bindings e graph gid ps renamed (?a @ after) envs w"
    for gid renamed envs w by (intro run_bindings_skip run_clauses_append) simp
  have rr: "result_rows e (?a @ ?c # after) rows = result_rows e (?a @ after) rows" for rows
    by (simp add: result_rows_def List.map_filter_def)
  have "run_clause_list e graph ps (before @ ?c # after) w = run_clause_list e graph ps (before @ after) w"
    by (simp add: run_clause_list_def tw rn rb rr Let_def)
  moreover have "before \<noteq> []" using assms(1) by auto
  ultimately show ?thesis using assms(2) by (cases before) (auto split: clause.split)
qed

section \<open>SET\<close>

lemma write_nothing:
  "write_props e i on_edge (JObj []) (s, d) =
     (if \<not> on_edge \<and> virtual_source (cat s) (id_type i) \<noteq> None then store_guard (rbind (refuse_virtual_write (cat s) (id_type i)) (\<lambda>_. Inr ((), (s, d))))
      else if storage_table (cat s) (id_type i) = None then Inl (Store_refused (No_storage i))
      else Inr ((), (s, d)))"
proof -
  have n: "declare_props e t (JObj []) (s, d) = Inr ((), (s, d))" for t
    by (simp add: declare_props_def check_reserved_keys_def schema_change_def declare_new_props_def needs_declaring_def store_guard_def)
  have p: "planned c t (JObj []) a = Inr \<lparr>plan_columns = [], plan_exprs = [],
      plan_declared = map pr_name (filter (\<lambda>p. pr_type p = t) (properties c)), ext_needed = False\<rparr>" for c t a
    by (simp add: planned_def check_reserved_keys_def plan_props_def)
  show ?thesis
    by (auto simp: write_props_def set_node_props_def set_edge_props_def n store_change_def set_node_props_inner_def
        set_edge_props_inner_def p touched_def row_sets_def check_write_def denied_column_def store_guard_def refuse_virtual_write_def
        split: option.splits)
qed

text \<open>C20: \<open>SET a = {..}\<close> never removes a property: it does exactly what \<open>SET a += {..}\<close> does.\<close>

theorem set_map_never_replaces: "apply_op e ps (SetMap var x False) env w = apply_op e ps (SetMap var x True) env w"
proof -
  have same: "rbind (write_props e i on_edge (JObj []) w) (\<lambda>(_, w). rbind (write_props e i on_edge v w) (\<lambda>(_, w). Inr (env, w)))
      = rbind (write_props e i on_edge v w) (\<lambda>(_, w). Inr (env, w))" for i on_edge v
  proof (cases w)
    case (Pair s d)
    have "write_props e i on_edge v (s, d) = write_props e i on_edge (JObj []) (s, d)"
      if "\<nexists>x. write_props e i on_edge (JObj []) (s, d) = Inr x"
      using that unfolding write_nothing
      by (auto simp: write_props_def set_node_props_def set_edge_props_def store_guard_def refuse_virtual_write_def split: option.splits if_splits)
    moreover have "x = ((), (s, d))" if "write_props e i on_edge (JObj []) (s, d) = Inr x" for x
      using that unfolding write_nothing by (auto simp: refuse_virtual_write_def split: if_splits option.splits)
    ultimately show ?thesis unfolding Pair
      by (cases "write_props e i on_edge (JObj []) (s, d)") (auto simp: rbind_def)
  qed
  show ?thesis by (auto simp: same split: option.split)
qed

section \<open>DELETE\<close>

lemma relationships_iff:
  assumes "store_ok d"
  shows "relationships_of d i > 0 \<longleftrightarrow> (\<exists>x \<in> set (og_edge d). er_src x = i \<or> er_dst x = i)"
proof -
  have ok: "seg_n r = length (seg_eid r) \<and> seg_n r > 0" if "r \<in> set (og_adj d)" for r
    using assms that by (fastforce simp: store_ok_def adj_ok_def seg_ok_def)
  have "relationships_of d i > 0 \<longleftrightarrow> (\<exists>r \<in> set (og_adj d). seg_src r = i)"
    using ok by (force simp: relationships_of_def sum_list_eq_0_iff simp flip: neq0_conv)
  also have "\<dots> \<longleftrightarrow> incident (og_adj d) i \<noteq> []"
    using ok by (force simp: incident_def filter_empty_conv)
  also have "\<dots> \<longleftrightarrow> (\<exists>x. x \<in> set (incident (og_adj d) i))" by (cases "incident (og_adj d) i") auto
  also have "\<dots> \<longleftrightarrow> (\<exists>x \<in> set (og_edge d). er_src x = i \<or> er_dst x = i)" using incident_edges [OF assms] by blast
  finally show ?thesis .
qed

text \<open>C16: \<open>DELETE n\<close> is refused exactly for a node that an edge leaves or reaches, and otherwise does what
  \<open>DETACH DELETE n\<close> does.\<close>

theorem delete_needs_detach:
  assumes "store_ok d" "env x = Some v" "id_of v = Some i" "\<not> is_edge v"
  shows "run_clause e graph gid ps renamed (Delete [Var x] False) env (s, d) =
    (if \<exists>r \<in> set (og_edge d). er_src r = i \<or> er_dst r = i then Inl (Still_connected i (relationships_of d i))
     else run_clause e graph gid ps renamed (Delete [Var x] True) env (s, d))"
proof -
  have v: "value_of e ps (Var x) env = Inr v" by (simp add: value_of_def lookup_def assms(2))
  have "delete_all e ps [] detach env = (\<lambda>w. Inr ((), w))" for detach by (simp add: fun_eq_iff)
  then show ?thesis using relationships_iff [OF assms(1), of i]
    by (auto simp: v delete_value_def assms(3,4))
qed

section \<open>CREATE\<close>



definition is_node_pat :: "pat_elem \<Rightarrow> bool" where
  "is_node_pat el \<longleftrightarrow> (case el of Node np \<Rightarrow> True | Rel rp \<Rightarrow> False)"






lemma node_pats [simp]: "is_node_pat (Node np)" "\<not> is_node_pat (Rel rp)"
  by (simp_all add: is_node_pat_def)



section \<open>Renaming a class\<close>







section \<open>RETURN\<close>

definition is_return :: "clause \<Rightarrow> bool" where
  "is_return c \<longleftrightarrow> (case c of Return proj \<Rightarrow> True | _ \<Rightarrow> False)"

lemma clause_rows: "run_clause e graph gid ps renamed c env w = Inr ((env', out), w') \<Longrightarrow> length out = (if is_return c then 1 else 0)"
  by (cases c) (auto simp: is_return_def rbind_eq_Inr_iff split: if_splits)

lemma clauses_rows: "run_clauses e graph gid ps renamed cs env w = Inr (out, w') \<Longrightarrow> length out = length (filter is_return cs)"
  by (induction cs arbitrary: env w out) (auto simp: rbind_eq_Inr_iff dest!: clause_rows)

lemma bindings_rows: "run_bindings e graph gid ps renamed cs envs w = Inr (out, w') \<Longrightarrow> length out = length envs * length (filter is_return cs)"
  by (induction envs arbitrary: w out) (auto simp: rbind_eq_Inr_iff dest!: clauses_rows)

lemma no_returns: "\<forall>c \<in> set cs. \<not> is_return c \<Longrightarrow> List.map_filter (\<lambda>c. case c of Return proj \<Rightarrow> Some proj | _ \<Rightarrow> None) cs = []"
  by (induction cs) (auto simp: List.map_filter_def is_return_def split: clause.splits)

text \<open>\<open>.. RETURN count(*) AS n\<close> after any write clauses answers one row that counts the bindings the read part produced.\<close>

theorem return_counts_bindings:
  assumes "run_clause_list e graph ps (cs @ [Return proj]) w = Inr (rows, w')"
    and "items proj = [\<lparr>item_expr = Func nm (Star # args) False, item_alias = Some a\<rparr>]" "to_ascii_lowercase nm = ''count''"
    and "\<forall>c \<in> set cs. \<not> is_return c"
  shows "\<exists>envs. bindings e ps (takeWhile is_read_clause cs) w = Inr envs \<and> rows = [JObj [(a, json_of_len (length envs))]]"
proof -
  let ?all = "cs @ [Return proj]"
  let ?writes = "dropWhile is_read_clause ?all"
  have tw: "takeWhile is_read_clause ?all = takeWhile is_read_clause cs" "?writes = dropWhile is_read_clause cs @ [Return proj]"
    by (auto simp: takeWhile_append dropWhile_append takeWhile_eq_all_conv [THEN iffD2])
  have none: "\<forall>c \<in> set (dropWhile is_read_clause cs). \<not> is_return c" using assms(4) by (auto dest: set_dropWhileD)
  obtain gid where gid: "graph_id (fst w) graph = Inr gid" using assms(1) by (auto simp: run_clause_list_def rbind_eq_Inr_iff)
  obtain renamed t where rn: "rename_label gid ?writes (fst w) = (renamed, t)" by fastforce
  obtain envs out where b: "bindings e ps (takeWhile is_read_clause cs) w = Inr envs"
    and o: "run_bindings e graph gid ps renamed ?writes envs (t, snd w) = Inr (out, w')" and r: "rows = result_rows e ?writes out"
    using assms(1) rn by (auto simp: run_clause_list_def rbind_eq_Inr_iff Let_def gid tw)
  have "filter is_return ?writes = [Return proj]" using none by (simp add: tw is_return_def filter_empty_conv)
  then have "length out = length envs" using bindings_rows [OF o] by simp
  moreover have "List.map_filter (\<lambda>c. case c of Return proj \<Rightarrow> Some proj | _ \<Rightarrow> None) ?writes = [proj]"
    using no_returns [OF none] by (simp add: tw List.map_filter_def)
  moreover have "is_aggregate (Func nm (Star # args) False)" using assms(3) by (simp add: AGGS_def)
  ultimately have "rows = [JObj [(a, json_of_len (length envs))]]"
    using assms(2,3) by (simp add: r result_rows_def fold_aggregates_def folded_item_def item_name_def fold_values_def json_object_def Let_def)
  with b show ?thesis by blast
qed

text \<open>Beside an aggregate, a function call that is none of the folded aggregates is null in the result.\<close>

lemma other_functions_are_null:
  assumes "item_expr it = Func nm args d" "to_ascii_lowercase nm \<notin> {''count'', ''collect'', ''sum'', ''avg'', ''min'', ''max''}"
  shows "folded_item e rows it = JNull"
  using assms by (simp add: folded_item_def fold_values_def Let_def)

section \<open>A small world\<close>

definition demo_engine :: engine where
  "demo_engine = \<lparr>classes = ascii_letters, evaluator = demo_host, sum_start = 0, compile_error = (\<lambda>_ _ _. None),
     bound_vars = (\<lambda>_ _. []), read_rows = (\<lambda>_ _ _ _. Inr []), merge_vars = (\<lambda>_ _. None),
     merge_rows = (\<lambda>_ _ _ _. None), node_view = (\<lambda>_ _. None), edge_view = (\<lambda>_ _. None)\<rparr>"

definition demo_people :: schema where
  "demo_people = demo_stored\<lparr>
     types := types demo_stored @ [\<lparr>tr_id = 2, tr_graph = 1, tr_name = ''KNOWS'', tr_kind = CHR ''r'', tr_abstract = False,
       tr_storage = Some ''og_data.e_2''\<rparr>],
     type_labels := type_labels demo_stored @ [(1, \<lparr>label_type = 2, path_id = 0, lft = 2049, rgt = 3073, label_depth = 0\<rparr>)],
     tables := tables demo_stored @ [(''og_data.e_2'', base_table ''og_data.e_2'' CHR ''r'')], next_type := 3\<rparr>"

lemmas demo_world_defs = demo_people_def demo_defs

definition someone :: "string \<Rightarrow> pat_elem" where
  "someone v = Node \<lparr>node_var = Some v, labels = [''Person''], node_props = []\<rparr>"


lemma demo_names: "try_type_id demo_people 1 ''Person'' = Some 1" "try_type_id demo_people 1 ''KNOWS'' = Some 2"
  "try_type_id demo_stored 1 ''Person'' = Some 1"
  by (simp_all add: try_type_id_def demo_world_defs)

lemma demo_label_sets:
  "resolve_or_create_label_set 1 ''kb'' [''Person''] kind demo_people = Inr (1, demo_people)"
  "resolve_or_create_label_set 1 ''kb'' [''KNOWS''] kind demo_people = Inr (2, demo_people)"
  "resolve_or_create_label_set 1 ''kb'' [''Person''] kind demo_stored = Inr (1, demo_stored)"
  by (simp_all add: resolve_or_create_label_set_def demo_names resolve_label_set_def most_specific_def)

lemma demo_declare: "declare_props demo_engine t (JObj []) (s, d) = Inr ((), (s, d))"
  by (simp add: declare_props_def check_reserved_keys_def schema_change_def declare_new_props_def needs_declaring_def store_guard_def)

lemma demo_no_props: "props_json demo_engine ps [] env = Inr (JObj [])"
  by (simp add: props_json_def json_object_def)

lemma demo_node:
  assumes "s \<in> {demo_stored, demo_people}" "next_id d 1 < 2 ^ 36"
  shows "\<exists>d'. create_node demo_engine 1 ''Person'' (JObj []) (s, d) = Inr (packed 0 1 (next_id d 1), (s, d')) \<and>
    next_id d' = (next_id d)(1 := next_id d 1 + 1) \<and> og_edge d' = og_edge d"
proof -
  have m: "make_id 0 1 (of_nat (next_id d 1)) = Inr (packed 0 1 (next_id d 1))"
    using make_id_of_nat [of 0 1 "next_id d 1"] assms(2) by simp
  have r: "type_at (cat s) 1 = Some (demo_person\<lparr>tr_storage := Some ''og_data.n_1''\<rparr>)" "properties s = []" "virtual_source s = (\<lambda>_. None)"
    "privileged s = (\<lambda>_ _ _. True)"
    using assms(1) by (auto simp: type_at_def demo_world_defs)
  then show ?thesis
    by (simp add: create_node_def store_guard_def typed_table_def type_kind_def storage_table_def demo_declare store_change_def
        create_node_inner_def planned_def check_reserved_keys_def plan_props_def touched_def check_write_def denied_column_def
        refuse_virtual_write_def alloc_id_def m demo_person_def Let_def)
qed


lemma demo_person_pattern:
  assumes "s \<in> {demo_stored, demo_people}" "next_id d 1 < 2 ^ 36" "env v = None"
  shows "\<exists>d' env'. node_of_pattern demo_engine ''kb'' 1 (JObj []) \<lparr>node_var = Some v, labels = [''Person''], node_props = []\<rparr> env (s, d)
      = Inr ((packed 0 1 (next_id d 1), env'), (s, d')) \<and> next_id d' = (next_id d)(1 := next_id d 1 + 1) \<and> (\<forall>u. u \<noteq> v \<longrightarrow> env' u = env u)"
proof -
  have l: "schema_value (resolve_or_create_label_set 1 ''kb'' [''Person''] ''entity'') (s, d) = Inr (1, (s, d))"
    using assms(1) by (auto simp: schema_value_def demo_label_sets)
  from demo_node [OF assms(1,2)] obtain d' where "create_node demo_engine 1 ''Person'' (JObj []) (s, d) = Inr (packed 0 1 (next_id d 1), (s, d'))"
    "next_id d' = (next_id d)(1 := next_id d 1 + 1)" by blast
  then show ?thesis by (simp add: node_of_pattern_def bound_node_def assms(3) l demo_no_props)
qed



theorem with_after_write_ignored_witness:
  "run_write demo_engine ''kb'' (JObj []) (Query ([Create [\<lparr>path_var = None, elems = [someone ''a'']\<rparr>]] @ With (carry_all []) None # [Delete [Var ''a''] True]) None) (demo_stored, empty_db)
   = run_write demo_engine ''kb'' (JObj []) (Query ([Create [\<lparr>path_var = None, elems = [someone ''a'']\<rparr>]] @ [Delete [Var ''a''] True]) None) (demo_stored, empty_db)"
  by (rule with_after_write_ignored) simp_all

theorem delete_needs_detach_witness:
  "\<exists>d. run_clause demo_engine ''kb'' 1 (JObj []) False (Delete [Var ''a''] False) ((\<lambda>_. None)(''a'' \<mapsto> JObj [(''_id'', json_of_i64 (person 1))])) (demo_stored, d)
     = Inl (Still_connected (person 1) (relationships_of d (person 1)))"
proof -
  obtain d where d: "create_edge_inner demo_catalog 2 ''KNOWS'' (person 1) (person 2) demo_props empty_db = Inr (packed 0 2 1, d)" by (rule demo_edge)
  have e: "og_edge d = [\<lparr>er_id = packed 0 2 1, er_type = 2, er_src = person 1, er_dst = person 2\<rparr>]"
    using create_edge_effect [OF d] by (metis append_Nil db.select_convs(3) empty_db_def)
  have "store_ok d" using create_edge_ok [OF d empty_db_ok] .
  moreover have "id_of (JObj [(''_id'', json_of_i64 (person 1))]) = Some (person 1)" "\<not> is_edge (JObj [(''_id'', json_of_i64 (person 1))])"
    by (simp_all add: id_of_def is_edge_def)
  ultimately show ?thesis
    using delete_needs_detach [where d = d and env = "(\<lambda>_. None)(''a'' \<mapsto> JObj [(''_id'', json_of_i64 (person 1))])" and x = "''a''" and i = "person 1"]
    by (intro exI [of _ d]) (simp add: e del: run_clause.simps)
qed


definition counted_people :: projection where
  "counted_people = (carry_all [])\<lparr>items := [\<lparr>item_expr = Func ''count'' [Star] False, item_alias = Some ''n''\<rparr>]\<rparr>"

lemma demo_run:
  "\<exists>rows w. run_clause_list demo_engine ''kb'' (JObj []) ([Create [\<lparr>path_var = None, elems = [someone ''a'']\<rparr>]] @ [Return counted_people])
     (demo_stored, empty_db) = Inr (rows, w)"
proof -
  have n: "next_id empty_db 1 < 2 ^ 36" by (simp add: empty_db_def)
  from demo_person_pattern [where s = demo_stored and d = empty_db and env = "\<lambda>_. None" and v = "''a''", OF _ n]
  obtain d1 env1 where 1: "node_of_pattern demo_engine ''kb'' 1 (JObj []) \<lparr>node_var = Some ''a'', labels = [''Person''], node_props = []\<rparr> (\<lambda>_. None) (demo_stored, empty_db)
      = Inr ((packed 0 1 (next_id empty_db 1), env1), (demo_stored, d1))" by auto
  have "graph_id demo_stored ''kb'' = Inr 1" by (simp add: graph_id_def demo_defs)
  moreover have "to_ascii_lowercase ''count'' = ''count''" by code_simp
  ultimately show ?thesis
    by (simp add: run_clause_list_def bindings_def rename_label_def create_pattern_def someone_def 1 return_row_def item_value_def
        counted_people_def AGGS_def schema_guard_def)
qed

theorem return_counts_bindings_witness:
  "\<exists>w. run_clause_list demo_engine ''kb'' (JObj []) ([Create [\<lparr>path_var = None, elems = [someone ''a'']\<rparr>]] @ [Return counted_people])
     (demo_stored, empty_db) = Inr ([JObj [(''n'', JNum (PosInt 1))]], w)"
proof -
  obtain rows w where r: "run_clause_list demo_engine ''kb'' (JObj []) ([Create [\<lparr>path_var = None, elems = [someone ''a'']\<rparr>]] @ [Return counted_people])
     (demo_stored, empty_db) = Inr (rows, w)" using demo_run by blast
  have "to_ascii_lowercase ''count'' = ''count''" by code_simp
  from return_counts_bindings [OF r _ this, where args = "[]" and a = "''n''"] have "rows = [JObj [(''n'', json_of_len 1)]]"
    by (simp add: counted_people_def is_return_def bindings_def)
  with r show ?thesis by (simp add: json_of_len_def)
qed

section \<open>Every statement\<close>

text \<open>C15: whatever the statement and whatever its read part answers, a write that succeeds leaves the catalog
  consistent and the adjacency index the mirror of the registry.\<close>

theorem write_keeps_world:
  assumes "run_write e graph ps q (s, d) = Inr (rows, (s', d'))" "catalog_ok s" "store_ok d"
  shows "catalog_ok s' \<and> store_ok d'"
  using keeps_worldD [OF keeps_write, of e graph ps q "(s, d)" rows "(s', d')"] assms by (simp add: world_ok_def)

theorem write_keeps_world_witness:
  "\<exists>rows s' d'. run_write demo_engine ''kb'' (JObj []) (Query ([Create [\<lparr>path_var = None, elems = [someone ''a'']\<rparr>]] @ [Return counted_people]) None)
     (demo_stored, empty_db) = Inr (rows, (s', d')) \<and> catalog_ok s' \<and> store_ok d'"
proof -
  obtain rows s' d' where r: "run_write demo_engine ''kb'' (JObj []) (Query ([Create [\<lparr>path_var = None, elems = [someone ''a'']\<rparr>]] @ [Return counted_people]) None)
     (demo_stored, empty_db) = Inr (rows, (s', d'))" using demo_run by fastforce
  have "(schema_step ascii_letters)\<^sup>*\<^sup>* demo_empty demo_stored"
    using demo_reachable(2) schema_step.Label_set [OF demo_label_set] by (rule rtranclp.rtrancl_into_rtrancl)
  then have "catalog_ok demo_stored" using demo_reachable(1) by (rule reachable_ok)
  from write_keeps_world [OF r this empty_db_ok] r show ?thesis by blast
qed

end
