(* ===== verification/Ddl_Properties.thy ===== *)
theory Ddl_Properties
  imports Write_Properties
begin

text \<open>
  What an index statement does to the tables: a uniqueness constraint is an index on the table of every stored
  subtype, unless another constraint whose name is folded to the same one was there first; a statement that
  finds its name taken under \<open>IF NOT EXISTS\<close> changes nothing but its counter.
\<close>

section \<open>Indexes over the tables of a type\<close>

definition stored_name :: "index_def \<Rightarrow> index_def" where
  "stored_name ix = ix\<lparr>xd_name := pg_name (xd_name ix)\<rparr>"

lemma build_index_effect:
  assumes "build_index ix cols table s = Inr s'"
  shows "table_at s' t = (if t = table then map_option (add_index (stored_name ix)) (table_at s t) else table_at s t)"
    "types s' = types s" "\<exists>d. table_at s table = Some d" "\<forall>d. table_at s table = Some d \<longrightarrow> (\<forall>c \<in> set cols. has_column d c)"
    "duplicated s' = duplicated s"
    "\<forall>d. table_at s table = Some d \<longrightarrow> xd_unique ix \<longrightarrow> pg_name (xd_name ix) \<notin> xd_name ` set (td_indexes d) \<longrightarrow> \<not> duplicated s table (join '', '' cols)"
proof -
  obtain d where d: "table_at s table = Some d" "find (\<lambda>c. \<not> has_column d c) cols = None"
    "alter_table table (add_index (stored_name ix)) s = Inr s'"
    "xd_unique ix \<longrightarrow> pg_name (xd_name ix) \<notin> xd_name ` set (td_indexes d) \<longrightarrow> \<not> duplicated s table (join '', '' cols)"
    using assms by (auto simp: build_index_def stored_name_def split: option.splits if_splits)
  from d(3) show "table_at s' t = (if t = table then map_option (add_index (stored_name ix)) (table_at s t) else table_at s t)"
    by (rule table_at_alter)
  show "types s' = types s" "duplicated s' = duplicated s" using d(1,3) by (auto simp: alter_table_def)
  show "\<exists>d. table_at s table = Some d" using d(1) by blast
  show "\<forall>d. table_at s table = Some d \<longrightarrow> (\<forall>c \<in> set cols. has_column d c)" using d(1,2) by (auto simp: find_None_iff)
  show "\<forall>d. table_at s table = Some d \<longrightarrow> xd_unique ix \<longrightarrow> pg_name (xd_name ix) \<notin> xd_name ` set (td_indexes d) \<longrightarrow> \<not> duplicated s table (join '', '' cols)"
    using d(1,4) by auto
qed

definition index_step :: "(i32 \<Rightarrow> index_def) \<Rightarrow> string list \<Rightarrow> i32 \<Rightarrow> schema_op" where
  "index_step ix cols sub s = (case storage_table (cat s) sub of None \<Rightarrow> Inr s | Some table \<Rightarrow> build_index (ix sub) cols table s)"

lemma index_subtypes_steps: "index_subtypes ix cols tid s = rfold (index_step ix cols) (og_subtypes (type_labels s) tid) s"
  by (simp add: index_subtypes_def index_step_def [abs_def])

lemma index_step_effect:
  assumes "index_step ix cols sub s = Inr s'"
  shows "types s' = types s" "duplicated s' = duplicated s" "storage_table (cat s') = storage_table (cat s)"
    "storage_table (cat s) sub \<noteq> Some table \<Longrightarrow> table_at s' table = table_at s table"
proof -
  show "types s' = types s" "duplicated s' = duplicated s"
    using assms by (auto simp: index_step_def split: option.splits dest: build_index_effect)
  show "table_at s' table = table_at s table" if other: "storage_table (cat s) sub \<noteq> Some table"
  proof (cases "storage_table (cat s) sub")
    case (Some u)
    then have "build_index (ix sub) cols u s = Inr s'" using assms by (simp add: index_step_def)
    from build_index_effect(1) [OF this, of table] other Some show ?thesis by simp
  qed (use assms in \<open>simp add: index_step_def\<close>)
  show "storage_table (cat s') = storage_table (cat s)" using storage_same \<open>types s' = types s\<close> by blast
qed

lemma add_index_named: "xd_name j = xd_name i \<Longrightarrow> add_index j (add_index i d) = add_index i d"
  by (auto simp: add_index_def)

lemma add_index_twice [simp]: "add_index ix (add_index ix d) = add_index ix d"
  by (rule add_index_named) simp

text \<open>What building an index for a list of types leaves of the table of one of them.\<close>

lemma index_steps_effect:
  assumes "rfold (index_step ix cols) subs s = Inr s'" "\<forall>x \<in> set subs. storage_table (cat s) x = Some table \<longrightarrow> x = sub"
    "storage_table (cat s) sub = Some table"
  shows "table_at s' table = (if sub \<in> set subs then map_option (add_index (stored_name (ix sub))) (table_at s table) else table_at s table) \<and>
    (sub \<in> set subs \<longrightarrow> (\<exists>d. table_at s table = Some d \<and> (\<forall>c \<in> set cols. has_column d c) \<and>
      (xd_unique (ix sub) \<longrightarrow> pg_name (xd_name (ix sub)) \<notin> xd_name ` set (td_indexes d) \<longrightarrow> \<not> duplicated s table (join '', '' cols))))"
  using assms
proof (induction subs arbitrary: s)
  case (Cons x subs)
  from Cons.prems(1) obtain t where t: "index_step ix cols x s = Inr t" "rfold (index_step ix cols) subs t = Inr s'" by (auto simp: rbind_eq_Inr_iff)
  note e = index_step_effect [OF t(1)]
  have IH: "table_at s' table = (if sub \<in> set subs then map_option (add_index (stored_name (ix sub))) (table_at t table) else table_at t table) \<and>
    (sub \<in> set subs \<longrightarrow> (\<exists>d. table_at t table = Some d \<and> (\<forall>c \<in> set cols. has_column d c) \<and>
      (xd_unique (ix sub) \<longrightarrow> pg_name (xd_name (ix sub)) \<notin> xd_name ` set (td_indexes d) \<longrightarrow> \<not> duplicated t table (join '', '' cols))))"
  proof (rule Cons.IH [OF t(2)])
    show "\<forall>y \<in> set subs. storage_table (cat t) y = Some table \<longrightarrow> y = sub" unfolding e(3) using Cons.prems(2) by simp
    show "storage_table (cat t) sub = Some table" unfolding e(3) by (rule Cons.prems(3))
  qed
  show ?case
  proof (cases "storage_table (cat s) x = Some table")
    case False
    then have "x \<noteq> sub" using Cons.prems(3) by auto
    with IH e(2) e(4) [OF False] show ?thesis by simp
  next
    case True
    then have x: "x = sub" using Cons.prems(2) by simp
    then have b: "build_index (ix sub) cols table s = Inr t" using t(1) Cons.prems(3) by (simp add: index_step_def)
    note be = build_index_effect [OF b]
    from be(1) [of table] IH have "table_at s' table = map_option (add_index (stored_name (ix sub))) (table_at s table)"
      by (auto simp: option.map_comp o_def)
    with be(3,4,6) x show ?thesis by auto
  qed
qed simp

lemma own_tables:
  assumes "catalog_ok s" "storage_table (cat s) a = Some table" "storage_table (cat s) b = Some table"
  shows "a = b"
proof -
  obtain q r where "q \<in> set (types s)" "r \<in> set (types s)" "tr_id q = a" "tr_id r = b" "tr_storage q = Some table" "tr_storage r = Some table"
    using assms(2,3) storage_type by blast
  then show ?thesis using assms(1) stored_as_inj by (metis catalog_core_def catalog_ok_def row_ok_def)
qed

text \<open>C21: enforcing a uniqueness constraint leaves, on the table of every stored subtype, the unique index over
  exactly the constraint's columns, if no index has its folded name yet; the columns exist and hold no duplicates.\<close>

theorem unique_constraint_covers:
  assumes "enforce_unique e tid props name s = Inr s'" "catalog_ok s" "sub \<in> set (og_subtypes (type_labels s) tid)"
    "storage_table (cat s) sub = Some table"
    and fresh: "\<forall>d. table_at s table = Some d \<longrightarrow>
      pg_name (xd_name (constraint_index (classes e) props name sub)) \<notin> xd_name ` set (td_indexes d)"
  shows "\<exists>d d'. table_at s table = Some d \<and> table_at s' table = Some d' \<and>
    td_indexes d' = td_indexes d @ [stored_name (constraint_index (classes e) props name sub)] \<and>
    (\<forall>p \<in> set props. has_column d (column_name (classes e) p)) \<and>
    \<not> duplicated s table (join '', '' (map (column_name (classes e)) props))"
proof -
  have steps: "rfold (index_step (constraint_index (classes e) props name) (map (column_name (classes e)) props)) (og_subtypes (type_labels s) tid) s = Inr s'"
    using assms(1) by (simp add: enforce_unique_def index_subtypes_steps)
  have "\<forall>x \<in> set (og_subtypes (type_labels s) tid). storage_table (cat s) x = Some table \<longrightarrow> x = sub"
    using own_tables assms(2,4) by blast
  note eff = index_steps_effect [OF steps this assms(4)]
  have "xd_unique (constraint_index (classes e) props name sub)" by (simp add: constraint_index_def unique_index_def)
  with eff assms(3) fresh obtain d where "table_at s table = Some d" "\<forall>c \<in> set (map (column_name (classes e)) props). has_column d c"
    "\<not> duplicated s table (join '', '' (map (column_name (classes e)) props))"
    "table_at s' table = Some (add_index (stored_name (constraint_index (classes e) props name sub)) d)" by auto
  with fresh show ?thesis by (auto simp: add_index_def stored_name_def)
qed

text \<open>C22: of two constraints on a type whose names PostgreSQL and \<open>sanitize\<close> fold to the same one, the second is
  recorded but not enforced: no table changes, whatever properties it names.\<close>

theorem folded_constraint_not_enforced:
  assumes "enforce_unique e tid props1 name1 s = Inr s1" "enforce_unique e tid props2 name2 s1 = Inr s2" "catalog_ok s"
    "to_ascii_lowercase (sanitize name1) = to_ascii_lowercase (sanitize name2)" "sub \<in> set (og_subtypes (type_labels s) tid)"
    "storage_table (cat s) sub = Some table"
  shows "table_at s2 table = table_at s1 table"
proof -
  let ?ix = "\<lambda>props name. constraint_index (classes e) props name" and ?cols = "\<lambda>props. map (column_name (classes e)) props"
  have ok1: "catalog_ok s1" using assms(1,3) unfolding enforce_unique_def by (rule index_subtypes_ok)
  have q: "quiet s s1" using assms(1) unfolding enforce_unique_def by (rule quiet_index_subtypes)
  then have same: "types s1 = types s" "type_labels s1 = type_labels s" by (simp_all add: quiet_def same_catalog_def)
  then have st: "storage_table (cat s1) = storage_table (cat s)" by (intro storage_same) simp
  have r1: "rfold (index_step (?ix props1 name1) (?cols props1)) (og_subtypes (type_labels s) tid) s = Inr s1"
    and r2: "rfold (index_step (?ix props2 name2) (?cols props2)) (og_subtypes (type_labels s) tid) s1 = Inr s2"
    using assms(1,2) by (simp_all add: enforce_unique_def index_subtypes_steps same)
  have own: "\<forall>x \<in> set (og_subtypes (type_labels s) tid). storage_table (cat s) x = Some table \<longrightarrow> x = sub"
    using own_tables assms(3,6) by blast
  have "pg_name (xd_name (?ix props1 name1 sub)) = pg_name (xd_name (?ix props2 name2 sub))"
    using assms(4) by (simp add: constraint_index_def unique_index_def pg_name_def to_ascii_lowercase_def)
  moreover from index_steps_effect [OF r1 own assms(6)] assms(5) obtain d where
    "table_at s1 table = Some (add_index (stored_name (?ix props1 name1 sub)) d)" by auto
  moreover have "table_at s2 table = map_option (add_index (stored_name (?ix props2 name2 sub))) (table_at s1 table)"
  proof -
    have "\<forall>x \<in> set (og_subtypes (type_labels s) tid). storage_table (cat s1) x = Some table \<longrightarrow> x = sub" "storage_table (cat s1) sub = Some table"
      unfolding st by (rule own, rule assms(6))
    from index_steps_effect [OF r2 this] assms(5) show ?thesis by (simp only: if_True simp_thms)
  qed
  ultimately show ?thesis by (simp add: add_index_named stored_name_def)
qed

text \<open>A \<open>CREATE INDEX .. IF NOT EXISTS\<close> that finds its name taken changes nothing, but is counted as an index added.\<close>

theorem repeated_index_counted:
  assumes "graph_id s graph = Inr gid" "name_exists s gid name"
  shows "run_ddl e graph ps (CreateIndex (Some name) kind on_rel label props options True) (s, d) =
    Inr ((), (s, d\<lparr>stats := index_added (stats d)\<rparr>))"
proof -
  have "schema_guard (graph_id s graph) = Inr gid" using assms(1) by (simp add: schema_guard_def)
  then show ?thesis using assms(2) by (simp add: run_ddl_def create_index_def del: guard_Inr)
qed

section \<open>A small schema\<close>

definition demo_named :: schema where
  "demo_named = demo_stored\<lparr>tables := [(''og_data.n_1'', with_column ''p_name'' ''text'' (base_table ''og_data.n_1'' CHR ''e''))]\<rparr>"

lemma demo_column: "column_name ascii_letters ''name'' = ''p_name''"
  by code_simp

lemma demo_classes: "classes demo_engine = ascii_letters"
  by (simp add: demo_engine_def)

lemma demo_stored_ok: "catalog_ok demo_stored"
proof -
  have "(schema_step ascii_letters)\<^sup>*\<^sup>* demo_empty demo_stored"
    using demo_reachable(2) schema_step.Label_set [OF demo_label_set] by (rule rtranclp.rtrancl_into_rtrancl)
  then show ?thesis using demo_reachable(1) by (rule reachable_ok)
qed

lemma demo_named_ok: "catalog_ok demo_named"
proof -
  have "alter_table ''og_data.n_1'' (with_column ''p_name'' ''text'') demo_stored = Inr demo_named"
    by (simp add: alter_table_def table_at_def demo_named_def demo_stored_def)
  then have "quiet demo_stored demo_named" by (rule quiet_alter) auto
  then show ?thesis using demo_stored_ok by (rule quiet_catalog_ok(2))
qed

lemma demo_subtypes: "og_subtypes (type_labels demo_named) 1 = [1]"
  by (simp add: og_subtypes_def contains_label_def demo_named_def demo_defs)

lemma demo_named_rows: "storage_table (cat demo_named) 1 = Some ''og_data.n_1''"
  "table_at demo_named ''og_data.n_1'' = Some (with_column ''p_name'' ''text'' (base_table ''og_data.n_1'' CHR ''e''))"
  by (simp_all add: storage_table_def type_at_def table_at_def demo_named_def demo_defs)

lemma demo_constraint: "pg_name (xd_name (constraint_index ascii_letters [''name''] ''a-b'' 1)) = ''uq_1_a_b''"
  "pg_name (xd_name (constraint_index ascii_letters [''name''] ''A_b'' 1)) = ''uq_1_a_b''"
  by code_simp+

lemma demo_enforced: "\<exists>s'. enforce_unique demo_engine 1 [''name''] ''a-b'' demo_named = Inr s'"
proof -
  have "has_column (with_column ''p_name'' ''text'' (base_table ''og_data.n_1'' CHR ''e'')) ''p_name''" by code_simp
  moreover have "duplicated demo_named = (\<lambda>_ _. False)" by (simp add: demo_named_def demo_defs)
  ultimately show ?thesis
    by (simp add: enforce_unique_def index_subtypes_steps demo_subtypes index_step_def demo_named_rows build_index_def demo_column
        demo_engine_def alter_table_def)
qed

theorem unique_constraint_covers_witness:
  "\<exists>s' d'. enforce_unique demo_engine 1 [''name''] ''a-b'' demo_named = Inr s' \<and> table_at s' ''og_data.n_1'' = Some d' \<and>
     ''uq_1_a_b'' \<in> xd_name ` set (td_indexes d')"
proof -
  obtain s' where s': "enforce_unique demo_engine 1 [''name''] ''a-b'' demo_named = Inr s'" using demo_enforced by blast
  have "xd_name ` set (td_indexes (with_column ''p_name'' ''text'' (base_table ''og_data.n_1'' CHR ''e''))) = {''n_1_pkey''}" by code_simp
  then have "\<forall>d. table_at demo_named ''og_data.n_1'' = Some d \<longrightarrow>
      pg_name (xd_name (constraint_index (classes demo_engine) [''name''] ''a-b'' 1)) \<notin> xd_name ` set (td_indexes d)"
    by (simp add: demo_named_rows demo_constraint demo_engine_def)
  note covers = unique_constraint_covers [OF s' demo_named_ok _ demo_named_rows(1) this]
  have "1 \<in> set (og_subtypes (type_labels demo_named) 1)" by (simp add: demo_subtypes)
  then obtain d d' :: table_def where "table_at s' ''og_data.n_1'' = Some d'"
    "td_indexes d' = td_indexes d @ [stored_name (constraint_index ascii_letters [''name''] ''a-b'' 1)]"
    using covers unfolding demo_classes by blast
  with s' demo_constraint(1) show ?thesis by (force simp: stored_name_def)
qed

lemma demo_enforced_again:
  assumes "enforce_unique demo_engine 1 [''name''] ''a-b'' demo_named = Inr s1"
  shows "\<exists>s2. enforce_unique demo_engine 1 [''name''] ''A_b'' s1 = Inr s2"
proof -
  let ?d = "with_column ''p_name'' ''text'' (base_table ''og_data.n_1'' CHR ''e'')"
  have q: "quiet demo_named s1" using assms unfolding enforce_unique_def by (rule quiet_index_subtypes)
  then have same: "types s1 = types demo_named" "type_labels s1 = type_labels demo_named" by (simp_all add: quiet_def same_catalog_def)
  then have st: "storage_table (cat s1) 1 = Some ''og_data.n_1''" using storage_same demo_named_rows(1) by metis
  have "rfold (index_step (constraint_index ascii_letters [''name''] ''a-b'') [''p_name'']) [1] demo_named = Inr s1"
    using assms by (simp add: enforce_unique_def index_subtypes_steps demo_subtypes demo_classes demo_column)
  from index_steps_effect [OF this, of _ 1] have t: "table_at s1 ''og_data.n_1'' = Some (add_index (stored_name (constraint_index ascii_letters [''name''] ''a-b'' 1)) ?d)"
    by (simp add: demo_named_rows)
  have "has_column (add_index i ?d) ''p_name''" for i by (simp add: has_column_def add_index_def with_column_def)
  moreover have "''uq_1_a_b'' \<in> xd_name ` set (td_indexes (add_index (stored_name (constraint_index ascii_letters [''name''] ''a-b'' 1)) ?d))"
    using demo_constraint(1) by (auto simp: add_index_def stored_name_def)
  ultimately show ?thesis
    by (simp add: enforce_unique_def index_subtypes_steps demo_subtypes same index_step_def st build_index_def t demo_column
        demo_classes demo_constraint alter_table_def)
qed

theorem folded_constraint_not_enforced_witness:
  "\<exists>s1 s2. enforce_unique demo_engine 1 [''name''] ''a-b'' demo_named = Inr s1 \<and> enforce_unique demo_engine 1 [''name''] ''A_b'' s1 = Inr s2 \<and>
     table_at s2 ''og_data.n_1'' = table_at s1 ''og_data.n_1''"
proof -
  obtain s1 where s1: "enforce_unique demo_engine 1 [''name''] ''a-b'' demo_named = Inr s1" using demo_enforced by blast
  obtain s2 where s2: "enforce_unique demo_engine 1 [''name''] ''A_b'' s1 = Inr s2" using demo_enforced_again [OF s1] by blast
  have "to_ascii_lowercase (sanitize ''a-b'') = to_ascii_lowercase (sanitize ''A_b'')" by code_simp
  from folded_constraint_not_enforced [OF s1 s2 demo_named_ok this _ demo_named_rows(1)] demo_subtypes s1 s2 show ?thesis by auto
qed

definition demo_index :: compat_row where
  "demo_index = \<lparr>ci_name = ''by_name'', ci_graph = 1, ci_kind = ''btree'', ci_entity = CHR ''e'', ci_type = ''Person'', ci_props = [''name''],
     ci_options = JObj []\<rparr>"

theorem repeated_index_counted_witness:
  "run_ddl demo_engine ''kb'' (JObj []) (CreateIndex (Some ''by_name'') Btree False ''Person'' [''name''] [] True)
     (demo_stored\<lparr>compat_index := [demo_index]\<rparr>, empty_db) =
   Inr ((), (demo_stored\<lparr>compat_index := [demo_index]\<rparr>, empty_db\<lparr>stats := index_added (stats empty_db)\<rparr>))"
  by (rule repeated_index_counted [where gid = 1])
    (simp_all add: graph_id_def name_exists_def lookup_index_def demo_index_def demo_defs)

end
