(* ===== verification/Evolution_State.thy ===== *)
theory Evolution_State
  imports Schema_Reachable Cypher_Eval
begin

text \<open>
  What a schema change works on (\<open>catalog/evolution.rs\<close>): the catalog together with the rows of the typed
  tables, and the statements it sends to PostgreSQL as operations on both.  A row keeps, for each column that
  is not null, the text of its value, because a change of type casts through text; its payload maps a key to
  nothing, to null or to a text.  Columns that triggers
  maintain (stamps, validity) are left out; a statement that raises aborts the whole call.
\<close>

section \<open>Rows, changes and errors\<close>

record data_row =
  dr_id :: i64
  dr_cells :: "string \<Rightarrow> string option"
  dr_ext :: "string \<Rightarrow> string option option"

record evo =
  sch :: schema
  sto :: db
  rows_of :: "string \<Rightarrow> data_row list"
  next_change :: nat

text \<open>What PostgreSQL and \<open>serde_json\<close> decide: \<open>cast_text ty v\<close> is the value of the text \<open>v\<close> in the type, nothing
  when it has none; \<open>collate\<close> orders texts; \<open>reads_column\<close> tells whether an index expression uses a column;
  \<open>captured\<close> are the rows the versioning trigger adds to the history table when a row changes.\<close>

record postgres =
  pg_letters :: letters
  cast_text :: "string \<Rightarrow> string \<Rightarrow> string option"
  collate :: "string list \<Rightarrow> string list"
  reads_column :: "string \<Rightarrow> string \<Rightarrow> bool"
  captured :: "string \<Rightarrow> data_row \<Rightarrow> data_row \<Rightarrow> data_row list"
  literal_text :: "json \<Rightarrow> string"

datatype evo_error =
    Refused schema_error
  | Panic
  | Missing_change i32
  | Wrong_phase i32 string string
  | Unknown_change string
  | Needs_key string
  | Not_declared string string
  | Inherited_from string string
  | Reserved_name string
  | Already_a_property string string
  | Already_typed string string
  | Type_taken string
  | Different_kinds string string
  | Already_inherits string string
  | Below_already string string
  | Not_below string string
  | Types_clash string
  | No_role_named string
  | Optional_first
  | Exists_already string string
  | Depended_on string string
  | Null_in string string
  | Twice_in string string
  | Not_castable string string
  | Violated json
  | Out_of_fuel

type_synonym evo_op = "evo \<Rightarrow> evo_error + evo"

definition refuse :: "schema_error + 'a \<Rightarrow> evo_error + 'a" where
  "refuse r = (case r of Inl e \<Rightarrow> Inl (Refused e) | Inr x \<Rightarrow> Inr x)"

lemma refuse_Inr [simp]: "refuse r = Inr x \<longleftrightarrow> r = Inr x"
  by (simp add: refuse_def split: sum.split)

definition on_schema :: "schema_op \<Rightarrow> evo_op" where
  "on_schema f w = rbind (refuse (f (sch w))) (\<lambda>s. Inr (w\<lparr>sch := s\<rparr>))"

lemma on_schema_Inr: "on_schema f w = Inr w' \<longleftrightarrow> (\<exists>s. f (sch w) = Inr s \<and> w' = w\<lparr>sch := s\<rparr>)"
  by (auto simp: on_schema_def rbind_eq_Inr_iff)

definition set_rows :: "string \<Rightarrow> data_row list \<Rightarrow> evo \<Rightarrow> evo" where
  "set_rows t rs w = w\<lparr>rows_of := (rows_of w)(t := rs)\<rparr>"

lemma set_rows_simps [simp]:
  "sch (set_rows t rs w) = sch w" "sto (set_rows t rs w) = sto w" "next_change (set_rows t rs w) = next_change w"
  "rows_of (set_rows t rs w) = (rows_of w)(t := rs)"
  by (simp_all add: set_rows_def)

definition set_cell :: "string \<Rightarrow> string option \<Rightarrow> data_row \<Rightarrow> data_row" where
  "set_cell c v r = r\<lparr>dr_cells := (dr_cells r)(c := v)\<rparr>"

lemma set_cell_simps [simp]:
  "dr_id (set_cell c v r) = dr_id r" "dr_cells (set_cell c v r) = (dr_cells r)(c := v)" "dr_ext (set_cell c v r) = dr_ext r"
  by (simp_all add: set_cell_def)

section \<open>Reading\<close>

text \<open>\<open>tables\<close> and \<open>hist\<close>: the tables at and below a type, and the history table beside one.\<close>

definition concrete :: "schema \<Rightarrow> i32 \<Rightarrow> (i32 \<times> string) list" where
  "concrete s tid = List.map_filter (\<lambda>sub. map_option (Pair sub) (storage_table (cat s) sub)) (og_subtypes (type_labels s) tid)"

definition hist :: "schema \<Rightarrow> string \<Rightarrow> string option" where
  "hist s t = (case history_table t of None \<Rightarrow> None | Some h \<Rightarrow> if table_at s h \<noteq> None then Some h else None)"

text \<open>A statement names a table and columns that must exist.\<close>

definition scan :: "evo \<Rightarrow> string list \<Rightarrow> string \<Rightarrow> evo_error + data_row list" where
  "scan w cols t = (case table_at (sch w) t of
       None \<Rightarrow> Inl (Refused (No_table t))
     | Some d \<Rightarrow> (case find (\<lambda>c. \<not> has_column d c) cols of
         Some c \<Rightarrow> Inl (Refused (No_column t c)) | None \<Rightarrow> Inr (rows_of w t)))"

lemma scan_Inr: "scan w cols t = Inr rs \<longleftrightarrow> rs = rows_of w t \<and> (\<exists>d. table_at (sch w) t = Some d \<and> (\<forall>c \<in> set cols. has_column d c))"
  by (auto simp: scan_def find_None_iff find_Some_iff split: option.splits)

definition matching :: "evo \<Rightarrow> string list \<Rightarrow> (data_row \<Rightarrow> bool) \<Rightarrow> string \<Rightarrow> evo_error + data_row list" where
  "matching w cols P t = rbind (scan w cols t) (\<lambda>rs. Inr (filter P rs))"

definition over_tables :: "evo \<Rightarrow> i32 \<Rightarrow> (string \<Rightarrow> evo_error + 'a) \<Rightarrow> evo_error + 'a list" where
  "over_tables w tid f = rmap (\<lambda>(sub, t). f t) (concrete (sch w) tid)"

definition sample_ids :: "data_row list \<Rightarrow> i64 list" where
  "sample_ids rs = take 10 (sort_key sint (map dr_id rs))"

definition null_rows :: "evo \<Rightarrow> i32 \<Rightarrow> string \<Rightarrow> evo_error + nat \<times> i64 list" where
  "null_rows w tid col =
     rbind (over_tables w tid (matching w [col] (\<lambda>r. dr_cells r col = None))) (\<lambda>rss.
     Inr (length (concat rss), take 10 (concat (map sample_ids rss))))"

text \<open>The values that occur more than once in all the tables together.\<close>

definition repeated :: "string list \<Rightarrow> string list" where
  "repeated vs = filter (\<lambda>v. count_list vs v > 1) (remdups vs)"

definition duplicates :: "postgres \<Rightarrow> evo \<Rightarrow> i32 \<Rightarrow> string \<Rightarrow> evo_error + nat \<times> string list" where
  "duplicates pg w tid col =
     rbind (over_tables w tid (scan w [col])) (\<lambda>rss.
     let dup = repeated (List.map_filter (\<lambda>r. dr_cells r col) (concat rss))
     in Inr (length dup, take 10 (collate pg dup)))"

text \<open>\<open>og__castable\<close>.\<close>

definition castable :: "postgres \<Rightarrow> string \<Rightarrow> string \<Rightarrow> bool" where
  "castable pg v ty \<longleftrightarrow> cast_text pg ty v \<noteq> None"

definition recast :: "postgres \<Rightarrow> string \<Rightarrow> string \<Rightarrow> data_row \<Rightarrow> string option" where
  "recast pg ty col r = Option.bind (dr_cells r col) (cast_text pg ty)"

section \<open>Altering tables\<close>

definition drop_column_def :: "postgres \<Rightarrow> string \<Rightarrow> table_def \<Rightarrow> table_def" where
  "drop_column_def pg c d = d\<lparr>
     td_columns := filter (\<lambda>(n, ty). n \<noteq> c) (td_columns d),
     td_required := removeAll c (td_required d),
     td_indexes := filter (\<lambda>ix. c \<notin> set (xd_columns ix) \<and>
        (case xd_expression ix of None \<Rightarrow> True | Some x \<Rightarrow> \<not> reads_column pg x c)) (td_indexes d),
     td_checks := filter (\<lambda>(n, k, ok). k \<noteq> c) (td_checks d)\<rparr>"

definition rename_column_def :: "string \<Rightarrow> string \<Rightarrow> table_def \<Rightarrow> table_def" where
  "rename_column_def old new d =
     (let f = (\<lambda>c. if c = old then new else c) in d\<lparr>
        td_columns := map (\<lambda>(n, ty). (f n, ty)) (td_columns d),
        td_required := map f (td_required d),
        td_indexes := map (\<lambda>ix. ix\<lparr>xd_columns := map f (xd_columns ix)\<rparr>) (td_indexes d),
        td_checks := map (\<lambda>(n, k, ok). (n, f k, ok)) (td_checks d)\<rparr>)"

text \<open>The trigger of a change watches the column its report names, and keeps the column from being dropped.\<close>

definition shadow_trigger :: "i32 \<Rightarrow> string" where
  "shadow_trigger k = ''og_c_shadow_'' @ show_int (sint k)"

definition report_text :: "change_row \<Rightarrow> string \<Rightarrow> string option" where
  "report_text c k = Option.bind (json_get (ch_report c) k) json_as_str"

definition watched :: "schema \<Rightarrow> table_def \<Rightarrow> string \<Rightarrow> bool" where
  "watched s d col \<longleftrightarrow> list_ex (\<lambda>c. shadow_trigger (ch_id c) \<in> set (td_triggers d) \<and> report_text c ''column'' = Some col) (schema_changes s)"

definition drop_column :: "postgres \<Rightarrow> string \<Rightarrow> string \<Rightarrow> evo_op" where
  "drop_column pg t c w = (case table_at (sch w) t of
       None \<Rightarrow> Inl (Refused (No_table t))
     | Some d \<Rightarrow>
         if \<not> has_column d c then Inl (Refused (No_column t c))
         else if watched (sch w) d c then Inl (Depended_on t c)
         else rbind (on_schema (alter_table t (drop_column_def pg c)) w) (\<lambda>w.
              Inr (set_rows t (map (set_cell c None) (rows_of w t))
                (w\<lparr>sch := (sch w)\<lparr>acl := filter (\<lambda>(r, p, obj). obj \<noteq> On_column t c) (acl (sch w))\<rparr>\<rparr>))))"

definition drop_column_if_exists :: "postgres \<Rightarrow> string \<Rightarrow> string \<Rightarrow> evo_op" where
  "drop_column_if_exists pg t c w = (case table_at (sch w) t of
       Some d \<Rightarrow> if has_column d c then drop_column pg t c w else Inr w
     | None \<Rightarrow> Inl (Refused (No_table t)))"

definition move_cell :: "string \<Rightarrow> string \<Rightarrow> data_row \<Rightarrow> data_row" where
  "move_cell old new r = set_cell old None (set_cell new (dr_cells r old) r)"

definition rename_column :: "string \<Rightarrow> string \<Rightarrow> string \<Rightarrow> evo_op" where
  "rename_column t old new w = (case table_at (sch w) t of
       None \<Rightarrow> Inl (Refused (No_table t))
     | Some d \<Rightarrow>
         if \<not> has_column d old then Inl (Refused (No_column t old))
         else if has_column d new then Inl (Exists_already t new)
         else rbind (on_schema (alter_table t (rename_column_def old new)) w) (\<lambda>w.
              Inr (set_rows t (map (move_cell old new) (rows_of w t))
                (w\<lparr>sch := (sch w)\<lparr>acl := map (\<lambda>(r, p, obj). (r, p, if obj = On_column t old then On_column t new else obj)) (acl (sch w))\<rparr>\<rparr>))))"

text \<open>A unique index refuses a table in which one tuple of values occurs twice; a null makes a tuple differ.\<close>

definition index_values :: "string list \<Rightarrow> data_row list \<Rightarrow> string list list" where
  "index_values cols rs = List.map_filter (\<lambda>r. if list_all (\<lambda>c. dr_cells r c \<noteq> None) cols
     then Some (List.map_filter (dr_cells r) cols) else None) rs"

definition create_index_now :: "string \<Rightarrow> index_def \<Rightarrow> evo_op" where
  "create_index_now t ix w =
     rbind (scan w (xd_columns ix) t) (\<lambda>rs.
     if xd_unique ix \<and> \<not> distinct (index_values (xd_columns ix) rs) then Inl (Twice_in t (join '', '' (xd_columns ix)))
     else on_schema (alter_table t (add_index ix)) w)"

definition add_trigger :: "string \<Rightarrow> string \<Rightarrow> evo_op" where
  "add_trigger t tg w = (case table_at (sch w) t of
       None \<Rightarrow> Inl (Refused (No_table t))
     | Some d \<Rightarrow> if tg \<in> set (td_triggers d) then Inl (Exists_already t tg)
                 else on_schema (alter_table t (with_trigger tg)) w)"

definition drop_trigger :: "string \<Rightarrow> string \<Rightarrow> evo_op" where
  "drop_trigger t tg = on_schema (alter_table t (\<lambda>d. d\<lparr>td_triggers := removeAll tg (td_triggers d)\<rparr>))"

text \<open>\<open>CHECK (col IS NOT NULL) NOT VALID\<close>, its validation and its removal.\<close>

definition has_check :: "table_def \<Rightarrow> string \<Rightarrow> bool" where
  "has_check d n \<longleftrightarrow> n \<in> fst ` set (td_checks d)"

definition add_check :: "string \<Rightarrow> string \<Rightarrow> string \<Rightarrow> evo_op" where
  "add_check t n col w =
     rbind (scan w [col] t) (\<lambda>_.
     if (case table_at (sch w) t of Some d \<Rightarrow> has_check d n | None \<Rightarrow> False) then Inl (Exists_already t n)
     else on_schema (alter_table t (\<lambda>d. d\<lparr>td_checks := td_checks d @ [(n, col, False)]\<rparr>)) w)"

definition validate_check :: "string \<Rightarrow> string \<Rightarrow> evo_op" where
  "validate_check t n w = (case Option.bind (table_at (sch w) t) (\<lambda>d. map_of (td_checks d) n) of
       None \<Rightarrow> Inl (Refused (No_column t n))
     | Some (col, ok) \<Rightarrow>
         if \<not> ok \<and> list_ex (\<lambda>r. dr_cells r col = None) (rows_of w t) then Inl (Null_in t col)
         else on_schema (alter_table t (\<lambda>d. d\<lparr>td_checks := map (\<lambda>(m, c, v). (m, c, if m = n then True else v)) (td_checks d)\<rparr>)) w)"

definition drop_check :: "string \<Rightarrow> string \<Rightarrow> bool \<Rightarrow> evo_op" where
  "drop_check t n if_exists w = (case table_at (sch w) t of
       None \<Rightarrow> Inl (Refused (No_table t))
     | Some d \<Rightarrow> if \<not> if_exists \<and> \<not> has_check d n then Inl (Refused (No_column t n))
                 else on_schema (alter_table t (\<lambda>d. d\<lparr>td_checks := filter (\<lambda>(m, c, v). m \<noteq> n) (td_checks d)\<rparr>)) w)"

definition set_not_null :: "string \<Rightarrow> string \<Rightarrow> evo_op" where
  "set_not_null t col w =
     rbind (scan w [col] t) (\<lambda>rs.
     if list_ex (\<lambda>r. dr_cells r col = None) rs then Inl (Null_in t col)
     else on_schema (alter_table t (\<lambda>d. d\<lparr>td_required := List.insert col (td_required d)\<rparr>)) w)"

section \<open>Views\<close>

text \<open>\<open>refresh_alias_views\<close> and \<open>drop_alias_views\<close>; the views generated for queries are dropped as well, and
  are not part of the model.\<close>

definition refresh_alias_views :: "i32 \<Rightarrow> schema \<Rightarrow> schema" where
  "refresh_alias_views tid s = fold (\<lambda>sub s. case (storage_table (cat s) sub, try_type_name (cat s) sub) of
       (Some table, Some n) \<Rightarrow> ensure_alias_view n table s | _ \<Rightarrow> s) (og_subtypes (type_labels s) tid) s"

definition drop_alias_views :: "i32 \<Rightarrow> schema \<Rightarrow> schema" where
  "drop_alias_views tid s = fold (\<lambda>sub s. case try_type_name (cat s) sub of Some n \<Rightarrow> drop_alias_view n s | None \<Rightarrow> s)
     (og_subtypes (type_labels s) tid) s"

section \<open>Writes of the application\<close>

text \<open>The trigger \<open>og__shadow_write\<close>: the shadow follows the column, and what its type cannot hold is refused.\<close>

definition shadow_write :: "postgres \<Rightarrow> string \<times> string \<times> string \<Rightarrow> data_row option \<Rightarrow> data_row \<Rightarrow> evo_error + data_row" where
  "shadow_write pg tg old r = (case tg of (col, shadow, ty) \<Rightarrow>
     if (case old of Some o' \<Rightarrow> dr_cells o' col = dr_cells r col | None \<Rightarrow> False) then Inr r
     else (case dr_cells r col of
         None \<Rightarrow> Inr (set_cell shadow None r)
       | Some v \<Rightarrow> (case cast_text pg ty v of
             None \<Rightarrow> Inl (Not_castable v ty) | Some v' \<Rightarrow> Inr (set_cell shadow (Some v') r))))"

definition dual_writes :: "schema \<Rightarrow> table_def \<Rightarrow> (string \<times> string \<times> string) list" where
  "dual_writes s d = List.map_filter (\<lambda>c. if shadow_trigger (ch_id c) \<in> set (td_triggers d)
     then (case (report_text c ''column'', report_text c ''shadow'', report_text c ''to_sql'') of
             (Some col, Some shadow, Some ty) \<Rightarrow> Some (col, shadow, ty) | _ \<Rightarrow> None)
     else None) (schema_changes s)"

fun fire :: "postgres \<Rightarrow> (string \<times> string \<times> string) list \<Rightarrow> data_row option \<Rightarrow> data_row \<Rightarrow> evo_error + data_row" where
  "fire pg [] old r = Inr r"
| "fire pg (tg # tgs) old r = rbind (shadow_write pg tg old r) (fire pg tgs old)"

definition row_refused :: "table_def \<Rightarrow> data_row \<Rightarrow> bool" where
  "row_refused d r \<longleftrightarrow> list_ex (\<lambda>c. dr_cells r c = None) (td_required d @ map (\<lambda>(n, c, ok). c) (td_checks d))"

definition app_insert :: "postgres \<Rightarrow> string \<Rightarrow> data_row \<Rightarrow> evo_op" where
  "app_insert pg t r w = (case table_at (sch w) t of
       None \<Rightarrow> Inl (Refused (No_table t))
     | Some d \<Rightarrow> rbind (fire pg (dual_writes (sch w) d) None r) (\<lambda>r.
         if row_refused d r then Inl (Null_in t [])
         else if dr_id r \<in> dr_id ` set (rows_of w t) then Inl (Twice_in t ''id'')
         else Inr (set_rows t (rows_of w t @ [r]) w)))"

text \<open>An update of one row sets some columns to values, none of them a shadow.\<close>

definition app_update :: "postgres \<Rightarrow> string \<Rightarrow> i64 \<Rightarrow> (string \<times> string option) list \<Rightarrow> evo_op" where
  "app_update pg t i sets w = (case table_at (sch w) t of
       None \<Rightarrow> Inl (Refused (No_table t))
     | Some d \<Rightarrow>
         if list_ex (\<lambda>(col, sh, ty). sh \<in> fst ` set sets) (dual_writes (sch w) d) then Inl (Refused (System_managed t)) else
         (case find (\<lambda>r. dr_id r = i) (rows_of w t) of
            None \<Rightarrow> Inr w
          | Some old \<Rightarrow> rbind (fire pg (dual_writes (sch w) d) (Some old) (fold (\<lambda>(c, v). set_cell c v) sets old)) (\<lambda>r.
              if row_refused d r then Inl (Null_in t [])
              else Inr (set_rows t (map (\<lambda>q. if dr_id q = i then r else q) (rows_of w t)) w))))"

definition app_delete :: "string \<Rightarrow> i64 \<Rightarrow> evo_op" where
  "app_delete t i w = Inr (set_rows t (filter (\<lambda>r. dr_id r \<noteq> i) (rows_of w t)) w)"

end
