(* ===== verification/Schema_Evolution.thy ===== *)
theory Schema_Evolution
  imports Evolution_State
begin

text \<open>
  Schema changes on a graph that holds data (\<open>catalog/evolution.rs\<close>): each is recorded, expanded, migrated
  in batches, validated and contracted, or aborted.  The definitions follow the file: the report a plan
  makes, what each phase does for each of the ten kinds, and the calls that move a change from phase to phase.
\<close>

section \<open>The record of a change\<close>

definition KINDS :: "string list" where
  "KINDS = [''add_property'', ''drop_property'', ''rename_property'', ''alter_property_type'', ''set_required'',
     ''add_unique'', ''rename_type'', ''alter_role'', ''add_parent'', ''remove_parent'']"

definition load :: "evo \<Rightarrow> i32 \<Rightarrow> evo_error + change_row" where
  "load w i = (case find (\<lambda>c. ch_id c = i \<and> ch_graph c \<in> fst ` set (graphs (sch w))) (schema_changes (sch w)) of
       Some c \<Rightarrow> Inr c | None \<Rightarrow> Inl (Missing_change i))"

definition save :: "change_row \<Rightarrow> string \<Rightarrow> evo \<Rightarrow> evo" where
  "save c phase w = w\<lparr>sch := (sch w)\<lparr>schema_changes := map (\<lambda>r. if ch_id r = ch_id c
     then r\<lparr>ch_phase := phase, ch_report := ch_report c,
            ch_to := (if phase \<in> {''contracted'', ''aborted''} then Some (length (versions (sch w))) else ch_to r)\<rparr>
     else r) (schema_changes (sch w))\<rparr>\<rparr>"

definition require_phase :: "change_row \<Rightarrow> string list \<Rightarrow> string \<Rightarrow> evo_error + unit" where
  "require_phase c phases doing =
     (if ch_phase c \<in> set phases then Inr () else Inl (Wrong_phase (ch_id c) (ch_phase c) doing))"

definition spec_text :: "json \<Rightarrow> string \<Rightarrow> evo_error + string" where
  "spec_text spec key = (case Option.bind (json_get spec key) json_as_str of
       Some v \<Rightarrow> Inr v | None \<Rightarrow> Inl (Needs_key key))"

text \<open>\<open>c.report["k"].as_str().unwrap()\<close> and \<open>as_i64().unwrap() as i32\<close>.\<close>

definition reported :: "change_row \<Rightarrow> string \<Rightarrow> evo_error + string" where
  "reported c k = (case report_text c k of Some v \<Rightarrow> Inr v | None \<Rightarrow> Inl Panic)"

definition reported_id :: "change_row \<Rightarrow> string \<Rightarrow> evo_error + i32" where
  "reported_id c k = (case Option.bind (json_get (ch_report c) k) json_as_i64 of
       Some i \<Rightarrow> Inr (ucast i) | None \<Rightarrow> Inl Panic)"

definition report_set :: "string \<Rightarrow> json \<Rightarrow> change_row \<Rightarrow> change_row" where
  "report_set key v c = c\<lparr>ch_report := JObj (btree_insert key v (case ch_report c of JObj m \<Rightarrow> m | _ \<Rightarrow> []))\<rparr>"

definition graph_name :: "schema \<Rightarrow> change_row \<Rightarrow> string" where
  "graph_name s c = (case find (\<lambda>(g, n). g = ch_graph c) (graphs s) of Some (g, n) \<Rightarrow> n | None \<Rightarrow> [])"

definition type_named :: "change_row \<Rightarrow> schema \<Rightarrow> string \<Rightarrow> evo_error + i32" where
  "type_named c s key = rbind (spec_text (ch_spec c) key) (\<lambda>n. refuse (type_id s (ch_graph c) n))"

definition type_of :: "change_row \<Rightarrow> schema \<Rightarrow> evo_error + i32" where
  "type_of c s = type_named c s ''type''"

definition the_property :: "schema \<Rightarrow> i32 \<Rightarrow> string \<Rightarrow> evo_error + string \<times> string" where
  "the_property s tid p = (case find (\<lambda>q. pr_type q = tid \<and> pr_name q = p) (properties s) of
       Some q \<Rightarrow> Inr (pr_column q, pr_dtype q)
     | None \<Rightarrow> Inl (Not_declared p (case try_type_name (cat s) tid of Some n \<Rightarrow> n | None \<Rightarrow> [])))"

text \<open>A property can be changed only where it is declared, not where it is inherited.\<close>

definition declared_here :: "schema \<Rightarrow> i32 \<Rightarrow> string \<Rightarrow> evo_error + unit" where
  "declared_here s tid p =
     (let above = filter (\<lambda>t. t \<noteq> tid) (og_supertypes (type_labels s) tid) in
      case find (\<lambda>q. pr_type q \<in> set above \<and> pr_name q = p \<and> type_at (cat s) (pr_type q) \<noteq> None) (properties s) of
        Some q \<Rightarrow> Inl (Inherited_from p (type_name_of (cat s) (pr_type q)))
      | None \<Rightarrow> Inr ())"

definition own_property :: "change_row \<Rightarrow> schema \<Rightarrow> evo_error + i32 \<times> string \<times> string \<times> string" where
  "own_property c s =
     rbind (type_of c s) (\<lambda>tid.
     rbind (spec_text (ch_spec c) ''property'') (\<lambda>p.
     rbind (the_property s tid p) (\<lambda>(col, dt).
     rbind (declared_here s tid p) (\<lambda>_. Inr (tid, p, col, dt)))))"

section \<open>Planning\<close>

definition json_nat :: "nat \<Rightarrow> json" where
  "json_nat n = json_of_i64 (of_nat n)"

definition json_i32 :: "i32 \<Rightarrow> json" where
  "json_i32 i = json_of_i64 (scast i)"

definition json_ids :: "i64 list \<Rightarrow> json" where
  "json_ids is = JArr (map json_of_i64 is)"

definition analyse_add_property :: "change_row \<Rightarrow> evo \<Rightarrow> evo_error + json" where
  "analyse_add_property c w =
     rbind (type_of c (sch w)) (\<lambda>tid.
     rbind (spec_text (ch_spec c) ''property'') (\<lambda>p.
     rbind (rbind (spec_text (ch_spec c) ''data_type'') (\<lambda>d. refuse (map_data_type d))) (\<lambda>dt.
     rbind (over_tables w tid (matching w [''__ext''] (\<lambda>r. dr_ext r p \<noteq> None))) (\<lambda>rss.
     Inr (json_object [(''type_id'', json_i32 tid), (''data_type'', JStr dt), (''values_in_ext'', json_nat (length (concat rss))),
       (''lock'', JStr ''brief ACCESS EXCLUSIVE per table (ADD COLUMN, no rewrite)'')])))))"

definition analyse_drop_property :: "change_row \<Rightarrow> evo \<Rightarrow> evo_error + json" where
  "analyse_drop_property c w =
     rbind (own_property c (sch w)) (\<lambda>(tid, p, col, dt).
     rbind (over_tables w tid (matching w [col] (\<lambda>r. dr_cells r col \<noteq> None))) (\<lambda>rss.
     Inr (json_object [(''type_id'', json_i32 tid), (''column'', JStr col), (''values_lost'', json_nat (length (concat rss))),
       (''note'', JStr ''history tables keep the column'')])))"

definition analyse_rename_property :: "change_row \<Rightarrow> evo \<Rightarrow> evo_error + json" where
  "analyse_rename_property c w =
     rbind (type_of c (sch w)) (\<lambda>tid.
     rbind (spec_text (ch_spec c) ''property'') (\<lambda>p.
     rbind (spec_text (ch_spec c) ''new_name'') (\<lambda>new.
     if is_reserved_key new then Inl (Reserved_name new) else
     rbind (the_property (sch w) tid p) (\<lambda>_.
     rbind (declared_here (sch w) tid p) (\<lambda>_.
     if list_ex (\<lambda>q. pr_type q \<in> set (og_subtypes (type_labels (sch w)) tid) \<and> pr_name q = new) (properties (sch w))
     then rbind (spec_text (ch_spec c) ''type'') (\<lambda>n. Inl (Already_a_property new n)) else
     Inr (json_object [(''type_id'', json_i32 tid), (''lock'', JStr ''catalog only; no table is rewritten'')]))))))"

definition shadow_name :: "string \<Rightarrow> i32 \<Rightarrow> string" where
  "shadow_name col i = col @ ''__s'' @ show_int (sint i)"

definition analyse_alter_property_type :: "postgres \<Rightarrow> change_row \<Rightarrow> evo \<Rightarrow> evo_error + json" where
  "analyse_alter_property_type pg c w =
     rbind (own_property c (sch w)) (\<lambda>(tid, p, col, dt).
     rbind (rbind (spec_text (ch_spec c) ''to'') (\<lambda>d. refuse (map_data_type d))) (\<lambda>ty.
     if ty = dt then Inl (Already_typed p ty) else
     rbind (over_tables w tid (matching w [col] (\<lambda>r. dr_cells r col \<noteq> None \<and> recast pg ty col r = None))) (\<lambda>bad.
     Inr (json_object [(''type_id'', json_i32 tid), (''column'', JStr col), (''from'', JStr dt), (''to_sql'', JStr ty),
       (''shadow'', JStr (shadow_name col (ch_id c))),
       (''uncastable'', json_nat (length (concat bad))), (''uncastable_samples'', json_ids (concat (map sample_ids bad))),
       (''lock'', JStr ''brief ACCESS EXCLUSIVE at expand (ADD COLUMN) and contract (DROP/RENAME)'')]))))"

definition analyse_set_required :: "change_row \<Rightarrow> evo \<Rightarrow> evo_error + json" where
  "analyse_set_required c w =
     rbind (type_of c (sch w)) (\<lambda>tid.
     rbind (spec_text (ch_spec c) ''property'') (\<lambda>p.
     rbind (the_property (sch w) tid p) (\<lambda>(col, dt).
     rbind (null_rows w tid col) (\<lambda>(n, samples).
     Inr (json_object [(''type_id'', json_i32 tid), (''column'', JStr col), (''data_type'', JStr dt), (''missing'', json_nat n),
       (''missing_samples'', json_ids samples),
       (''fill'', case json_get (ch_spec c) ''default'' of Some v \<Rightarrow> v | None \<Rightarrow> JNull),
       (''lock'', JStr ''NOT VALID check at expand; VALIDATE takes SHARE UPDATE EXCLUSIVE (writes continue)'')])))))"

definition analyse_add_unique :: "postgres \<Rightarrow> change_row \<Rightarrow> evo \<Rightarrow> evo_error + json" where
  "analyse_add_unique pg c w =
     rbind (type_of c (sch w)) (\<lambda>tid.
     rbind (spec_text (ch_spec c) ''property'') (\<lambda>p.
     rbind (the_property (sch w) tid p) (\<lambda>(col, dt).
     rbind (duplicates pg w tid col) (\<lambda>(n, samples).
     Inr (json_object [(''type_id'', json_i32 tid), (''column'', JStr col), (''duplicate_values'', json_nat n),
       (''duplicate_samples'', JArr (map JStr samples)),
       (''note'', JStr ''one unique index per concrete table, as og_add_property(is_key) builds'')])))))"

definition analyse_rename_type :: "change_row \<Rightarrow> evo \<Rightarrow> evo_error + json" where
  "analyse_rename_type c w =
     rbind (type_of c (sch w)) (\<lambda>tid.
     rbind (spec_text (ch_spec c) ''new_name'') (\<lambda>new.
     if try_type_id (sch w) (ch_graph c) new \<noteq> None then Inl (Type_taken new) else
     Inr (json_object [(''type_id'', json_i32 tid), (''lock'', JStr ''catalog only; identifiers do not change'')])))"

text \<open>Properties the child would inherit under a name it uses for another type of value, and the names it gains.\<close>

definition clashing :: "schema \<Rightarrow> i32 \<Rightarrow> i32 \<Rightarrow> string option" where
  "clashing s tid pid = map_option pr_name (find (\<lambda>p. pr_type p \<in> set (og_supertypes (type_labels s) pid) \<and>
     list_ex (\<lambda>q. pr_type q = tid \<and> pr_name q = pr_name p \<and> pr_dtype q \<noteq> pr_dtype p) (properties s)) (properties s))"

definition gained :: "schema \<Rightarrow> i32 \<Rightarrow> i32 \<Rightarrow> string list" where
  "gained s tid pid = filter (\<lambda>n. \<not> list_ex (\<lambda>q. pr_type q = tid \<and> pr_name q = n) (properties s))
     (remdups (map pr_name (filter (\<lambda>p. pr_type p \<in> set (og_supertypes (type_labels s) pid)) (properties s))))"

definition analyse_parent :: "bool \<Rightarrow> change_row \<Rightarrow> evo \<Rightarrow> evo_error + json" where
  "analyse_parent adding c w =
     (let s = sch w in
     rbind (type_of c s) (\<lambda>tid.
     rbind (type_named c s ''parent'') (\<lambda>pid.
     rbind (spec_text (ch_spec c) ''type'') (\<lambda>t.
     rbind (spec_text (ch_spec c) ''parent'') (\<lambda>p.
     rbind (case type_kind (cat s) tid of Inl e \<Rightarrow> Inl (Refused (Store_failed e)) | Inr k \<Rightarrow> Inr k) (\<lambda>k.
     rbind (case type_kind (cat s) pid of Inl e \<Rightarrow> Inl (Refused (Store_failed e)) | Inr k \<Rightarrow> Inr k) (\<lambda>k'.
     if k \<noteq> k' then Inl (Different_kinds t p) else
     let linked = (tid, pid) \<in> set (type_parents s) in
     rbind (if adding
            then if linked then Inl (Already_inherits t p)
                 else if og_is_subtype (type_labels s) pid tid then Inl (Below_already p t)
                 else (case clashing s tid pid of Some n \<Rightarrow> Inl (Types_clash n) | None \<Rightarrow> Inr ())
            else if \<not> linked then Inl (Not_below t p) else Inr ()) (\<lambda>_.
     Inr (json_object [(''type_id'', json_i32 tid), (''parent_id'', json_i32 pid),
       (''gains_properties'', JArr (if adding then map JStr (gained s tid pid) else [])),
       (''rows_touched'', json_nat 0),
       (''lock'', JStr ''catalog only; inherited columns are added without a rewrite'')])))))))))"

definition role_of :: "schema \<Rightarrow> i32 \<Rightarrow> string \<Rightarrow> evo_error + i32 \<times> i32" where
  "role_of s rid role = (case find (\<lambda>r. ro_rel r \<in> set (og_supertypes (type_labels s) rid) \<and> ro_name r = role) (roles s) of
       Some r \<Rightarrow> Inr (ro_ordinal r, ro_id r) | None \<Rightarrow> Inl (No_role_named role))"

text \<open>The edges whose player is not below the type the role is to have.\<close>

definition role_violations :: "evo \<Rightarrow> i32 \<Rightarrow> i32 \<Rightarrow> i32 \<Rightarrow> i32 \<Rightarrow> nat \<times> i64 list" where
  "role_violations w rid ordinal role_id player =
     (let wrong = (\<lambda>i. \<not> og_is_subtype (type_labels (sch w)) (id_type i) player);
          bad = (if ordinal = 0 \<or> ordinal = 1
            then map er_id (filter (\<lambda>e. er_type e \<in> set (og_subtypes (type_labels (sch w)) rid) \<and>
                   wrong (if ordinal = 0 then er_src e else er_dst e)) (og_edge (sto w)))
            else map fst (filter (\<lambda>(e, r, p). r = role_id \<and> wrong p) (og_role_player (sto w))))
      in (length bad, take 10 (sort_key sint bad)))"

definition analyse_alter_role :: "change_row \<Rightarrow> evo \<Rightarrow> evo_error + json" where
  "analyse_alter_role c w =
     rbind (type_named c (sch w) ''relation'') (\<lambda>rid.
     rbind (spec_text (ch_spec c) ''role'') (\<lambda>role.
     rbind (type_named c (sch w) ''player'') (\<lambda>player.
     rbind (role_of (sch w) rid role) (\<lambda>(ordinal, role_id).
     let (n, samples) = role_violations w rid ordinal role_id player in
     Inr (json_object [(''relation_id'', json_i32 rid), (''role_id'', json_i32 role_id), (''ordinal'', json_i32 ordinal),
       (''player_id'', json_i32 player), (''violations'', json_nat n), (''violation_samples'', json_ids samples)])))))"

definition analyse :: "postgres \<Rightarrow> change_row \<Rightarrow> evo \<Rightarrow> evo_error + json" where
  "analyse pg c w =
     (if ch_kind c = ''add_property'' then analyse_add_property c w
      else if ch_kind c = ''drop_property'' then analyse_drop_property c w
      else if ch_kind c = ''rename_property'' then analyse_rename_property c w
      else if ch_kind c = ''alter_property_type'' then analyse_alter_property_type pg c w
      else if ch_kind c = ''set_required'' then analyse_set_required c w
      else if ch_kind c = ''add_unique'' then analyse_add_unique pg c w
      else if ch_kind c = ''rename_type'' then analyse_rename_type c w
      else if ch_kind c = ''add_parent'' then analyse_parent True c w
      else if ch_kind c = ''remove_parent'' then analyse_parent False c w
      else if ch_kind c = ''alter_role'' then analyse_alter_role c w
      else Inl Panic)"

section \<open>Expanding\<close>

text \<open>What \<open>og_add_property\<close> does to the rows: a payload key moves into the column.\<close>

definition move_value :: "postgres \<Rightarrow> string \<times> string \<times> string \<times> string \<Rightarrow> evo_op" where
  "move_value pg mv w = (case mv of (t, key, col, ty) \<Rightarrow>
     rbind (rmap (\<lambda>r. case dr_ext r key of
         None \<Rightarrow> Inr r
       | Some v \<Rightarrow>
           (case Option.bind v (cast_text pg ty) of
              None \<Rightarrow> if v = None then Inr (set_cell col None (r\<lparr>dr_ext := (dr_ext r)(key := None)\<rparr>)) else Inl (Refused (Cast_failed t key))
            | Some x \<Rightarrow> Inr (set_cell col (Some x) (r\<lparr>dr_ext := (dr_ext r)(key := None)\<rparr>)))) (rows_of w t)) (\<lambda>rs.
     Inr (set_rows t rs w)))"

definition expand_add_property :: "postgres \<Rightarrow> change_row \<Rightarrow> evo_op" where
  "expand_add_property pg c w =
     (if Option.bind (json_get (ch_spec c) ''required'') json_as_bool = Some True then Inl Optional_first else
      rbind (spec_text (ch_spec c) ''type'') (\<lambda>t.
      rbind (spec_text (ch_spec c) ''property'') (\<lambda>p.
      rbind (spec_text (ch_spec c) ''data_type'') (\<lambda>d.
      rbind (on_schema (og_add_property (pg_letters pg) (sto w) (graph_name (sch w) c) t p d False False) w) (\<lambda>w'.
      rfold (move_value pg) (drop (length (moved_values (sch w))) (moved_values (sch w'))) w')))))"

text \<open>A second name for the same column.\<close>

definition expand_rename_property :: "change_row \<Rightarrow> evo_op" where
  "expand_rename_property c w =
     rbind (type_of c (sch w)) (\<lambda>tid.
     rbind (spec_text (ch_spec c) ''property'') (\<lambda>p.
     rbind (spec_text (ch_spec c) ''new_name'') (\<lambda>new.
     let subs = og_subtypes (type_labels (sch w)) tid;
         named = filter (\<lambda>q. pr_type q \<in> set subs \<and> pr_name q = p) (properties (sch w)) in
     if list_ex (\<lambda>q. pr_type q \<in> pr_type ` set named \<and> pr_name q = new) (properties (sch w)) then Inl (Refused (Duplicate_row new))
     else Inr (w\<lparr>sch := (sch w)\<lparr>properties := properties (sch w) @ map (\<lambda>q. q\<lparr>pr_name := new\<rparr>) named\<rparr>\<rparr>))))"

definition attach_shadow :: "change_row \<Rightarrow> string \<Rightarrow> string \<Rightarrow> string \<Rightarrow> i32 \<times> string \<Rightarrow> evo_op" where
  "attach_shadow c col shadow ty st w = (case st of (sub, t) \<Rightarrow>
     rbind (on_schema (alter_table t (with_column shadow ty)) w) (\<lambda>w.
     rbind (scan w [col] t) (\<lambda>_.
     rbind (add_trigger t (shadow_trigger (ch_id c)) w) (\<lambda>w.
     on_schema (sync_history sub) w))))"

definition spec_set :: "(string \<times> json) list \<Rightarrow> json \<Rightarrow> json" where
  "spec_set kv spec = JObj (foldl (\<lambda>m (k, v). btree_insert k v m) (case spec of JObj m \<Rightarrow> m | _ \<Rightarrow> []) kv)"

definition save_spec :: "change_row \<Rightarrow> json \<Rightarrow> evo \<Rightarrow> evo" where
  "save_spec c spec w = w\<lparr>sch := (sch w)\<lparr>schema_changes :=
     map (\<lambda>r. if ch_id r = ch_id c then r\<lparr>ch_spec := spec\<rparr> else r) (schema_changes (sch w))\<rparr>\<rparr>"

definition expand_alter_property_type :: "change_row \<Rightarrow> evo_op" where
  "expand_alter_property_type c w =
     rbind (type_of c (sch w)) (\<lambda>tid.
     rbind (reported c ''shadow'') (\<lambda>shadow.
     rbind (reported c ''to_sql'') (\<lambda>ty.
     rbind (reported c ''column'') (\<lambda>col.
     rbind (rfold (attach_shadow c col shadow ty) (concrete (sch w) tid) w) (\<lambda>w.
     let spec = spec_set [(''type_id'', json_i32 tid), (''column'', JStr col), (''shadow'', JStr shadow), (''to_sql'', JStr ty)] (ch_spec c)
     in Inr (save_spec c spec w))))))"

definition required_check :: "change_row \<Rightarrow> string" where
  "required_check c = ''og_req_'' @ show_int (sint (ch_id c))"

definition expand_set_required :: "change_row \<Rightarrow> evo_op" where
  "expand_set_required c w =
     rbind (reported c ''column'') (\<lambda>col.
     rbind (type_of c (sch w)) (\<lambda>tid.
     rfold (\<lambda>(sub, t). add_check t (required_check c) col) (concrete (sch w) tid) w))"

definition expand :: "postgres \<Rightarrow> change_row \<Rightarrow> evo_op" where
  "expand pg c w =
     (if ch_kind c = ''add_property'' then expand_add_property pg c w
      else if ch_kind c = ''rename_property'' then expand_rename_property c w
      else if ch_kind c = ''alter_property_type'' then expand_alter_property_type c w
      else if ch_kind c = ''set_required'' then expand_set_required c w
      else if ch_kind c \<in> {''drop_property'', ''add_unique'', ''rename_type'', ''alter_role'', ''add_parent'', ''remove_parent''} then Inr w
      else Inl Panic)"

section \<open>Migrating\<close>

text \<open>One page of a table in the order of identifiers; the rows touched, and the last identifier.\<close>

definition page_ids :: "(data_row \<Rightarrow> bool) \<Rightarrow> i64 \<Rightarrow> nat \<Rightarrow> data_row list \<Rightarrow> i64 list" where
  "page_ids P start batch rs =
     take batch (sort_key sint (map dr_id (filter (\<lambda>r. sint start < sint (dr_id r) \<and> P r) rs)))"

definition batch_update :: "string list \<Rightarrow> (data_row \<Rightarrow> data_row) \<Rightarrow> (data_row \<Rightarrow> bool) \<Rightarrow> i64 \<Rightarrow> nat \<Rightarrow> string \<Rightarrow> evo \<Rightarrow>
    evo_error + (nat \<times> i64 option) \<times> evo" where
  "batch_update cols f P start batch t w =
     rbind (scan w cols t) (\<lambda>rs.
     let page = page_ids P start batch rs; here = (\<lambda>r. dr_id r \<in> set page) in
     Inr ((length (filter here rs), if page = [] then None else Some (last page)),
          set_rows t (map (\<lambda>r. if here r then f r else r) rs) w))"

text \<open>A history table has no key to page on: one statement per call.\<close>

definition retype_due :: "postgres \<Rightarrow> string \<Rightarrow> string \<Rightarrow> string \<Rightarrow> data_row \<Rightarrow> bool" where
  "retype_due pg col shadow ty r \<longleftrightarrow> dr_cells r col \<noteq> None \<and> dr_cells r shadow = None \<and> recast pg ty col r \<noteq> None"

definition retype_row :: "postgres \<Rightarrow> string \<Rightarrow> string \<Rightarrow> string \<Rightarrow> data_row \<Rightarrow> data_row" where
  "retype_row pg col shadow ty r = set_cell shadow (recast pg ty col r) r"

definition retype_history :: "postgres \<Rightarrow> string \<Rightarrow> string \<Rightarrow> string \<Rightarrow> string \<Rightarrow> evo \<Rightarrow> evo_error + nat \<times> evo" where
  "retype_history pg col shadow ty t w = (case hist (sch w) t of
       None \<Rightarrow> Inr (0, w)
     | Some h \<Rightarrow> rbind (scan w [col, shadow] h) (\<lambda>rs.
         Inr (length (filter (retype_due pg col shadow ty) rs),
              set_rows h (map (\<lambda>r. if retype_due pg col shadow ty r then retype_row pg col shadow ty r else r) rs) w)))"

definition cursor_at :: "(string \<times> json) list \<Rightarrow> string \<Rightarrow> i64" where
  "cursor_at cursors t = (case Option.bind (map_of cursors t) json_as_i64 of Some i \<Rightarrow> i | None \<Rightarrow> of_int (- (2 ^ 63)))"

definition advance :: "string \<Rightarrow> i64 option \<Rightarrow> (string \<times> json) list \<Rightarrow> (string \<times> json) list" where
  "advance t reached cursors = (case reached of Some l \<Rightarrow> btree_insert t (json_of_i64 l) cursors | None \<Rightarrow> cursors)"

fun retype_tables :: "postgres \<Rightarrow> string \<Rightarrow> string \<Rightarrow> string \<Rightarrow> nat \<Rightarrow> string list \<Rightarrow> (string \<times> json) list \<Rightarrow> evo \<Rightarrow>
    evo_error + nat \<times> (string \<times> json) list \<times> evo" where
  "retype_tables pg col shadow ty batch [] cursors w = Inr (0, cursors, w)"
| "retype_tables pg col shadow ty batch (t # ts) cursors w =
     rbind (batch_update [col, shadow] (retype_row pg col shadow ty) (\<lambda>r. dr_cells r col \<noteq> None) (cursor_at cursors t) batch t w) (\<lambda>((n, reached), w).
     rbind (retype_history pg col shadow ty t w) (\<lambda>(m, w).
     rbind (retype_tables pg col shadow ty batch ts (advance t reached cursors) w) (\<lambda>(k, cursors, w).
     Inr (n + m + k, cursors, w))))"

definition migrate_retype :: "postgres \<Rightarrow> nat \<Rightarrow> change_row \<Rightarrow> evo \<Rightarrow> evo_error + nat \<times> change_row \<times> evo" where
  "migrate_retype pg batch c w =
     rbind (reported c ''column'') (\<lambda>col.
     rbind (reported c ''shadow'') (\<lambda>shadow.
     rbind (reported c ''to_sql'') (\<lambda>ty.
     rbind (type_of c (sch w)) (\<lambda>tid.
     rbind (retype_tables pg col shadow ty batch (map snd (concrete (sch w) tid))
              (case json_get (ch_report c) ''cursor'' of Some (JObj m) \<Rightarrow> m | _ \<Rightarrow> []) w) (\<lambda>(n, cursors, w).
     Inr (n, report_set ''cursor'' (JObj cursors) c, w))))))"

text \<open>Filling the nulls of one table: the update fires the dual writes of other changes, respects unique indexes,
  and its former rows go to the history.\<close>

definition fill_due :: "string \<Rightarrow> nat \<Rightarrow> data_row list \<Rightarrow> i64 set" where
  "fill_due col batch rs = set (map dr_id (take batch (filter (\<lambda>r. dr_cells r col = None) rs)))"

definition keep_history :: "postgres \<Rightarrow> string \<Rightarrow> table_def \<Rightarrow> i64 set \<Rightarrow> data_row list \<Rightarrow> data_row list \<Rightarrow> evo \<Rightarrow> evo" where
  "keep_history pg t d due rs rs' w = (case hist (sch w) t of
       None \<Rightarrow> w
     | Some h \<Rightarrow> if ''og_b_temporal'' \<in> set (td_triggers d)
         then set_rows h (rows_of w h @ concat (map (\<lambda>(r, r'). if dr_id r \<in> due then captured pg t r r' else []) (zip rs rs'))) w
         else w)"

definition fill_table :: "postgres \<Rightarrow> string \<Rightarrow> string \<Rightarrow> nat \<Rightarrow> string \<Rightarrow> evo \<Rightarrow> evo_error + nat \<times> evo" where
  "fill_table pg col v batch t w = (case table_at (sch w) t of
       None \<Rightarrow> Inl (Refused (No_table t))
     | Some d \<Rightarrow>
         rbind (scan w [col] t) (\<lambda>rs.
         let due = fill_due col batch rs in
         rbind (rmap (\<lambda>r. if dr_id r \<in> due then fire pg (dual_writes (sch w) d) (Some r) (set_cell col (Some v) r) else Inr r) rs) (\<lambda>rs'.
         if list_ex (\<lambda>ix. xd_unique ix \<and> col \<in> set (xd_columns ix) \<and> \<not> distinct (index_values (xd_columns ix) rs')) (td_indexes d)
         then Inl (Twice_in t col)
         else Inr (length (filter (\<lambda>r. dr_id r \<in> due) rs), keep_history pg t d due rs rs' (set_rows t rs' w)))))"

fun fill_tables :: "postgres \<Rightarrow> string \<Rightarrow> string \<Rightarrow> nat \<Rightarrow> string list \<Rightarrow> evo \<Rightarrow> evo_error + nat \<times> evo" where
  "fill_tables pg col v batch [] w = Inr (0, w)"
| "fill_tables pg col v batch (t # ts) w =
     rbind (fill_table pg col v batch t w) (\<lambda>(n, w).
     rbind (fill_tables pg col v batch ts w) (\<lambda>(m, w). Inr (n + m, w)))"

definition migrate_required :: "postgres \<Rightarrow> nat \<Rightarrow> change_row \<Rightarrow> evo \<Rightarrow> evo_error + nat \<times> change_row \<times> evo" where
  "migrate_required pg batch c w =
     (let fill = (case json_get (ch_spec c) ''default'' of Some v \<Rightarrow> v | None \<Rightarrow> JNull) in
      if fill = JNull then Inr (0, c, w) else
      rbind (reported c ''column'') (\<lambda>col.
      rbind (reported c ''data_type'') (\<lambda>dt.
      let lit = (case fill of JStr v \<Rightarrow> v | _ \<Rightarrow> literal_text pg fill) in
      rbind (type_of c (sch w)) (\<lambda>tid.
      let ts = map snd (concrete (sch w) tid) in
      if ts = [] then Inr (0, c, w)
      else (case cast_text pg dt lit of
            None \<Rightarrow> Inl (Not_castable lit dt)
          | Some v \<Rightarrow> rbind (fill_tables pg col v batch ts w) (\<lambda>(n, w). Inr (n, c, w)))))))"

definition migrate :: "postgres \<Rightarrow> nat \<Rightarrow> change_row \<Rightarrow> evo \<Rightarrow> evo_error + nat \<times> change_row \<times> evo" where
  "migrate pg batch c w =
     (if ch_kind c = ''alter_property_type'' then migrate_retype pg batch c w
      else if ch_kind c = ''set_required'' then migrate_required pg batch c w
      else Inr (0, c, w))"

section \<open>Validating\<close>

definition unmoved :: "string \<Rightarrow> string \<Rightarrow> data_row \<Rightarrow> bool" where
  "unmoved col shadow r \<longleftrightarrow> dr_cells r col \<noteq> None \<and> dr_cells r shadow = None"

text \<open>The rows of the tables are counted and sampled, those of the history are counted.\<close>

definition validate_retype :: "change_row \<Rightarrow> evo \<Rightarrow> evo_error + nat \<times> json list" where
  "validate_retype c w =
     rbind (reported c ''column'') (\<lambda>col.
     rbind (reported c ''shadow'') (\<lambda>shadow.
     rbind (type_of c (sch w)) (\<lambda>tid.
     rbind (over_tables w tid (\<lambda>t.
        rbind (matching w [col, shadow] (unmoved col shadow) t) (\<lambda>bad.
        rbind (case hist (sch w) t of None \<Rightarrow> Inr [] | Some h \<Rightarrow> matching w [col, shadow] (unmoved col shadow) h) (\<lambda>old.
        Inr (length bad + length old, sample_ids bad))))) (\<lambda>found.
     Inr (sum_list (map fst found), map json_of_i64 (take 10 (concat (map snd found))))))))"

definition validate :: "postgres \<Rightarrow> change_row \<Rightarrow> evo \<Rightarrow> evo_error + nat \<times> json list" where
  "validate pg c w =
     (if ch_kind c = ''alter_property_type'' then validate_retype c w
      else if ch_kind c = ''set_required'' then
        rbind (reported c ''column'') (\<lambda>col. rbind (type_of c (sch w)) (\<lambda>tid.
        rbind (null_rows w tid col) (\<lambda>(n, ids). Inr (n, map json_of_i64 ids))))
      else if ch_kind c = ''add_unique'' then
        rbind (reported c ''column'') (\<lambda>col. rbind (type_of c (sch w)) (\<lambda>tid.
        rbind (duplicates pg w tid col) (\<lambda>(n, vs). Inr (n, map JStr vs))))
      else if ch_kind c = ''alter_role'' then
        rbind (reported_id c ''relation_id'') (\<lambda>rid.
        rbind (reported_id c ''ordinal'') (\<lambda>ordinal.
        rbind (reported_id c ''role_id'') (\<lambda>role_id.
        rbind (reported_id c ''player_id'') (\<lambda>player.
        let (n, ids) = role_violations w rid ordinal role_id player in Inr (n, map json_of_i64 ids)))))
      else Inr (0, []))"

definition finish_validation :: "change_row \<Rightarrow> evo_op" where
  "finish_validation c w =
     (if ch_kind c = ''set_required''
      then rbind (type_of c (sch w)) (\<lambda>tid. rfold (\<lambda>(sub, t). validate_check t (required_check c)) (concrete (sch w) tid) w)
      else Inr w)"

section \<open>Contracting\<close>

definition on_tables :: "(i32 \<times> string \<Rightarrow> evo_op) \<Rightarrow> i32 \<Rightarrow> evo_op" where
  "on_tables f tid w = rfold f (concrete (sch w) tid) w"

definition update_schema :: "(schema \<Rightarrow> schema) \<Rightarrow> evo \<Rightarrow> evo" where
  "update_schema f w = w\<lparr>sch := f (sch w)\<rparr>"

text \<open>Rows of \<open>og_catalog.property\<close> at and below a type.\<close>

definition delete_property :: "i32 \<Rightarrow> string \<Rightarrow> schema \<Rightarrow> schema" where
  "delete_property tid p s =
     s\<lparr>properties := filter (\<lambda>q. \<not> (pr_type q \<in> set (og_subtypes (type_labels s) tid) \<and> pr_name q = p)) (properties s)\<rparr>"

definition update_property :: "i32 \<Rightarrow> string \<Rightarrow> (prop_row \<Rightarrow> prop_row) \<Rightarrow> schema \<Rightarrow> schema" where
  "update_property tid col f s =
     s\<lparr>properties := map (\<lambda>q. if pr_type q \<in> set (og_subtypes (type_labels s) tid) \<and> pr_column q = col then f q else q) (properties s)\<rparr>"

definition contract_drop_property :: "postgres \<Rightarrow> change_row \<Rightarrow> evo_op" where
  "contract_drop_property pg c w =
     rbind (type_of c (sch w)) (\<lambda>tid.
     rbind (reported c ''column'') (\<lambda>col.
     rbind (spec_text (ch_spec c) ''property'') (\<lambda>p.
     let w = update_schema (drop_alias_views tid) w in
     rbind (on_tables (\<lambda>(sub, t). drop_column_if_exists pg t col) tid w) (\<lambda>w.
     Inr (update_schema (\<lambda>s. refresh_alias_views tid (delete_property tid p s)) w)))))"

text \<open>\<open>array_replace\<close> in the write grants at and above the type, and in the indexes recorded for its name.\<close>

definition contract_rename_property :: "change_row \<Rightarrow> evo_op" where
  "contract_rename_property c w =
     rbind (type_of c (sch w)) (\<lambda>tid.
     rbind (spec_text (ch_spec c) ''property'') (\<lambda>p.
     rbind (spec_text (ch_spec c) ''new_name'') (\<lambda>new.
     rbind (spec_text (ch_spec c) ''type'') (\<lambda>t.
     let swap = map (\<lambda>n. if n = p then new else n) in
     Inr (update_schema (\<lambda>s. let s = delete_property tid p s in s\<lparr>
       write_grants := map (\<lambda>g. if wg_type g \<in> set (og_supertypes (type_labels s) tid) then g\<lparr>wg_props := map_option swap (wg_props g)\<rparr> else g) (write_grants s),
       compat_index := map (\<lambda>r. if ci_graph r = ch_graph c \<and> ci_type r = t then r\<lparr>ci_props := swap (ci_props r)\<rparr> else r) (compat_index s)\<rparr>) w)))))"

text \<open>The indexes whose columns include the column, without the primary key.\<close>

definition column_indexes :: "string \<Rightarrow> string \<Rightarrow> table_def \<Rightarrow> index_def list" where
  "column_indexes t col d = filter (\<lambda>ix. col \<in> set (xd_columns ix) \<and> xd_name ix \<noteq> drop 8 t @ ''_pkey'') (td_indexes d)"

definition swap_in :: "postgres \<Rightarrow> string \<Rightarrow> string \<Rightarrow> string \<Rightarrow> evo_op" where
  "swap_in pg col shadow rel w = rbind (drop_column pg rel col w) (rename_column rel shadow col)"

definition swap_table :: "postgres \<Rightarrow> change_row \<Rightarrow> string \<Rightarrow> string \<Rightarrow> i32 \<times> string \<Rightarrow> evo_op" where
  "swap_table pg c col shadow st w = (case st of (sub, t) \<Rightarrow> (case table_at (sch w) t of
       None \<Rightarrow> Inl (Refused (No_table t))
     | Some d \<Rightarrow>
         rbind (drop_trigger t (shadow_trigger (ch_id c)) w) (\<lambda>w.
         rbind (rfold (swap_in pg col shadow) (t # (case hist (sch w) t of Some h \<Rightarrow> [h] | None \<Rightarrow> [])) w) (\<lambda>w.
         rbind (rfold (create_index_now t) (column_indexes t col d) w) (\<lambda>w.
         on_schema (replay_write_grants sub) w)))))"

definition contract_alter_property_type :: "postgres \<Rightarrow> change_row \<Rightarrow> evo_op" where
  "contract_alter_property_type pg c w =
     rbind (type_of c (sch w)) (\<lambda>tid.
     rbind (reported c ''column'') (\<lambda>col.
     rbind (reported c ''shadow'') (\<lambda>shadow.
     rbind (reported c ''to_sql'') (\<lambda>ty.
     let w = update_schema (drop_alias_views tid) w in
     rbind (on_tables (swap_table pg c col shadow) tid w) (\<lambda>w.
     Inr (update_schema (\<lambda>s. refresh_alias_views tid (update_property tid col (\<lambda>q. q\<lparr>pr_dtype := ty\<rparr>) s)) w))))))"

definition tighten_table :: "change_row \<Rightarrow> string \<Rightarrow> i32 \<times> string \<Rightarrow> evo_op" where
  "tighten_table c col st w = (case st of (sub, t) \<Rightarrow>
     rbind (set_not_null t col w) (drop_check t (required_check c) False))"

definition contract_set_required :: "change_row \<Rightarrow> evo_op" where
  "contract_set_required c w =
     rbind (type_of c (sch w)) (\<lambda>tid.
     rbind (reported c ''column'') (\<lambda>col.
     let w = update_schema (drop_alias_views tid) w in
     rbind (on_tables (tighten_table c col) tid w) (\<lambda>w.
     Inr (update_schema (\<lambda>s. refresh_alias_views tid (update_property tid col (\<lambda>q. q\<lparr>pr_required := True\<rparr>) s)) w))))"

text \<open>\<open>CREATE UNIQUE INDEX IF NOT EXISTS\<close>: an index of that name is left as it is.\<close>

definition unique_table :: "string \<Rightarrow> i32 \<times> string \<Rightarrow> evo_op" where
  "unique_table col st w = (case st of (sub, t) \<Rightarrow>
     (let n = pg_name (unique_name sub col) in
      if (case table_at (sch w) t of Some d \<Rightarrow> has_column d col \<and> n \<in> xd_name ` set (td_indexes d) | None \<Rightarrow> False) then Inr w
      else create_index_now t (unique_index n [col]) w))"

definition contract_add_unique :: "change_row \<Rightarrow> evo_op" where
  "contract_add_unique c w =
     rbind (type_of c (sch w)) (\<lambda>tid.
     rbind (reported c ''column'') (\<lambda>col.
     rbind (on_tables (unique_table col) tid w) (\<lambda>w.
     Inr (update_schema (update_property tid col (\<lambda>q. q\<lparr>pr_key := True\<rparr>)) w))))"

definition contract_rename_type :: "change_row \<Rightarrow> evo_op" where
  "contract_rename_type c w =
     rbind (type_of c (sch w)) (\<lambda>tid.
     rbind (spec_text (ch_spec c) ''type'') (\<lambda>old.
     rbind (spec_text (ch_spec c) ''new_name'') (\<lambda>new.
     if (case try_type_id (sch w) (ch_graph c) new of Some t \<Rightarrow> t \<noteq> tid | None \<Rightarrow> False) then Inl (Refused (Duplicate_row new)) else
     Inr (update_schema (\<lambda>s.
       let s = s\<lparr>types := map (\<lambda>r. if tr_id r = tid then r\<lparr>tr_name := new\<rparr> else r) (types s)\<rparr>;
           s = drop_alias_view old s;
           s = (case storage_table (cat s) tid of Some table \<Rightarrow> ensure_alias_view new table s | None \<Rightarrow> s)
       in s\<lparr>compat_index := map (\<lambda>r. if ci_graph r = ch_graph c \<and> ci_type r = old then r\<lparr>ci_type := new\<rparr> else r) (compat_index s)\<rparr>) w))))"

text \<open>What one table below the new child inherits.\<close>

definition inherit_from :: "i32 \<Rightarrow> i32 \<Rightarrow> schema_op" where
  "inherit_from pid sub s = (case storage_table (cat s) sub of
       None \<Rightarrow> Inr s
     | Some table \<Rightarrow>
         rbind (copy_inherited_properties pid sub table s) (\<lambda>s.
         rbind (if inherits_stamping s sub then stamp_table table s else Inr s) (\<lambda>s.
         rbind (if is_temporal s sub then enable_table sub s else Inr s) (\<lambda>s.
         rbind (sync_history sub s) (\<lambda>s.
         replay_write_grants sub s)))))"

definition insert_parent :: "i32 \<Rightarrow> i32 \<Rightarrow> schema_op" where
  "insert_parent tid pid s =
     (if (tid, pid) \<in> set (type_parents s) then Inl (Duplicate_row [])
      else if type_at (cat s) tid = None then Inl (Store_failed (Unknown_type tid))
      else if type_at (cat s) pid = None then Inl (Store_failed (Unknown_type pid))
      else Inr (s\<lparr>type_parents := type_parents s @ [(tid, pid)]\<rparr>))"

definition contract_add_parent :: "change_row \<Rightarrow> evo_op" where
  "contract_add_parent c w =
     rbind (reported_id c ''type_id'') (\<lambda>tid.
     rbind (reported_id c ''parent_id'') (\<lambda>pid.
     on_schema (\<lambda>s.
       rbind (insert_parent tid pid s) (\<lambda>s.
       rbind (relabel (ch_graph c) s) (\<lambda>s.
       rbind (rfold (inherit_from pid) (og_subtypes (type_labels s) tid) s) (\<lambda>s.
       Inr (refresh_alias_views tid s))))) w))"

text \<open>What was inherited stays, as the type's own.\<close>

definition contract_remove_parent :: "change_row \<Rightarrow> evo_op" where
  "contract_remove_parent c w =
     rbind (reported_id c ''type_id'') (\<lambda>tid.
     rbind (reported_id c ''parent_id'') (\<lambda>pid.
     on_schema (\<lambda>s. relabel (ch_graph c) (s\<lparr>type_parents := filter (\<lambda>l. l \<noteq> (tid, pid)) (type_parents s)\<rparr>)) w))"

definition spec_i32 :: "json \<Rightarrow> string \<Rightarrow> i32 option" where
  "spec_i32 spec k = map_option ucast (Option.bind (json_get spec k) json_as_i64)"

definition contract_alter_role :: "change_row \<Rightarrow> evo_op" where
  "contract_alter_role c w =
     rbind (reported_id c ''role_id'') (\<lambda>role_id.
     rbind (reported_id c ''player_id'') (\<lambda>player.
     if type_at (cat (sch w)) player = None then Inl (Refused (Store_failed (Unknown_type player))) else
     Inr (update_schema (\<lambda>s. s\<lparr>roles := map (\<lambda>r. if ro_id r = role_id then r\<lparr>ro_player := Some player,
         ro_card_min := (case spec_i32 (ch_spec c) ''card_min'' of Some m \<Rightarrow> m | None \<Rightarrow> ro_card_min r),
         ro_card_max := (if json_get (ch_spec c) ''card_max'' \<noteq> None then spec_i32 (ch_spec c) ''card_max'' else ro_card_max r)\<rparr>
       else r) (roles s)\<rparr>) w)))"

definition contract :: "postgres \<Rightarrow> change_row \<Rightarrow> evo_op" where
  "contract pg c w =
     (if ch_kind c = ''add_property'' then Inr w
      else if ch_kind c = ''drop_property'' then contract_drop_property pg c w
      else if ch_kind c = ''rename_property'' then contract_rename_property c w
      else if ch_kind c = ''alter_property_type'' then contract_alter_property_type pg c w
      else if ch_kind c = ''set_required'' then contract_set_required c w
      else if ch_kind c = ''add_unique'' then contract_add_unique c w
      else if ch_kind c = ''rename_type'' then contract_rename_type c w
      else if ch_kind c = ''add_parent'' then contract_add_parent c w
      else if ch_kind c = ''remove_parent'' then contract_remove_parent c w
      else if ch_kind c = ''alter_role'' then contract_alter_role c w
      else Inl Panic)"

section \<open>Aborting\<close>

definition detach_shadow :: "postgres \<Rightarrow> change_row \<Rightarrow> string \<Rightarrow> i32 \<times> string \<Rightarrow> evo_op" where
  "detach_shadow pg c shadow st w = (case st of (sub, t) \<Rightarrow>
     rbind (drop_trigger t (shadow_trigger (ch_id c)) w) (\<lambda>w.
     rfold (\<lambda>rel. drop_column_if_exists pg rel shadow) (t # (case hist (sch w) t of Some h \<Rightarrow> [h] | None \<Rightarrow> [])) w))"

definition abort :: "postgres \<Rightarrow> change_row \<Rightarrow> evo_op" where
  "abort pg c w =
     (if ch_kind c = ''rename_property'' then
        rbind (type_of c (sch w)) (\<lambda>tid.
        rbind (spec_text (ch_spec c) ''new_name'') (\<lambda>new.
        Inr (update_schema (delete_property tid new) w)))
      else if ch_kind c = ''alter_property_type'' then
        rbind (type_of c (sch w)) (\<lambda>tid.
        rbind (reported c ''shadow'') (\<lambda>shadow.
        let w = update_schema (drop_alias_views tid) w in
        rbind (on_tables (detach_shadow pg c shadow) tid w) (\<lambda>w.
        Inr (update_schema (refresh_alias_views tid) w))))
      else if ch_kind c = ''set_required'' then
        rbind (type_of c (sch w)) (\<lambda>tid.
        on_tables (\<lambda>(sub, t). drop_check t (required_check c) True) tid w)
      else Inr w)"

section \<open>The calls\<close>

definition change_kind :: "json \<Rightarrow> string" where
  "change_kind spec = (case Option.bind (json_get spec ''kind'') json_as_str of Some k \<Rightarrow> k | None \<Rightarrow> [])"

definition insert_change :: "i32 \<Rightarrow> json \<Rightarrow> evo \<Rightarrow> evo" where
  "insert_change gid spec w = w\<lparr>sch := (sch w)\<lparr>schema_changes := schema_changes (sch w) @
     [\<lparr>ch_id = of_nat (next_change w), ch_graph = gid, ch_kind = change_kind spec, ch_spec = spec, ch_phase = ''planned'',
       ch_report = JObj [], ch_from = length (versions (sch w)), ch_to = None\<rparr>]\<rparr>, next_change := next_change w + 1\<rparr>"

definition og_schema_plan :: "postgres \<Rightarrow> string \<Rightarrow> json \<Rightarrow> evo \<Rightarrow> evo_error + i32 \<times> evo" where
  "og_schema_plan pg graph spec w =
     rbind (refuse (graph_id (sch w) graph)) (\<lambda>gid.
     if change_kind spec \<notin> set KINDS then Inl (Unknown_change (change_kind spec))
     else if next_change w \<ge> 2 ^ 31 then Inl (Refused Out_of_ids)
     else
     let i = of_nat (next_change w); w = insert_change gid spec w in
     rbind (load w i) (\<lambda>c.
     rbind (analyse pg c w) (\<lambda>r.
     Inr (i, save (c\<lparr>ch_report := r\<rparr>) ''planned'' w))))"

definition version_note :: "change_row \<Rightarrow> string \<Rightarrow> string" where
  "version_note c what = ''schema change '' @ show_int (sint (ch_id c)) @ what"

definition noted :: "change_row \<Rightarrow> string \<Rightarrow> evo \<Rightarrow> evo" where
  "noted c what = update_schema (bump_schema_version (ch_graph c) (version_note c what))"

definition og_schema_expand :: "postgres \<Rightarrow> i32 \<Rightarrow> evo \<Rightarrow> evo_error + json \<times> evo" where
  "og_schema_expand pg i w =
     rbind (load w i) (\<lambda>c.
     rbind (require_phase c [''planned''] ''expand'') (\<lambda>_.
     rbind (expand pg c w) (\<lambda>w.
     Inr (ch_report c, noted c ('' expand ('' @ ch_kind c @ '')'') (save c ''expanded'' w)))))"

definition og_schema_migrate :: "postgres \<Rightarrow> i32 \<Rightarrow> i32 \<Rightarrow> evo \<Rightarrow> evo_error + json \<times> evo" where
  "og_schema_migrate pg i batch w =
     rbind (load w i) (\<lambda>c.
     rbind (require_phase c [''expanded'', ''migrating''] ''migrate'') (\<lambda>_.
     rbind (migrate pg (nat (max 1 (sint batch))) c w) (\<lambda>(moved, c, w).
     let total = (case Option.bind (json_get (ch_report c) ''migrated'') json_as_i64 of Some n \<Rightarrow> n | None \<Rightarrow> 0) + of_nat moved;
         c = report_set ''migration_done'' (JBool (moved = 0)) (report_set ''migrated'' (json_of_i64 total)
               (report_set ''migrated_last_call'' (json_nat moved) c))
     in Inr (json_object [(''change_id'', json_i32 i), (''moved'', json_nat moved), (''done'', JBool (moved = 0)), (''migrated'', json_of_i64 total)],
             save c ''migrating'' w))))"

definition og_schema_validate :: "postgres \<Rightarrow> i32 \<Rightarrow> evo \<Rightarrow> evo_error + json \<times> evo" where
  "og_schema_validate pg i w =
     rbind (load w i) (\<lambda>c.
     rbind (require_phase c [''expanded'', ''migrating'', ''validated''] ''validate'') (\<lambda>_.
     rbind (validate pg c w) (\<lambda>(n, samples).
     let c = report_set ''violation_samples'' (JArr samples) (report_set ''violations'' (json_nat n) c) in
     rbind (if n = 0 then finish_validation c w else Inr w) (\<lambda>w.
     let phase = (if n = 0 then ''validated'' else ch_phase c) in
     Inr (json_object [(''change_id'', json_i32 i), (''phase'', JStr phase), (''violations'', json_nat n), (''samples'', JArr samples)],
          save c phase w)))))"

definition og_schema_contract :: "postgres \<Rightarrow> i32 \<Rightarrow> evo \<Rightarrow> evo_error + json \<times> evo" where
  "og_schema_contract pg i w =
     rbind (load w i) (\<lambda>c.
     rbind (require_phase c [''validated''] ''contract'') (\<lambda>_.
     rbind (contract pg c w) (\<lambda>w.
     Inr (ch_report c, save c ''contracted'' (noted c ('' contract ('' @ ch_kind c @ '')'') w)))))"

definition og_schema_abort :: "postgres \<Rightarrow> i32 \<Rightarrow> evo \<Rightarrow> evo_error + json \<times> evo" where
  "og_schema_abort pg i w =
     rbind (load w i) (\<lambda>c.
     rbind (require_phase c [''planned'', ''expanded'', ''migrating'', ''validated''] ''abort'') (\<lambda>_.
     rbind (if ch_phase c \<noteq> ''planned''
            then rbind (abort pg c w) (\<lambda>w. Inr (noted c '' aborted'' w))
            else Inr w) (\<lambda>w.
     Inr (json_object [(''change_id'', json_i32 i), (''phase'', JStr ''aborted'')], save c ''aborted'' w))))"

text \<open>The loop of \<open>og_schema_apply\<close>, on fuel.\<close>

fun migrate_all :: "postgres \<Rightarrow> nat \<Rightarrow> i32 \<Rightarrow> evo \<Rightarrow> evo_error + evo" where
  "migrate_all pg 0 i w = Inl Out_of_fuel"
| "migrate_all pg (Suc n) i w =
     rbind (og_schema_migrate pg i 100000 w) (\<lambda>(r, w).
     if Option.bind (json_get r ''done'') json_as_bool = Some False then migrate_all pg n i w else Inr w)"

definition og_schema_apply :: "postgres \<Rightarrow> nat \<Rightarrow> string \<Rightarrow> json \<Rightarrow> evo \<Rightarrow> evo_error + json \<times> evo" where
  "og_schema_apply pg fuel graph spec w =
     rbind (og_schema_plan pg graph spec w) (\<lambda>(i, w).
     rbind (og_schema_expand pg i w) (\<lambda>(_, w).
     rbind (migrate_all pg fuel i w) (\<lambda>w.
     rbind (og_schema_validate pg i w) (\<lambda>(v, w).
     if Option.bind (json_get v ''phase'') json_as_str \<noteq> Some ''validated'' then Inl (Violated v)
     else og_schema_contract pg i w))))"

end
