(* ===== verification/Evolution_Phases.thy ===== *)
theory Evolution_Phases
  imports Schema_Evolution
begin

text \<open>
  The phases of a schema change.  What a phase does to tables and catalog leaves the records of the changes
  alone, so a call moves at most one change, and only along the lines of the state machine.
\<close>

section \<open>Catalog operations leave the records alone\<close>

definition same_records :: "schema \<Rightarrow> schema \<Rightarrow> bool" where
  "same_records s s' \<longleftrightarrow> schema_changes s' = schema_changes s \<and> graphs s' = graphs s"

named_theorems records

lemma same_records_refl [simp, intro, records]: "same_records s s"
  by (simp add: same_records_def)

lemma same_records_trans [trans]: "same_records s t \<Longrightarrow> same_records t u \<Longrightarrow> same_records s u"
  by (simp add: same_records_def)

lemma records_alter: "alter_table t f s = Inr s' \<Longrightarrow> same_records s s'"
  by (auto simp: alter_table_def same_records_def split: option.splits)

lemma records_create: "create_table t d s = Inr s' \<Longrightarrow> same_records s s'"
  by (auto simp: create_table_def same_records_def split: option.splits)

lemma records_plain [simp]:
  "same_records s (add_grants gs v) \<longleftrightarrow> same_records s v" "same_records s (apply_to_table t v) \<longleftrightarrow> same_records s v"
  "same_records s (drop_alias_view n v) \<longleftrightarrow> same_records s v" "same_records s (bump_schema_version g d v) \<longleftrightarrow> same_records s v"
  "same_records s (insert_property p v) \<longleftrightarrow> same_records s v" "same_records s (drop_relations R v) \<longleftrightarrow> same_records s v"
  by (simp_all add: same_records_def add_grants_def apply_to_table_def drop_alias_view_def drop_relations_def
      bump_schema_version_def insert_property_def)

lemma records_view [simp]: "same_records s (ensure_alias_view n t v) \<longleftrightarrow> same_records s v"
  by (simp add: same_records_def ensure_alias_view_def Let_def apply_to_view_def add_grants_def drop_alias_view_def drop_relations_def)

lemma records_rfold:
  assumes "\<And>x s s'. f x s = Inr s' \<Longrightarrow> same_records s s'"
  shows "rfold f xs s = Inr s' \<Longrightarrow> same_records s s'"
  by (induction xs arbitrary: s) (auto simp: rbind_eq_Inr_iff dest!: assms intro: same_records_trans)

lemma records_privileges: "privileges_only s s' \<Longrightarrow> same_records s s'"
  by (auto simp: privileges_only_def same_records_def)

lemma records_replay: "replay_write_grants sub s = Inr s' \<Longrightarrow> same_records s s'"
  unfolding replay_write_grants_def
  by (erule records_rfold [rotated]) (blast intro: records_privileges reapply_effect(1))

lemma records_sync: "sync_history sub s = Inr s' \<Longrightarrow> same_records s s'"
  by (auto simp: sync_history_def split: option.splits intro: records_alter)

lemma records_stamp: "stamp_table t s = Inr s' \<Longrightarrow> same_records s s'"
  by (auto simp: stamp_table_def intro: records_alter)

lemma records_history:
  assumes "(case table_at s h of
               Some _ \<Rightarrow> sync_history sub s
             | None \<Rightarrow> (case table_at s table of
                 None \<Rightarrow> Inl (No_table table)
               | Some d \<Rightarrow> rbind (create_table h (f d) s) (\<lambda>s. Inr (apply_to_table h (case temporal_owner s of None \<Rightarrow> s
                     | Some owner \<Rightarrow> add_grants (g owner) s))))) = Inr s'"
  shows "same_records s s'"
  using assms
  by (auto split: option.splits simp: rbind_eq_Inr_iff dest!: records_sync records_create)

lemma records_enable:
  assumes "enable_table sub s = Inr s'"
  shows "same_records s s'"
proof (cases "storage_table (cat s) sub")
  case None
  with assms show ?thesis by (simp add: enable_table_def)
next
  case (Some table)
  note st = this
  show ?thesis
  proof (cases "history_table table")
    case None
    with st assms show ?thesis by (simp add: enable_table_def)
  next
    case (Some h)
    from assms show ?thesis
      unfolding enable_table_def st Some option.simps rbind_eq_Inr_iff
      by (elim exE conjE) (drule records_stamp, drule records_alter, drule records_history, drule records_alter, blast intro: same_records_trans)
  qed
qed

lemma records_relabel: "relabel g s = Inr s' \<Longrightarrow> same_records s s'"
  by (auto simp: relabel_def same_records_def bump_schema_version_def split: if_splits sum.splits)

lemma records_copy: "copy_inherited_properties pid sub table s = Inr s' \<Longrightarrow> same_records s s'"
  unfolding copy_inherited_properties_def
  by (erule records_rfold [rotated])
    (auto simp: copy_property_def rbind_eq_Inr_iff dest!: records_alter intro: same_records_trans)

lemma records_add_to_subtype: "add_to_subtype tid p sub s = Inr s' \<Longrightarrow> same_records s s'"
  by (auto simp: add_to_subtype_def rbind_eq_Inr_iff Let_def split: option.splits if_splits
      dest!: records_alter records_sync simp: same_records_def insert_property_def)

lemma records_refresh: "refresh_subtype sub s = Inr s' \<Longrightarrow> same_records s s'"
  unfolding refresh_subtype_def
  by (drule records_replay) (auto split: option.splits simp: same_records_def ensure_alias_view_def Let_def apply_to_view_def
      add_grants_def drop_alias_view_def drop_relations_def)

lemma records_subtypes: "rfold (add_to_subtype tid p) subs s = Inr s' \<Longrightarrow> same_records s s'"
  by (erule records_rfold [rotated]) (rule records_add_to_subtype)

lemma records_refreshes: "rfold refresh_subtype subs s = Inr s' \<Longrightarrow> same_records s s'"
  by (erule records_rfold [rotated]) (rule records_refresh)

lemma records_add_property: "og_add_property u d graph type_name p dt r k s = Inr s' \<Longrightarrow> same_records s s'"
  by (auto simp: og_add_property_def rbind_eq_Inr_iff Let_def split: if_splits dest!: records_subtypes records_refreshes)
    (auto simp: same_records_def bump_schema_version_def insert_property_def)

lemma records_inherit: "inherit_from pid sub s = Inr s' \<Longrightarrow> same_records s s'"
  by (auto simp: inherit_from_def rbind_eq_Inr_iff split: option.splits if_splits
      dest!: records_copy records_stamp records_enable records_sync records_replay simp: same_records_def)

lemma records_fold:
  assumes "\<And>x s. same_records s (f x s)"
  shows "same_records s (fold f xs s)"
  by (induction xs arbitrary: s) (auto intro: same_records_trans [OF assms])

lemma records_after: "same_records v v' \<Longrightarrow> same_records s v' \<longleftrightarrow> same_records s v"
  by (simp add: same_records_def)

lemma records_views [simp]:
  "same_records s (refresh_alias_views tid v) \<longleftrightarrow> same_records s v" "same_records s (drop_alias_views tid v) \<longleftrightarrow> same_records s v"
  unfolding refresh_alias_views_def drop_alias_views_def
  by (rule records_after; auto intro!: records_fold split: option.split)+

section \<open>Statements leave the records alone\<close>

definition calm :: "evo \<Rightarrow> evo \<Rightarrow> bool" where
  "calm w w' \<longleftrightarrow> same_records (sch w) (sch w') \<and> sto w' = sto w \<and> next_change w' = next_change w"

lemma calm_refl [simp, intro]: "calm w w"
  by (simp add: calm_def)

lemma calm_trans [trans]: "calm u v \<Longrightarrow> calm v w \<Longrightarrow> calm u w"
  by (auto simp: calm_def intro: same_records_trans)

lemma calm_set_rows [simp]: "calm w (set_rows t rs v) \<longleftrightarrow> calm w v"
  by (simp add: calm_def)

lemma calm_on_schema:
  assumes "on_schema f w = Inr w'" "\<And>s. f (sch w) = Inr s \<Longrightarrow> same_records (sch w) s"
  shows "calm w w'"
  using assms by (auto simp: on_schema_Inr calm_def)

lemma calm_alter: "on_schema (alter_table t f) w = Inr w' \<Longrightarrow> calm w w'"
  by (erule calm_on_schema) (rule records_alter)

lemma calm_update: "same_records (sch w) (f (sch w)) \<Longrightarrow> calm w (update_schema f w)"
  by (simp add: update_schema_def calm_def)

lemma calm_acl: "calm w v \<Longrightarrow> calm w (v\<lparr>sch := (sch v)\<lparr>acl := a\<rparr>\<rparr>)"
  by (simp add: calm_def same_records_def)

lemma calm_rfold:
  assumes "\<And>x w w'. f x w = Inr w' \<Longrightarrow> calm w w'"
  shows "rfold f xs w = Inr w' \<Longrightarrow> calm w w'"
  by (induction xs arbitrary: w) (auto simp: rbind_eq_Inr_iff dest!: assms intro: calm_trans)

lemma calm_statements:
  "drop_column pg t c w = Inr w' \<Longrightarrow> calm w w'"
  "drop_column_if_exists pg t c w = Inr w' \<Longrightarrow> calm w w'"
  "rename_column t old new w = Inr w' \<Longrightarrow> calm w w'"
  "create_index_now t ix w = Inr w' \<Longrightarrow> calm w w'"
  "add_trigger t tg w = Inr w' \<Longrightarrow> calm w w'"
  "drop_trigger t tg w = Inr w' \<Longrightarrow> calm w w'"
  "add_check t n col w = Inr w' \<Longrightarrow> calm w w'"
  "validate_check t n w = Inr w' \<Longrightarrow> calm w w'"
  "drop_check t n b w = Inr w' \<Longrightarrow> calm w w'"
  "set_not_null t col w = Inr w' \<Longrightarrow> calm w w'"
  by (auto simp: drop_column_def drop_column_if_exists_def rename_column_def create_index_now_def add_trigger_def drop_trigger_def
      add_check_def validate_check_def drop_check_def set_not_null_def rbind_eq_Inr_iff split: option.splits if_splits
      intro: calm_acl dest!: calm_alter)

section \<open>The work of a phase leaves the records alone\<close>

lemma calm_move: "move_value pg mv w = Inr w' \<Longrightarrow> calm w w'"
  by (auto simp: move_value_def rbind_eq_Inr_iff split: prod.splits)

lemma calm_moves: "rfold (move_value pg) ms w = Inr w' \<Longrightarrow> calm w w'"
  by (erule calm_rfold [rotated]) (rule calm_move)

lemma calm_add_property: "expand_add_property pg c w = Inr w' \<Longrightarrow> calm w w'"
  by (auto simp: expand_add_property_def rbind_eq_Inr_iff split: if_splits
      dest!: calm_on_schema [OF _ records_add_property] calm_moves intro: calm_trans)

lemma calm_attach: "attach_shadow c col shadow ty st w = Inr w' \<Longrightarrow> calm w w'"
  by (auto simp: attach_shadow_def rbind_eq_Inr_iff split: prod.splits
      dest!: calm_alter calm_statements(5) calm_on_schema [OF _ records_sync] intro: calm_trans)

lemma calm_batch: "batch_update cols f P start batch t w = Inr (r, w') \<Longrightarrow> calm w w'"
  by (auto simp: batch_update_def rbind_eq_Inr_iff Let_def)

lemma calm_history: "retype_history pg col shadow ty t w = Inr (n, w') \<Longrightarrow> calm w w'"
  by (auto simp: retype_history_def rbind_eq_Inr_iff split: option.splits)

lemma retype_cons:
  assumes "retype_tables pg col shadow ty batch (t # ts) cursors w = Inr (n, m, w')"
  obtains a reached u h v k where
    "batch_update [col, shadow] (retype_row pg col shadow ty) (\<lambda>r. dr_cells r col \<noteq> None) (cursor_at cursors t) batch t w = Inr ((a, reached), u)"
    "retype_history pg col shadow ty t u = Inr (h, v)"
    "retype_tables pg col shadow ty batch ts (advance t reached cursors) v = Inr (k, m, w')" "n = a + h + k"
  using assms by (auto simp: rbind_eq_Inr_iff simp del: not_None_eq)

lemma calm_retype: "retype_tables pg col shadow ty batch ts cursors w = Inr (n, m, w') \<Longrightarrow> calm w w'"
proof (induction ts arbitrary: cursors w n m)
  case (Cons t ts)
  from Cons.prems obtain a reached u h v k where
    "batch_update [col, shadow] (retype_row pg col shadow ty) (\<lambda>r. dr_cells r col \<noteq> None) (cursor_at cursors t) batch t w = Inr ((a, reached), u)"
    "retype_history pg col shadow ty t u = Inr (h, v)"
    "retype_tables pg col shadow ty batch ts (advance t reached cursors) v = Inr (k, m, w')" "n = a + h + k"
    by (rule retype_cons)
  from calm_trans [OF calm_trans [OF calm_batch [OF this(1)] calm_history [OF this(2)]] Cons.IH [OF this(3)]] show ?case .
qed simp

lemma calm_keep [simp]: "calm w (keep_history pg t d due rs rs' v) \<longleftrightarrow> calm w v"
  by (simp add: keep_history_def split: option.split)

lemma calm_fill: "fill_table pg col v batch t w = Inr (n, w') \<Longrightarrow> calm w w'"
  by (auto simp: fill_table_def rbind_eq_Inr_iff Let_def split: option.splits if_split_asm)

lemma calm_fills: "fill_tables pg col v batch ts w = Inr (n, w') \<Longrightarrow> calm w w'"
  by (induction ts arbitrary: w n) (auto simp: rbind_eq_Inr_iff dest!: calm_fill intro: calm_trans)

lemma report_set_simps [simp]:
  "ch_id (report_set k v c) = ch_id c" "ch_phase (report_set k v c) = ch_phase c" "ch_kind (report_set k v c) = ch_kind c"
  "ch_graph (report_set k v c) = ch_graph c" "ch_spec (report_set k v c) = ch_spec c"
  by (simp_all add: report_set_def)

lemma calm_migrate: "migrate pg batch c w = Inr (n, c', w') \<Longrightarrow> calm w w' \<and> ch_id c' = ch_id c \<and> ch_phase c' = ch_phase c"
  by (auto simp: migrate_def migrate_retype_def migrate_required_def rbind_eq_Inr_iff Let_def
      split: if_splits option.splits list.splits dest!: calm_retype calm_fills calm_fill intro: calm_trans)

lemma calm_finish: "finish_validation c w = Inr w' \<Longrightarrow> calm w w'"
  by (auto simp: finish_validation_def rbind_eq_Inr_iff split: if_splits prod.splits
      elim!: calm_rfold [rotated] intro: calm_statements)

lemma calm_on_tables:
  assumes "\<And>sub t w w'. f (sub, t) w = Inr w' \<Longrightarrow> calm w w'"
  shows "on_tables f tid w = Inr w' \<Longrightarrow> calm w w'"
  unfolding on_tables_def by (erule calm_rfold [rotated]) (auto simp: assms split: prod.splits)

lemma calm_indexes: "rfold (create_index_now t) xs w = Inr w' \<Longrightarrow> calm w w'"
  by (erule calm_rfold [rotated]) (rule calm_statements(4))

lemma calm_swap_in: "swap_in pg col shadow t w = Inr w' \<Longrightarrow> calm w w'"
  by (auto simp: swap_in_def rbind_eq_Inr_iff dest!: calm_statements(1,3) intro: calm_trans)

lemma calm_swaps: "rfold (swap_in pg col shadow) xs w = Inr w' \<Longrightarrow> calm w w'"
  by (erule calm_rfold [rotated]) (rule calm_swap_in)

lemma calm_swap:
  assumes "swap_table pg c col shadow st w = Inr w'"
  shows "calm w w'"
proof -
  obtain sub t where st: "st = (sub, t)" by fastforce
  obtain d where d: "table_at (sch w) t = Some d" using assms by (auto simp: swap_table_def st split: option.splits)
  from assms show ?thesis
    unfolding swap_table_def st prod.case d option.simps rbind_eq_Inr_iff
    by (elim exE conjE) (drule calm_statements(6), drule calm_swaps, drule calm_indexes, drule calm_on_schema [OF _ records_replay],
        assumption, blast intro: calm_trans)
qed

lemma calm_tighten: "tighten_table c col st w = Inr w' \<Longrightarrow> calm w w'"
  by (auto simp: tighten_table_def rbind_eq_Inr_iff split: prod.splits dest!: calm_statements(9,10) intro: calm_trans)

lemma calm_unique: "unique_table col st w = Inr w' \<Longrightarrow> calm w w'"
  by (auto simp: unique_table_def Let_def split: prod.splits if_splits dest!: calm_statements(4))

lemma calm_drops: "rfold (\<lambda>rel. drop_column_if_exists pg rel shadow) xs w = Inr w' \<Longrightarrow> calm w w'"
  by (erule calm_rfold [rotated]) (rule calm_statements(2))

lemma calm_detach: "detach_shadow pg c shadow st w = Inr w' \<Longrightarrow> calm w w'"
  by (cases st) (auto simp: detach_shadow_def rbind_eq_Inr_iff dest!: calm_statements(2,6) calm_drops intro: calm_trans)

lemma records_property [simp]:
  "same_records s (delete_property tid p v) \<longleftrightarrow> same_records s v" "same_records s (update_property tid col f v) \<longleftrightarrow> same_records s v"
  by (simp_all add: same_records_def delete_property_def update_property_def)

lemma calm_tables_then:
  assumes "rbind (on_tables f tid (update_schema g w)) (\<lambda>v. Inr (update_schema h v)) = Inr w'"
    and "\<And>sub t v v'. f (sub, t) v = Inr v' \<Longrightarrow> calm v v'" "\<And>s. same_records s (g s)" "\<And>s. same_records s (h s)"
  shows "calm w w'"
proof -
  from assms(1) obtain v where v: "on_tables f tid (update_schema g w) = Inr v" "w' = update_schema h v"
    by (auto simp: rbind_eq_Inr_iff)
  have "calm w (update_schema g w)" by (rule calm_update) (rule assms(3))
  also have "calm (update_schema g w) v" by (rule calm_on_tables [OF assms(2) v(1)])
  also have "calm v w'" unfolding v(2) by (rule calm_update) (rule assms(4))
  finally show ?thesis .
qed

lemma update_schema_id: "update_schema (\<lambda>s. s) w = w"
  by (simp add: update_schema_def)

lemma calm_contract_tables:
  "contract_drop_property pg c w = Inr w' \<Longrightarrow> calm w w'"
  "contract_alter_property_type pg c w = Inr w' \<Longrightarrow> calm w w'"
  "contract_set_required c w = Inr w' \<Longrightarrow> calm w w'"
  "contract_add_unique c w = Inr w' \<Longrightarrow> calm w w'"
  unfolding contract_drop_property_def contract_alter_property_type_def contract_set_required_def contract_add_unique_def
    Let_def rbind_eq_Inr_iff [where r = "type_of _ _"] rbind_eq_Inr_iff [where r = "reported _ _"] rbind_eq_Inr_iff [where r = "spec_text _ _"]
  by (elim exE conjE calm_tables_then; auto intro: calm_statements calm_swap calm_tighten)+
    (elim exE conjE calm_tables_then [where g = "\<lambda>s. s", unfolded update_schema_id]; auto intro: calm_unique)

lemma calm_contract_catalog:
  "contract_rename_type c w = Inr w' \<Longrightarrow> calm w w'"
  "contract_rename_property c w = Inr w' \<Longrightarrow> calm w w'"
  "contract_alter_role c w = Inr w' \<Longrightarrow> calm w w'"
proof -
  assume "contract_rename_type c w = Inr w'"
  then show "calm w w'"
    unfolding contract_rename_type_def rbind_eq_Inr_iff
    by (elim exE conjE, split if_split_asm)
      (auto simp only: sum.simps intro!: calm_update, simp add: same_records_def ensure_alias_view_def Let_def apply_to_view_def
        add_grants_def drop_alias_view_def drop_relations_def split: option.split)
next
  assume "contract_rename_property c w = Inr w'"
  then show "calm w w'"
    unfolding contract_rename_property_def rbind_eq_Inr_iff Let_def
    by (elim exE conjE) (auto simp only: sum.simps intro!: calm_update, simp add: same_records_def delete_property_def)
next
  assume "contract_alter_role c w = Inr w'"
  then show "calm w w'"
    unfolding contract_alter_role_def rbind_eq_Inr_iff
    by (elim exE conjE, split if_split_asm) (auto simp only: sum.simps intro!: calm_update, simp add: same_records_def)
qed

lemma records_links: "insert_parent tid pid s = Inr s' \<Longrightarrow> same_records s s'"
  by (auto simp: insert_parent_def same_records_def split: if_splits)

lemma records_below: "rfold (inherit_from pid) subs s = Inr s' \<Longrightarrow> same_records s s'"
  by (erule records_rfold [rotated]) (rule records_inherit)

lemma calm_contract_parent:
  "contract_remove_parent c w = Inr w' \<Longrightarrow> calm w w'"
  "contract_add_parent c w = Inr w' \<Longrightarrow> calm w w'"
proof -
  assume "contract_remove_parent c w = Inr w'"
  then show "calm w w'"
    unfolding contract_remove_parent_def rbind_eq_Inr_iff
    by (elim exE conjE calm_on_schema) (drule records_relabel, simp add: same_records_def)
next
  assume "contract_add_parent c w = Inr w'"
  then show "calm w w'"
    unfolding contract_add_parent_def rbind_eq_Inr_iff [where r = "reported_id _ _"]
    by (elim exE conjE calm_on_schema)
      (auto simp: rbind_eq_Inr_iff dest!: records_links records_relabel records_below intro: same_records_trans)
qed

lemma calm_contract: "contract pg c w = Inr w' \<Longrightarrow> calm w w'"
  using calm_contract_tables calm_contract_catalog calm_contract_parent by (auto simp: contract_def split: if_splits)

lemma calm_abort:
  assumes "abort pg c w = Inr w'"
  shows "calm w w'"
proof -
  consider (name) "ch_kind c = ''rename_property''" | (retype) "ch_kind c = ''alter_property_type''" | (required) "ch_kind c = ''set_required''"
    | (other) "ch_kind c \<notin> {''rename_property'', ''alter_property_type'', ''set_required''}" by blast
  then show ?thesis
  proof cases
    case name
    with assms show ?thesis by (auto simp: abort_def rbind_eq_Inr_iff intro: calm_update)
  next
    case retype
    with assms obtain tid shadow where
      "rbind (on_tables (detach_shadow pg c shadow) tid (update_schema (drop_alias_views tid) w)) (\<lambda>w. Inr (update_schema (refresh_alias_views tid) w)) = Inr w'"
      by (auto simp: abort_def rbind_eq_Inr_iff [where r = "type_of _ _"] rbind_eq_Inr_iff [where r = "reported _ _"] Let_def)
    then show ?thesis by (rule calm_tables_then) (auto intro: calm_detach)
  next
    case required
    with assms show ?thesis
      by (auto simp: abort_def rbind_eq_Inr_iff intro: calm_on_tables [rotated] calm_statements(9))
  next
    case other
    with assms show ?thesis by (simp add: abort_def)
  qed
qed

section \<open>Phases\<close>

definition phases :: "evo \<Rightarrow> (i32 \<times> string) list" where
  "phases w = map (\<lambda>c. (ch_id c, ch_phase c)) (schema_changes (sch w))"

definition phase_of :: "evo \<Rightarrow> i32 \<Rightarrow> string option" where
  "phase_of w i = map_of (phases w) i"

lemma phases_calm: "calm w w' \<Longrightarrow> phases w' = phases w \<and> next_change w' = next_change w"
  by (simp add: calm_def same_records_def phases_def)

lemma calm_renamed: "expand_rename_property c w = Inr w' \<Longrightarrow> calm w w'"
  by (auto simp: expand_rename_property_def rbind_eq_Inr_iff Let_def calm_def same_records_def split: if_splits)

lemma calm_required: "expand_set_required c w = Inr w' \<Longrightarrow> calm w w'"
  unfolding expand_set_required_def rbind_eq_Inr_iff
  by (elim exE conjE calm_rfold [rotated]) (auto split: prod.splits intro: calm_statements(7))

lemma calm_attached: "rfold (attach_shadow c col shadow ty) ts w = Inr w' \<Longrightarrow> calm w w'"
  by (erule calm_rfold [rotated]) (rule calm_attach)

lemma phases_expand: "expand pg c w = Inr w' \<Longrightarrow> phases w' = phases w \<and> next_change w' = next_change w"
proof -
  have "phases w' = phases w \<and> next_change w' = next_change w" if "expand_alter_property_type c w = Inr w'"
  proof -
    from that obtain col shadow ty ts v spec where v: "rfold (attach_shadow c col shadow ty) ts w = Inr v" and w': "w' = save_spec c spec v"
      unfolding expand_alter_property_type_def rbind_eq_Inr_iff Let_def by blast
    have "phases w' = phases v" "next_change w' = next_change v" by (simp_all add: w' save_spec_def phases_def)
    with phases_calm [OF calm_attached [OF v]] show ?thesis by simp
  qed
  then show "expand pg c w = Inr w' \<Longrightarrow> ?thesis"
    using calm_add_property calm_renamed calm_required phases_calm by (auto simp: expand_def split: if_splits)
qed

section \<open>Calls\<close>

inductive change_call :: "postgres \<Rightarrow> evo \<Rightarrow> evo \<Rightarrow> bool" for pg where
  plan: "og_schema_plan pg graph spec w = Inr (i, w') \<Longrightarrow> change_call pg w w'"
| expand: "og_schema_expand pg i w = Inr (r, w') \<Longrightarrow> change_call pg w w'"
| migrate: "og_schema_migrate pg i batch w = Inr (r, w') \<Longrightarrow> change_call pg w w'"
| validate: "og_schema_validate pg i w = Inr (r, w') \<Longrightarrow> change_call pg w w'"
| contract: "og_schema_contract pg i w = Inr (r, w') \<Longrightarrow> change_call pg w w'"
| abort: "og_schema_abort pg i w = Inr (r, w') \<Longrightarrow> change_call pg w w'"
| apply_all: "og_schema_apply pg fuel graph spec w = Inr (r, w') \<Longrightarrow> change_call pg w w'"

definition may_become :: "(string \<times> string) set" where
  "may_become = {(''planned'', ''expanded''), (''expanded'', ''migrating''), (''expanded'', ''validated''), (''migrating'', ''validated''),
     (''validated'', ''contracted''), (''planned'', ''aborted''), (''expanded'', ''aborted''), (''migrating'', ''aborted''), (''validated'', ''aborted'')}"

definition changes_ok :: "evo \<Rightarrow> bool" where
  "changes_ok w \<longleftrightarrow> distinct (map fst (phases w)) \<and> next_change w \<le> 2 ^ 31 \<and> (\<forall>i \<in> fst ` set (phases w). \<exists>n < next_change w. i = of_nat n)"

text \<open>A change moves along one edge or stays; all others stay.\<close>

definition one_move :: "i32 \<Rightarrow> evo \<Rightarrow> evo \<Rightarrow> bool" where
  "one_move i w w' \<longleftrightarrow> changes_ok w' \<and> (\<forall>j. j \<noteq> i \<longrightarrow> phase_of w' j = phase_of w j) \<and>
     (\<exists>p q. phase_of w i = Some p \<and> phase_of w' i = Some q \<and> (p, q) \<in> Id \<union> may_become)"

lemma phases_save: "phases (save c p w) = map (\<lambda>(j, q). (j, if j = ch_id c then p else q)) (phases w)"
  by (simp add: save_def phases_def)

lemma phase_of_save: "phase_of (save c p w) j = (if j = ch_id c then map_option (\<lambda>_. p) (phase_of w j) else phase_of w j)"
proof -
  have "map_of (map (\<lambda>(j, q). (j, if j = i then p else q)) xs) j = (if j = i then map_option (\<lambda>_. p) (map_of xs j) else map_of xs j)"
    for xs :: "(i32 \<times> string) list" and i by (induction xs) auto
  then show ?thesis by (simp add: phase_of_def phases_save)
qed

lemma load_phase:
  assumes "load w i = Inr c" "changes_ok w"
  shows "ch_id c = i" "phase_of w i = Some (ch_phase c)"
proof -
  have "c \<in> set (schema_changes (sch w))" and i: "ch_id c = i"
    using assms(1) by (auto simp: load_def find_Some_iff split: option.splits)
  then have "(i, ch_phase c) \<in> set (phases w)" by (auto simp: phases_def)
  then show "phase_of w i = Some (ch_phase c)" "ch_id c = i" using assms(2) i by (simp_all add: changes_ok_def phase_of_def)
qed

lemma moved:
  assumes "load w i = Inr c" "changes_ok w" "phases v = phases w" "next_change v = next_change w" "ch_id d = ch_id c"
    and "(ch_phase c, p) \<in> Id \<union> may_become"
  shows "one_move i w (save d p v)"
proof -
  note l = load_phase [OF assms(1,2)]
  have next': "next_change (save d p v) = next_change w" using assms(4) by (simp add: save_def)
  have "changes_ok (save d p v)"
    using assms(2) unfolding changes_ok_def next' phases_save assms(3)
    by (simp add: case_prod_beta' o_def image_image)
  moreover have "phase_of v = phase_of w" using assms(3) by (simp add: phase_of_def fun_eq_iff)
  ultimately show ?thesis using l assms(5,6) by (auto simp: one_move_def phase_of_save)
qed

lemma noted_simps: "phases (noted c x w) = phases w" "next_change (noted c x w) = next_change w" "calm w (noted c x w)"
  by (simp_all add: noted_def update_schema_def phases_def bump_schema_version_def calm_def same_records_def)

lemma one_move_noted: "one_move i w v \<Longrightarrow> one_move i w (noted c x v)"
  unfolding one_move_def phase_of_def changes_ok_def noted_simps .

lemma expand_moves: "og_schema_expand pg i w = Inr (r, w') \<Longrightarrow> changes_ok w \<Longrightarrow> one_move i w w'"
  by (auto simp: og_schema_expand_def rbind_eq_Inr_iff require_phase_def split: if_splits dest!: phases_expand
      intro!: one_move_noted moved simp: may_become_def)

lemma migrate_moves: "og_schema_migrate pg i batch w = Inr (r, w') \<Longrightarrow> changes_ok w \<Longrightarrow> one_move i w w'"
  by (auto simp: og_schema_migrate_def rbind_eq_Inr_iff require_phase_def Let_def split: if_splits dest!: calm_migrate phases_calm
      intro!: moved simp: may_become_def)

lemma validate_moves:
  assumes "og_schema_validate pg i w = Inr (r, w')" "changes_ok w"
  shows "one_move i w w'"
proof -
  from assms(1) obtain c n samples where c: "load w i = Inr c" "require_phase c [''expanded'', ''migrating'', ''validated''] ''validate'' = Inr ()"
    "validate pg c w = Inr (n, samples)" unfolding og_schema_validate_def rbind_eq_Inr_iff by auto
  define d where "d = report_set ''violation_samples'' (JArr samples) (report_set ''violations'' (json_nat n) c)"
  have d: "ch_id d = ch_id c" "ch_phase d = ch_phase c" by (simp_all add: d_def)
  have "og_schema_validate pg i w = rbind (if n = 0 then finish_validation d w else Inr w) (\<lambda>v. Inr (json_object
      [(''change_id'', json_i32 i), (''phase'', JStr (if n = 0 then ''validated'' else ch_phase d)), (''violations'', json_nat n),
       (''samples'', JArr samples)], save d (if n = 0 then ''validated'' else ch_phase d) v))"
    by (simp only: og_schema_validate_def c rbind_Inr prod.case Let_def d_def)
  with assms(1) obtain v where v: "(if n = 0 then finish_validation d w else Inr w) = Inr v"
    and w': "w' = save d (if n = 0 then ''validated'' else ch_phase d) v" unfolding rbind_eq_Inr_iff by (auto simp only: rbind_eq_Inr_iff sum.simps prod.simps)
  have "phases v = phases w \<and> next_change v = next_change w"
    using v by (auto split: if_splits dest!: calm_finish phases_calm)
  then show ?thesis unfolding w'
    using c(2) by (intro moved [OF c(1) assms(2)]) (auto simp: may_become_def require_phase_def d split: if_splits)
qed

lemma contract_moves: "og_schema_contract pg i w = Inr (r, w') \<Longrightarrow> changes_ok w \<Longrightarrow> one_move i w w'"
  by (auto simp: og_schema_contract_def rbind_eq_Inr_iff require_phase_def noted_simps split: if_splits dest!: calm_contract phases_calm
      intro!: moved simp: may_become_def)

lemma abort_moves: "og_schema_abort pg i w = Inr (r, w') \<Longrightarrow> changes_ok w \<Longrightarrow> one_move i w w'"
  by (auto simp: og_schema_abort_def rbind_eq_Inr_iff require_phase_def noted_simps split: if_splits dest!: calm_abort phases_calm
      intro!: moved simp: may_become_def)

lemma fresh_change:
  assumes "changes_ok w" "next_change w < 2 ^ 31"
  shows "of_nat (next_change w) \<notin> fst ` set (phases w)"
proof
  assume "of_nat (next_change w) \<in> fst ` set (phases w)"
  then obtain n where n: "n < next_change w" "(of_nat (next_change w) :: i32) = of_nat n" using assms(1) unfolding changes_ok_def by blast
  then have "unat (of_nat (next_change w) :: i32) = unat (of_nat n :: i32)" by simp
  then show False using n(1) assms(2) by (simp add: unsigned_of_nat take_bit_nat_eq_self)
qed

lemma phases_insert: "phases (insert_change gid spec w) = phases w @ [(of_nat (next_change w), ''planned'')]"
    "next_change (insert_change gid spec w) = next_change w + 1"
  by (simp_all add: insert_change_def phases_def)

lemma insert_ok: "changes_ok w \<Longrightarrow> next_change w < 2 ^ 31 \<Longrightarrow> changes_ok (insert_change gid spec w)"
proof -
  assume a: "changes_ok w" "next_change w < 2 ^ 31"
  have "\<exists>m < next_change w + 1. j = of_nat m" if "j \<in> fst ` set (phases w)" for j
    using a(1) that unfolding changes_ok_def by (metis less_SucI Suc_eq_plus1)
  with a fresh_change [OF a] show ?thesis unfolding changes_ok_def phases_insert by auto
qed

lemma plan_adds:
  assumes "og_schema_plan pg graph spec w = Inr (i, w')" "changes_ok w"
  shows "changes_ok w' \<and> phase_of w i = None \<and> (\<forall>j. j \<noteq> i \<longrightarrow> phase_of w' j = phase_of w j) \<and> phase_of w' i = Some ''planned''"
proof -
  from assms(1) obtain gid d r where n: "next_change w < 2 ^ 31" and i: "i = of_nat (next_change w)"
    and l: "load (insert_change gid spec w) i = Inr d" and w': "w' = save (d\<lparr>ch_report := r\<rparr>) ''planned'' (insert_change gid spec w)"
    by (auto simp: og_schema_plan_def rbind_eq_Inr_iff Let_def split: if_splits)
  note ok = insert_ok [OF assms(2) n, of gid spec]
  have fresh: "phase_of w i = None"
    using fresh_change [OF assms(2) n] by (simp add: phase_of_def map_of_eq_None_iff i)
  have ph: "phase_of (insert_change gid spec w) j = (if j = i then Some ''planned'' else phase_of w j)" for j
    using fresh by (simp add: phase_of_def phases_insert map_add_def i split: option.split)
  have d: "ch_id d = i" "ch_phase d = ''planned''" using load_phase [OF l ok] by (simp_all add: ph)
  have "one_move i (insert_change gid spec w) w'" unfolding w' by (rule moved [OF l ok]) (simp_all add: d)
  then show ?thesis using fresh d unfolding one_move_def by (auto simp: ph w' phase_of_save)
qed

definition others_stay :: "i32 \<Rightarrow> evo \<Rightarrow> evo \<Rightarrow> bool" where
  "others_stay i w w' \<longleftrightarrow> changes_ok w' \<and> (\<forall>j. j \<noteq> i \<longrightarrow> phase_of w' j = phase_of w j)"

lemma one_move_others: "one_move i w w' \<Longrightarrow> others_stay i w w'"
  by (simp add: one_move_def others_stay_def)

lemma others_stay_trans: "others_stay i u v \<Longrightarrow> others_stay i v w \<Longrightarrow> others_stay i u w"
  by (simp add: others_stay_def)

lemma migrate_all_others: "migrate_all pg n i w = Inr w' \<Longrightarrow> changes_ok w \<Longrightarrow> others_stay i w w'"
proof (induction n arbitrary: w)
  case (Suc n)
  then obtain r v where v: "og_schema_migrate pg i 100000 w = Inr (r, v)" "w' = v \<or> migrate_all pg n i v = Inr w'"
    by (auto simp: rbind_eq_Inr_iff split: if_splits)
  have m: "others_stay i w v" by (rule one_move_others [OF migrate_moves [OF v(1) Suc.prems(2)]])
  then have "changes_ok v" by (simp add: others_stay_def)
  with v(2) m Suc.IH [of v] show ?case using others_stay_trans by blast
qed simp

lemma apply_others:
  assumes "og_schema_apply pg n graph spec w = Inr (r, w')" "changes_ok w"
  obtains i where "phase_of w i = None" "others_stay i w w'"
proof -
  from assms(1) obtain i t u v x y z where c: "og_schema_plan pg graph spec w = Inr (i, t)" "og_schema_expand pg i t = Inr (x, u)"
    "migrate_all pg n i u = Inr v" "og_schema_validate pg i v = Inr (y, z)" "og_schema_contract pg i z = Inr (r, w')"
    by (auto simp: og_schema_apply_def rbind_eq_Inr_iff split: if_splits)
  have p: "phase_of w i = None" "others_stay i w t" using plan_adds [OF c(1) assms(2)] by (simp_all add: others_stay_def)
  then have 1: "others_stay i t u" using expand_moves [OF c(2)] by (simp add: others_stay_def one_move_def)
  then have 2: "others_stay i u v" using migrate_all_others [OF c(3)] by (simp add: others_stay_def)
  then have 3: "others_stay i v z" using validate_moves [OF c(4)] by (simp add: others_stay_def one_move_def)
  then have 4: "others_stay i z w'" using contract_moves [OF c(5)] by (simp add: others_stay_def one_move_def)
  from p(2) 1 2 3 4 have "others_stay i w w'" by (blast intro: others_stay_trans)
  with p(1) show thesis by (rule that)
qed

end
