(* ===== verification/Evolution_Migration.thy ===== *)
theory Evolution_Migration
  imports Evolution_Phases
begin

text \<open>
  Migrating is done in batches, each a call of its own.  The lemmas bound the number of calls: every call that
  moves something leaves less to move, whatever the batch size, so the loop of \<open>og_schema_apply\<close> ends.
\<close>

section \<open>Cursors\<close>

lemma btree_insert_get: "map_of (btree_insert k v m) = (map_of m)(k \<mapsto> v)"
  by (induction k v m rule: btree_insert.induct) (auto simp: fun_eq_iff)

lemma cursor_advance: "cursor_at (advance t reached cursors) u = (case reached of Some l \<Rightarrow> if u = t then l else cursor_at cursors u | None \<Rightarrow> cursor_at cursors u)"
  by (simp add: advance_def cursor_at_def btree_insert_get split: option.split)

section \<open>One page\<close>

definition page_rows :: "(data_row \<Rightarrow> bool) \<Rightarrow> i64 \<Rightarrow> data_row list \<Rightarrow> i64 list" where
  "page_rows P start rs = sort_key sint (map dr_id (filter (\<lambda>r. sint start < sint (dr_id r) \<and> P r) rs))"

lemma set_page_rows: "set (page_rows P start rs) = dr_id ` {r \<in> set rs. sint start < sint (dr_id r) \<and> P r}"
  by (auto simp: page_rows_def)

lemma page_ids: "page_ids P start batch rs = take batch (page_rows P start rs)"
  by (simp add: page_ids_def page_rows_def)

lemma sorted_page_rows: "sorted (map sint (page_rows P start rs))"
  by (simp add: page_rows_def)

lemma set_page: "i \<in> set (page_ids P start batch rs) \<Longrightarrow> sint start < sint i \<and> (\<exists>r \<in> set rs. dr_id r = i \<and> P r)"
proof -
  assume "i \<in> set (page_ids P start batch rs)"
  then have "i \<in> set (page_rows P start rs)" unfolding page_ids by (rule in_set_takeD)
  then show ?thesis unfolding set_page_rows by blast
qed

lemma page_empty: "0 < batch \<Longrightarrow> page_ids P start batch rs = [] \<longleftrightarrow> (\<forall>r \<in> set rs. P r \<longrightarrow> \<not> sint start < sint (dr_id r))"
proof -
  assume "0 < batch"
  then have "page_ids P start batch rs = [] \<longleftrightarrow> set (page_rows P start rs) = {}" by (simp add: page_ids)
  then show ?thesis unfolding set_page_rows by blast
qed

lemma sorted_take_last:
  fixes xs :: "i64 list"
  assumes "sorted (map sint xs)" "take n xs \<noteq> []" "x \<in> set xs" "sint x \<le> sint (last (take n xs))"
  shows "x \<in> set (take n xs)"
proof (rule ccontr)
  assume x: "x \<notin> set (take n xs)"
  then have "x \<in> set (drop n xs)" using assms(3) by (metis Un_iff append_take_drop_id set_append)
  moreover have "sorted (map sint (take n xs @ drop n xs))" using assms(1) by simp
  ultimately have "sint (last (take n xs)) \<le> sint x"
    using last_in_set [OF assms(2)] unfolding map_append sorted_append by auto
  with assms(4) have "x = last (take n xs)" by (metis antisym signed_word_eqI)
  with x last_in_set [OF assms(2)] show False by simp
qed

lemma page_covers:
  assumes "r \<in> set rs" "P r" "sint start < sint (dr_id r)" "page_ids P start batch rs \<noteq> []"
    and "sint (dr_id r) \<le> sint (last (page_ids P start batch rs))"
  shows "dr_id r \<in> set (page_ids P start batch rs)"
proof -
  have "dr_id r \<in> set (page_rows P start rs)" using assms(1-3) unfolding set_page_rows by blast
  then show ?thesis using sorted_take_last [OF sorted_page_rows] assms(4,5) unfolding page_ids by blast
qed

lemma page_advances: "page_ids P start batch rs \<noteq> [] \<Longrightarrow> sint start < sint (last (page_ids P start batch rs))"
  using set_page last_in_set by blast

section \<open>What is left to retype\<close>

definition ahead :: "string \<Rightarrow> i64 \<Rightarrow> data_row \<Rightarrow> bool" where
  "ahead col start r \<longleftrightarrow> sint start < sint (dr_id r) \<and> dr_cells r col \<noteq> None"

definition left_in :: "postgres \<Rightarrow> string \<Rightarrow> string \<Rightarrow> string \<Rightarrow> (string \<times> json) list \<Rightarrow> evo \<Rightarrow> string \<Rightarrow> nat" where
  "left_in pg col shadow ty cursors w t = length (filter (ahead col (cursor_at cursors t)) (rows_of w t)) +
     (case hist (sch w) t of None \<Rightarrow> 0 | Some h \<Rightarrow> length (filter (retype_due pg col shadow ty) (rows_of w h)))"

definition retype_left :: "postgres \<Rightarrow> string \<Rightarrow> string \<Rightarrow> string \<Rightarrow> string list \<Rightarrow> (string \<times> json) list \<Rightarrow> evo \<Rightarrow> nat" where
  "retype_left pg col shadow ty ts cursors w = sum_list (map (left_in pg col shadow ty cursors w) ts)"

text \<open>One table's rows change, none of them to something further ahead.\<close>

definition settles :: "postgres \<Rightarrow> string \<Rightarrow> string \<Rightarrow> string \<Rightarrow> evo \<Rightarrow> evo \<Rightarrow> bool" where
  "settles pg col shadow ty w w' \<longleftrightarrow> sch w' = sch w \<and> (\<forall>t. \<exists>f. rows_of w' t = map f (rows_of w t) \<and>
     (\<forall>r. dr_id (f r) = dr_id r \<and> dr_cells (f r) col = dr_cells r col \<and>
          (retype_due pg col shadow ty (f r) \<longrightarrow> retype_due pg col shadow ty r)))"

lemma filter_map_length_le: "(\<And>r. r \<in> set rs \<Longrightarrow> Q (f r) \<Longrightarrow> P r) \<Longrightarrow> length (filter Q (map f rs)) \<le> length (filter P rs)"
  by (induction rs) auto

lemma settles_ahead:
  assumes "settles pg col shadow ty w w'" "sint i \<le> sint j"
  shows "length (filter (ahead col j) (rows_of w' t)) \<le> length (filter (ahead col i) (rows_of w t))"
proof -
  obtain f where f: "rows_of w' t = map f (rows_of w t)" "\<And>r. dr_id (f r) = dr_id r \<and> dr_cells (f r) col = dr_cells r col"
    using assms(1) unfolding settles_def by metis
  show ?thesis unfolding f(1) using f(2) assms(2) by (intro filter_map_length_le) (auto simp: ahead_def)
qed

lemma settles_due:
  assumes "settles pg col shadow ty w w'"
  shows "length (filter (retype_due pg col shadow ty) (rows_of w' h)) \<le> length (filter (retype_due pg col shadow ty) (rows_of w h))"
proof -
  obtain g where g: "rows_of w' h = map g (rows_of w h)" "\<And>r. retype_due pg col shadow ty (g r) \<longrightarrow> retype_due pg col shadow ty r"
    using assms unfolding settles_def by metis
  show ?thesis unfolding g(1) using g(2) by (intro filter_map_length_le) blast
qed

lemma settles_left:
  assumes "settles pg col shadow ty w w'" "\<And>u. sint (cursor_at cursors u) \<le> sint (cursor_at cursors' u)"
  shows "left_in pg col shadow ty cursors' w' t \<le> left_in pg col shadow ty cursors w t"
proof -
  have s: "sch w' = sch w" using assms(1) by (simp add: settles_def)
  show ?thesis
    unfolding left_in_def s by (rule add_mono [OF settles_ahead [OF assms(1,2)]]) (simp add: settles_due [OF assms(1)] split: option.split)
qed

lemma settles_refl [simp]: "settles pg col shadow ty w w"
  unfolding settles_def by (auto intro: exI [of _ "\<lambda>r. r"])

lemma settles_trans: 
  assumes "settles pg col shadow ty u v" "settles pg col shadow ty v w"
  shows "settles pg col shadow ty u w"
  unfolding settles_def
proof (intro conjI allI)
  show "sch w = sch u" using assms by (simp add: settles_def)
  fix t
  obtain f where f: "rows_of v t = map f (rows_of u t)" "\<And>r. dr_id (f r) = dr_id r \<and> dr_cells (f r) col = dr_cells r col \<and>
     (retype_due pg col shadow ty (f r) \<longrightarrow> retype_due pg col shadow ty r)"
    using assms(1) unfolding settles_def by metis
  obtain g where g: "rows_of w t = map g (rows_of v t)" "\<And>r. dr_id (g r) = dr_id r \<and> dr_cells (g r) col = dr_cells r col \<and>
     (retype_due pg col shadow ty (g r) \<longrightarrow> retype_due pg col shadow ty r)"
    using assms(2) unfolding settles_def by metis
  show "\<exists>f. rows_of w t = map f (rows_of u t) \<and> (\<forall>r. dr_id (f r) = dr_id r \<and> dr_cells (f r) col = dr_cells r col \<and>
     (retype_due pg col shadow ty (f r) \<longrightarrow> retype_due pg col shadow ty r))"
  proof (intro exI conjI allI)
    show "rows_of w t = map (\<lambda>r. g (f r)) (rows_of u t)" unfolding g(1) f(1) by simp
    fix r
    show "dr_id (g (f r)) = dr_id r" "dr_cells (g (f r)) col = dr_cells r col"
      "retype_due pg col shadow ty (g (f r)) \<longrightarrow> retype_due pg col shadow ty r"
      using f(2) [of r] g(2) [of "f r"] by simp_all
  qed
qed

lemma settles_set_rows:
  assumes "\<And>r. dr_id (f r) = dr_id r" "\<And>r. dr_cells (f r) col = dr_cells r col"
    and "\<And>r. retype_due pg col shadow ty (f r) \<Longrightarrow> retype_due pg col shadow ty r"
  shows "settles pg col shadow ty w (set_rows t (map f (rows_of w t)) w)"
proof -
  have "\<exists>g. rows_of (set_rows t (map f (rows_of w t)) w) u = map g (rows_of w u) \<and> (\<forall>r. dr_id (g r) = dr_id r \<and>
     dr_cells (g r) col = dr_cells r col \<and> (retype_due pg col shadow ty (g r) \<longrightarrow> retype_due pg col shadow ty r))" for u
  proof (cases "u = t")
    case True
    then show ?thesis using assms by (intro exI [of _ f]) simp
  qed (intro exI [of _ "\<lambda>r. r"], simp)
  then show ?thesis by (simp add: settles_def)
qed

lemma retyped_not_due: "shadow \<noteq> col \<Longrightarrow> \<not> retype_due pg col shadow ty (retype_row pg col shadow ty r)"
  by (auto simp: retype_due_def retype_row_def recast_def)

lemma retype_row_same: "shadow \<noteq> col \<Longrightarrow> dr_id (retype_row pg col shadow ty r) = dr_id r \<and> dr_cells (retype_row pg col shadow ty r) col = dr_cells r col"
  by (simp add: retype_row_def)

lemma settles_some:
  assumes "shadow \<noteq> col"
  shows "settles pg col shadow ty w (set_rows t (map (\<lambda>r. if here r then retype_row pg col shadow ty r else r) (rows_of w t)) w)"
  by (rule settles_set_rows) (simp_all add: retype_row_same [OF assms] retyped_not_due [OF assms] split: if_splits)

lemma batch_update_Inr:
  "batch_update cols f P start batch t w = Inr ((n, reached), u) \<longleftrightarrow>
     (\<exists>d. table_at (sch w) t = Some d \<and> (\<forall>c \<in> set cols. has_column d c)) \<and>
     n = length (filter (\<lambda>r. dr_id r \<in> set (page_ids P start batch (rows_of w t))) (rows_of w t)) \<and>
     reached = (if page_ids P start batch (rows_of w t) = [] then None else Some (last (page_ids P start batch (rows_of w t)))) \<and>
     u = set_rows t (map (\<lambda>r. if dr_id r \<in> set (page_ids P start batch (rows_of w t)) then f r else r) (rows_of w t)) w"
  by (auto simp: batch_update_def rbind_eq_Inr_iff scan_Inr Let_def)

lemma batch_settles:
  assumes "batch_update cols (retype_row pg col shadow ty) P start batch t w = Inr ((n, reached), u)" "shadow \<noteq> col"
  shows "settles pg col shadow ty w u"
  using assms(1) settles_some [OF assms(2)] by (simp only: batch_update_Inr)

lemma history_settles:
  assumes "retype_history pg col shadow ty t w = Inr (n, u)" "shadow \<noteq> col"
  shows "settles pg col shadow ty w u"
proof (cases "hist (sch w) t")
  case (Some h)
  then have "u = set_rows h (map (\<lambda>r. if retype_due pg col shadow ty r then retype_row pg col shadow ty r else r) (rows_of w h)) w"
    using assms(1) by (auto simp: retype_history_def rbind_eq_Inr_iff scan_Inr)
  then show ?thesis using settles_some [OF assms(2)] by simp
qed (use assms in \<open>simp add: retype_history_def\<close>)

lemma advance_later:
  assumes "batch_update cols f P (cursor_at cursors t) batch t w = Inr ((n, reached), u)"
  shows "sint (cursor_at cursors v) \<le> sint (cursor_at (advance t reached cursors) v)"
  using assms page_advances [of P "cursor_at cursors t" batch "rows_of w t"]
  by (auto simp: batch_update_Inr cursor_advance split: if_splits)

lemma filter_map_length_less:
  assumes "\<And>r. r \<in> set rs \<Longrightarrow> Q (f r) \<Longrightarrow> P r" "x \<in> set rs" "P x" "\<not> Q (f x)"
  shows "length (filter Q (map f rs)) < length (filter P rs)"
  using assms
proof (induction rs)
  case (Cons r rs)
  have le: "length (filter Q (map f rs)) \<le> length (filter P rs)" using Cons.prems(1) by (intro filter_map_length_le) auto
  show ?case
  proof (cases "x = r")
    case True
    with Cons.prems le show ?thesis by auto
  next
    case False
    with Cons have "length (filter Q (map f rs)) < length (filter P rs)" by auto
    with Cons.prems(1) [of r] show ?thesis by auto
  qed
qed simp

text \<open>A page that touches a row leaves fewer rows of its table ahead, and a statement on the history fewer rows due.\<close>

lemma batch_less:
  assumes "batch_update [col, shadow] (retype_row pg col shadow ty) (\<lambda>r. dr_cells r col \<noteq> None) (cursor_at cursors t) batch t w = Inr ((n, reached), u)"
    and "shadow \<noteq> col" "n \<noteq> 0"
  shows "left_in pg col shadow ty (advance t reached cursors) u t < left_in pg col shadow ty cursors w t"
proof -
  let ?page = "page_ids (\<lambda>r. dr_cells r col \<noteq> None) (cursor_at cursors t) batch (rows_of w t)"
  note s = batch_settles [OF assms(1,2)]
  have u: "rows_of u t = map (\<lambda>r. if dr_id r \<in> set ?page then retype_row pg col shadow ty r else r) (rows_of w t)"
    and page: "?page \<noteq> []" and reached: "reached = Some (last ?page)"
    using assms(1,3) by (auto simp: batch_update_Inr simp del: not_None_eq)
  obtain x where x: "x \<in> set (rows_of w t)" "dr_id x = last ?page" "dr_cells x col \<noteq> None" "sint (cursor_at cursors t) < sint (dr_id x)"
    using set_page [OF last_in_set [OF page]] by metis
  have next': "cursor_at (advance t reached cursors) t = last ?page" by (simp add: cursor_advance reached)
  have "length (filter (ahead col (last ?page)) (rows_of u t)) < length (filter (ahead col (cursor_at cursors t)) (rows_of w t))"
    unfolding u
  proof (rule filter_map_length_less [OF _ x(1)])
    show "ahead col (cursor_at cursors t) x" using x by (simp add: ahead_def)
    show "\<not> ahead col (last ?page) (if dr_id x \<in> set ?page then retype_row pg col shadow ty x else x)"
      by (simp add: ahead_def x(2) retype_row_same [OF assms(2)])
    fix r assume "ahead col (last ?page) (if dr_id r \<in> set ?page then retype_row pg col shadow ty r else r)"
    then show "ahead col (cursor_at cursors t) r"
      using page_advances [OF page] by (auto simp: ahead_def retype_row_same [OF assms(2)] split: if_splits)
  qed
  moreover have "sch u = sch w" using s by (simp add: settles_def)
  ultimately show ?thesis
    unfolding left_in_def next' using settles_due [OF s] by (auto intro: add_less_le_mono split: option.split)
qed

lemma history_less:
  assumes "retype_history pg col shadow ty t w = Inr (n, u)" "shadow \<noteq> col" "n \<noteq> 0"
  shows "left_in pg col shadow ty cursors u t < left_in pg col shadow ty cursors w t"
proof -
  note s = history_settles [OF assms(1,2)]
  obtain h where h: "hist (sch w) t = Some h" using assms(1,3) by (auto simp: retype_history_def split: option.splits)
  then have u: "rows_of u h = map (\<lambda>r. if retype_due pg col shadow ty r then retype_row pg col shadow ty r else r) (rows_of w h)"
    and n: "n = length (filter (retype_due pg col shadow ty) (rows_of w h))"
    using assms(1) by (auto simp: retype_history_def rbind_eq_Inr_iff scan_Inr)
  obtain x where x: "x \<in> set (rows_of w h)" "retype_due pg col shadow ty x" using n assms(3) by (auto simp: filter_empty_conv)
  have "length (filter (retype_due pg col shadow ty) (rows_of u h)) < length (filter (retype_due pg col shadow ty) (rows_of w h))"
    unfolding u by (rule filter_map_length_less [OF _ x(1)]) (use retyped_not_due [OF assms(2)] x(2) in \<open>auto split: if_splits\<close>)
  moreover have "sch u = sch w" using s by (simp add: settles_def)
  ultimately show ?thesis
    unfolding left_in_def using settles_ahead [OF s order_refl] h by (simp add: add_le_less_mono)
qed

section \<open>One call\<close>

lemma retype_tables_settles:
  "retype_tables pg col shadow ty batch ts cursors w = Inr (n, cs, w') \<Longrightarrow> shadow \<noteq> col \<Longrightarrow>
     settles pg col shadow ty w w' \<and> (\<forall>u. sint (cursor_at cursors u) \<le> sint (cursor_at cs u)) \<and>
     (n \<noteq> 0 \<longrightarrow> (\<exists>t \<in> set ts. left_in pg col shadow ty cs w' t < left_in pg col shadow ty cursors w t))"
proof (induction ts arbitrary: cursors w n)
  case (Cons t ts)
  from Cons.prems(1) obtain a reached u h v k where
    b: "batch_update [col, shadow] (retype_row pg col shadow ty) (\<lambda>r. dr_cells r col \<noteq> None) (cursor_at cursors t) batch t w = Inr ((a, reached), u)"
    and h: "retype_history pg col shadow ty t u = Inr (h, v)"
    and r: "retype_tables pg col shadow ty batch ts (advance t reached cursors) v = Inr (k, cs, w')" and n: "n = a + h + k"
    by (rule retype_cons)
  let ?cs = "advance t reached cursors"
  note sb = batch_settles [OF b Cons.prems(2)] and sh = history_settles [OF h Cons.prems(2)] and adv = advance_later [OF b]
  note ih = Cons.IH [OF r Cons.prems(2)]
  have all: "settles pg col shadow ty w w'" using sb sh ih settles_trans by blast
  have cur: "sint (cursor_at cursors x) \<le> sint (cursor_at cs x)" for x using adv [of x] ih order_trans by blast
  have b_le: "left_in pg col shadow ty ?cs u x \<le> left_in pg col shadow ty cursors w x" for x by (rule settles_left [OF sb adv])
  have h_le: "left_in pg col shadow ty ?cs v x \<le> left_in pg col shadow ty ?cs u x" for x by (rule settles_left [OF sh order_refl])
  have r_le: "left_in pg col shadow ty cs w' x \<le> left_in pg col shadow ty ?cs v x" for x using settles_left ih by blast
  have "\<exists>x \<in> set (t # ts). left_in pg col shadow ty cs w' x < left_in pg col shadow ty cursors w x" if nz: "n \<noteq> 0"
  proof -
    consider "a \<noteq> 0" | "h \<noteq> 0" | "k \<noteq> 0" using nz n by linarith
    then show ?thesis
    proof cases
      case 1
      from batch_less [OF b Cons.prems(2) 1] h_le [of t] r_le [of t] show ?thesis by (intro bexI [of _ t]) auto
    next
      case 2
      from history_less [OF h Cons.prems(2) 2, of ?cs] b_le [of t] r_le [of t] show ?thesis by (intro bexI [of _ t]) auto
    next
      case 3
      with ih obtain x where "x \<in> set ts" "left_in pg col shadow ty cs w' x < left_in pg col shadow ty ?cs v x" by blast
      with b_le [of x] h_le [of x] show ?thesis by (intro bexI [of _ x]) auto
    qed
  qed
  with all cur show ?case by blast
qed simp

lemma sum_list_less:
  fixes f g :: "'a \<Rightarrow> nat"
  assumes "\<And>x. f x \<le> g x" "\<exists>x \<in> set xs. f x < g x"
  shows "sum_list (map f xs) < sum_list (map g xs)"
  using assms(2)
proof (induction xs)
  case (Cons x xs)
  have "sum_list (map f xs) \<le> sum_list (map g xs)" using assms(1) by (rule sum_list_mono)
  with Cons assms(1) [of x] show ?case by (auto intro: add_less_le_mono add_le_less_mono)
qed simp

lemma retype_progress:
  assumes "retype_tables pg col shadow ty batch ts cursors w = Inr (n, cs, w')" "shadow \<noteq> col" "n \<noteq> 0"
  shows "retype_left pg col shadow ty ts cs w' < retype_left pg col shadow ty ts cursors w"
  unfolding retype_left_def
  using retype_tables_settles [OF assms(1,2)] assms(3) settles_left by (intro sum_list_less) blast+

section \<open>What is left to fill\<close>

definition nulls :: "string \<Rightarrow> evo \<Rightarrow> string \<Rightarrow> nat" where
  "nulls col w t = length (filter (\<lambda>r. dr_cells r col = None) (rows_of w t))"

text \<open>A value set in a column is not taken back by the dual writes it fires.\<close>

definition only_sets :: "data_row \<Rightarrow> data_row \<Rightarrow> bool" where
  "only_sets old r \<longleftrightarrow> (\<forall>k. dr_cells r k = dr_cells old k \<or> dr_cells r k \<noteq> None)"

lemma shadow_write_sets:
  assumes "shadow_write pg tg (Some old) r = Inr r'" "only_sets old r"
  shows "only_sets old r' \<and> (dr_cells r k \<noteq> None \<longrightarrow> dr_cells r' k \<noteq> None)"
proof -
  obtain col shadow ty where tg: "tg = (col, shadow, ty)" by (cases tg)
  show ?thesis
  proof (cases "dr_cells old col = dr_cells r col")
    case True
    with assms show ?thesis by (simp add: shadow_write_def tg)
  next
    case False
    then obtain v where "dr_cells r col = Some v" using assms(2) unfolding only_sets_def by (metis not_None_eq)
    with False assms obtain x where "r' = set_cell shadow (Some x) r" by (auto simp: shadow_write_def tg split: option.splits)
    with assms(2) show ?thesis by (auto simp: only_sets_def)
  qed
qed

lemma fire_sets: "fire pg tgs (Some old) r = Inr r' \<Longrightarrow> only_sets old r \<Longrightarrow> dr_cells r k \<noteq> None \<longrightarrow> dr_cells r' k \<noteq> None"
proof (induction tgs arbitrary: r)
  case (Cons tg tgs)
  from Cons.prems(1) obtain q where q: "shadow_write pg tg (Some old) r = Inr q" "fire pg tgs (Some old) q = Inr r'"
    by (auto simp: rbind_eq_Inr_iff)
  from shadow_write_sets [OF q(1) Cons.prems(2)] Cons.IH [OF q(2)] show ?case by blast
qed simp

lemma rmap_all2: "rmap f xs = Inr ys \<Longrightarrow> list_all2 (\<lambda>x y. f x = Inr y) xs ys"
  by (induction xs arbitrary: ys) (auto simp: rbind_eq_Inr_iff)

lemma all2_filter_le:
  "list_all2 R xs ys \<Longrightarrow> (\<And>x y. R x y \<Longrightarrow> Q y \<Longrightarrow> P x) \<Longrightarrow> length (filter Q ys) \<le> length (filter P xs)"
  by (induction rule: list_all2_induct) auto

lemma all2_filter_less:
  "list_all2 R xs ys \<Longrightarrow> (\<And>x y. R x y \<Longrightarrow> Q y \<Longrightarrow> P x) \<Longrightarrow> z \<in> set xs \<Longrightarrow> P z \<Longrightarrow> (\<And>y. R z y \<Longrightarrow> \<not> Q y) \<Longrightarrow>
     length (filter Q ys) < length (filter P xs)"
proof (induction rule: list_all2_induct)
  case (Cons x xs y ys)
  have le: "length (filter Q ys) \<le> length (filter P xs)" using Cons.hyps(2) Cons.prems(1) by (rule all2_filter_le)
  show ?case
  proof (cases "z = x")
    case True
    with Cons.prems Cons.hyps(1) le show ?thesis by auto
  next
    case False
    with Cons.prems have "length (filter Q ys) < length (filter P xs)" by (intro Cons.IH) auto
    with Cons.prems(1) Cons.hyps(1) show ?thesis by auto
  qed
qed simp

lemma filled_rows:
  assumes "fill_table pg col v batch t w = Inr (n, w')"
  obtains d rs' where "rmap (\<lambda>r. if dr_id r \<in> fill_due col batch (rows_of w t) then fire pg (dual_writes (sch w) d) (Some r) (set_cell col (Some v) r)
      else Inr r) (rows_of w t) = Inr rs'"
    "n = length (filter (\<lambda>r. dr_id r \<in> fill_due col batch (rows_of w t)) (rows_of w t))"
    "w' = keep_history pg t d (fill_due col batch (rows_of w t)) (rows_of w t) rs' (set_rows t rs' w)"
  using assms by (auto simp: fill_table_def rbind_eq_Inr_iff Let_def scan_Inr split: option.splits if_split_asm)

lemma keep_history_rows: "hist (sch w) t \<noteq> Some u \<Longrightarrow> rows_of (keep_history pg t d due rs rs' w) u = rows_of w u"
    "sch (keep_history pg t d due rs rs' w) = sch w"
  by (simp_all add: keep_history_def split: option.split)

lemma fill_progress:
  assumes "fill_table pg col v batch t w = Inr (n, w')" "hist (sch w) t \<noteq> Some u"
  shows "sch w' = sch w" "nulls col w' u \<le> nulls col w u" "n \<noteq> 0 \<Longrightarrow> u = t \<Longrightarrow> nulls col w' u < nulls col w u"
proof -
  let ?due = "fill_due col batch (rows_of w t)"
  from filled_rows [OF assms(1)] obtain d rs' where
    r: "rmap (\<lambda>r. if dr_id r \<in> ?due then fire pg (dual_writes (sch w) d) (Some r) (set_cell col (Some v) r) else Inr r) (rows_of w t) = Inr rs'"
    and n: "n = length (filter (\<lambda>r. dr_id r \<in> ?due) (rows_of w t))"
    and w': "w' = keep_history pg t d ?due (rows_of w t) rs' (set_rows t rs' w)" .
  note r = rmap_all2 [OF r]
  show "sch w' = sch w" by (simp add: w' keep_history_rows)
  have u: "rows_of w' u = (if u = t then rs' else rows_of w u)" using assms(2) by (simp add: w' keep_history_rows)
  have filled: "dr_cells r' col \<noteq> None" if "fire pg tgs (Some r) (set_cell col (Some v) r) = Inr r'" for tgs r r'
    using fire_sets [OF that, of col] by (simp add: only_sets_def)
  have keep: "dr_cells r col = None"
    if "(if dr_id r \<in> ?due then fire pg tgs (Some r) (set_cell col (Some v) r) else Inr r) = Inr r'" "dr_cells r' col = None" for tgs r r'
    using that filled by (cases "dr_id r \<in> ?due") force+
  show "nulls col w' u \<le> nulls col w u"
    using all2_filter_le [OF r keep] by (auto simp: nulls_def u)
  assume "n \<noteq> 0" "u = t"
  then obtain x where x: "x \<in> set (take batch (filter (\<lambda>r. dr_cells r col = None) (rows_of w t)))" unfolding n by (auto simp: filter_empty_conv fill_due_def)
  then have "x \<in> set (filter (\<lambda>r. dr_cells r col = None) (rows_of w t))" "dr_id x \<in> ?due" by (auto dest: in_set_takeD simp: fill_due_def)
  with filled show "nulls col w' u < nulls col w u"
    unfolding nulls_def u using \<open>u = t\<close> by (auto intro!: all2_filter_less [OF r keep, where z = x])
qed

lemma fills_progress:
  assumes "fill_tables pg col v batch ts w = Inr (n, w')" "\<forall>t \<in> set ts \<union> U. \<forall>u \<in> U. hist (sch w) t \<noteq> Some u"
  shows "sch w' = sch w \<and> (\<forall>u \<in> U. nulls col w' u \<le> nulls col w u) \<and> (n \<noteq> 0 \<longrightarrow> set ts \<subseteq> U \<longrightarrow> (\<exists>u \<in> U. nulls col w' u < nulls col w u))"
  using assms
proof (induction ts arbitrary: w n)
  case (Cons t ts)
  from Cons.prems(1) obtain a k v' where a: "fill_table pg col v batch t w = Inr (a, v')" "fill_tables pg col v batch ts v' = Inr (k, w')" "n = a + k"
    by (auto simp: rbind_eq_Inr_iff)
  note p = fill_progress [OF a(1)]
  have s: "sch v' = sch w" using a(1) by (auto simp: fill_table_def rbind_eq_Inr_iff Let_def keep_history_rows split: option.splits if_split_asm)
  have ih: "sch w' = sch v' \<and> (\<forall>u \<in> U. nulls col w' u \<le> nulls col v' u) \<and> (k \<noteq> 0 \<longrightarrow> set ts \<subseteq> U \<longrightarrow> (\<exists>u \<in> U. nulls col w' u < nulls col v' u))"
    using Cons.prems(2) by (intro Cons.IH [OF a(2)]) (simp add: s)
  have le: "nulls col v' u \<le> nulls col w u" if "u \<in> U" for u using p(2) that Cons.prems(2) by simp
  have "\<exists>u \<in> U. nulls col w' u < nulls col w u" if n: "n \<noteq> 0" "set (t # ts) \<subseteq> U"
  proof (cases "a = 0")
    case True
    with n a(3) ih obtain u where u: "u \<in> U" "nulls col w' u < nulls col v' u" by auto
    with le [OF u(1)] show ?thesis by (intro bexI [of _ u]) auto
  next
    case False
    have "t \<in> U" using n(2) by simp
    with p(3) [of t] False Cons.prems(2) ih show ?thesis by (intro bexI [of _ t]) (auto intro: order_le_less_trans)
  qed
  moreover have "nulls col w' u \<le> nulls col w u" if "u \<in> U" for u using le that ih order_trans by blast
  ultimately show ?case using s ih by (intro conjI ballI impI) auto
qed simp

section \<open>The loop\<close>

text \<open>Everything a change still has to move.\<close>

definition target_tables :: "evo \<Rightarrow> change_row \<Rightarrow> string list" where
  "target_tables w c = (case type_of c (sch w) of Inl e \<Rightarrow> [] | Inr tid \<Rightarrow> map snd (concrete (sch w) tid))"

definition cursors_of :: "change_row \<Rightarrow> (string \<times> json) list" where
  "cursors_of c = (case json_get (ch_report c) ''cursor'' of Some (JObj m) \<Rightarrow> m | _ \<Rightarrow> [])"

definition left_over :: "postgres \<Rightarrow> change_row \<Rightarrow> evo \<Rightarrow> nat" where
  "left_over pg c w = (case report_text c ''column'' of None \<Rightarrow> 0 | Some col \<Rightarrow>
     if ch_kind c = ''alter_property_type'' then
       (case (report_text c ''shadow'', report_text c ''to_sql'') of
          (Some shadow, Some ty) \<Rightarrow> retype_left pg col shadow ty (target_tables w c) (cursors_of c) w | _ \<Rightarrow> 0)
     else sum_list (map (nulls col w) (target_tables w c)))"

lemma report_set_get: "json_get (ch_report (report_set k v c)) k' = (if k' = k then Some v else json_get (ch_report c) k')"
  by (cases "ch_report c") (auto simp: report_set_def btree_insert_get)

lemma report_set_text: "k' \<noteq> k \<Longrightarrow> report_text (report_set k v c) k' = report_text c k'"
  by (simp add: report_text_def report_set_get)

lemma reported_Inr: "reported c k = Inr v \<longleftrightarrow> report_text c k = Some v"
  by (simp add: reported_def split: option.split)

lemma find_map_same: "(\<And>x. P (g x) = P x) \<Longrightarrow> find P (map g xs) = map_option g (find P xs)"
  by (induction xs) auto

lemma save_records: "schema_changes (sch (save d p v)) = map (\<lambda>r. if ch_id r = ch_id d then r\<lparr>ch_phase := p, ch_report := ch_report d,
    ch_to := (if p \<in> {''contracted'', ''aborted''} then Some (length (versions (sch v))) else ch_to r)\<rparr> else r) (schema_changes (sch v))"
    "graphs (sch (save d p v)) = graphs (sch v)"
  by (simp_all add: save_def)

lemma load_save:
  assumes "load w i = Inr c" "ch_id d = ch_id c" "same_records (sch w) (sch v)"
  shows "load (save d p v) i = Inr (c\<lparr>ch_phase := p, ch_report := ch_report d,
    ch_to := (if p \<in> {''contracted'', ''aborted''} then Some (length (versions (sch v))) else ch_to c)\<rparr>)"
proof -
  let ?P = "\<lambda>c. ch_id c = i \<and> ch_graph c \<in> fst ` set (graphs (sch w))"
  let ?g = "\<lambda>r. if ch_id r = ch_id d then r\<lparr>ch_phase := p, ch_report := ch_report d,
    ch_to := (if p \<in> {''contracted'', ''aborted''} then Some (length (versions (sch v))) else ch_to r)\<rparr> else r"
  have f: "find ?P (schema_changes (sch w)) = Some c" using assms(1) by (auto simp: load_def split: option.splits)
  then have "ch_id c = i" by (auto simp: find_Some_iff)
  have "?P (?g x) = ?P x" for x by (cases "p \<in> {''contracted'', ''aborted''}"; simp)
  then have "find ?P (map ?g (schema_changes (sch w))) = map_option ?g (find ?P (schema_changes (sch w)))" by (rule find_map_same)
  then have "find ?P (map ?g (schema_changes (sch w))) = Some (?g c)" by (simp only: f option.map)
  moreover have "load (save d p v) i = (case find ?P (map ?g (schema_changes (sch w))) of Some c \<Rightarrow> Inr c | None \<Rightarrow> Inl (Missing_change i))"
    using assms(3) by (simp only: load_def save_records same_records_def)
  ultimately show ?thesis by (simp only: option.simps assms(2) if_True refl)
qed

definition same_work :: "change_row \<Rightarrow> change_row \<Rightarrow> bool" where
  "same_work c c' \<longleftrightarrow> ch_kind c' = ch_kind c \<and> ch_spec c' = ch_spec c \<and> ch_graph c' = ch_graph c \<and>
     (\<forall>k \<in> {''column'', ''shadow'', ''to_sql'', ''data_type''}. report_text c' k = report_text c k)"

lemma same_work_texts:
  assumes "same_work c c'"
  shows "report_text c' ''column'' = report_text c ''column''" "report_text c' ''shadow'' = report_text c ''shadow''"
    "report_text c' ''to_sql'' = report_text c ''to_sql''" "ch_kind c' = ch_kind c" "ch_spec c' = ch_spec c" "ch_graph c' = ch_graph c"
  using assms by (simp_all add: same_work_def)

text \<open>Saving a change only touches the records of changes.\<close>

definition same_but_records :: "schema \<Rightarrow> schema \<Rightarrow> bool" where
  "same_but_records s s' \<longleftrightarrow> (\<exists>cs. s' = s\<lparr>schema_changes := cs\<rparr>)"

lemma save_same: "same_but_records (sch w) (sch (save d p w))" "rows_of (save d p w) = rows_of w"
  by (auto simp: same_but_records_def save_def)

lemma same_but_records_simps:
  assumes "same_but_records s s'"
  shows "cat s' = cat s" "concrete s' = concrete s" "hist s' = hist s" "type_of c s' = type_of c s" "types s' = types s" "table_at s' = table_at s"
proof -
  obtain cs where s': "s' = s\<lparr>schema_changes := cs\<rparr>" using assms by (auto simp: same_but_records_def)
  show c: "cat s' = cat s" by (simp add: s' cat_def catalog.truncate_def)
  have "type_labels s' = type_labels s" by (simp add: s')
  then show "concrete s' = concrete s" by (simp add: concrete_def c fun_eq_iff)
  show "table_at s' = table_at s" "types s' = types s" by (simp_all add: s' table_at_def fun_eq_iff)
  then show "hist s' = hist s" by (simp add: hist_def fun_eq_iff cong: option.case_cong)
  show "type_of c s' = type_of c s"
    by (simp add: type_of_def type_named_def s' type_id_def try_type_id_def nearest_type_names_def scored_names_def cong: option.case_cong)
qed

lemma migrate_calls:
  assumes "og_schema_migrate pg i batch w = Inr (r, w')"
  obtains c n d v where "load w i = Inr c" "migrate pg (nat (max 1 (sint batch))) c w = Inr (n, d, v)" "json_get r ''done'' = Some (JBool (n = 0))"
    "\<exists>e. w' = save e ''migrating'' v \<and> ch_id e = ch_id d \<and> cursors_of e = cursors_of d \<and>
      (\<forall>k \<in> {''column'', ''shadow'', ''to_sql'', ''data_type''}. report_text e k = report_text d k)"
proof -
  from assms obtain c n d v where m: "load w i = Inr c" "migrate pg (nat (max 1 (sint batch))) c w = Inr (n, d, v)"
    unfolding og_schema_migrate_def rbind_eq_Inr_iff by auto
  define total where "total = (case Option.bind (json_get (ch_report d) ''migrated'') json_as_i64 of Some n \<Rightarrow> n | None \<Rightarrow> 0) + of_nat n"
  define e where "e = report_set ''migration_done'' (JBool (n = 0)) (report_set ''migrated'' (json_of_i64 total) (report_set ''migrated_last_call'' (json_nat n) d))"
  from assms have r: "r = json_object [(''change_id'', json_i32 i), (''moved'', json_nat n), (''done'', JBool (n = 0)), (''migrated'', json_of_i64 total)]"
    and w': "w' = save e ''migrating'' v"
    unfolding og_schema_migrate_def m rbind_Inr by (auto simp: rbind_eq_Inr_iff Let_def total_def e_def)
  show thesis
  proof (rule that [OF m])
    show "json_get r ''done'' = Some (JBool (n = 0))" by (simp add: r json_object_def)
    show "\<exists>e. w' = save e ''migrating'' v \<and> ch_id e = ch_id d \<and> cursors_of e = cursors_of d \<and>
      (\<forall>k \<in> {''column'', ''shadow'', ''to_sql'', ''data_type''}. report_text e k = report_text d k)"
      unfolding w' by (intro exI [of _ e]) (simp add: e_def cursors_of_def report_set_get report_set_text)
  qed
qed

lemma same_work_refl [simp]: "same_work c c"
  by (simp add: same_work_def)

lemma sum_list_less_on:
  fixes f g :: "'a \<Rightarrow> nat"
  assumes "\<forall>x \<in> set xs. f x \<le> g x" "\<exists>x \<in> set xs. f x < g x"
  shows "sum_list (map f xs) < sum_list (map g xs)"
  using assms
proof (induction xs)
  case (Cons x xs)
  have "sum_list (map f xs) \<le> sum_list (map g xs)" using Cons.prems(1) by (intro sum_list_mono) auto
  with Cons show ?case by (auto intro: add_less_le_mono add_le_less_mono)
qed simp

lemma migrate_retype_less:
  assumes "migrate_retype pg batch c w = Inr (n, d, v)" "report_text c ''shadow'' \<noteq> report_text c ''column''" "ch_kind c = ''alter_property_type''"
  shows "sch v = sch w \<and> same_work c d \<and> (n \<noteq> 0 \<longrightarrow> left_over pg d v < left_over pg c w)"
proof -
  from assms(1) obtain col shadow ty tid cs where t: "report_text c ''column'' = Some col" "report_text c ''shadow'' = Some shadow"
    "report_text c ''to_sql'' = Some ty" "type_of c (sch w) = Inr tid"
    and m: "retype_tables pg col shadow ty batch (map snd (concrete (sch w) tid)) (cursors_of c) w = Inr (n, cs, v)"
    and d: "d = report_set ''cursor'' (JObj cs) c"
    by (auto simp: migrate_retype_def rbind_eq_Inr_iff reported_Inr cursors_of_def)
  have ne: "shadow \<noteq> col" using assms(2) t by auto
  have v: "sch v = sch w" using retype_tables_settles [OF m ne] by (simp add: settles_def)
  have w: "same_work c d" by (simp add: same_work_def d report_set_text)
  have ty: "type_of d = type_of c" by (simp add: type_of_def type_named_def d fun_eq_iff)
  have "left_over pg d v < left_over pg c w" if "n \<noteq> 0"
    using retype_progress [OF m ne that]
    by (simp add: left_over_def t d report_set_text assms(3) cursors_of_def report_set_get target_tables_def v ty [unfolded d])
  with v w show ?thesis by blast
qed

lemma migrate_required_Inr:
  assumes "migrate_required pg batch c w = Inr (n, d, v)"
  shows "n = 0 \<and> d = c \<and> v = w \<or> (\<exists>col tid x. report_text c ''column'' = Some col \<and> type_of c (sch w) = Inr tid \<and>
    fill_tables pg col x batch (map snd (concrete (sch w) tid)) w = Inr (n, v) \<and> d = c)"
proof (cases "(case json_get (ch_spec c) ''default'' of Some v \<Rightarrow> v | None \<Rightarrow> JNull) = JNull")
  case True
  then show ?thesis using assms by (simp add: migrate_required_def)
next
  case False
  from assms show ?thesis
    unfolding migrate_required_def Let_def if_not_P [OF False] rbind_eq_Inr_iff reported_Inr
    by (elim exE conjE) (auto split: if_split_asm option.split_asm simp: rbind_eq_Inr_iff simp del: fill_tables.simps)
qed

lemma migrate_required_less:
  assumes "migrate_required pg batch c w = Inr (n, d, v)" "ch_kind c = ''set_required''"
    and apart: "\<forall>t \<in> set (target_tables w c). \<forall>u \<in> set (target_tables w c). hist (sch w) t \<noteq> Some u"
  shows "sch v = sch w \<and> same_work c d \<and> (n \<noteq> 0 \<longrightarrow> left_over pg d v < left_over pg c w)"
proof (cases "n = 0 \<and> d = c \<and> v = w")
  case True
  then show ?thesis by simp
next
  case False
  with migrate_required_Inr [OF assms(1)] obtain col tid x where t: "report_text c ''column'' = Some col" "type_of c (sch w) = Inr tid"
    and m: "fill_tables pg col x batch (map snd (concrete (sch w) tid)) w = Inr (n, v)" and d: "d = c" by blast
  have tt: "target_tables w c = map snd (concrete (sch w) tid)" by (simp add: target_tables_def t(2))
  have p: "sch v = sch w \<and> (\<forall>u \<in> set (target_tables w c). nulls col v u \<le> nulls col w u) \<and>
      (n \<noteq> 0 \<longrightarrow> (\<exists>u \<in> set (target_tables w c). nulls col v u < nulls col w u))"
    using fills_progress [OF m [folded tt], of "set (target_tables w c)"] apart by simp
  then have "sch v = sch w" by blast
  then have tv: "target_tables v c = target_tables w c" by (simp add: target_tables_def cong: sum.case_cong)
  show ?thesis
    using p assms(2) by (auto simp: d left_over_def t(1) tv intro: sum_list_less_on)
qed

lemma migrate_less:
  assumes "migrate pg batch c w = Inr (n, d, v)" "report_text c ''shadow'' \<noteq> report_text c ''column''"
    and "\<forall>t \<in> set (target_tables w c). \<forall>u \<in> set (target_tables w c). hist (sch w) t \<noteq> Some u"
  shows "sch v = sch w \<and> same_work c d \<and> (n \<noteq> 0 \<longrightarrow> left_over pg d v < left_over pg c w)"
  using assms migrate_retype_less migrate_required_less by (auto simp: migrate_def split: if_split_asm)

lemma migration_step:
  assumes "og_schema_migrate pg i batch w = Inr (r, w')" "load w i = Inr c" "report_text c ''shadow'' \<noteq> report_text c ''column''"
    and "\<forall>t \<in> set (target_tables w c). \<forall>u \<in> set (target_tables w c). hist (sch w) t \<noteq> Some u"
  obtains c' n where "load w' i = Inr c'" "same_work c c'" "target_tables w' c' = target_tables w c" "hist (sch w') = hist (sch w)"
    "json_get r ''done'' = Some (JBool (n = 0))" "n \<noteq> (0 :: nat) \<Longrightarrow> left_over pg c' w' < left_over pg c w"
proof -
  from migrate_calls [OF assms(1)] obtain c2 n d v e where l: "load w i = Inr c2"
    and m2: "migrate pg (nat (max 1 (sint batch))) c2 w = Inr (n, d, v)" and r: "json_get r ''done'' = Some (JBool (n = 0))"
    and w': "w' = save e ''migrating'' v" and e: "ch_id e = ch_id d" "cursors_of e = cursors_of d"
      "\<forall>k \<in> {''column'', ''shadow'', ''to_sql'', ''data_type''}. report_text e k = report_text d k"
    by metis
  have m: "migrate pg (nat (max 1 (sint batch))) c w = Inr (n, d, v)" using l m2 assms(2) by simp
  note p = migrate_less [OF m assms(3,4)]
  have id: "ch_id e = ch_id c" using calm_migrate [OF m] e(1) by simp
  have rec: "same_records (sch w) (sch v)" using p by simp
  define c' where "c' = c\<lparr>ch_phase := ''migrating'', ch_report := ch_report e, ch_to := ch_to c\<rparr>"
  have l: "load w' i = Inr c'" unfolding w' load_save [OF assms(2) id rec] by (simp add: c'_def)
  have texts: "\<forall>k \<in> {''column'', ''shadow'', ''to_sql'', ''data_type''}. report_text c' k = report_text d k"
    using e(3) by (simp add: c'_def report_text_def)
  have sw: "same_work c c'" using p texts unfolding same_work_def by (simp add: c'_def)
  note sb = same_but_records_simps [OF save_same(1) [of v e "''migrating''", folded w']]
  have "type_of c' = type_of d" "ch_kind c' = ch_kind d" using p by (simp_all add: type_of_def type_named_def c'_def same_work_def fun_eq_iff)
  then have tt: "target_tables w' c' = target_tables v d" by (simp add: target_tables_def sb cong: sum.case_cong)
  have "target_tables v d = target_tables w c" using p by (simp add: target_tables_def type_of_def type_named_def same_work_def cong: sum.case_cong)
  moreover have "left_over pg c' w' = left_over pg d v"
  proof -
    have "rows_of w' = rows_of v" by (simp add: w' save_same)
    moreover have "cursors_of c' = cursors_of d" using e(2) by (simp add: c'_def cursors_of_def)
    moreover have "nulls col w' = nulls col v" for col using calculation(1) by (simp add: nulls_def fun_eq_iff)
    moreover have "retype_left pg col sh ty ts cs w' = retype_left pg col sh ty ts cs v" for col sh ty ts cs
    proof -
      have "left_in pg col sh ty cs w' = left_in pg col sh ty cs v"
        using calculation(1) by (simp add: left_in_def fun_eq_iff sb cong: option.case_cong)
      then show ?thesis by (simp add: retype_left_def)
    qed
    moreover have "report_text c' ''column'' = report_text d ''column''" "report_text c' ''shadow'' = report_text d ''shadow''"
      "report_text c' ''to_sql'' = report_text d ''to_sql''" using texts by simp_all
    ultimately show ?thesis unfolding left_over_def \<open>ch_kind c' = ch_kind d\<close> tt by (simp only:)
  qed
  ultimately show thesis using that [OF l sw _ _ r] tt p sb(3) by simp
qed

text \<open>Only the loop itself runs out of fuel.\<close>

lemma refuse_Inl: "refuse r = Inl e \<longleftrightarrow> (\<exists>x. r = Inl x \<and> e = Refused x)"
  by (auto simp: refuse_def split: sum.split)

lemma parts_no_fuel:
  "reported c k \<noteq> Inl Out_of_fuel" "type_of c s \<noteq> Inl Out_of_fuel" "scan w cols t \<noteq> Inl Out_of_fuel" "load w i \<noteq> Inl Out_of_fuel"
  "require_phase c ps x \<noteq> Inl Out_of_fuel" "shadow_write pg tg old r \<noteq> Inl Out_of_fuel"
  by (auto simp: reported_def type_of_def type_named_def spec_text_def rbind_eq_Inl_iff refuse_Inl scan_def load_def require_phase_def
      shadow_write_def split: option.splits prod.splits)

lemma fire_no_fuel: "fire pg tgs old r \<noteq> Inl Out_of_fuel"
  by (induction tgs arbitrary: r) (auto simp: rbind_eq_Inl_iff parts_no_fuel)

lemma rmap_no_fuel: "(\<And>x. f x \<noteq> Inl Out_of_fuel) \<Longrightarrow> rmap f xs \<noteq> Inl Out_of_fuel"
  by (induction xs) (auto simp: rbind_eq_Inl_iff)

lemma tables_no_fuel:
  "retype_tables pg col shadow ty batch ts cursors w \<noteq> Inl Out_of_fuel" "fill_tables pg col v batch ts w \<noteq> Inl Out_of_fuel"
proof -
  have "batch_update cols f P start batch t w \<noteq> Inl Out_of_fuel" "retype_history pg col shadow ty t w \<noteq> Inl Out_of_fuel" for cols f P start t w
    by (auto simp: batch_update_def retype_history_def rbind_eq_Inl_iff parts_no_fuel Let_def split: option.split)
  then show "retype_tables pg col shadow ty batch ts cursors w \<noteq> Inl Out_of_fuel"
    by (induction ts arbitrary: cursors w) (auto simp: rbind_eq_Inl_iff)
  have "rmap (\<lambda>r. if dr_id r \<in> due then fire pg tgs (Some r) (set_cell col (Some v) r) else Inr r) rs \<noteq> Inl Out_of_fuel" for due tgs rs
    by (rule rmap_no_fuel) (simp add: fire_no_fuel)
  then have "fill_table pg col v batch t w \<noteq> Inl Out_of_fuel" for t w
    by (auto simp: fill_table_def rbind_eq_Inl_iff parts_no_fuel Let_def split: option.split)
  then show "fill_tables pg col v batch ts w \<noteq> Inl Out_of_fuel"
    by (induction ts arbitrary: w) (auto simp: rbind_eq_Inl_iff)
qed

lemma migrate_no_fuel: "og_schema_migrate pg i batch w \<noteq> Inl Out_of_fuel"
proof -
  have "migrate pg b c w \<noteq> Inl Out_of_fuel" for b c
    by (auto simp: migrate_def migrate_retype_def migrate_required_def rbind_eq_Inl_iff parts_no_fuel tables_no_fuel Let_def split: option.split)
  then show ?thesis by (auto simp: og_schema_migrate_def rbind_eq_Inl_iff parts_no_fuel Let_def)
qed

lemma migration_loop:
  assumes "load w i = Inr c" "report_text c ''shadow'' \<noteq> report_text c ''column''"
    and "\<forall>t \<in> set (target_tables w c). \<forall>u \<in> set (target_tables w c). hist (sch w) t \<noteq> Some u" "left_over pg c w < n"
  shows "migrate_all pg n i w \<noteq> Inl Out_of_fuel"
  using assms
proof (induction n arbitrary: w c)
  case (Suc n)
  show ?case
  proof (cases "og_schema_migrate pg i 100000 w")
    case (Inl e)
    then show ?thesis using migrate_no_fuel [of pg i 100000 w] by auto
  next
    case (Inr rw)
    obtain r w' where rw: "rw = (r, w')" by fastforce
    from migration_step [OF Inr [unfolded rw] Suc.prems(1-3)] obtain c' k where c': "load w' i = Inr c'" "same_work c c'"
      "target_tables w' c' = target_tables w c" "hist (sch w') = hist (sch w)" "json_get r ''done'' = Some (JBool (k = 0))"
      "k \<noteq> (0 :: nat) \<Longrightarrow> left_over pg c' w' < left_over pg c w" by metis
    show ?thesis
    proof (cases "k = 0")
      case True
      then show ?thesis by (simp add: Inr rw c'(5))
    next
      case False
      have "migrate_all pg n i w' \<noteq> Inl Out_of_fuel"
        using Suc.prems(2-4) c'(6) [OF False] by (intro Suc.IH [OF c'(1)]) (simp_all add: c'(3,4) same_work_texts [OF c'(2)])
      with False show ?thesis by (simp add: Inr rw c'(5))
    qed
  qed
qed simp

section \<open>The bound\<close>

definition target_rows :: "evo \<Rightarrow> change_row \<Rightarrow> nat" where
  "target_rows w c = sum_list (map (\<lambda>t. length (rows_of w t) + (case hist (sch w) t of None \<Rightarrow> 0 | Some h \<Rightarrow> length (rows_of w h))) (target_tables w c))"

lemma left_over_rows: "left_over pg c w \<le> target_rows w c"
proof -
  have "left_in pg col sh ty cs w t \<le> length (rows_of w t) + (case hist (sch w) t of None \<Rightarrow> 0 | Some h \<Rightarrow> length (rows_of w h))" for col sh ty cs t
    unfolding left_in_def by (rule add_mono) (simp_all split: option.split)
  moreover have "nulls col w t \<le> length (rows_of w t) + (case hist (sch w) t of None \<Rightarrow> 0 | Some h \<Rightarrow> length (rows_of w h))" for col t
    unfolding nulls_def by (rule order_trans [OF length_filter_le]) simp
  ultimately show ?thesis by (auto simp: left_over_def target_rows_def retype_left_def intro!: sum_list_mono split: option.split)
qed

lemma target_tables_typed:
  assumes "catalog_ok s" "t \<in> set (map snd (concrete s tid))" "u \<in> set (map snd (concrete s tid))"
  shows "hist s t \<noteq> Some u"
proof
  assume h: "hist s t = Some u"
  then have hu: "starts_with ''og_data.h_'' u" by (auto simp: hist_def history_table_def starts_with_def split: option.splits if_splits)
  obtain sub where "storage_table (cat s) sub = Some u" using assms(3) by (auto simp: concrete_def List.map_filter_def)
  then obtain r where "r \<in> set (types s)" "tr_storage r = Some u" using storage_type by blast
  then have "stored_as r = Some u" using assms(1) by (auto simp: catalog_ok_def catalog_core_def row_ok_def)
  then have "starts_with ''og_data.n_'' u \<or> starts_with ''og_data.e_'' u"
    by (auto simp: stored_as_def node_table_def edge_table_def starts_with_def split: if_splits)
  with hu show False by (auto simp: starts_with_def)
qed

end
