(* ===== verification/Evolution_Retype.thy ===== *)
theory Evolution_Retype
  imports Evolution_Migration
begin

text \<open>
  Changing the type of a property while the application keeps writing: a trigger makes the shadow column follow
  the old one, batches bring the older rows across.  The lemmas show that the two together miss no row,
  whatever the interleaving, and what contracting then leaves in the tables.
\<close>

section \<open>Rows that were brought across\<close>

definition followed :: "postgres \<Rightarrow> bool \<Rightarrow> string \<Rightarrow> string \<Rightarrow> string \<Rightarrow> i64 \<Rightarrow> data_row \<Rightarrow> bool" where
  "followed pg whole col shadow ty k r \<longleftrightarrow>
     (whole \<or> sint (dr_id r) \<le> sint k \<or> dr_cells r col = None \<longrightarrow> dr_cells r shadow = recast pg ty col r)"

lemma retyped_followed: "shadow \<noteq> col \<Longrightarrow> followed pg b col shadow ty k (retype_row pg col shadow ty r)"
  by (simp add: followed_def retype_row_def recast_def)

lemma batch_followed:
  assumes "batch_update [col, shadow] (retype_row pg col shadow ty) (\<lambda>r. dr_cells r col \<noteq> None) (cursor_at cursors t) batch t w = Inr ((n, reached), u)"
    and "shadow \<noteq> col" "\<forall>r \<in> set (rows_of w v). followed pg b col shadow ty (cursor_at cursors v) r"
  shows "\<forall>r \<in> set (rows_of u v). followed pg b col shadow ty (cursor_at (advance t reached cursors) v) r"
proof (cases "v = t")
  case False
  with assms show ?thesis by (auto simp: batch_update_Inr cursor_advance split: option.split)
next
  case True
  let ?page = "page_ids (\<lambda>r. dr_cells r col \<noteq> None) (cursor_at cursors t) batch (rows_of w t)"
  have u: "rows_of u t = map (\<lambda>r. if dr_id r \<in> set ?page then retype_row pg col shadow ty r else r) (rows_of w t)"
    and reached: "reached = (if ?page = [] then None else Some (last ?page))"
    using assms(1) unfolding batch_update_Inr by simp_all
  have "followed pg b col shadow ty (cursor_at (advance t reached cursors) t) r"
    if r: "r \<in> set (rows_of w t)" "dr_id r \<notin> set ?page" for r
  proof (cases "?page = []")
    case True
    with reached r assms(3) \<open>v = t\<close> show ?thesis by (simp add: cursor_advance)
  next
    case False
    then have "cursor_at (advance t reached cursors) t = last ?page" by (simp add: reached cursor_advance)
    moreover have "\<not> sint (dr_id r) \<le> sint (last ?page)" if "dr_cells r col \<noteq> None" "sint (cursor_at cursors t) < sint (dr_id r)"
      using page_covers [OF r(1) that(1,2) False] r(2) by blast
    ultimately show ?thesis using assms(3) r(1) \<open>v = t\<close> by (auto simp: followed_def)
  qed
  then show ?thesis using retyped_followed [OF assms(2)] unfolding True u by (auto simp del: not_None_eq)
qed

lemma history_rows: "retype_history pg col shadow ty t w = Inr (n, u) \<Longrightarrow> hist (sch w) t \<noteq> Some v \<Longrightarrow> rows_of u v = rows_of w v"
  by (auto simp: retype_history_def rbind_eq_Inr_iff split: option.splits)

lemma retype_followed:
  "retype_tables pg col shadow ty batch ts cursors w = Inr (n, cs, w') \<Longrightarrow> shadow \<noteq> col \<Longrightarrow> \<forall>t \<in> set ts. hist (sch w) t \<noteq> Some v \<Longrightarrow>
     \<forall>r \<in> set (rows_of w v). followed pg b col shadow ty (cursor_at cursors v) r \<Longrightarrow>
     \<forall>r \<in> set (rows_of w' v). followed pg b col shadow ty (cursor_at cs v) r"
proof (induction ts arbitrary: cursors w n)
  case (Cons t ts)
  from Cons.prems(1) obtain a reached u h x k where
    s: "batch_update [col, shadow] (retype_row pg col shadow ty) (\<lambda>r. dr_cells r col \<noteq> None) (cursor_at cursors t) batch t w = Inr ((a, reached), u)"
    "retype_history pg col shadow ty t u = Inr (h, x)" "retype_tables pg col shadow ty batch ts (advance t reached cursors) x = Inr (k, cs, w')"
    by (rule retype_cons)
  have same: "sch u = sch w" "sch x = sch u"
    using batch_settles [OF s(1) Cons.prems(2)] history_settles [OF s(2) Cons.prems(2)] by (simp_all add: settles_def)
  have "\<forall>r \<in> set (rows_of x v). followed pg b col shadow ty (cursor_at (advance t reached cursors) v) r"
    using batch_followed [OF s(1) Cons.prems(2,4)] history_rows [OF s(2)] Cons.prems(3) same by simp
  then show ?case using Cons.prems(2,3) same by (intro Cons.IH [OF s(3)]) simp_all
qed simp

text \<open>A call that moves nothing has nothing left to move.\<close>

lemma batch_none:
  assumes "batch_update cols f P start batch t w = Inr ((0, reached), u)" "0 < batch"
  shows "reached = None" "rows_of u t = rows_of w t" "\<forall>r \<in> set (rows_of w t). P r \<longrightarrow> sint (dr_id r) \<le> sint start"
proof -
  let ?page = "page_ids P start batch (rows_of w t)"
  have "?page = []"
  proof (rule ccontr)
    assume "?page \<noteq> []"
    from set_page [OF last_in_set [OF this]] obtain r where "r \<in> set (rows_of w t)" "dr_id r = last ?page" by blast
    with \<open>?page \<noteq> []\<close> assms(1) show False by (auto simp: batch_update_Inr filter_empty_conv)
  qed
  with assms show "reached = None" "rows_of u t = rows_of w t" "\<forall>r \<in> set (rows_of w t). P r \<longrightarrow> sint (dr_id r) \<le> sint start"
    by (auto simp: batch_update_Inr page_empty not_less)
qed

lemma retype_done:
  "retype_tables pg col shadow ty batch ts cursors w = Inr (0, cs, w') \<Longrightarrow> shadow \<noteq> col \<Longrightarrow> 0 < batch \<Longrightarrow> v \<in> set ts \<Longrightarrow>
     \<forall>t \<in> set ts. hist (sch w) t \<noteq> Some v \<Longrightarrow> \<forall>r \<in> set (rows_of w v). followed pg False col shadow ty (cursor_at cursors v) r \<Longrightarrow>
     \<forall>r \<in> set (rows_of w' v). dr_cells r shadow = recast pg ty col r"
proof (induction ts arbitrary: cursors w)
  case (Cons t ts)
  from Cons.prems(1) obtain reached u x where
    s: "batch_update [col, shadow] (retype_row pg col shadow ty) (\<lambda>r. dr_cells r col \<noteq> None) (cursor_at cursors t) batch t w = Inr ((0, reached), u)"
    "retype_history pg col shadow ty t u = Inr (0, x)" "retype_tables pg col shadow ty batch ts (advance t reached cursors) x = Inr (0, cs, w')"
    by (rule retype_cons) (auto intro: that)
  have same: "sch u = sch w" "sch x = sch u"
    using batch_settles [OF s(1) Cons.prems(2)] history_settles [OF s(2) Cons.prems(2)] by (simp_all add: settles_def)
  have f: "\<forall>r \<in> set (rows_of x v). followed pg False col shadow ty (cursor_at (advance t reached cursors) v) r"
    using batch_followed [OF s(1) Cons.prems(2,6)] history_rows [OF s(2)] Cons.prems(5) same by simp
  show ?case
  proof (cases "v \<in> set ts")
    case True
    with f Cons.prems same show ?thesis by (intro Cons.IH [OF s(3)]) simp_all
  next
    case False
    then have "v = t" using Cons.prems(4) by simp
    have "\<forall>r \<in> set (rows_of w t). followed pg True col shadow ty (cursor_at cursors t) r"
      using batch_none(3) [OF s(1) Cons.prems(3)] Cons.prems(6) \<open>v = t\<close> by (auto simp: followed_def)
    then have "\<forall>r \<in> set (rows_of x t). followed pg True col shadow ty (cursor_at (advance t reached cursors) t) r"
      using batch_none(1,2) [OF s(1) Cons.prems(3)] history_rows [OF s(2)] Cons.prems(5) same \<open>v = t\<close> by (simp add: cursor_advance)
    then have "\<forall>r \<in> set (rows_of w' t). followed pg True col shadow ty (cursor_at cs t) r"
      using Cons.prems(2,5) same \<open>v = t\<close> by (intro retype_followed [OF s(3)]) simp_all
    then show ?thesis using \<open>v = t\<close> by (simp add: followed_def)
  qed
qed simp

section \<open>Dual writes\<close>

definition no_interference :: "string \<Rightarrow> string \<Rightarrow> string \<Rightarrow> (string \<times> string \<times> string) list \<Rightarrow> bool" where
  "no_interference col shadow ty tgs \<longleftrightarrow> (\<forall>(c, s, y) \<in> set tgs. s \<noteq> col \<and> (s = shadow \<longrightarrow> (c, s, y) = (col, shadow, ty)))"

lemma fire_follows:
  assumes "fire pg tgs old r = Inr r'" "no_interference col shadow ty tgs" "shadow \<noteq> col"
  shows "dr_id r' = dr_id r \<and> dr_cells r' col = dr_cells r col \<and>
     dr_cells r' shadow = (if (col, shadow, ty) \<in> set tgs \<and> \<not> (\<exists>q. old = Some q \<and> dr_cells q col = dr_cells r col)
       then recast pg ty col r else dr_cells r shadow)"
  using assms(1,2)
proof (induction tgs arbitrary: r)
  case (Cons tg tgs)
  obtain c s y where tg: "tg = (c, s, y)" by (cases tg)
  from Cons.prems(1) obtain q where q: "shadow_write pg tg old r = Inr q" "fire pg tgs old q = Inr r'" by (auto simp: rbind_eq_Inr_iff)
  have ni: "no_interference col shadow ty tgs" "s \<noteq> col" "s = shadow \<Longrightarrow> c = col \<and> y = ty"
    using Cons.prems(2) by (auto simp: no_interference_def tg)
  have step: "dr_id q = dr_id r" "dr_cells q col = dr_cells r col"
    using q(1) ni(2) by (auto simp: shadow_write_def tg split: if_splits option.splits)
  have sh: "dr_cells q shadow = (if (c, s, y) = (col, shadow, ty) \<and> \<not> (\<exists>q. old = Some q \<and> dr_cells q col = dr_cells r col)
       then recast pg ty col r else dr_cells r shadow)"
    using q(1) ni(3) by (auto simp: shadow_write_def tg recast_def split: if_splits option.splits)
  show ?case using Cons.IH [OF q(2) ni(1)] step sh by (auto simp: tg recast_def)
qed simp

text \<open>A change of type in progress: its trigger is on every table, and the rows behind the cursors, or all of them,
  have been brought across.\<close>

definition dual_written :: "postgres \<Rightarrow> bool \<Rightarrow> i32 \<Rightarrow> i32 \<Rightarrow> string \<Rightarrow> string \<Rightarrow> string \<Rightarrow> evo \<Rightarrow> bool" where
  "dual_written pg whole i tid col shadow ty w \<longleftrightarrow> catalog_ok (sch w) \<and> changes_ok w \<and> shadow \<noteq> col \<and>
     (\<exists>c. load w i = Inr c \<and> ch_kind c = ''alter_property_type'' \<and> type_of c (sch w) = Inr tid \<and>
        report_text c ''column'' = Some col \<and> report_text c ''shadow'' = Some shadow \<and> report_text c ''to_sql'' = Some ty \<and>
        (\<forall>(sub, t) \<in> set (concrete (sch w) tid).
           (\<exists>d. table_at (sch w) t = Some d \<and> (col, shadow, ty) \<in> set (dual_writes (sch w) d) \<and>
                no_interference col shadow ty (dual_writes (sch w) d)) \<and>
           (\<forall>r \<in> set (rows_of w t). followed pg whole col shadow ty (cursor_at (cursors_of c) t) r)))"

lemma dual_writtenE:
  assumes "dual_written pg b i tid col shadow ty w"
  obtains c where "catalog_ok (sch w)" "changes_ok w" "shadow \<noteq> col" "load w i = Inr c" "ch_kind c = ''alter_property_type''"
    "type_of c (sch w) = Inr tid" "report_text c ''column'' = Some col" "report_text c ''shadow'' = Some shadow" "report_text c ''to_sql'' = Some ty"
    "\<And>sub u. (sub, u) \<in> set (concrete (sch w) tid) \<Longrightarrow> \<exists>d. table_at (sch w) u = Some d \<and> (col, shadow, ty) \<in> set (dual_writes (sch w) d) \<and>
                no_interference col shadow ty (dual_writes (sch w) d)"
    "\<And>sub u r. (sub, u) \<in> set (concrete (sch w) tid) \<Longrightarrow> r \<in> set (rows_of w u) \<Longrightarrow> followed pg b col shadow ty (cursor_at (cursors_of c) u) r"
  using assms unfolding dual_written_def by blast

lemma dual_writtenI:
  assumes "catalog_ok (sch w)" "changes_ok w" "shadow \<noteq> col" "load w i = Inr c" "ch_kind c = ''alter_property_type''"
    "type_of c (sch w) = Inr tid" "report_text c ''column'' = Some col" "report_text c ''shadow'' = Some shadow" "report_text c ''to_sql'' = Some ty"
    "\<And>sub u. (sub, u) \<in> set (concrete (sch w) tid) \<Longrightarrow> \<exists>d. table_at (sch w) u = Some d \<and> (col, shadow, ty) \<in> set (dual_writes (sch w) d) \<and>
                no_interference col shadow ty (dual_writes (sch w) d)"
    "\<And>sub u r. (sub, u) \<in> set (concrete (sch w) tid) \<Longrightarrow> r \<in> set (rows_of w u) \<Longrightarrow> followed pg b col shadow ty (cursor_at (cursors_of c) u) r"
  shows "dual_written pg b i tid col shadow ty w"
  using assms unfolding dual_written_def by (intro conjI exI [of _ c]) auto

inductive live_step :: "postgres \<Rightarrow> i32 \<Rightarrow> evo \<Rightarrow> evo \<Rightarrow> bool" for pg i where
  write_insert: "app_insert pg t r w = Inr w' \<Longrightarrow> live_step pg i w w'"
| write_update: "app_update pg t k sets w = Inr w' \<Longrightarrow> live_step pg i w w'"
| write_delete: "app_delete t k w = Inr w' \<Longrightarrow> live_step pg i w w'"
| batch: "og_schema_migrate pg i n w = Inr (r, w') \<Longrightarrow> live_step pg i w w'"
| check: "og_schema_validate pg i w = Inr (r, w') \<Longrightarrow> live_step pg i w w'"

text \<open>A write only touches the rows of its table, and leaves them followed.\<close>

lemma fold_set_cells: "c \<notin> fst ` set sets \<Longrightarrow> dr_cells (fold (\<lambda>(c, v). set_cell c v) sets r) c = dr_cells r c"
    "dr_id (fold (\<lambda>(c, v). set_cell c v) sets r) = dr_id r"
  by (induction sets arbitrary: r) auto

lemma write_rows:
  assumes "app_insert pg t r w = Inr w' \<or> app_update pg t k sets w = Inr w' \<or> app_delete t k w = Inr w'"
  shows "sch w' = sch w" "next_change w' = next_change w" "u \<noteq> t \<Longrightarrow> rows_of w' u = rows_of w u"
  using assms by (auto simp: app_insert_def app_update_def app_delete_def rbind_eq_Inr_iff split: option.splits if_splits)

lemma insert_follows:
  assumes "app_insert pg t r w = Inr w'" "table_at (sch w) t = Some d" "(col, shadow, ty) \<in> set (dual_writes (sch w) d)"
    "no_interference col shadow ty (dual_writes (sch w) d)" "shadow \<noteq> col" "\<forall>r \<in> set (rows_of w t). followed pg b col shadow ty k r"
  shows "\<forall>r \<in> set (rows_of w' t). followed pg b col shadow ty k r"
proof -
  from assms(1,2) obtain q where q: "fire pg (dual_writes (sch w) d) None r = Inr q" "w' = set_rows t (rows_of w t @ [q]) w"
    by (auto simp: app_insert_def rbind_eq_Inr_iff split: if_splits)
  have "dr_cells q shadow = recast pg ty col q" using fire_follows [OF q(1) assms(4,5)] assms(3) by (simp add: recast_def)
  then show ?thesis using assms(6) by (auto simp: q(2) followed_def)
qed

lemma update_follows:
  assumes "app_update pg t i sets w = Inr w'" "table_at (sch w) t = Some d" "(col, shadow, ty) \<in> set (dual_writes (sch w) d)"
    "no_interference col shadow ty (dual_writes (sch w) d)" "shadow \<noteq> col" "\<forall>r \<in> set (rows_of w t). followed pg b col shadow ty k r"
  shows "\<forall>r \<in> set (rows_of w' t). followed pg b col shadow ty k r"
proof (cases "find (\<lambda>r. dr_id r = i) (rows_of w t)")
  case None
  with assms(1,2,6) show ?thesis by (auto simp: app_update_def split: if_splits)
next
  case (Some old)
  then have old: "old \<in> set (rows_of w t)" "dr_id old = i" by (auto simp: find_Some_iff)
  define new where "new = fold (\<lambda>(c, v). set_cell c v) sets old"
  from assms(1,2) Some obtain q where q: "fire pg (dual_writes (sch w) d) (Some old) new = Inr q"
    "w' = set_rows t (map (\<lambda>r. if dr_id r = i then q else r) (rows_of w t)) w" and ns: "shadow \<notin> fst ` set sets"
    using assms(3) by (auto simp: app_update_def rbind_eq_Inr_iff new_def list_ex_iff split: if_splits)
  have new: "dr_id new = i" "dr_cells new shadow = dr_cells old shadow" using fold_set_cells(1) [of shadow sets old] fold_set_cells(2) [of sets old] ns old(2) by (simp_all add: new_def)
  note f = fire_follows [OF q(1) assms(4,5)]
  have "followed pg b col shadow ty k q"
  proof (cases "dr_cells old col = dr_cells new col")
    case True
    with f new assms(6) old show ?thesis by (auto simp: followed_def recast_def)
  next
    case False
    with f assms(3) show ?thesis by (simp add: followed_def recast_def)
  qed
  then show ?thesis using assms(6) by (auto simp: q(2))
qed

lemma dual_written_write:
  assumes "dual_written pg b i tid col shadow ty w" "app_insert pg t r w = Inr w' \<or> app_update pg t k sets w = Inr w' \<or> app_delete t k w = Inr w'"
  shows "dual_written pg b i tid col shadow ty w'"
proof -
  note ws = write_rows [OF assms(2)]
  have ld: "load w' j = load w j" for j by (simp add: load_def ws(1))
  have ok: "changes_ok w' = changes_ok w" by (simp add: changes_ok_def phases_def ws(1,2))
  have rows: "\<forall>r \<in> set (rows_of w' u). followed pg b col shadow ty x r"
    if "table_at (sch w) u = Some d" "(col, shadow, ty) \<in> set (dual_writes (sch w) d)" "no_interference col shadow ty (dual_writes (sch w) d)"
      "\<forall>r \<in> set (rows_of w u). followed pg b col shadow ty x r" for u d x
  proof (cases "u = t")
    case True
    have ne: "shadow \<noteq> col" using assms(1) by (simp add: dual_written_def)
    note at = that [unfolded True]
    from assms(2) show ?thesis
      unfolding True
    proof (elim disjE)
      assume "app_insert pg t r w = Inr w'"
      then show "\<forall>r \<in> set (rows_of w' t). followed pg b col shadow ty x r" by (rule insert_follows [OF _ at(1-3) ne at(4)])
    next
      assume "app_update pg t k sets w = Inr w'"
      then show "\<forall>r \<in> set (rows_of w' t). followed pg b col shadow ty x r" by (rule update_follows [OF _ at(1-3) ne at(4)])
    next
      assume "app_delete t k w = Inr w'"
      with at(4) show "\<forall>r \<in> set (rows_of w' t). followed pg b col shadow ty x r" by (auto simp: app_delete_def)
    qed
  qed (use that ws(3) in simp)
  from assms(1) obtain c where base: "catalog_ok (sch w)" "changes_ok w" "shadow \<noteq> col"
    and c: "load w i = Inr c" "ch_kind c = ''alter_property_type''" "type_of c (sch w) = Inr tid"
      "report_text c ''column'' = Some col" "report_text c ''shadow'' = Some shadow" "report_text c ''to_sql'' = Some ty"
    and tabs: "\<And>sub u. (sub, u) \<in> set (concrete (sch w) tid) \<Longrightarrow> \<exists>d. table_at (sch w) u = Some d \<and>
      (col, shadow, ty) \<in> set (dual_writes (sch w) d) \<and> no_interference col shadow ty (dual_writes (sch w) d)"
    and foll: "\<And>sub u r. (sub, u) \<in> set (concrete (sch w) tid) \<Longrightarrow> r \<in> set (rows_of w u) \<Longrightarrow>
      followed pg b col shadow ty (cursor_at (cursors_of c) u) r" by (rule dual_writtenE) blast
  have "followed pg b col shadow ty (cursor_at (cursors_of c) u) r"
    if "(sub, u) \<in> set (concrete (sch w) tid)" "r \<in> set (rows_of w' u)" for sub u r
    using tabs [OF that(1)] rows [of u _ "cursor_at (cursors_of c) u"] foll [OF that(1)] that(2) by blast
  then show ?thesis using base c tabs by (intro dual_writtenI) (simp_all add: ld ok ws(1))
qed

text \<open>A batch keeps the dual writes, and one that moves nothing has brought every row across.\<close>

lemma save_catalog_ok: "catalog_ok (sch v) \<Longrightarrow> catalog_ok (sch (save e p v))"
  by (rule quiet_catalog_ok(2), rule quiet_same_tables) (simp_all add: save_def same_catalog_def prop_keys_def)

lemma loaded_unique:
  assumes "load w i = Inr c" "changes_ok w" "r \<in> set (schema_changes (sch w))" "ch_id r = i"
  shows "r = c"
proof -
  have c: "c \<in> set (schema_changes (sch w))" "ch_id c = i" using assms(1) by (auto simp: load_def find_Some_iff split: option.splits)
  have "inj_on ch_id (set (schema_changes (sch w)))"
    using assms(2) by (simp add: changes_ok_def phases_def distinct_map o_def)
  then show ?thesis using c assms(3,4) by (auto dest: inj_onD)
qed

definition watch_list :: "schema \<Rightarrow> (i32 \<times> string option \<times> string option \<times> string option) list" where
  "watch_list s = map (\<lambda>c. (ch_id c, report_text c ''column'', report_text c ''shadow'', report_text c ''to_sql'')) (schema_changes s)"

lemma dual_writes_watch:
  "dual_writes s d = List.map_filter (\<lambda>(i, c, sh, ty). if shadow_trigger i \<in> set (td_triggers d)
     then (case (c, sh, ty) of (Some c, Some sh, Some ty) \<Rightarrow> Some (c, sh, ty) | _ \<Rightarrow> None) else None) (watch_list s)"
  by (simp add: dual_writes_def watch_list_def List.map_filter_def filter_map o_def)

lemma watch_save:
  assumes "load w i = Inr c" "changes_ok w" "schema_changes (sch v) = schema_changes (sch w)" "ch_id e = i"
    and "\<forall>k \<in> {''column'', ''shadow'', ''to_sql''}. report_text e k = report_text c k"
  shows "watch_list (sch (save e p v)) = watch_list (sch w)"
proof -
  have "report_text (r\<lparr>ch_phase := p, ch_report := ch_report e, ch_to := x\<rparr>) k = report_text r k"
    if r: "r \<in> set (schema_changes (sch w))" "ch_id r = i" and k: "k \<in> {''column'', ''shadow'', ''to_sql''}" for r k x
    using assms(5) k loaded_unique [OF assms(1,2) r] by (auto simp: report_text_def)
  then show ?thesis by (simp add: watch_list_def save_records assms(3,4))
qed

lemma dual_written_load:
  assumes "dual_written pg b i tid col shadow ty w" "load w i = Inr c"
  shows "catalog_ok (sch w)" "changes_ok w" "shadow \<noteq> col" "ch_kind c = ''alter_property_type''" "type_of c (sch w) = Inr tid" "ch_id c = i"
    "report_text c ''column'' = Some col" "report_text c ''shadow'' = Some shadow" "report_text c ''to_sql'' = Some ty"
    "(sub, u) \<in> set (concrete (sch w) tid) \<Longrightarrow> \<exists>d. table_at (sch w) u = Some d \<and> (col, shadow, ty) \<in> set (dual_writes (sch w) d) \<and>
        no_interference col shadow ty (dual_writes (sch w) d)"
    "(sub, u) \<in> set (concrete (sch w) tid) \<Longrightarrow> r \<in> set (rows_of w u) \<Longrightarrow> followed pg b col shadow ty (cursor_at (cursors_of c) u) r"
proof -
  from assms(1) obtain c' where l: "load w i = Inr c'" by (rule dual_writtenE)
  then have "c' = c" using assms(2) by simp
  note a = assms(1) [unfolded dual_written_def assms(2)]
  show "ch_id c = i" using a assms(2) load_phase by blast
  show "catalog_ok (sch w)" "changes_ok w" "shadow \<noteq> col" "ch_kind c = ''alter_property_type''" "type_of c (sch w) = Inr tid"
    "report_text c ''column'' = Some col" "report_text c ''shadow'' = Some shadow" "report_text c ''to_sql'' = Some ty"
    "(sub, u) \<in> set (concrete (sch w) tid) \<Longrightarrow> \<exists>d. table_at (sch w) u = Some d \<and> (col, shadow, ty) \<in> set (dual_writes (sch w) d) \<and>
        no_interference col shadow ty (dual_writes (sch w) d)"
    "(sub, u) \<in> set (concrete (sch w) tid) \<Longrightarrow> r \<in> set (rows_of w u) \<Longrightarrow> followed pg b col shadow ty (cursor_at (cursors_of c) u) r"
    using a by auto
qed

lemma dual_written_save:
  assumes d: "dual_written pg b i tid col shadow ty w" "load w i = Inr c" and v: "sch v = sch w" and e: "ch_id e = i"
    "\<forall>k \<in> {''column'', ''shadow'', ''to_sql''}. report_text e k = report_text c k" and ok: "changes_ok (save e p v)"
    and f: "\<And>sub u r. (sub, u) \<in> set (concrete (sch w) tid) \<Longrightarrow> r \<in> set (rows_of v u) \<Longrightarrow> followed pg b' col shadow ty (cursor_at (cursors_of e) u) r"
  shows "dual_written pg b' i tid col shadow ty (save e p v)"
proof -
  note c = dual_written_load [OF d]
  define c' where "c' = c\<lparr>ch_phase := p, ch_report := ch_report e,
    ch_to := (if p \<in> {''contracted'', ''aborted''} then Some (length (versions (sch v))) else ch_to c)\<rparr>"
  have l': "load (save e p v) i = Inr c'"
    unfolding c'_def by (rule load_save [OF d(2)]) (simp_all add: e(1) c(6) v)
  note sb = same_but_records_simps [OF save_same(1) [of v e p], unfolded v]
  have "watch_list (sch (save e p v)) = watch_list (sch w)" using e v by (intro watch_save [OF d(2) c(2)]) simp_all
  then have dw: "dual_writes (sch (save e p v)) x = dual_writes (sch w) x" for x by (simp add: dual_writes_watch)
  have c'_texts: "report_text c' k = report_text e k" and cur: "cursors_of c' = cursors_of e" for k
    by (simp_all add: c'_def report_text_def cursors_of_def)
  have ty: "type_of c' = type_of c" by (simp add: type_of_def type_named_def c'_def fun_eq_iff)
  show ?thesis
  proof (rule dual_writtenI [OF _ ok c(3) l'])
    show "catalog_ok (sch (save e p v))" by (rule save_catalog_ok) (simp add: v c(1))
    fix sub u
    assume u: "(sub, u) \<in> set (concrete (sch (save e p v)) tid)"
    then show "\<exists>d. table_at (sch (save e p v)) u = Some d \<and> (col, shadow, ty) \<in> set (dual_writes (sch (save e p v)) d) \<and>
        no_interference col shadow ty (dual_writes (sch (save e p v)) d)" using c(10) by (simp add: sb dw)
    fix x assume "x \<in> set (rows_of (save e p v) u)"
    with u f show "followed pg b' col shadow ty (cursor_at (cursors_of c') u) x" by (simp add: sb cur save_same)
  qed (use e(2) c in \<open>simp_all add: ty sb c'_texts\<close>, simp add: c'_def c)
qed

lemma dual_written_batch:
  assumes "dual_written pg b i tid col shadow ty w" "og_schema_migrate pg i n w = Inr (r, w')"
  shows "dual_written pg (b \<or> json_get r ''done'' = Some (JBool True)) i tid col shadow ty w'"
proof -
  from migrate_calls [OF assms(2)] obtain c k d v e where l: "load w i = Inr c"
    and m2: "migrate pg (nat (max 1 (sint n))) c w = Inr (k, d, v)" and r: "json_get r ''done'' = Some (JBool (k = 0))"
    and w': "w' = save e ''migrating'' v" and e: "ch_id e = ch_id d" "cursors_of e = cursors_of d"
      "\<forall>k \<in> {''column'', ''shadow'', ''to_sql'', ''data_type''}. report_text e k = report_text d k"
    by metis
  note c = dual_written_load [OF assms(1) l]
  have m: "migrate_retype pg (nat (max 1 (sint n))) c w = Inr (k, d, v)" using m2 c(4) by (simp add: migrate_def)
  let ?ts = "map snd (concrete (sch w) tid)"
  from m obtain cs where rt: "retype_tables pg col shadow ty (nat (max 1 (sint n))) ?ts (cursors_of c) w = Inr (k, cs, v)"
    and d: "d = report_set ''cursor'' (JObj cs) c"
    by (auto simp: migrate_retype_def rbind_eq_Inr_iff reported_Inr cursors_of_def c)
  have v: "sch v = sch w" using retype_tables_settles [OF rt c(3)] by (simp add: settles_def)
  have cur: "cursors_of e = cs" using e(2) by (simp add: cursors_of_def d report_set_get)
  have apart: "\<forall>t \<in> set ?ts. hist (sch w) t \<noteq> Some u" if "u \<in> set ?ts" for u using target_tables_typed [OF c(1) _ that] by blast
  show ?thesis
    unfolding w'
  proof (rule dual_written_save [OF assms(1) l v])
    show "ch_id e = i" using e(1) c(6) by (simp add: d)
    show "\<forall>k \<in> {''column'', ''shadow'', ''to_sql''}. report_text e k = report_text c k" using e(3) by (simp add: d report_set_text)
    show "changes_ok (save e ''migrating'' v)" using migrate_moves [OF assms(2) c(2)] by (simp add: one_move_def w')
    fix sub u r'
    assume u: "(sub, u) \<in> set (concrete (sch w) tid)" "r' \<in> set (rows_of v u)"
    then have ut: "u \<in> set ?ts" by force
    have f: "\<forall>r \<in> set (rows_of w u). followed pg b col shadow ty (cursor_at (cursors_of c) u) r" using c(11) [OF u(1)] by blast
    have 1: "\<forall>r \<in> set (rows_of v u). followed pg b col shadow ty (cursor_at cs u) r"
      by (rule retype_followed [OF rt c(3) apart [OF ut] f])
    have f0: "\<forall>r \<in> set (rows_of w u). followed pg False col shadow ty (cursor_at (cursors_of c) u) r"
      using f by (auto simp: followed_def)
    have 2: "\<forall>r \<in> set (rows_of v u). dr_cells r shadow = recast pg ty col r" if "k = 0"
      by (rule retype_done [OF rt [unfolded that] c(3) _ ut apart [OF ut] f0]) simp
    show "followed pg (b \<or> json_get r ''done'' = Some (JBool True)) col shadow ty (cursor_at (cursors_of e) u) r'"
      using 1 2 u(2) by (cases "k = 0") (auto simp: r cur followed_def)
  qed
qed

lemma validate_calls:
  assumes "og_schema_validate pg i w = Inr (r, w')" "load w i = Inr c" "ch_kind c = ''alter_property_type''"
  obtains n samples where "validate_retype c w = Inr (n, samples)"
    "w' = save (report_set ''violation_samples'' (JArr samples) (report_set ''violations'' (json_nat n) c)) (if n = 0 then ''validated'' else ch_phase c) w"
  using assms by (auto simp: og_schema_validate_def rbind_eq_Inr_iff validate_def finish_validation_def Let_def split: if_splits)

lemma dual_written_check:
  assumes "dual_written pg b i tid col shadow ty w" "og_schema_validate pg i w = Inr (r, w')"
  shows "dual_written pg b i tid col shadow ty w'"
proof -
  from assms(1) obtain c where l: "load w i = Inr c" by (rule dual_writtenE)
  note c = dual_written_load [OF assms(1) l]
  from validate_calls [OF assms(2) l c(4)] obtain n samples where
    w': "w' = save (report_set ''violation_samples'' (JArr samples) (report_set ''violations'' (json_nat n) c)) (if n = 0 then ''validated'' else ch_phase c) w" .
  show ?thesis
    unfolding w'
  proof (rule dual_written_save [OF assms(1) l refl])
    show "changes_ok (save (report_set ''violation_samples'' (JArr samples) (report_set ''violations'' (json_nat n) c)) (if n = 0 then ''validated'' else ch_phase c) w)"
      using validate_moves [OF assms(2) c(2)] by (simp add: one_move_def w')
  qed (use c(6,11) in \<open>simp_all add: report_set_text cursors_of_def report_set_get\<close>)
qed

lemma dual_written_weaken: "dual_written pg (b \<or> x) i tid col shadow ty w \<Longrightarrow> dual_written pg b i tid col shadow ty w"
proof (erule dual_writtenE, rule dual_writtenI)
  fix c sub u d
  assume "(sub, u) \<in> set (concrete (sch w) tid)"
    "\<And>sub u. (sub, u) \<in> set (concrete (sch w) tid) \<Longrightarrow> \<exists>d. table_at (sch w) u = Some d \<and> (col, shadow, ty) \<in> set (dual_writes (sch w) d) \<and>
                no_interference col shadow ty (dual_writes (sch w) d)"
  then show "\<exists>d. table_at (sch w) u = Some d \<and> (col, shadow, ty) \<in> set (dual_writes (sch w) d) \<and> no_interference col shadow ty (dual_writes (sch w) d)"
    by blast
qed (auto simp: followed_def)

lemma dual_written_steps:
  "(live_step pg i)\<^sup>*\<^sup>* w w' \<Longrightarrow> dual_written pg b i tid col shadow ty w \<Longrightarrow> dual_written pg b i tid col shadow ty w'"
proof (induction rule: rtranclp_induct)
  case (step u v)
  from step.hyps(2) show ?case
  proof cases
    case (batch n r)
    from dual_written_batch [OF step.IH [OF step.prems] batch] show ?thesis
      by (rule dual_written_weaken)
  next
    case (check r)
    from dual_written_check [OF step.IH [OF step.prems] check] show ?thesis .
  qed (use step dual_written_write in blast)+
qed

section \<open>Expanding\<close>

lemma table_at_on_schema:
  assumes "on_schema (alter_table t f) w = Inr w'"
  shows "table_at (sch w') u = (if u = t then map_option f (table_at (sch w) u) else table_at (sch w) u)" "rows_of w' = rows_of w"
  using assms table_at_alter by (auto simp: on_schema_Inr)

lemma storage_prefix:
  assumes "catalog_ok s" "storage_table (cat s) sub = Some u"
  shows "history_table t \<noteq> Some u"
proof -
  obtain r where "r \<in> set (types s)" "tr_storage r = Some u" using storage_type [OF assms(2)] by blast
  then have "stored_as r = Some u" using assms(1) by (auto simp: catalog_ok_def catalog_core_def row_ok_def)
  then show ?thesis
    by (auto simp: stored_as_def node_table_def edge_table_def history_table_def starts_with_def split: if_splits)
qed

lemma concrete_storage: "(sub, t) \<in> set (concrete s tid) \<Longrightarrow> storage_table (cat s) sub = Some t"
  by (auto simp: concrete_def List.map_filter_def)

lemma sync_history_at:
  assumes "sync_history sub s = Inr s'" "\<And>t. history_table t \<noteq> Some u"
  shows "table_at s' u = table_at s u"
  using assms by (auto simp: sync_history_def table_at_alter split: option.splits)

definition shadowed :: "change_row \<Rightarrow> string \<Rightarrow> string \<Rightarrow> table_def \<Rightarrow> table_def" where
  "shadowed c shadow ty d = with_trigger (shadow_trigger (ch_id c)) (with_column shadow ty d)"

lemma shadowed_twice: "shadowed c shadow ty (shadowed c shadow ty d) = shadowed c shadow ty d"
  by (simp add: shadowed_def with_trigger_def with_column_def has_column_def)

lemma attach_at:
  assumes "attach_shadow c col shadow ty (sub, t) w = Inr w'" "\<And>t. history_table t \<noteq> Some u"
  shows "table_at (sch w') u = (if u = t then map_option (shadowed c shadow ty) (table_at (sch w) u) else table_at (sch w) u)"
    and "rows_of w' = rows_of w" "quiet (sch w) (sch w')"
proof -
  from assms(1) obtain v x s where v: "on_schema (alter_table t (with_column shadow ty)) w = Inr v"
    and x: "on_schema (alter_table t (with_trigger (shadow_trigger (ch_id c)))) v = Inr x"
    and s: "sync_history sub (sch x) = Inr s" "w' = x\<lparr>sch := s\<rparr>"
    by (auto simp: attach_shadow_def rbind_eq_Inr_iff add_trigger_def on_schema_Inr [of "sync_history sub"] split: option.splits if_splits)
  show "rows_of w' = rows_of w" using table_at_on_schema(2) [OF v] table_at_on_schema(2) [OF x] by (simp add: s)
  show "table_at (sch w') u = (if u = t then map_option (shadowed c shadow ty) (table_at (sch w) u) else table_at (sch w) u)"
    using sync_history_at [OF s(1) assms(2)] table_at_on_schema(1) [OF v, of u] table_at_on_schema(1) [OF x, of u]
    by (cases "u = t"; cases "table_at (sch w) u") (auto simp: s(2) shadowed_def)
  have "alter_table t (with_column shadow ty) (sch w) = Inr (sch v)" using v by (auto simp: on_schema_Inr)
  then have "quiet (sch w) (sch v)" by (rule quiet_alter) auto
  also have "alter_table t (with_trigger (shadow_trigger (ch_id c))) (sch v) = Inr (sch x)" using x by (auto simp: on_schema_Inr)
  then have "quiet (sch v) (sch x)" by (rule quiet_alter) simp
  also have "quiet (sch x) (sch w')" using quiet_sync_history [OF s(1)] by (simp add: s(2))
  finally show "quiet (sch w) (sch w')" .
qed

lemma attach_all:
  assumes "rfold (attach_shadow c col shadow ty) ts w = Inr w'" "\<And>t. history_table t \<noteq> Some u"
  shows "table_at (sch w') u = (if u \<in> snd ` set ts then map_option (shadowed c shadow ty) (table_at (sch w) u) else table_at (sch w) u) \<and>
     rows_of w' = rows_of w \<and> quiet (sch w) (sch w')"
  using assms(1)
proof (induction ts arbitrary: w)
  case (Cons st ts)
  obtain sub t where st: "st = (sub, t)" by fastforce
  from Cons.prems obtain v where v: "attach_shadow c col shadow ty (sub, t) w = Inr v" "rfold (attach_shadow c col shadow ty) ts v = Inr w'"
    by (auto simp: rbind_eq_Inr_iff st)
  note a = attach_at [OF v(1) assms(2)]
  have "quiet (sch w) (sch w')" using a(3) Cons.IH [OF v(2)] by (blast intro: quiet_trans)
  then show ?case using a(1,2) Cons.IH [OF v(2)] by (auto simp: st option.map_comp o_def shadowed_twice)
qed simp

lemma shadow_trigger_inj: "shadow_trigger i = shadow_trigger j \<longleftrightarrow> i = j"
  by (auto simp: shadow_trigger_def show_int_inj intro: signed_word_eqI)

lemma dual_writes_shadowed:
  "set (dual_writes s (shadowed c shadow ty d)) =
     set (dual_writes s d) \<union> {(a, b, y). \<exists>r \<in> set (schema_changes s). ch_id r = ch_id c \<and>
       report_text r ''column'' = Some a \<and> report_text r ''shadow'' = Some b \<and> report_text r ''to_sql'' = Some y}"
proof -
  have tg: "set (td_triggers (shadowed c shadow ty d)) = insert (shadow_trigger (ch_id c)) (set (td_triggers d))"
    by (simp add: shadowed_def with_trigger_def with_column_def)
  define entry where "entry = (\<lambda>r. case (report_text r ''column'', report_text r ''shadow'', report_text r ''to_sql'') of
    (Some a, Some b, Some y) \<Rightarrow> Some (a, b, y) | _ \<Rightarrow> None)"
  have writes: "set (dual_writes s d) = {e. \<exists>r \<in> set (schema_changes s). shadow_trigger (ch_id r) \<in> set (td_triggers d) \<and> entry r = Some e}" for d
    by (force simp: dual_writes_def entry_def List.map_filter_def)
  have "{(a, b, y). \<exists>r \<in> set (schema_changes s). ch_id r = ch_id c \<and>
       report_text r ''column'' = Some a \<and> report_text r ''shadow'' = Some b \<and> report_text r ''to_sql'' = Some y}
    = {e. \<exists>r \<in> set (schema_changes s). ch_id r = ch_id c \<and> entry r = Some e}"
    by (auto simp: entry_def split: option.splits)
  then show ?thesis by (auto simp: writes tg shadow_trigger_inj)
qed

lemma load_find: "load w i = Inr c \<longleftrightarrow> find (\<lambda>c. ch_id c = i \<and> ch_graph c \<in> fst ` set (graphs (sch w))) (schema_changes (sch w)) = Some c"
  by (auto simp: load_def split: option.splits)

lemma load_mem: "load w i = Inr c \<Longrightarrow> c \<in> set (schema_changes (sch w))"
  by (auto simp: load_find find_Some_iff)

lemma load_save_spec: "load w i = Inr c \<Longrightarrow> ch_id d = ch_id c \<Longrightarrow> load (save_spec d spec w) i = Inr (c\<lparr>ch_spec := spec\<rparr>)"
proof -
  assume a: "load w i = Inr c" and d: "ch_id d = ch_id c"
  let ?P = "\<lambda>c. ch_id c = i \<and> ch_graph c \<in> fst ` set (graphs (sch w))"
  let ?g = "\<lambda>r. if ch_id r = ch_id d then r\<lparr>ch_spec := spec\<rparr> else r"
  have "find ?P (map ?g (schema_changes (sch w))) = map_option ?g (find ?P (schema_changes (sch w)))" by (rule find_map_same) simp
  also have "\<dots> = Some (c\<lparr>ch_spec := spec\<rparr>)" using a d by (simp add: load_find)
  finally have f: "find ?P (map ?g (schema_changes (sch w))) = Some (c\<lparr>ch_spec := spec\<rparr>)" .
  have "schema_changes (sch (save_spec d spec w)) = map ?g (schema_changes (sch w))" "graphs (sch (save_spec d spec w)) = graphs (sch w)"
    by (simp_all add: save_spec_def)
  then show ?thesis by (simp only: load_find f)
qed

lemma load_same: "same_records (sch w) (sch v) \<Longrightarrow> load v = load w"
  by (simp add: load_def same_records_def fun_eq_iff)

lemma load_noted: "load (noted c x w) = load w"
  by (rule load_same) (simp add: noted_def update_schema_def same_records_def bump_schema_version_def)

lemma type_of_Inr: "type_of c s = Inr tid \<longleftrightarrow>
    (\<exists>n. spec_text (ch_spec c) ''type'' = Inr n \<and> try_type_id s (ch_graph c) n = Some tid)"
  by (auto simp: type_of_def type_named_def rbind_eq_Inr_iff type_id_def split: option.splits)

lemma try_type_id_same: "types s' = types s \<Longrightarrow> try_type_id s' = try_type_id s"
  by (simp add: try_type_id_def fun_eq_iff)

lemma concrete_same: "types s' = types s \<Longrightarrow> type_labels s' = type_labels s \<Longrightarrow> concrete s' = concrete s"
  using storage_same [of s' s] by (intro ext) (simp only: concrete_def)

lemma quiet_types: "quiet s s' \<Longrightarrow> types s' = types s \<and> type_labels s' = type_labels s"
  by (simp add: quiet_def same_catalog_def)

lemma spec_set_type: "spec_text spec ''type'' = Inr n \<Longrightarrow> ''type'' \<notin> fst ` set kvs \<Longrightarrow> spec_text (spec_set kvs spec) ''type'' = Inr n"
proof -
  assume n: "spec_text spec ''type'' = Inr n" and k: "''type'' \<notin> fst ` set kvs"
  have *: "map_of (foldl (\<lambda>m (k, v). btree_insert k v m) m kvs) ''type'' = map_of m ''type''" for m :: "(string \<times> json) list"
    using k by (induction kvs arbitrary: m) (auto simp: btree_insert_get)
  from n obtain m where "spec = JObj m" by (cases spec) (auto simp: spec_text_def)
  with n show ?thesis by (simp add: spec_text_def spec_set_def *)
qed

text \<open>A planned change whose shadow is a new column, and which no other change in progress interferes with.\<close>

definition rows_fit :: "table_def \<Rightarrow> data_row list \<Rightarrow> bool" where
  "rows_fit d rs \<longleftrightarrow> (\<forall>r \<in> set rs. - (2 ^ 63) < sint (dr_id r) \<and> (\<forall>c. dr_cells r c \<noteq> None \<longrightarrow> has_column d c))"

definition ready_table :: "string \<Rightarrow> string \<Rightarrow> evo \<Rightarrow> string \<Rightarrow> bool" where
  "ready_table col shadow w t \<longleftrightarrow> (\<exists>d. table_at (sch w) t = Some d \<and> \<not> has_column d shadow \<and> rows_fit d (rows_of w t) \<and>
     (\<forall>(k, s, y) \<in> set (dual_writes (sch w) d). s \<noteq> col \<and> s \<noteq> shadow))"

definition retype_ready :: "i32 \<Rightarrow> i32 \<Rightarrow> string \<Rightarrow> string \<Rightarrow> string \<Rightarrow> evo \<Rightarrow> bool" where
  "retype_ready i tid col shadow ty w \<longleftrightarrow> catalog_ok (sch w) \<and> changes_ok w \<and> shadow \<noteq> col \<and>
     (\<exists>c. load w i = Inr c \<and> ch_kind c = ''alter_property_type'' \<and> type_of c (sch w) = Inr tid \<and> cursors_of c = [] \<and>
        report_text c ''column'' = Some col \<and> report_text c ''shadow'' = Some shadow \<and> report_text c ''to_sql'' = Some ty) \<and>
     (\<forall>t \<in> snd ` set (concrete (sch w) tid). ready_table col shadow w t)"

lemma retype_readyE:
  assumes "retype_ready i tid col shadow ty w"
  obtains c where "catalog_ok (sch w)" "changes_ok w" "shadow \<noteq> col" "load w i = Inr c" "ch_kind c = ''alter_property_type''"
    "type_of c (sch w) = Inr tid" "cursors_of c = []" "report_text c ''column'' = Some col" "report_text c ''shadow'' = Some shadow" "report_text c ''to_sql'' = Some ty"
    "\<And>t. t \<in> snd ` set (concrete (sch w) tid) \<Longrightarrow> ready_table col shadow w t"
  using assms unfolding retype_ready_def by blast

lemma expand_dual_written:
  assumes "retype_ready i tid col shadow ty w" "og_schema_expand pg i w = Inr (r, w')"
  shows "dual_written pg False i tid col shadow ty w'" "concrete (sch w') tid = concrete (sch w) tid"
    "tb \<in> snd ` set (concrete (sch w) tid) \<Longrightarrow> \<exists>c. ch_id c = i \<and> table_at (sch w') tb = map_option (shadowed c shadow ty) (table_at (sch w) tb)"
    "phase_of w' i = Some ''expanded''"
proof -
  obtain c where base: "catalog_ok (sch w)" "changes_ok w" "shadow \<noteq> col" and c: "load w i = Inr c" "ch_kind c = ''alter_property_type''"
    "type_of c (sch w) = Inr tid" "cursors_of c = []" "report_text c ''column'' = Some col" "report_text c ''shadow'' = Some shadow" "report_text c ''to_sql'' = Some ty"
    and tabs: "\<And>t. t \<in> snd ` set (concrete (sch w) tid) \<Longrightarrow> ready_table col shadow w t"
    by (rule retype_readyE [OF assms(1)]) blast
  have ci: "ch_id c = i" by (rule load_phase [OF c(1) base(2)])
  from assms(2) obtain u where u: "expand_alter_property_type c w = Inr u" "w' = noted c ('' expand ('' @ ch_kind c @ '')'') (save c ''expanded'' u)"
    by (auto simp: og_schema_expand_def expand_def c(1,2) rbind_eq_Inr_iff)
  define kvs where "kvs = [(''type_id'', json_i32 tid), (''column'', JStr col), (''shadow'', JStr shadow), (''to_sql'', JStr ty)]"
  from u(1) obtain v where v: "rfold (attach_shadow c col shadow ty) (concrete (sch w) tid) w = Inr v" and uv: "u = save_spec c (spec_set kvs (ch_spec c)) v"
    by (auto simp: expand_alter_property_type_def rbind_eq_Inr_iff reported_Inr c Let_def kvs_def)
  have kvs: "''type'' \<notin> fst ` set kvs" by (simp add: kvs_def)
  note w' = u(2) [unfolded uv]
  let ?spec = "spec_set kvs (ch_spec c)" and ?ts = "concrete (sch w) tid"
  have apart: "history_table t \<noteq> Some u" if "u \<in> snd ` set ?ts" for t u
    using that concrete_storage storage_prefix [OF base(1)] by fastforce
  have same: "same_records (sch w) (sch v)" using calm_attached [OF v] by (simp add: calm_def)
  have quiet_v: "quiet (sch w) (sch v)"
  proof (cases "?ts")
    case (Cons a list)
    then show ?thesis using attach_all [OF v apart [of "snd a"]] by simp
  qed (use v in simp)
  define c' where "c' = c\<lparr>ch_spec := ?spec, ch_phase := ''expanded'', ch_report := ch_report c, ch_to := ch_to c\<rparr>"
  have l': "load w' i = Inr c'"
  proof -
    have "load (save_spec c ?spec v) i = Inr (c\<lparr>ch_spec := ?spec\<rparr>)" using c(1) load_same [OF same] by (intro load_save_spec) simp_all
    from load_save [OF this, of c "save_spec c ?spec v" "''expanded''"] show ?thesis by (simp add: w' load_noted c'_def)
  qed
  have sch: "types (sch w') = types (sch w)" "type_labels (sch w') = type_labels (sch w)" "table_at (sch w') = table_at (sch v)"
    "rows_of w' = rows_of v"
    using quiet_types [OF quiet_v] by (simp_all add: w' noted_def update_schema_def bump_schema_version_def save_def save_spec_def table_at_def fun_eq_iff)
  show conc: "concrete (sch w') tid = ?ts" using concrete_same [OF sch(1,2)] by simp
  have "r = c" if "r \<in> set (schema_changes (sch v))" "ch_id r = ch_id c" for r
    using that same by (intro loaded_unique [OF c(1) base(2)]) (simp_all add: same_records_def ci)
  then have "watch_list (sch w') = watch_list (sch v)"
    by (auto simp: w' watch_list_def noted_def update_schema_def bump_schema_version_def save_records save_spec_def report_text_def)
  then have watch: "watch_list (sch w') = watch_list (sch w)" using same by (simp add: watch_list_def same_records_def)
  then have dw: "dual_writes (sch w') x = dual_writes (sch w) x" for x by (simp add: dual_writes_watch)
  have writes: "set (dual_writes (sch w) (shadowed c shadow ty d)) = insert (col, shadow, ty) (set (dual_writes (sch w) d))" for d
  proof -
    have only: "(\<exists>r \<in> set (schema_changes (sch w)). ch_id r = ch_id c \<and> Q r) \<longleftrightarrow> Q c" for Q
      using loaded_unique [OF c(1) base(2)] load_mem [OF c(1)] ci by metis
    show ?thesis unfolding dual_writes_shadowed only c(5-7) by auto
  qed
  have att: "table_at (sch w') u = map_option (shadowed c shadow ty) (table_at (sch w) u)" "rows_of w' = rows_of w" if "u \<in> snd ` set ?ts" for u
    using attach_all [OF v apart [OF that]] that by (simp_all add: sch)
  show "\<exists>c. ch_id c = i \<and> table_at (sch w') tb = map_option (shadowed c shadow ty) (table_at (sch w) tb)"
    if "tb \<in> snd ` set ?ts" using att(1) [OF that] ci by blast
  have ok': "changes_ok w'" using expand_moves [OF assms(2) base(2)] by (simp add: one_move_def)
  show "phase_of w' i = Some ''expanded''" using load_phase(2) [OF l' ok'] by (simp add: c'_def)
  show "dual_written pg False i tid col shadow ty w'"
  proof (rule dual_writtenI [OF _ ok' base(3) l'])
    have "same_catalog (sch v) (sch w') \<and> tables (sch w') = tables (sch v)"
      by (simp add: w' noted_def update_schema_def bump_schema_version_def save_def save_spec_def same_catalog_def prop_keys_def)
    then have "quiet (sch w) (sch w')" using quiet_v quiet_same_tables quiet_trans by blast
    then show "catalog_ok (sch w')" using quiet_catalog_ok(2) base(1) by blast
    show "type_of c' (sch w') = Inr tid"
      using c(3) kvs by (auto simp: type_of_Inr c'_def try_type_id_same [OF sch(1)] intro: spec_set_type)
  next
    fix sub u
    assume "(sub, u) \<in> set (concrete (sch w') tid)"
    then have u: "u \<in> snd ` set ?ts" unfolding conc by force
    from tabs [OF u] obtain d where d: "table_at (sch w) u = Some d" "\<forall>(k, s, y) \<in> set (dual_writes (sch w) d). s \<noteq> col \<and> s \<noteq> shadow"
      by (auto simp: ready_table_def)
    with att(1) [OF u] base(3)
    show "\<exists>d. table_at (sch w') u = Some d \<and> (col, shadow, ty) \<in> set (dual_writes (sch w') d) \<and> no_interference col shadow ty (dual_writes (sch w') d)"
      by (auto simp: dw writes no_interference_def)
    fix r
    assume "r \<in> set (rows_of w' u)"
    with tabs [OF u] att(2) [OF u] have "- (2 ^ 63) < sint (dr_id r)" "dr_cells r shadow = None"
      unfolding ready_table_def rows_fit_def by (metis, metis)
    moreover have "cursors_of c' = []" using c(4) by (simp add: c'_def cursors_of_def)
    then have "sint (cursor_at (cursors_of c') u) = - (2 ^ 63)" by (simp add: cursor_at_def)
    ultimately show "followed pg False col shadow ty (cursor_at (cursors_of c') u) r" by (simp add: followed_def recast_def)
  qed (simp_all add: c'_def report_text_def c [unfolded report_text_def])
qed

end
