(* ===== verification/Evolution_Contract.thy ===== *)
theory Evolution_Contract
  imports Evolution_Retype
begin

text \<open>
  What contracting a change of type leaves in the tables: every row has its old value in the new type, and
  a change that was validated had no value the new type cannot hold.
\<close>

section \<open>Tables of a type\<close>

lemma concrete_distinct:
  assumes "catalog_ok s"
  shows "distinct (map snd (concrete s tid))"
proof -
  have inj: "i = j" if s: "storage_table (cat s) i = Some t" "storage_table (cat s) j = Some t" for i j t
  proof -
    from storage_type [OF s(1)] storage_type [OF s(2)] obtain r q
      where "r \<in> set (types s)" "tr_id r = i" "tr_storage r = Some t" "q \<in> set (types s)" "tr_id q = j" "tr_storage q = Some t" by blast
    with assms stored_as_inj [of r t q] show "i = j" by (auto simp: catalog_ok_def catalog_core_def row_ok_def)
  qed
  have "distinct (map snd (List.map_filter (\<lambda>sub. map_option (Pair sub) (f sub)) xs))"
    if "distinct xs" "\<And>i j t. f i = Some t \<Longrightarrow> f j = Some t \<Longrightarrow> i = j" for f :: "i32 \<Rightarrow> string option" and xs
    using that(1)
  proof (induction xs)
    case (Cons x xs)
    have "t \<notin> snd ` set (List.map_filter (\<lambda>sub. map_option (Pair sub) (f sub)) xs)" if "f x = Some t" for t
      using Cons.prems \<open>\<And>i j t. f i = Some t \<Longrightarrow> f j = Some t \<Longrightarrow> i = j\<close> [OF that] by (auto simp: List.map_filter_def)
    with Cons show ?case by (cases "f x") (auto simp: List.map_filter_simps)
  qed (simp add: List.map_filter_simps)
  from this [of "og_subtypes (type_labels s) tid", OF _ inj] show ?thesis by (simp add: concrete_def og_subtypes_def)
qed

lemma hist_history: "hist s t = Some h \<Longrightarrow> history_table t = Some h"
  by (auto simp: hist_def split: option.splits if_splits)

section \<open>Swapping the columns\<close>

definition swapped :: "string \<Rightarrow> string \<Rightarrow> data_row \<Rightarrow> data_row" where
  "swapped col shadow r = set_cell shadow None (set_cell col (dr_cells r shadow) r)"

lemma drop_column_rows: "drop_column pg t c w = Inr w' \<Longrightarrow> rows_of w' = (rows_of w)(t := map (set_cell c None) (rows_of w t))"
  by (auto simp: drop_column_def rbind_eq_Inr_iff on_schema_Inr split: option.splits if_splits)

lemma rename_column_rows: "rename_column t old new w = Inr w' \<Longrightarrow> rows_of w' = (rows_of w)(t := map (move_cell old new) (rows_of w t))"
  by (auto simp: rename_column_def rbind_eq_Inr_iff on_schema_Inr split: option.splits if_splits)

lemma move_dropped: "shadow \<noteq> col \<Longrightarrow> move_cell shadow col (set_cell col None r) = swapped col shadow r"
  by (simp add: move_cell_def swapped_def set_cell_def)

lemma swap_in_rows:
  assumes "swap_in pg col shadow rel w = Inr w'" "shadow \<noteq> col"
  shows "rows_of w' = (rows_of w)(rel := map (swapped col shadow) (rows_of w rel))"
  using assms by (auto simp: swap_in_def rbind_eq_Inr_iff move_dropped dest!: drop_column_rows rename_column_rows)

lemma on_schema_rows: "on_schema f w = Inr w' \<Longrightarrow> rows_of w' = rows_of w"
  by (auto simp: on_schema_Inr)

lemma indexes_rows: "rfold (create_index_now t) xs w = Inr w' \<Longrightarrow> rows_of w' = rows_of w"
  by (induction xs arbitrary: w) (auto simp: rbind_eq_Inr_iff create_index_now_def split: if_splits dest!: on_schema_rows)

lemma swap_table_parts:
  assumes "swap_table pg c col shadow (sub, t) w = Inr w'"
  obtains u v x where "drop_trigger t (shadow_trigger (ch_id c)) w = Inr u" 
    "rfold (swap_in pg col shadow) (t # (case hist (sch u) t of Some h \<Rightarrow> [h] | None \<Rightarrow> [])) u = Inr v"
    "rows_of x = rows_of v" "on_schema (replay_write_grants sub) x = Inr w'"
proof -
  obtain d where d: "table_at (sch w) t = Some d" using assms by (auto simp: swap_table_def split: option.splits)
  from assms show thesis
    unfolding swap_table_def prod.case d option.simps rbind_eq_Inr_iff
    by (elim exE conjE) (rule that, assumption, assumption, erule indexes_rows, assumption)
qed

lemma swap_table_rows:
  assumes "swap_table pg c col shadow (sub, t) w = Inr w'" "shadow \<noteq> col" "\<And>v. history_table v \<noteq> Some u"
  shows "rows_of w' u = (if u = t then map (swapped col shadow) (rows_of w u) else rows_of w u)"
proof -
  from assms(1) obtain a b x where s: "drop_trigger t (shadow_trigger (ch_id c)) w = Inr a" 
    "rfold (swap_in pg col shadow) (t # (case hist (sch a) t of Some h \<Rightarrow> [h] | None \<Rightarrow> [])) a = Inr b"
    "rows_of x = rows_of b" "on_schema (replay_write_grants sub) x = Inr w'" by (rule swap_table_parts)
  from s(2) obtain y where y: "swap_in pg col shadow t a = Inr y" "rfold (swap_in pg col shadow) (case hist (sch a) t of Some h \<Rightarrow> [h] | None \<Rightarrow> []) y = Inr b"
    by (auto simp: rbind_eq_Inr_iff)
  have "rows_of b u = rows_of y u"
    using y(2) hist_history [of "sch a" t] assms(3) [of t] by (auto simp: rbind_eq_Inr_iff swap_in_rows [OF _ assms(2)] split: option.splits)
  moreover have "rows_of a = rows_of w" using s(1) unfolding drop_trigger_def by (rule on_schema_rows)
  ultimately show ?thesis using swap_in_rows [OF y(1) assms(2)] s(3) on_schema_rows [OF s(4)] by simp
qed

lemma swap_all_rows:
  assumes "rfold (swap_table pg c col shadow) ts w = Inr w'" "shadow \<noteq> col" "distinct (map snd ts)" "\<And>v. history_table v \<noteq> Some u"
  shows "rows_of w' u = (if u \<in> snd ` set ts then map (swapped col shadow) (rows_of w u) else rows_of w u)"
  using assms(1,3)
proof (induction ts arbitrary: w)
  case (Cons st ts)
  obtain sub t where st: "st = (sub, t)" by fastforce
  from Cons.prems(1) obtain v where v: "swap_table pg c col shadow (sub, t) w = Inr v" "rfold (swap_table pg c col shadow) ts v = Inr w'"
    by (auto simp: rbind_eq_Inr_iff st)
  from Cons.IH [OF v(2)] swap_table_rows [OF v(1) assms(2,4)] Cons.prems(2) show ?case by (auto simp: st)
qed simp

lemma quiet_fold: "(\<And>x s. quiet s (f x s)) \<Longrightarrow> quiet s (fold f xs s)"
  by (induction xs arbitrary: s) (auto intro: quiet_trans)

lemma quiet_drop_views: "quiet s (drop_alias_views tid s)"
  unfolding drop_alias_views_def by (rule quiet_fold) (simp split: option.split)

section \<open>The end of a change of type\<close>

lemma contract_rows:
  assumes "contract_alter_property_type pg c w = Inr w'" "type_of c (sch w) = Inr tid" "report_text c ''column'' = Some col"
    "report_text c ''shadow'' = Some shadow" "shadow \<noteq> col" "catalog_ok (sch w)" "(sub, t) \<in> set (concrete (sch w) tid)"
  shows "rows_of w' t = map (swapped col shadow) (rows_of w t)"
proof -
  let ?w = "update_schema (drop_alias_views tid) w"
  from assms(1) obtain v ty where v: "on_tables (swap_table pg c col shadow) tid ?w = Inr v" 
    and w': "w' = update_schema (\<lambda>s. refresh_alias_views tid (update_property tid col (\<lambda>q. q\<lparr>pr_dtype := ty\<rparr>) s)) v"
    by (auto simp: contract_alter_property_type_def rbind_eq_Inr_iff reported_Inr Let_def assms(2-4))
  have c: "concrete (sch ?w) tid = concrete (sch w) tid"
    using concrete_same [of "sch ?w" "sch w"] quiet_types [OF quiet_drop_views] by (simp add: update_schema_def)
  have "rows_of v t = map (swapped col shadow) (rows_of ?w t)"
    using swap_all_rows [OF v [unfolded on_tables_def c] assms(5) concrete_distinct [OF assms(6)], of t]
      storage_prefix [OF assms(6) concrete_storage [OF assms(7)]] assms(7) by force
  then show ?thesis by (simp add: w' update_schema_def)
qed

section \<open>Nothing is lost\<close>

definition lossless :: "postgres \<Rightarrow> i32 \<Rightarrow> string \<Rightarrow> string \<Rightarrow> evo \<Rightarrow> bool" where
  "lossless pg tid col ty w \<longleftrightarrow> (\<forall>t \<in> snd ` set (concrete (sch w) tid). \<forall>r \<in> set (rows_of w t).
     dr_cells r col \<noteq> None \<longrightarrow> recast pg ty col r \<noteq> None)"

lemma fire_castable:
  assumes "fire pg tgs old r = Inr r'" "no_interference col shadow ty tgs" "(col, shadow, ty) \<in> set tgs"
    "\<not> (\<exists>q. old = Some q \<and> dr_cells q col = dr_cells r col)" "dr_cells r col \<noteq> None"
  shows "recast pg ty col r \<noteq> None"
  using assms
proof (induction tgs arbitrary: r)
  case (Cons tg tgs)
  obtain c s y where tg: "tg = (c, s, y)" by (cases tg)
  from Cons.prems(1) obtain q where q: "shadow_write pg tg old r = Inr q" "fire pg tgs old q = Inr r'" by (auto simp: rbind_eq_Inr_iff)
  have ni: "no_interference col shadow ty tgs" "s \<noteq> col" using Cons.prems(2) by (auto simp: no_interference_def tg)
  have same: "dr_cells q col = dr_cells r col"
    using q(1) ni(2) by (auto simp: shadow_write_def tg split: if_splits option.splits)
  show ?case
  proof (cases "(col, shadow, ty) \<in> set tgs")
    case True
    with Cons.IH [OF q(2) ni(1)] Cons.prems(4,5) same show ?thesis by (simp add: recast_def)
  next
    case False
    with Cons.prems(3) tg have "c = col" "y = ty" by auto
    with q(1) Cons.prems(4,5) show ?thesis by (auto simp: shadow_write_def tg recast_def split: if_splits option.splits)
  qed
qed simp

definition holds_in :: "postgres \<Rightarrow> string \<Rightarrow> string \<Rightarrow> data_row \<Rightarrow> bool" where
  "holds_in pg ty col r \<longleftrightarrow> dr_cells r col \<noteq> None \<longrightarrow> recast pg ty col r \<noteq> None"

lemma write_holds:
  assumes "app_insert pg t r w = Inr w' \<or> app_update pg t k sets w = Inr w' \<or> app_delete t k w = Inr w'"
    and "table_at (sch w) u = Some d" "(col, shadow, ty) \<in> set (dual_writes (sch w) d)" "no_interference col shadow ty (dual_writes (sch w) d)"
    "shadow \<noteq> col" "\<forall>r \<in> set (rows_of w u). holds_in pg ty col r"
  shows "\<forall>r \<in> set (rows_of w' u). holds_in pg ty col r"
proof (cases "u = t")
  case True
  note d = assms(2) [unfolded True]
  have fired: "holds_in pg ty col q" if "fire pg (dual_writes (sch w) d) old x = Inr q" "\<forall>o'. old = Some o' \<longrightarrow> holds_in pg ty col o'" for old x q
  proof (cases "\<exists>o'. old = Some o' \<and> dr_cells o' col = dr_cells x col")
    case True
    then show ?thesis using fire_follows [OF that(1) assms(4,5)] that(2) by (auto simp: holds_in_def recast_def)
  next
    case False
    then show ?thesis using fire_follows [OF that(1) assms(4,5)] fire_castable [OF that(1) assms(4,3)] by (auto simp: holds_in_def recast_def)
  qed
  from assms(1) show ?thesis
  proof (elim disjE)
    assume "app_insert pg t r w = Inr w'"
    then obtain q where "fire pg (dual_writes (sch w) d) None r = Inr q" "w' = set_rows t (rows_of w t @ [q]) w"
      by (auto simp: app_insert_def d rbind_eq_Inr_iff split: if_splits)
    then show ?thesis using fired assms(6) True by auto
  next
    assume a: "app_update pg t k sets w = Inr w'"
    show ?thesis
    proof (cases "find (\<lambda>r. dr_id r = k) (rows_of w t)")
      case None
      with a assms(6) show ?thesis by (auto simp: app_update_def d split: if_splits)
    next
      case (Some old)
      with a obtain x q where "fire pg (dual_writes (sch w) d) (Some old) x = Inr q"
        "w' = set_rows t (map (\<lambda>r. if dr_id r = k then q else r) (rows_of w t)) w"
        by (auto simp: app_update_def d rbind_eq_Inr_iff split: if_splits)
      moreover from Some have "old \<in> set (rows_of w u)" using True by (auto simp: find_Some_iff)
      ultimately show ?thesis using fired [of "Some old" x q] assms(6) True by auto
    qed
  next
    assume "app_delete t k w = Inr w'"
    with assms(6) True show ?thesis by (auto simp: app_delete_def)
  qed
qed (use assms(6) write_rows(3) [OF assms(1)] in simp)

definition checked :: "postgres \<Rightarrow> i32 \<Rightarrow> i32 \<Rightarrow> string \<Rightarrow> string \<Rightarrow> evo \<Rightarrow> bool" where
  "checked pg i tid col ty w \<longleftrightarrow> (phase_of w i = Some ''validated'' \<longrightarrow>
     (\<forall>t \<in> snd ` set (concrete (sch w) tid). \<forall>r \<in> set (rows_of w t). holds_in pg ty col r))"

lemma rmap_mem: "rmap f xs = Inr ys \<Longrightarrow> x \<in> set xs \<Longrightarrow> \<exists>y \<in> set ys. f x = Inr y"
  by (induction xs arbitrary: ys) (auto simp: rbind_eq_Inr_iff)

lemma validated_moved:
  assumes "validate_retype c w = Inr (0, samples)" "type_of c (sch w) = Inr tid" "report_text c ''column'' = Some col"
    "report_text c ''shadow'' = Some shadow" "(sub, t) \<in> set (concrete (sch w) tid)" "r \<in> set (rows_of w t)"
  shows "\<not> unmoved col shadow r"
proof -
  from assms(1-4) obtain found where f: "over_tables w tid (\<lambda>t.
        rbind (matching w [col, shadow] (unmoved col shadow) t) (\<lambda>bad.
        rbind (case hist (sch w) t of None \<Rightarrow> Inr [] | Some h \<Rightarrow> matching w [col, shadow] (unmoved col shadow) h) (\<lambda>old.
        Inr (length bad + length old, sample_ids bad)))) = Inr found" and z: "sum_list (map fst found) = 0"
    by (auto simp: validate_retype_def rbind_eq_Inr_iff reported_Inr)
  from rmap_mem [OF f [unfolded over_tables_def] assms(5)] z obtain bad where "matching w [col, shadow] (unmoved col shadow) t = Inr bad" "bad = []"
    by (fastforce simp: rbind_eq_Inr_iff)
  then show ?thesis using assms(6) by (auto simp: matching_def rbind_eq_Inr_iff scan_Inr filter_empty_conv)
qed

lemma checked_step:
  assumes "live_step pg i w w'" "dual_written pg True i tid col shadow ty w" "checked pg i tid col ty w"
  shows "checked pg i tid col ty w'"
proof -
  from assms(2) obtain c where l: "load w i = Inr c" by (rule dual_writtenE)
  note c = dual_written_load [OF assms(2) l]
  have written: ?thesis if "app_insert pg t r w = Inr w' \<or> app_update pg t k sets w = Inr w' \<or> app_delete t k w = Inr w'" for t r k sets
  proof -
    note s = write_rows(1) [OF that]
    have "\<forall>r \<in> set (rows_of w' u). holds_in pg ty col r" if u: "phase_of w i = Some ''validated''" "(sub, u) \<in> set (concrete (sch w) tid)" for sub u
    proof -
      obtain d where d: "table_at (sch w) u = Some d" "(col, shadow, ty) \<in> set (dual_writes (sch w) d)" "no_interference col shadow ty (dual_writes (sch w) d)"
        using c(10) [OF u(2)] by blast
      have "\<forall>r \<in> set (rows_of w u). holds_in pg ty col r" using assms(3) u by (force simp: checked_def)
      with write_holds [OF \<open>app_insert pg t r w = Inr w' \<or> app_update pg t k sets w = Inr w' \<or> app_delete t k w = Inr w'\<close> d c(3)] show ?thesis .
    qed
    then show ?thesis by (auto simp: checked_def s phase_of_def phases_def)
  qed
  from assms(1) show ?thesis
  proof cases
    case (batch n r)
    from migrate_calls [OF batch] obtain c2 k d v e where m: "load w i = Inr c2" "migrate pg (nat (max 1 (sint n))) c2 w = Inr (k, d, v)"
      and w': "w' = save e ''migrating'' v" "ch_id e = ch_id d" by metis
    have "ch_id e = i" using calm_migrate [OF m(2)] m(1) l c(6) w'(2) by simp
    then have "phase_of w' i \<noteq> Some ''validated''" by (simp add: w'(1) phase_of_save)
    then show ?thesis by (simp add: checked_def)
  next
    case (check r)
    from validate_calls [OF check l c(4)] obtain n samples where v: "validate_retype c w = Inr (n, samples)"
      and w': "w' = save (report_set ''violation_samples'' (JArr samples) (report_set ''violations'' (json_nat n) c)) (if n = 0 then ''validated'' else ch_phase c) w" .
    have rows: "rows_of w' = rows_of w" "concrete (sch w') = concrete (sch w)"
      unfolding w' by (rule save_same(2), rule same_but_records_simps(2) [OF save_same(1)])
    show ?thesis
    proof (cases "n = 0")
      case True
      have "holds_in pg ty col r" if "(sub, t) \<in> set (concrete (sch w) tid)" "r \<in> set (rows_of w t)" for sub t r
        using validated_moved [OF v [unfolded True] c(5,7,8) that] c(11) [OF that] by (auto simp: unmoved_def followed_def holds_in_def)
      then show ?thesis by (auto simp: checked_def rows)
    next
      case False
      then have "phase_of w' i = phase_of w i" using load_phase(2) [OF l c(2)] by (simp add: w' phase_of_save c(6))
      then show ?thesis using assms(3) by (simp add: checked_def rows)
    qed
  qed (use written in blast)+
qed

lemma checked_steps:
  "(live_step pg i)\<^sup>*\<^sup>* w w' \<Longrightarrow> dual_written pg True i tid col shadow ty w \<Longrightarrow> checked pg i tid col ty w \<Longrightarrow> checked pg i tid col ty w'"
proof (induction rule: rtranclp_induct)
  case (step u v)
  from dual_written_steps [OF step.hyps(1) step.prems(1)] step.IH [OF step.prems] show ?case by (rule checked_step [OF step.hyps(2)])
qed

lemma contract_calls:
  assumes "og_schema_contract pg i w = Inr (r, w')" "load w i = Inr c" "ch_kind c = ''alter_property_type''"
  obtains v where "contract_alter_property_type pg c w = Inr v" "ch_phase c = ''validated''"
    "w' = save c ''contracted'' (noted c ('' contract ('' @ ch_kind c @ '')'') v)"
  using assms by (auto simp: og_schema_contract_def rbind_eq_Inr_iff contract_def require_phase_def split: if_splits)

section \<open>A required property\<close>

lemma drop_column_table: "drop_column pg t c w = Inr w' \<Longrightarrow>
    table_at (sch w') u = (if u = t then map_option (drop_column_def pg c) (table_at (sch w) u) else table_at (sch w) u)"
  by (auto simp: drop_column_def rbind_eq_Inr_iff on_schema_Inr table_at_alter [unfolded table_at_def] table_at_def split: option.splits if_splits)

lemma rename_column_table: "rename_column t old new w = Inr w' \<Longrightarrow>
    table_at (sch w') u = (if u = t then map_option (rename_column_def old new) (table_at (sch w) u) else table_at (sch w) u)"
  by (auto simp: rename_column_def rbind_eq_Inr_iff on_schema_Inr table_at_alter [unfolded table_at_def] table_at_def split: option.splits if_splits)

definition required_at :: "evo \<Rightarrow> string \<Rightarrow> string list option" where
  "required_at w t = map_option td_required (table_at (sch w) t)"

definition swap_required :: "string \<Rightarrow> string \<Rightarrow> string list \<Rightarrow> string list" where
  "swap_required col shadow cs = map (\<lambda>c. if c = shadow then col else c) (removeAll col cs)"

lemma swap_in_required:
  assumes "swap_in pg col shadow rel w = Inr w'"
  shows "required_at w' u = (if u = rel then map_option (swap_required col shadow) (required_at w u) else required_at w u)"
proof -
  from assms obtain v where v: "drop_column pg rel col w = Inr v" "rename_column rel shadow col v = Inr w'"
    by (auto simp: swap_in_def rbind_eq_Inr_iff)
  show ?thesis
    using drop_column_table [OF v(1), of u] rename_column_table [OF v(2), of u]
    by (cases "u = rel"; cases "table_at (sch w) u")
      (simp_all add: required_at_def swap_required_def drop_column_def_def rename_column_def_def Let_def)
qed

lemma alter_required:
  assumes "on_schema (alter_table t f) w = Inr w'" "\<And>d. td_required (f d) = td_required d"
  shows "required_at w' u = required_at w u"
  using table_at_on_schema(1) [OF assms(1), of u] by (simp add: required_at_def option.map_comp o_def assms(2))

lemma indexes_required: "rfold (create_index_now t) xs w = Inr w' \<Longrightarrow> required_at w' u = required_at w u"
proof (induction xs arbitrary: w)
  case (Cons x xs)
  from Cons.prems obtain v where v: "create_index_now t x w = Inr v" "rfold (create_index_now t) xs v = Inr w'" by (auto simp: rbind_eq_Inr_iff)
  from v(1) have "on_schema (alter_table t (add_index x)) w = Inr v" by (auto simp: create_index_now_def rbind_eq_Inr_iff split: if_splits)
  then have "required_at v u = required_at w u" by (rule alter_required) (simp add: add_index_def)
  with Cons.IH [OF v(2)] show ?case by simp
qed simp

lemma replay_tables: "replay_write_grants sub s = Inr s' \<Longrightarrow> table_at s' = table_at s"
proof -
  have "rfold (\<lambda>role. reapply_for_role role sub) xs s = Inr s' \<Longrightarrow> privileges_only s s'" for xs
    by (induction xs arbitrary: s) (auto simp: rbind_eq_Inr_iff dest!: reapply_effect(1) intro: privileges_only_trans)
  then show "replay_write_grants sub s = Inr s' \<Longrightarrow> table_at s' = table_at s"
    unfolding replay_write_grants_def by (blast dest: privileges_only_same(8))
qed

lemma swap_table_required:
  assumes "swap_table pg c col shadow (sub, t) w = Inr w'" "\<And>v. history_table v \<noteq> Some u"
  shows "required_at w' u = (if u = t then map_option (swap_required col shadow) (required_at w u) else required_at w u)"
proof -
  obtain d where d: "table_at (sch w) t = Some d" using assms(1) by (auto simp: swap_table_def split: option.splits)
  from assms(1) obtain a b x where s: "drop_trigger t (shadow_trigger (ch_id c)) w = Inr a" 
    "rfold (swap_in pg col shadow) (t # (case hist (sch a) t of Some h \<Rightarrow> [h] | None \<Rightarrow> [])) a = Inr b"
    "rfold (create_index_now t) (column_indexes t col d) b = Inr x" "on_schema (replay_write_grants sub) x = Inr w'"
    unfolding swap_table_def prod.case d option.simps rbind_eq_Inr_iff by blast
  from s(2) obtain y where y: "swap_in pg col shadow t a = Inr y" "rfold (swap_in pg col shadow) (case hist (sch a) t of Some h \<Rightarrow> [h] | None \<Rightarrow> []) y = Inr b"
    by (auto simp: rbind_eq_Inr_iff)
  have "required_at w' u = required_at x u" using s(4) replay_tables by (auto simp: on_schema_Inr required_at_def)
  also have "\<dots> = required_at b u" by (rule indexes_required [OF s(3)])
  also have "\<dots> = required_at y u"
    using y(2) hist_history [of "sch a" t] assms(2) [of t] by (auto simp: rbind_eq_Inr_iff swap_in_required split: option.splits)
  also have "\<dots> = (if u = t then map_option (swap_required col shadow) (required_at a u) else required_at a u)"
    by (rule swap_in_required [OF y(1)])
  also have "required_at a u = required_at w u" using s(1) unfolding drop_trigger_def by (rule alter_required) simp
  finally show ?thesis .
qed

lemma swap_all_required:
  assumes "rfold (swap_table pg c col shadow) ts w = Inr w'" "distinct (map snd ts)" "\<And>v. history_table v \<noteq> Some u"
  shows "required_at w' u = (if u \<in> snd ` set ts then map_option (swap_required col shadow) (required_at w u) else required_at w u)"
  using assms(1,2)
proof (induction ts arbitrary: w)
  case (Cons st ts)
  obtain sub t where st: "st = (sub, t)" by fastforce
  from Cons.prems(1) obtain v where v: "swap_table pg c col shadow (sub, t) w = Inr v" "rfold (swap_table pg c col shadow) ts v = Inr w'"
    by (auto simp: rbind_eq_Inr_iff st)
  from Cons.IH [OF v(2)] swap_table_required [OF v(1) assms(3)] Cons.prems(2) show ?case by (auto simp: st)
qed simp

lemma views_tables:
  "table_at (drop_alias_views tid s) = table_at s" "table_at (refresh_alias_views tid s) = table_at s"
  "properties (drop_alias_views tid s) = properties s" "properties (refresh_alias_views tid s) = properties s"
proof -
  have fold: "g (fold f xs s) = g s" if "\<And>x s. g (f x s) = g s" for g :: "schema \<Rightarrow> 'b" and f :: "i32 \<Rightarrow> schema \<Rightarrow> schema" and xs
    using that by (induction xs arbitrary: s) auto
  have d: "tables (drop_alias_view n s) = tables s" "properties (drop_alias_view n s) = properties s" for n s
    by (simp_all add: drop_alias_view_def drop_relations_def)
  have e: "tables (ensure_alias_view n t s) = tables s" "properties (ensure_alias_view n t s) = properties s" for n t s
    by (simp_all add: ensure_alias_view_def Let_def d apply_to_view_def add_grants_def)
  have "tables (drop_alias_views tid s) = tables s" "tables (refresh_alias_views tid s) = tables s"
    unfolding drop_alias_views_def refresh_alias_views_def by (rule fold, simp add: d e split: option.split)+
  then show "table_at (drop_alias_views tid s) = table_at s" "table_at (refresh_alias_views tid s) = table_at s"
    by (simp_all add: table_at_def fun_eq_iff)
  show "properties (drop_alias_views tid s) = properties s" "properties (refresh_alias_views tid s) = properties s"
    unfolding drop_alias_views_def refresh_alias_views_def by (rule fold, simp add: d e split: option.split)+
qed

lemma alter_properties: "on_schema (alter_table t f) w = Inr w' \<Longrightarrow> properties (sch w') = properties (sch w)"
  by (auto simp: on_schema_Inr alter_table_def split: option.splits)

lemma statement_properties:
  "drop_column pg t c w = Inr w' \<Longrightarrow> properties (sch w') = properties (sch w)"
  "rename_column t old new w = Inr w' \<Longrightarrow> properties (sch w') = properties (sch w)"
  "create_index_now t ix w = Inr w' \<Longrightarrow> properties (sch w') = properties (sch w)"
  "on_schema (replay_write_grants sub) w = Inr w' \<Longrightarrow> properties (sch w') = properties (sch w)"
proof -
  show "drop_column pg t c w = Inr w' \<Longrightarrow> properties (sch w') = properties (sch w)"
    "rename_column t old new w = Inr w' \<Longrightarrow> properties (sch w') = properties (sch w)"
    "create_index_now t ix w = Inr w' \<Longrightarrow> properties (sch w') = properties (sch w)"
    by (auto simp: drop_column_def rename_column_def create_index_now_def rbind_eq_Inr_iff split: option.splits if_splits dest!: alter_properties)
  have "rfold (\<lambda>role. reapply_for_role role sub) xs s = Inr s' \<Longrightarrow> privileges_only s s'" for xs s s'
    by (induction xs arbitrary: s) (auto simp: rbind_eq_Inr_iff dest!: reapply_effect(1) intro: privileges_only_trans)
  then show "on_schema (replay_write_grants sub) w = Inr w' \<Longrightarrow> properties (sch w') = properties (sch w)"
    unfolding replay_write_grants_def on_schema_Inr by (elim exE conjE) (simp add: privileges_only_same(4))
qed

lemma rfold_same: "(\<And>x w w'. f x w = Inr w' \<Longrightarrow> g w' = g w) \<Longrightarrow> rfold f xs w = Inr w' \<Longrightarrow> g w' = g w"
  by (induction xs arbitrary: w) (auto simp: rbind_eq_Inr_iff)

lemma swap_table_properties:
  assumes "swap_table pg c col shadow st w = Inr w'"
  shows "properties (sch w') = properties (sch w)"
proof -
  obtain sub t where st: "st = (sub, t)" by fastforce
  obtain d where d: "table_at (sch w) t = Some d" using assms by (auto simp: swap_table_def st split: option.splits)
  from assms obtain a b x where s: "drop_trigger t (shadow_trigger (ch_id c)) w = Inr a" 
    "rfold (swap_in pg col shadow) (t # (case hist (sch a) t of Some h \<Rightarrow> [h] | None \<Rightarrow> [])) a = Inr b"
    "rfold (create_index_now t) (column_indexes t col d) b = Inr x" "on_schema (replay_write_grants sub) x = Inr w'"
    unfolding swap_table_def st prod.case d option.simps rbind_eq_Inr_iff by blast
  have "properties (sch a) = properties (sch w)" using s(1) unfolding drop_trigger_def by (rule alter_properties)
  moreover have "properties (sch b) = properties (sch a)"
    using s(2) by (rule rfold_same [where g = "\<lambda>w. properties (sch w)", rotated])
      (auto simp: swap_in_def rbind_eq_Inr_iff dest!: statement_properties)
  moreover have "properties (sch x) = properties (sch b)"
    using s(3) by (rule rfold_same [where g = "\<lambda>w. properties (sch w)", rotated]) (rule statement_properties(3))
  moreover have "properties (sch w') = properties (sch x)" by (rule statement_properties(4) [OF s(4)])
  ultimately show ?thesis by simp
qed

section \<open>Aborting\<close>

text \<open>Live steps touch no table definition and leave the phase past its start.\<close>

lemma live_tables:
  assumes "live_step pg i w w'" "dual_written pg b i tid col shadow ty w"
  shows "table_at (sch w') = table_at (sch w)" "concrete (sch w') = concrete (sch w)" "phase_of w i \<noteq> Some ''planned'' \<longrightarrow> phase_of w' i \<noteq> Some ''planned''"
proof -
  from assms(2) obtain c where l: "load w i = Inr c" by (rule dual_writtenE)
  note c = dual_written_load [OF assms(2) l]
  have tables: "table_at (sch w') = table_at (sch w) \<and> concrete (sch w') = concrete (sch w)" if "same_but_records (sch w) (sch w')"
    using same_but_records_simps(2,6) [OF that] by simp
  have later: "phase_of w' i \<noteq> Some ''planned''" if "one_move i w w'" "phase_of w i \<noteq> Some ''planned''"
    using that by (auto simp: one_move_def may_become_def)
  from assms(1) have "(table_at (sch w') = table_at (sch w) \<and> concrete (sch w') = concrete (sch w)) \<and>
      (phase_of w i \<noteq> Some ''planned'' \<longrightarrow> phase_of w' i \<noteq> Some ''planned'')"
  proof cases
    case (batch n r)
    from migrate_calls [OF batch] obtain c2 k d v e where m: "load w i = Inr c2" "migrate pg (nat (max 1 (sint n))) c2 w = Inr (k, d, v)"
      and w': "w' = save e ''migrating'' v" by metis
    from m l c(4) have "migrate_retype pg (nat (max 1 (sint n))) c w = Inr (k, d, v)" by (simp add: migrate_def)
    then obtain cs where "retype_tables pg col shadow ty (nat (max 1 (sint n))) (map snd (concrete (sch w) tid)) (cursors_of c) w = Inr (k, cs, v)"
      by (auto simp: migrate_retype_def rbind_eq_Inr_iff reported_Inr cursors_of_def c)
    then have "sch v = sch w" using retype_tables_settles [OF _ c(3)] by (simp add: settles_def)
    then show ?thesis using tables save_same(1) [of v e "''migrating''"] later migrate_moves [OF batch c(2)] by (simp add: w')
  next
    case (check r)
    from validate_calls [OF check l c(4)] obtain n samples where
      w': "w' = save (report_set ''violation_samples'' (JArr samples) (report_set ''violations'' (json_nat n) c)) (if n = 0 then ''validated'' else ch_phase c) w" .
    have "same_but_records (sch w) (sch w')" unfolding w' by (rule save_same(1))
    then show ?thesis using tables later validate_moves [OF check c(2)] by blast
  next
    case (write_insert t r)
    then show ?thesis using write_rows(1) [of pg t r w w'] by (auto simp: phase_of_def phases_def)
  next
    case (write_update t k sets)
    then show ?thesis using write_rows(1) [of pg t _ w w' k sets] by (auto simp: phase_of_def phases_def)
  next
    case (write_delete t k)
    then show ?thesis using write_rows(1) [of pg t _ w w' k] by (auto simp: phase_of_def phases_def)
  qed
  then show "table_at (sch w') = table_at (sch w)" "concrete (sch w') = concrete (sch w)"
    "phase_of w i \<noteq> Some ''planned'' \<longrightarrow> phase_of w' i \<noteq> Some ''planned''" by blast+
qed

lemma live_steps_tables:
  "(live_step pg i)\<^sup>*\<^sup>* w w' \<Longrightarrow> dual_written pg b i tid col shadow ty w \<Longrightarrow>
     table_at (sch w') = table_at (sch w) \<and> concrete (sch w') = concrete (sch w) \<and> (phase_of w i \<noteq> Some ''planned'' \<longrightarrow> phase_of w' i \<noteq> Some ''planned'')"
proof (induction rule: rtranclp_induct)
  case (step u v)
  from live_tables [OF step.hyps(2) dual_written_steps [OF step.hyps(1) step.prems]] step.IH [OF step.prems] show ?case by metis
qed simp

definition unmentioned :: "postgres \<Rightarrow> string \<Rightarrow> table_def \<Rightarrow> bool" where
  "unmentioned pg shadow d \<longleftrightarrow> \<not> has_column d shadow \<and> shadow \<notin> set (td_required d) \<and> (\<forall>(n, c, ok) \<in> set (td_checks d). c \<noteq> shadow) \<and>
     (\<forall>ix \<in> set (td_indexes d). shadow \<notin> set (xd_columns ix) \<and> (\<forall>x. xd_expression ix = Some x \<longrightarrow> \<not> reads_column pg x shadow))"

definition detached :: "postgres \<Rightarrow> change_row \<Rightarrow> string \<Rightarrow> table_def \<Rightarrow> table_def" where
  "detached pg c shadow d = drop_column_def pg shadow (d\<lparr>td_triggers := removeAll (shadow_trigger (ch_id c)) (td_triggers d)\<rparr>)"

lemma detached_shadowed:
  assumes "unmentioned pg shadow d" "shadow_trigger (ch_id c) \<notin> set (td_triggers d)" "ch_id e = ch_id c"
  shows "detached pg c shadow (shadowed e shadow ty d) = d"
proof -
  have cols: "filter (\<lambda>(n, t). n \<noteq> shadow) (td_columns d) = td_columns d"
    using assms(1) by (auto simp: unmentioned_def has_column_def filter_id_conv image_iff)
  have ix: "filter (\<lambda>ix. shadow \<notin> set (xd_columns ix) \<and> (case xd_expression ix of None \<Rightarrow> True | Some x \<Rightarrow> \<not> reads_column pg x shadow)) (td_indexes d) = td_indexes d"
    using assms(1) by (auto simp: unmentioned_def filter_id_conv split: option.split)
  have ck: "filter (\<lambda>(n, k, ok). k \<noteq> shadow) (td_checks d) = td_checks d"
    using assms(1) by (auto simp: unmentioned_def filter_id_conv)
  show ?thesis
    using assms by (simp add: detached_def drop_column_def_def shadowed_def with_trigger_def with_column_def unmentioned_def cols ix ck)
qed

lemma drop_if_exists_rows: "drop_column_if_exists pg t c w = Inr w' \<Longrightarrow> u \<noteq> t \<Longrightarrow> rows_of w' u = rows_of w u \<and> table_at (sch w') u = table_at (sch w) u"
  by (auto simp: drop_column_if_exists_def drop_column_rows drop_column_table split: option.splits if_splits)

lemma detach_at:
  assumes "detach_shadow pg c shadow (sub, t) w = Inr w'" "\<And>v. history_table v \<noteq> Some u" "\<forall>d. table_at (sch w) t = Some d \<longrightarrow> has_column d shadow"
  shows "table_at (sch w') u = (if u = t then map_option (detached pg c shadow) (table_at (sch w) u) else table_at (sch w) u) \<and>
     rows_of w' u = (if u = t then map (set_cell shadow None) (rows_of w u) else rows_of w u)"
proof -
  from assms(1) obtain a y where a: "drop_trigger t (shadow_trigger (ch_id c)) w = Inr a" and y: "drop_column_if_exists pg t shadow a = Inr y"
    and z: "rfold (\<lambda>rel. drop_column_if_exists pg rel shadow) (case hist (sch a) t of Some h \<Rightarrow> [h] | None \<Rightarrow> []) y = Inr w'"
    by (auto simp: detach_shadow_def rbind_eq_Inr_iff)
  have r: "rows_of w' u = rows_of y u \<and> table_at (sch w') u = table_at (sch y) u"
    using z hist_history [of "sch a" t] assms(2) [of t] by (auto simp: rbind_eq_Inr_iff split: option.splits dest!: drop_if_exists_rows [of _ _ _ _ _ u])
  have at: "table_at (sch a) v = (if v = t then map_option (\<lambda>d. d\<lparr>td_triggers := removeAll (shadow_trigger (ch_id c)) (td_triggers d)\<rparr>) (table_at (sch w) v) else table_at (sch w) v)"
      "rows_of a = rows_of w" for v
    using table_at_on_schema [OF a [unfolded drop_trigger_def]] by auto
  have "drop_column pg t shadow a = Inr y"
    using y at(1) [of t] assms(3) by (auto simp: drop_column_if_exists_def has_column_def split: option.splits if_splits)
  from drop_column_rows [OF this] drop_column_table [OF this, of u] r at show ?thesis
    by (cases "u = t"; cases "table_at (sch w) u") (simp_all add: detached_def)
qed

lemma detach_all:
  assumes "rfold (detach_shadow pg c shadow) ts w = Inr w'" "distinct (map snd ts)" "\<And>v u. u \<in> snd ` set ts \<Longrightarrow> history_table v \<noteq> Some u"
    "\<forall>t \<in> snd ` set ts. \<forall>d. table_at (sch w) t = Some d \<longrightarrow> has_column d shadow" "\<And>v. history_table v \<noteq> Some u"
  shows "table_at (sch w') u = (if u \<in> snd ` set ts then map_option (detached pg c shadow) (table_at (sch w) u) else table_at (sch w) u) \<and>
     rows_of w' u = (if u \<in> snd ` set ts then map (set_cell shadow None) (rows_of w u) else rows_of w u)"
  using assms(1-4)
proof (induction ts arbitrary: w)
  case (Cons st ts)
  obtain sub t where st: "st = (sub, t)" by fastforce
  from Cons.prems(1) obtain v where v: "detach_shadow pg c shadow (sub, t) w = Inr v" "rfold (detach_shadow pg c shadow) ts v = Inr w'"
    by (auto simp: rbind_eq_Inr_iff st)
  have cols: "\<forall>d. table_at (sch w) t = Some d \<longrightarrow> has_column d shadow" using Cons.prems(4) by (simp add: st)
  have other: "table_at (sch v) y = table_at (sch w) y" if "y \<in> snd ` set ts" for y
  proof -
    have "y \<noteq> t" using that Cons.prems(2) by (auto simp: st)
    moreover have "history_table x \<noteq> Some y" for x using Cons.prems(3) that by (simp add: st)
    ultimately show ?thesis using detach_at [OF v(1) _ cols, of y] by simp
  qed
  have "table_at (sch w') u = (if u \<in> snd ` set ts then map_option (detached pg c shadow) (table_at (sch v) u) else table_at (sch v) u) \<and>
     rows_of w' u = (if u \<in> snd ` set ts then map (set_cell shadow None) (rows_of v u) else rows_of v u)"
    using Cons.prems(2-4) other by (intro Cons.IH [OF v(2)]) (simp_all add: st)
  then show ?case using detach_at [OF v(1) assms(5) cols] Cons.prems(2) by (auto simp: st)
qed simp

lemma abort_calls:
  assumes "og_schema_abort pg i w = Inr (r, w')" "load w i = Inr c" "ch_kind c = ''alter_property_type''" "ch_phase c \<noteq> ''planned''"
    "type_of c (sch w) = Inr tid" "report_text c ''shadow'' = Some shadow"
  obtains v x where "on_tables (detach_shadow pg c shadow) tid (update_schema (drop_alias_views tid) w) = Inr x"
    "v = update_schema (refresh_alias_views tid) x" "w' = save c ''aborted'' (noted c '' aborted'' v)"
  using assms by (auto simp: og_schema_abort_def rbind_eq_Inr_iff abort_def reported_Inr Let_def)

end
