(* ===== verification/Evolution_Properties.thy ===== *)
theory Evolution_Properties
  imports Evolution_Contract
begin

text \<open>
  What the calls of a schema change promise, each with a worked case: one type with one text property that
  becomes a number while rows are written.
\<close>

section \<open>A change of type on a small graph\<close>

definition demo_age :: prop_row where
  "demo_age = \<lparr>pr_type = 1, pr_name = ''age'', pr_column = ''p_age'', pr_dtype = ''text'', pr_required = True, pr_key = False\<rparr>"

definition demo_people :: "(string \<times> string) list \<Rightarrow> string list \<Rightarrow> table_def" where
  "demo_people new tgs = \<lparr>td_columns = [(''id'', ''bigint''), (''__ext'', ''jsonb''), (''p_age'', ''text'')] @ new, td_required = [''p_age''],
     td_indexes = [], td_checks = [], td_triggers = tgs\<rparr>"

definition demo_change :: "string \<Rightarrow> json \<Rightarrow> json \<Rightarrow> change_row" where
  "demo_change p sp rep = \<lparr>ch_id = 1, ch_graph = 1, ch_kind = ''alter_property_type'', ch_spec = sp, ch_phase = p, ch_report = rep,
     ch_from = 2, ch_to = None\<rparr>"

definition demo_at :: "table_def \<Rightarrow> (i32 \<times> string) list \<Rightarrow> change_row \<Rightarrow> data_row list \<Rightarrow> evo" where
  "demo_at d vs c rs = \<lparr>sch = demo_stored\<lparr>properties := [demo_age], tables := [(''og_data.n_1'', d)], versions := vs, schema_changes := [c],
     alias_views := []\<rparr>,
     sto = empty_db, rows_of = (\<lambda>_. [])(''og_data.n_1'' := rs), next_change = 2\<rparr>"

definition demo_pg :: postgres where
  "demo_pg = \<lparr>pg_letters = ascii_letters, cast_text = (\<lambda>ty v. if list_all is_digit_b v then Some (show_nat (nat_of_digits v)) else None),
     collate = (\<lambda>vs. vs), reads_column = (\<lambda>_ _. False), captured = (\<lambda>_ _ _. []), literal_text = (\<lambda>_. [])\<rparr>"

definition demo_row :: "i64 \<Rightarrow> string option \<Rightarrow> string option \<Rightarrow> data_row" where
  "demo_row i v x = \<lparr>dr_id = i, dr_cells = (\<lambda>_. None)(''p_age'' := v, ''p_age__s1'' := x), dr_ext = (\<lambda>_. None)\<rparr>"

lemma demo_row_simps [simp]:
  "dr_id (demo_row i v x) = i" "dr_cells (demo_row i v x) ''p_age'' = v" "dr_cells (demo_row i v x) ''p_age__s1'' = x"
  "set_cell ''p_age__s1'' y (demo_row i v x) = demo_row i v y"
  by (simp_all add: demo_row_def set_cell_def)

lemma demo_change_simps [simp]:
  "ch_id (demo_change p sp rep) = 1" "ch_graph (demo_change p sp rep) = 1" "ch_kind (demo_change p sp rep) = ''alter_property_type''"
  "ch_spec (demo_change p sp rep) = sp" "ch_phase (demo_change p sp rep) = p" "ch_report (demo_change p sp rep) = rep"
  by (simp_all add: demo_change_def)

lemma demo_at_simps [simp]:
  "schema_changes (sch (demo_at d vs c rs)) = [c]" "graphs (sch (demo_at d vs c rs)) = [(1, ''kb'')]"
  "versions (sch (demo_at d vs c rs)) = vs" "rows_of (demo_at d vs c rs) = (\<lambda>_. [])(''og_data.n_1'' := rs)"
  "next_change (demo_at d vs c rs) = 2" "types (sch (demo_at d vs c rs)) = types demo_stored"
  "type_labels (sch (demo_at d vs c rs)) = type_labels demo_stored" "properties (sch (demo_at d vs c rs)) = [demo_age]"
  "table_at (sch (demo_at d vs c rs)) = [''og_data.n_1'' \<mapsto> d]" 
  by (simp_all add: demo_at_def demo_stored_def demo_graph_def table_at_def fun_eq_iff)

lemma demo_load: "load (demo_at d vs (demo_change p sp rep) rs) 1 = Inr (demo_change p sp rep)"
  by (simp add: load_def)

lemma demo_save: "p \<notin> {''contracted'', ''aborted''} \<Longrightarrow> ch_id e = 1 \<Longrightarrow>
    save e p (demo_at d vs (demo_change q sp rep) rs) = demo_at d vs (demo_change p sp (ch_report e)) rs"
  by (simp add: save_def demo_at_def demo_change_def)

lemma demo_save_spec: "ch_id e = 1 \<Longrightarrow> save_spec e x (demo_at d vs (demo_change q sp rep) rs) = demo_at d vs (demo_change q x rep) rs"
  by (simp add: save_spec_def demo_at_def demo_change_def)

lemma demo_labels: "og_subtypes (type_labels demo_stored) 1 = [1]" "og_supertypes (type_labels demo_stored) 1 = [1]"
  by (simp_all add: demo_stored_def og_subtypes_def og_supertypes_def contains_label_def)

lemma demo_type: "spec_text sp ''type'' = Inr ''Person'' \<Longrightarrow> type_of (demo_change p sp rep) (sch (demo_at d vs c rs)) = Inr 1"
  by (simp add: type_of_Inr try_type_id_def) (simp add: demo_stored_def demo_person_def)

lemma demo_store: "storage_table (cat (sch (demo_at d vs c rs))) 1 = Some ''og_data.n_1''"
  by (simp add: storage_table_def type_at_def) (simp add: demo_stored_def demo_person_def)

lemma demo_concrete: "concrete (sch (demo_at d vs c rs)) 1 = [(1, ''og_data.n_1'')]"
  by (simp add: concrete_def demo_labels demo_store List.map_filter_simps)

lemma demo_hist: "history_table ''og_data.n_1'' = Some ''og_data.h_1''" "hist (sch (demo_at d vs c rs)) ''og_data.n_1'' = None"
  by (simp_all add: hist_def history_table_def starts_with_def)

lemma demo_alter: "on_schema (alter_table ''og_data.n_1'' f) (demo_at d vs c rs) = Inr (demo_at (f d) vs c rs)"
  by (simp add: on_schema_def alter_table_def refuse_def rbind_def) (simp add: demo_at_def)

lemma demo_sync: "on_schema (sync_history 1) (demo_at d vs c rs) = Inr (demo_at d vs c rs)"
  by (simp add: on_schema_def sync_history_def demo_store demo_hist refuse_def rbind_def)

lemma demo_noted: "noted c x (demo_at d vs e rs) = demo_at d (vs @ [(ch_graph c, version_note c x)]) e rs"
  by (simp add: noted_def update_schema_def bump_schema_version_def demo_at_def)

lemma demo_trigger: "shadow_trigger 1 = ''og_c_shadow_1''"
  by code_simp

lemma demo_rows: "set_rows ''og_data.n_1'' xs (demo_at d vs c rs) = demo_at d vs c xs"
  by (simp add: set_rows_def demo_at_def)

definition demo_vs :: "(i32 \<times> string) list" where
  "demo_vs = [(1, ''create graph''), (1, ''relabel'')]"

definition demo_spec :: json where
  "demo_spec = JObj [(''kind'', JStr ''alter_property_type''), (''property'', JStr ''age''), (''to'', JStr ''int''), (''type'', JStr ''Person'')]"

definition demo_report :: json where
  "demo_report = JObj [(''column'', JStr ''p_age''), (''shadow'', JStr ''p_age__s1''), (''to_sql'', JStr ''bigint'')]"

definition demo_planned :: evo where
  "demo_planned = demo_at (demo_people [] []) demo_vs (demo_change ''planned'' demo_spec demo_report) [demo_row 1 (Some ''041'') None]"

definition demo_spec' :: json where
  "demo_spec' = spec_set [(''type_id'', json_i32 1), (''column'', JStr ''p_age''), (''shadow'', JStr ''p_age__s1''), (''to_sql'', JStr ''bigint'')] demo_spec"

definition demo_both :: table_def where
  "demo_both = demo_people [(''p_age__s1'', ''bigint'')] [''og_c_shadow_1'']"

definition demo_vs' :: "(i32 \<times> string) list" where
  "demo_vs' = demo_vs @ [(1, version_note (demo_change ''planned'' demo_spec demo_report) '' expand (alter_property_type)'')]"

abbreviation demo_live :: "string \<Rightarrow> json \<Rightarrow> data_row list \<Rightarrow> evo" where
  "demo_live p rep \<equiv> demo_at demo_both demo_vs' (demo_change p demo_spec' rep)"

lemma demo_specs: "spec_text demo_spec ''type'' = Inr ''Person''" "spec_text demo_spec' ''type'' = Inr ''Person''"
  by (simp_all add: spec_text_def demo_spec_def demo_spec'_def spec_set_def)

lemma demo_texts: "report_text (demo_change p sp demo_report) ''column'' = Some ''p_age''"
    "report_text (demo_change p sp demo_report) ''shadow'' = Some ''p_age__s1''"
    "report_text (demo_change p sp demo_report) ''to_sql'' = Some ''bigint''"
  by (simp_all add: report_text_def demo_report_def)

lemma demo_expand: "og_schema_expand pg 1 demo_planned = Inr (demo_report, demo_live ''expanded'' demo_report [demo_row 1 (Some ''041'') None])"
proof -
  have col: "with_trigger ''og_c_shadow_1'' (with_column ''p_age__s1'' ''bigint'' (demo_people [] [])) = demo_both"
    "has_column (with_column ''p_age__s1'' ''bigint'' (demo_people [] [])) ''p_age''"
    "''og_c_shadow_1'' \<notin> set (td_triggers (with_column ''p_age__s1'' ''bigint'' (demo_people [] [])))"
    by (simp_all add: with_trigger_def with_column_def has_column_def demo_people_def demo_both_def)
  have a: "attach_shadow (demo_change ''planned'' demo_spec demo_report) ''p_age'' ''p_age__s1'' ''bigint'' (1, ''og_data.n_1'') demo_planned =
      Inr (demo_at demo_both demo_vs (demo_change ''planned'' demo_spec demo_report) [demo_row 1 (Some ''041'') None])"
    using col by (simp add: attach_shadow_def demo_planned_def demo_alter scan_def add_trigger_def demo_trigger demo_sync)
  then show ?thesis
    unfolding og_schema_expand_def
    by (simp add: demo_planned_def demo_load require_phase_def expand_def expand_alter_property_type_def demo_type demo_specs reported_def demo_texts
        demo_concrete demo_save_spec demo_save demo_noted Let_def demo_spec'_def demo_vs'_def)
qed

lemma demo_cast: "cast_text demo_pg ty ''041'' = Some ''41''" "cast_text demo_pg ty ''7'' = Some ''7''"
  by (simp_all add: demo_pg_def) code_simp+

lemma demo_dual: "report_text (demo_change p sp rep) ''column'' = Some ''p_age'' \<Longrightarrow> report_text (demo_change p sp rep) ''shadow'' = Some ''p_age__s1'' \<Longrightarrow>
    report_text (demo_change p sp rep) ''to_sql'' = Some ''bigint'' \<Longrightarrow>
    dual_writes (sch (demo_at d vs (demo_change p sp rep) rs)) demo_both = [(''p_age'', ''p_age__s1'', ''bigint'')]"
  by (simp add: dual_writes_def List.map_filter_simps demo_trigger demo_both_def demo_people_def)

lemma demo_insert_row: "app_insert demo_pg ''og_data.n_1'' (demo_row 2 (Some ''7'') None) (demo_live ''expanded'' demo_report [demo_row 1 (Some ''041'') None]) =
    Inr (demo_live ''expanded'' demo_report [demo_row 1 (Some ''041'') None, demo_row 2 (Some ''7'') (Some ''7'')])"
  by (simp add: app_insert_def demo_dual demo_texts shadow_write_def demo_cast row_refused_def demo_rows)
    (simp add: demo_both_def demo_people_def)

definition demo_moved :: "data_row list" where
  "demo_moved = [demo_row 1 (Some ''041'') (Some ''41''), demo_row 2 (Some ''7'') (Some ''7'')]"

definition demo_report1 :: json where
  "demo_report1 = JObj [(''column'', JStr ''p_age''), (''cursor'', JObj [(''og_data.n_1'', json_of_i64 2)]), (''migrated'', json_of_i64 2),
     (''migrated_last_call'', json_nat 2), (''migration_done'', JBool False), (''shadow'', JStr ''p_age__s1''), (''to_sql'', JStr ''bigint'')]"

definition demo_report2 :: json where
  "demo_report2 = JObj [(''column'', JStr ''p_age''), (''cursor'', JObj [(''og_data.n_1'', json_of_i64 2)]), (''migrated'', json_of_i64 2),
     (''migrated_last_call'', json_nat 0), (''migration_done'', JBool True), (''shadow'', JStr ''p_age__s1''), (''to_sql'', JStr ''bigint'')]"

definition demo_report3 :: json where
  "demo_report3 = JObj [(''column'', JStr ''p_age''), (''cursor'', JObj [(''og_data.n_1'', json_of_i64 2)]), (''migrated'', json_of_i64 2),
     (''migrated_last_call'', json_nat 0), (''migration_done'', JBool True), (''shadow'', JStr ''p_age__s1''), (''to_sql'', JStr ''bigint''),
     (''violation_samples'', JArr []), (''violations'', json_nat 0)]"

lemma demo_texts': "report_text (demo_change p sp demo_report1) ''column'' = Some ''p_age''"
    "report_text (demo_change p sp demo_report1) ''shadow'' = Some ''p_age__s1''"
    "report_text (demo_change p sp demo_report1) ''to_sql'' = Some ''bigint''"
    "report_text (demo_change p sp demo_report2) ''column'' = Some ''p_age''"
    "report_text (demo_change p sp demo_report2) ''shadow'' = Some ''p_age__s1''"
    "report_text (demo_change p sp demo_report2) ''to_sql'' = Some ''bigint''"
    "report_text (demo_change p sp demo_report3) ''column'' = Some ''p_age''"
    "report_text (demo_change p sp demo_report3) ''shadow'' = Some ''p_age__s1''"
    "report_text (demo_change p sp demo_report3) ''to_sql'' = Some ''bigint''"
  by (simp_all add: report_text_def demo_report1_def demo_report2_def demo_report3_def)

lemma demo_columns: "has_column demo_both ''p_age''" "has_column demo_both ''p_age__s1''"
  by (simp_all add: has_column_def demo_both_def demo_people_def)

lemma demo_page: "batch_update [''p_age'', ''p_age__s1''] (retype_row demo_pg ''p_age'' ''p_age__s1'' ''bigint'') (\<lambda>r. dr_cells r ''p_age'' \<noteq> None)
      (of_int (- (2 ^ 63))) 100 ''og_data.n_1'' (demo_live p rep [demo_row 1 (Some ''041'') None, demo_row 2 (Some ''7'') (Some ''7'')]) =
    Inr ((2, Some 2), demo_live p rep demo_moved)"
  by (simp add: batch_update_def scan_def demo_columns page_ids_def demo_rows retype_row_def recast_def demo_cast demo_moved_def)


definition demo_answer :: "nat \<Rightarrow> json" where
  "demo_answer n = json_object [(''change_id'', json_i32 1), (''moved'', json_nat n), (''done'', JBool (n = 0)), (''migrated'', json_of_i64 2)]"

lemma demo_migrate1: "og_schema_migrate demo_pg 1 100 (demo_live ''expanded'' demo_report [demo_row 1 (Some ''041'') None, demo_row 2 (Some ''7'') (Some ''7'')]) =
    Inr (demo_answer 2, demo_live ''migrating'' demo_report1 demo_moved)"
proof -
  let ?w = "demo_live ''expanded'' demo_report [demo_row 1 (Some ''041'') None, demo_row 2 (Some ''7'') (Some ''7'')]"
  have c: "cursor_at [] ''og_data.n_1'' = of_int (- (2 ^ 63))" "json_get demo_report ''cursor'' = None" "json_get demo_report ''migrated'' = None"
    by (simp_all add: cursor_at_def demo_report_def)
  have "retype_tables demo_pg ''p_age'' ''p_age__s1'' ''bigint'' 100 [''og_data.n_1''] [] ?w =
      Inr (2, [(''og_data.n_1'', json_of_i64 2)], demo_live ''expanded'' demo_report demo_moved)"
    by (simp only: retype_tables.simps c(1) demo_page) (simp add: retype_history_def demo_hist advance_def)
  then show ?thesis
    by (simp add: og_schema_migrate_def demo_load require_phase_def migrate_def migrate_retype_def demo_texts demo_type demo_specs reported_def
        demo_concrete c Let_def demo_answer_def report_set_def demo_save)
      (simp add: demo_report_def demo_report1_def json_of_i64_def)
qed



lemma demo_no_views: "update_schema (drop_alias_views 1) (demo_at d vs c rs) = demo_at d vs c rs"
proof -
  have n: "try_type_name (cat (sch (demo_at d vs c rs))) 1 = Some ''Person''"
    by (simp add: try_type_name_def type_at_def) (simp add: demo_stored_def demo_person_def)
  have "drop_alias_view ''Person'' (sch (demo_at d vs c rs)) = sch (demo_at d vs c rs)"
    by (simp add: drop_alias_view_def drop_relations_def demo_at_def demo_defs)
  then show ?thesis by (simp add: update_schema_def drop_alias_views_def demo_labels n)
qed

lemma demo_drop: "has_column d col \<Longrightarrow> \<not> watched (sch (demo_at d vs c rs)) d col \<Longrightarrow>
    drop_column pg ''og_data.n_1'' col (demo_at d vs c rs) = Inr (demo_at (drop_column_def pg col d) vs c (map (set_cell col None) rs))"
  by (simp add: drop_column_def demo_alter) (simp add: demo_at_def set_rows_def demo_defs)

lemma demo_rename: "has_column d old \<Longrightarrow> \<not> has_column d new \<Longrightarrow>
    rename_column ''og_data.n_1'' old new (demo_at d vs c rs) = Inr (demo_at (rename_column_def old new d) vs c (map (move_cell old new) rs))"
  by (simp add: rename_column_def demo_alter) (simp add: demo_at_def set_rows_def demo_defs)

lemma demo_contract: "\<exists>w. og_schema_contract demo_pg 1 (demo_live ''validated'' demo_report3 demo_moved) = Inr (demo_report3, w)"
proof -
  let ?c = "demo_change ''validated'' demo_spec' demo_report3"
  let ?d = "demo_both\<lparr>td_triggers := []\<rparr>"
  have t: "drop_trigger ''og_data.n_1'' (shadow_trigger 1) (demo_live ''validated'' demo_report3 demo_moved) = Inr (demo_at ?d demo_vs' ?c demo_moved)"
    by (simp add: drop_trigger_def demo_alter demo_trigger) (simp add: demo_both_def demo_people_def)
  have d: "has_column ?d ''p_age''" "\<not> watched (sch (demo_at ?d demo_vs' ?c demo_moved)) ?d ''p_age''"
    "has_column (drop_column_def demo_pg ''p_age'' ?d) ''p_age__s1''" "\<not> has_column (drop_column_def demo_pg ''p_age'' ?d) ''p_age''"
    "column_indexes ''og_data.n_1'' ''p_age'' demo_both = []"
    by (simp_all add: has_column_def watched_def drop_column_def_def column_indexes_def demo_both_def demo_people_def)
  have s: "\<exists>e xs. swap_in demo_pg ''p_age'' ''p_age__s1'' ''og_data.n_1'' (demo_at ?d demo_vs' ?c demo_moved) = Inr (demo_at e demo_vs' ?c xs)"
    by (simp add: swap_in_def demo_drop [OF d(1,2)] demo_rename [OF d(3,4)]) blast
  have g: "on_schema (replay_write_grants 1) (demo_at e demo_vs' ?c xs) = Inr (demo_at e demo_vs' ?c xs)" for e xs
  proof -
    have "write_grants (sch (demo_at e demo_vs' ?c xs)) = []" by (simp add: demo_at_def demo_defs)
    then show ?thesis by (simp add: on_schema_def replay_write_grants_def refuse_def)
  qed
  have "\<exists>w. swap_table demo_pg ?c ''p_age'' ''p_age__s1'' (1, ''og_data.n_1'') (demo_live ''validated'' demo_report3 demo_moved) = Inr w"
    using s by (elim exE) (simp add: swap_table_def t demo_hist d(5) g)
  then show ?thesis
    by (elim exE) (simp add: og_schema_contract_def demo_load require_phase_def contract_def contract_alter_property_type_def demo_type demo_specs
        reported_def demo_texts' demo_no_views on_tables_def demo_concrete Let_def)
qed

lemma demo_catalog_ok:
  assumes "has_column d ''p_age''"
  shows "catalog_ok (sch (demo_at d vs c rs))"
proof -
  let ?s = "sch (demo_at d vs c rs)"
  have ok: "catalog_ok demo_stored"
    using reachable_ok [OF rtranclp.rtrancl_into_rtrancl [OF demo_reachable(2) schema_step.Label_set [OF demo_label_set]] demo_reachable(1)] .
  have same: "type_parents ?s = type_parents demo_stored" "next_type ?s = next_type demo_stored" "link_rows ?s = link_rows demo_stored"
    by (simp_all add: demo_at_def link_rows_def)
  have one: "types demo_stored = [demo_person\<lparr>tr_storage := Some ''og_data.n_1''\<rparr>]" by (simp add: demo_stored_def)
  have keys: "prop_keys ?s = {(1, ''age'', ''p_age'')}" by (simp add: prop_keys_def demo_age_def)
  have "row_ok ?s (demo_person\<lparr>tr_storage := Some ''og_data.n_1''\<rparr>)"
    using assms by (auto simp: row_ok_def keys stored_as_def demo_person_def demo_table columns_of_def has_col_def has_column_def)
  moreover have "ids_ok ?s" "parents_ok ?s" "labels_typed ?s" "\<And>g. labels_ok ?s g"
    using ok by (simp_all add: catalog_ok_def catalog_core_def ids_ok_def parents_ok_def labels_typed_def labels_ok_def same)
  ultimately show ?thesis by (simp add: catalog_ok_def catalog_core_def rows_typed_def keys one demo_person_def)
qed

lemma demo_changes_ok: "changes_ok (demo_at d vs (demo_change p sp rep) rs)"
  by (simp add: changes_ok_def phases_def) (intro exI [of _ 1], simp)

lemma demo_ready: "retype_ready 1 1 ''p_age'' ''p_age__s1'' ''bigint'' demo_planned"
proof -
  have d: "has_column (demo_people [] []) ''p_age''" "\<not> has_column (demo_people [] []) ''p_age__s1''" "td_triggers (demo_people [] []) = []"
    by (simp_all add: has_column_def demo_people_def)
  then have "ready_table ''p_age'' ''p_age__s1'' demo_planned ''og_data.n_1''"
    by (auto simp: ready_table_def demo_planned_def rows_fit_def demo_row_def dual_writes_def List.map_filter_simps)
  then show ?thesis
    using d by (simp add: retype_ready_def demo_planned_def demo_catalog_ok demo_changes_ok demo_load demo_type demo_specs demo_texts
        demo_concrete cursors_of_def) (simp add: demo_report_def)
qed

section \<open>Phases\<close>

text \<open>C25: whatever call comes next, every recorded change stays in its phase or moves along one edge of its life:
  planned, expanded, migrating, validated, contracted, and from any but the last to aborted.\<close>

theorem phases_in_order:
  assumes "change_call pg w w'" "changes_ok w"
  shows "changes_ok w' \<and> (\<forall>i p. phase_of w i = Some p \<longrightarrow> (\<exists>q. phase_of w' i = Some q \<and> (p = q \<or> (p, q) \<in> may_become)))"
proof -
  have move: ?thesis if m: "one_move i w w'" for i
  proof -
    have "\<exists>q. phase_of w' j = Some q \<and> (p = q \<or> (p, q) \<in> may_become)" if "phase_of w j = Some p" for j p
      using m that by (cases "j = i") (auto simp: one_move_def)
    then show ?thesis using m by (simp add: one_move_def)
  qed
  have other: ?thesis if "others_stay i w w'" "phase_of w i = None" for i
    using that unfolding others_stay_def by (metis option.distinct(1))
  from assms(1) show ?thesis
  proof cases
    case (plan graph spec i)
    then have "others_stay i w w' \<and> phase_of w i = None" using plan_adds [OF _ assms(2)] by (simp add: others_stay_def)
    then show ?thesis using other by blast
  next
    case (apply_all n graph spec r)
    from apply_others [OF this assms(2)] obtain i where "phase_of w i = None" "others_stay i w w'" .
    then show ?thesis by (intro other)
  next
    case (expand i r)
    show ?thesis by (rule move [OF expand_moves [OF expand assms(2)]])
  next
    case (migrate i batch r)
    show ?thesis by (rule move [OF migrate_moves [OF migrate assms(2)]])
  next
    case (validate i r)
    show ?thesis by (rule move [OF validate_moves [OF validate assms(2)]])
  next
    case (contract i r)
    show ?thesis by (rule move [OF contract_moves [OF contract assms(2)]])
  next
    case (abort i r)
    show ?thesis by (rule move [OF abort_moves [OF abort assms(2)]])
  qed
qed

theorem phases_in_order_witness:
  "\<exists>w. og_schema_expand demo_pg 1 demo_planned = Inr (demo_report, w) \<and> changes_ok w"
proof -
  have "changes_ok demo_planned" by (simp add: demo_planned_def demo_changes_ok)
  from phases_in_order [OF change_call.expand [OF demo_expand] this] demo_expand show ?thesis by blast
qed

section \<open>Migrating\<close>

text \<open>C26: the loop of \<open>og_schema_apply\<close> ends: as many calls as the tables have rows, and one more, are enough,
  because every call that moves something leaves less to move.\<close>

theorem migration_ends:
  assumes "catalog_ok (sch w)" "load w i = Inr c" "report_text c ''shadow'' \<noteq> report_text c ''column''" "target_rows w c < n"
  shows "migrate_all pg n i w \<noteq> Inl Out_of_fuel"
proof (rule migration_loop [OF assms(2,3)])
  show "\<forall>t \<in> set (target_tables w c). \<forall>u \<in> set (target_tables w c). hist (sch w) t \<noteq> Some u"
    using target_tables_typed [OF assms(1)] by (cases "type_of c (sch w)") (simp_all add: target_tables_def)
  show "left_over pg c w < n" using left_over_rows assms(4) by (rule order_le_less_trans)
qed

theorem migration_ends_witness:
  "migrate_all demo_pg 3 1 (demo_live ''expanded'' demo_report [demo_row 1 (Some ''041'') None]) \<noteq> Inl Out_of_fuel"
  by (rule migration_ends [OF demo_catalog_ok demo_load])
    (simp_all add: demo_texts demo_columns target_rows_def target_tables_def demo_type demo_specs demo_concrete demo_hist)


lemma demo_insert_step: "(live_step demo_pg 1)\<^sup>*\<^sup>* (demo_live ''expanded'' demo_report [demo_row 1 (Some ''041'') None])
    (demo_live ''migrating'' demo_report1 demo_moved)"
  using r_into_rtranclp [of "live_step demo_pg 1", OF write_insert [OF demo_insert_row]] batch [OF demo_migrate1]
  by (rule rtranclp.rtrancl_into_rtrancl)


section \<open>Contracting\<close>



text \<open>C28: contracting a change of type forgets that a property is required: the catalog row still says so, but the column
  of every table accepts nulls.\<close>

theorem retype_drops_not_null:
  assumes "og_schema_contract pg i w = Inr (r, w')" "load w i = Inr c" "ch_kind c = ''alter_property_type''" "type_of c (sch w) = Inr tid"
    "report_text c ''column'' = Some col" "report_text c ''shadow'' = Some shadow" "catalog_ok (sch w)"
    "(sub, t) \<in> set (concrete (sch w) tid)" "table_at (sch w) t = Some d" "shadow \<notin> set (td_required d)"
  shows "(\<exists>d'. table_at (sch w') t = Some d' \<and> col \<notin> set (td_required d')) \<and>
     map (\<lambda>q. (pr_type q, pr_name q, pr_required q)) (properties (sch w')) = map (\<lambda>q. (pr_type q, pr_name q, pr_required q)) (properties (sch w))"
proof -
  from contract_calls [OF assms(1-3)] obtain v where v: "contract_alter_property_type pg c w = Inr v"
    "w' = save c ''contracted'' (noted c ('' contract ('' @ ch_kind c @ '')'') v)" by blast
  let ?w = "update_schema (drop_alias_views tid) w"
  from v(1) obtain x ty where x: "on_tables (swap_table pg c col shadow) tid ?w = Inr x" 
    and vx: "v = update_schema (\<lambda>s. refresh_alias_views tid (update_property tid col (\<lambda>q. q\<lparr>pr_dtype := ty\<rparr>) s)) x"
    by (auto simp: contract_alter_property_type_def rbind_eq_Inr_iff reported_Inr Let_def assms(4-6))
  have c: "concrete (sch ?w) tid = concrete (sch w) tid"
    using concrete_same [of "sch ?w" "sch w"] quiet_types [OF quiet_drop_views] by (simp add: update_schema_def)
  have same: "table_at (sch w') = table_at (sch x)" "properties (sch w') = properties (update_property tid col (\<lambda>q. q\<lparr>pr_dtype := ty\<rparr>) (sch x))"
    by (simp_all add: v(2) vx save_def noted_def update_schema_def bump_schema_version_def table_at_def fun_eq_iff)
      (simp_all add: views_tables table_at_def [symmetric] views_tables(2) [unfolded table_at_def] update_property_def)
  have "required_at x t = map_option (swap_required col shadow) (required_at ?w t)"
    using swap_all_required [OF x [unfolded on_tables_def c] concrete_distinct [OF assms(7)], of t]
      storage_prefix [OF assms(7) concrete_storage [OF assms(8)]] assms(8) by force
  also have "required_at ?w t = Some (td_required d)" by (simp add: required_at_def update_schema_def views_tables assms(9))
  finally obtain d' where "table_at (sch x) t = Some d'" "td_required d' = swap_required col shadow (td_required d)"
    by (auto simp: required_at_def)
  moreover have "properties (sch x) = properties (sch w)"
    using rfold_same [OF _ x [unfolded on_tables_def], of "\<lambda>w. properties (sch w)"] swap_table_properties
    by (fastforce simp: update_schema_def views_tables)
  ultimately show ?thesis using assms(10) by (auto simp: same swap_required_def update_property_def split: if_splits)
qed

theorem retype_drops_not_null_witness:
  "pr_required demo_age \<and> ''p_age'' \<in> set (td_required demo_both) \<and>
     (\<exists>w d. og_schema_contract demo_pg 1 (demo_live ''validated'' demo_report3 demo_moved) = Inr (demo_report3, w) \<and>
        table_at (sch w) ''og_data.n_1'' = Some d \<and> ''p_age'' \<notin> set (td_required d) \<and> map pr_required (properties (sch w)) = [True])"
proof -
  obtain w where w: "og_schema_contract demo_pg 1 (demo_live ''validated'' demo_report3 demo_moved) = Inr (demo_report3, w)"
    using demo_contract by blast
  have "(\<exists>d. table_at (sch w) ''og_data.n_1'' = Some d \<and> ''p_age'' \<notin> set (td_required d)) \<and>
      map (\<lambda>q. (pr_type q, pr_name q, pr_required q)) (properties (sch w)) = [(1, ''age'', True)]"
    using retype_drops_not_null [OF w demo_load _ demo_type [OF demo_specs(2)] demo_texts'(7,8) demo_catalog_ok [OF demo_columns(1)],
      of 1 "''og_data.n_1''" demo_both] by (simp add: demo_concrete) (simp add: demo_both_def demo_people_def demo_age_def)
  then have "map pr_required (properties (sch w)) = [True]" by (auto simp: map_eq_Cons_conv)
  with w \<open>_ \<and> _\<close> show ?thesis by (auto simp: demo_age_def demo_both_def demo_people_def)
qed

section \<open>Aborting\<close>

lemma demo_abort: "\<exists>w. og_schema_abort demo_pg 1 (demo_live ''migrating'' demo_report1 demo_moved) = Inr (json_object [(''change_id'', json_i32 1), (''phase'', JStr ''aborted'')], w)"
proof -
  let ?c = "demo_change ''migrating'' demo_spec' demo_report1"
  let ?d = "demo_both\<lparr>td_triggers := []\<rparr>"
  have t: "drop_trigger ''og_data.n_1'' (shadow_trigger 1) (demo_live ''migrating'' demo_report1 demo_moved) = Inr (demo_at ?d demo_vs' ?c demo_moved)"
    by (simp add: drop_trigger_def demo_alter demo_trigger) (simp add: demo_both_def demo_people_def)
  have d: "has_column ?d ''p_age__s1''" "\<not> watched (sch (demo_at ?d demo_vs' ?c demo_moved)) ?d ''p_age__s1''"
    by (simp_all add: has_column_def watched_def demo_both_def demo_people_def)
  have "\<exists>w. detach_shadow demo_pg ?c ''p_age__s1'' (1, ''og_data.n_1'') (demo_live ''migrating'' demo_report1 demo_moved) = Inr w"
    using d(1) by (simp add: detach_shadow_def t demo_hist drop_column_if_exists_def demo_drop [OF d])
  then show ?thesis
    by (elim exE) (simp add: og_schema_abort_def demo_load require_phase_def abort_def demo_type demo_specs
        reported_def demo_texts' demo_no_views on_tables_def demo_concrete Let_def)
qed

text \<open>C27: aborting undoes expanding: whatever was written and migrated in between, every table has the definition
  it had before the change, and its rows have lost the shadow and nothing else.\<close>

theorem abort_undoes_expand:
  assumes "retype_ready i tid col shadow ty w" "og_schema_expand pg i w = Inr (r, w1)" "(live_step pg i)\<^sup>*\<^sup>* w1 w2"
    "og_schema_abort pg i w2 = Inr (r', w3)" "(sub, t) \<in> set (concrete (sch w) tid)" "table_at (sch w) t = Some d" "unmentioned pg shadow d"
    "shadow_trigger i \<notin> set (td_triggers d)"
  shows "table_at (sch w3) t = Some d \<and> rows_of w3 t = map (set_cell shadow None) (rows_of w2 t)"
proof -
  note e = expand_dual_written [OF assms(1,2)]
  note s = live_steps_tables [OF assms(3) e(1)]
  have w2: "dual_written pg False i tid col shadow ty w2" by (rule dual_written_steps [OF assms(3) e(1)])
  then obtain c where l: "load w2 i = Inr c" by (rule dual_writtenE)
  note c = dual_written_load [OF w2 l]
  have "ch_phase c \<noteq> ''planned''" using s e(4) load_phase(2) [OF l c(2)] by simp
  from abort_calls [OF assms(4) l c(4) this c(5,8)] obtain v x where x: "on_tables (detach_shadow pg c shadow) tid (update_schema (drop_alias_views tid) w2) = Inr x"
    and v: "v = update_schema (refresh_alias_views tid) x" and w3: "w3 = save c ''aborted'' (noted c '' aborted'' v)" .
  let ?w = "update_schema (drop_alias_views tid) w2"
  have conc: "concrete (sch ?w) tid = concrete (sch w) tid"
    using concrete_same [of "sch ?w" "sch w2"] quiet_types [OF quiet_drop_views] s e(2) by (simp add: update_schema_def)
  have at: "table_at (sch ?w) y = table_at (sch w1) y" "rows_of ?w = rows_of w2" for y
    using s by (simp_all add: update_schema_def views_tables)
  have ok: "catalog_ok (sch w)" using assms(1) by (simp add: retype_ready_def)
  have free: "history_table y \<noteq> Some u" if "u \<in> snd ` set (concrete (sch w) tid)" for y u
    using that concrete_storage storage_prefix [OF ok] by fastforce
  have cols: "\<forall>y \<in> snd ` set (concrete (sch w) tid). \<forall>d. table_at (sch ?w) y = Some d \<longrightarrow> has_column d shadow"
  proof (intro ballI allI impI)
    fix y d
    assume y: "y \<in> snd ` set (concrete (sch w) tid)" "table_at (sch ?w) y = Some d"
    from e(3) [OF y(1)] y(2) obtain c d' where "d = shadowed c shadow ty d'"
      by (cases "table_at (sch w) y") (auto simp: at)
    then show "has_column d shadow" by (simp add: shadowed_def with_trigger_def with_column_def has_column_def)
  qed
  have t: "t \<in> snd ` set (concrete (sch w) tid)" using assms(5) by force
  have "table_at (sch x) t = map_option (detached pg c shadow) (table_at (sch w1) t) \<and> rows_of x t = map (set_cell shadow None) (rows_of w2 t)"
    using detach_all [OF x [unfolded on_tables_def conc] concrete_distinct [OF ok] free cols free [OF t]] t at by simp
  moreover obtain c' where "ch_id c' = i" "table_at (sch w1) t = Some (shadowed c' shadow ty d)" using e(3) [OF t] assms(6) by auto
  ultimately have "table_at (sch x) t = Some d \<and> rows_of x t = map (set_cell shadow None) (rows_of w2 t)"
    using detached_shadowed [OF assms(7), of c c'] assms(8) c(6) by simp
  moreover have "table_at (sch w3) = table_at (sch x)" "rows_of w3 = rows_of x"
    by (simp_all add: w3 v save_def noted_def update_schema_def bump_schema_version_def table_at_def fun_eq_iff)
      (simp add: views_tables(2) [unfolded table_at_def, THEN fun_cong])
  ultimately show ?thesis by simp
qed

theorem abort_undoes_expand_witness:
  "\<exists>w r. og_schema_abort demo_pg 1 (demo_live ''migrating'' demo_report1 demo_moved) = Inr (r, w) \<and>
     table_at (sch w) ''og_data.n_1'' = Some (demo_people [] []) \<and> map (\<lambda>r. dr_cells r ''p_age'') (rows_of w ''og_data.n_1'') = [Some ''041'', Some ''7'']"
proof -
  obtain w r where w: "og_schema_abort demo_pg 1 (demo_live ''migrating'' demo_report1 demo_moved) = Inr (r, w)" using demo_abort by blast
  have "table_at (sch w) ''og_data.n_1'' = Some (demo_people [] []) \<and> rows_of w ''og_data.n_1'' = map (set_cell ''p_age__s1'' None) demo_moved"
    using abort_undoes_expand [OF demo_ready demo_expand demo_insert_step w, of 1 "''og_data.n_1''" "demo_people [] []"]
    by (simp add: demo_planned_def demo_concrete unmentioned_def has_column_def demo_people_def)
  with w show ?thesis by (intro exI [of _ w] exI [of _ r]) (simp add: demo_moved_def)
qed

end
